(* ===== verification/Xv6_Prelude.thy ===== *)
theory Xv6_Prelude
  imports Main "HOL-Library.Word"
begin

unbundle bit_operations_syntax

text \<open>
  The vocabulary every theory of the development shares: the C integer types of
  \<^verbatim>\<open>types.h\<close> as words, the limits of \<^verbatim>\<open>param.h\<close>, the names of the kernel's spin locks and
  sleep channels, and the outcome type \<open>res\<close> of a piece of kernel code.  A kernel function
  either returns, or stops in \<^verbatim>\<open>panic()\<close>, or does something C leaves undefined (a null or
  wild access), or busy-waits on a spin lock, or gives up the processor in \<^verbatim>\<open>sched()\<close>, or runs out of the fuel its
  loop was given; each way of not returning is a constructor of its own, so a theorem that
  concludes with \<open>Ok\<close> says that the code returns.  The rest of the theory holds generic facts on
  words and lists, and the collections \<open>res_simps\<close> and \<open>page_simps\<close> that carry
  the component proofs.
\<close>

section \<open>C types and limits\<close>

type_synonym u8 = "8 word"
type_synonym u16 = "16 word"
type_synonym u32 = "32 word"
type_synonym i32 = "32 word" \<comment> \<open>a C int: the same bits, read with \<open>sint\<close>\<close>

abbreviation (input) NPROC :: nat where "NPROC \<equiv> 64"
abbreviation (input) KSTACKSIZE :: u32 where "KSTACKSIZE \<equiv> 4096"
abbreviation (input) NCPU :: nat where "NCPU \<equiv> 8"
abbreviation (input) NOFILE :: nat where "NOFILE \<equiv> 16"
abbreviation (input) NFILE :: nat where "NFILE \<equiv> 100"
abbreviation (input) NINODE :: nat where "NINODE \<equiv> 50"
abbreviation (input) NDEV :: nat where "NDEV \<equiv> 10"
abbreviation (input) ROOTDEV :: u32 where "ROOTDEV \<equiv> 1"
abbreviation (input) MAXARG :: nat where "MAXARG \<equiv> 32"
abbreviation (input) MAXOPBLOCKS :: nat where "MAXOPBLOCKS \<equiv> 10"
abbreviation (input) LOGSIZE :: nat where "LOGSIZE \<equiv> 30"
abbreviation (input) NBUF :: nat where "NBUF \<equiv> 30"
abbreviation (input) FSSIZE :: nat where "FSSIZE \<equiv> 1000"

section \<open>Locks, channels, outcomes\<close>

text \<open>
  A spin lock is named by the variable that holds it; the lock of a pipe by the address of
  its \<^verbatim>\<open>struct pipe\<close>.  A sleep channel is the address a process sleeps on, again by name.
\<close>

datatype lockid =
    KmemLock | PtableLock | TicksLock | BcacheLock | IdeLock | LogLock
  | IcacheLock | FtableLock | ConsLock | PipeLock u32

datatype chan =
    ChanBuf nat | ChanInode nat | ChanLog | ChanNread u32 | ChanNwrite u32
  | ChanProc nat | ChanTicks | ChanInput

datatype ('s, 'a) res =
    Ok 'a 's
  | Panic string
  | Fault string
  | Spin lockid
  | Swtch 's
  | Diverge

named_theorems res_simps \<open>equations that run a model one call further\<close>
named_theorems page_simps \<open>page and word arithmetic\<close>

fun rbind :: "('s, 'a) res \<Rightarrow> ('a \<Rightarrow> 's \<Rightarrow> ('s, 'b) res) \<Rightarrow> ('s, 'b) res" where
  "rbind (Ok x s) f = f x s"
| "rbind (Panic m) f = Panic m"
| "rbind (Fault m) f = Fault m"
| "rbind (Spin l) f = Spin l"
| "rbind (Swtch s) f = Swtch s"
| "rbind Diverge f = Diverge"

lemma rbind_eq_Ok [simp]:
  "rbind m f = Ok y t \<longleftrightarrow> (\<exists>x s. m = Ok x s \<and> f x s = Ok y t)"
  by (cases m) auto

lemma Ok_eq_rbind [simp]:
  "Ok y t = rbind m f \<longleftrightarrow> (\<exists>x s. m = Ok x s \<and> f x s = Ok y t)"
  by (cases m) auto

lemma rbind_Ok_right [simp]: "rbind m Ok = m"
  by (cases m) auto

lemma rbind_cong [fundef_cong]:
  "m = m' \<Longrightarrow> (\<And>x s. m' = Ok x s \<Longrightarrow> f x s = g x s) \<Longrightarrow> rbind m f = rbind m' g"
  by (cases m') auto

lemma rbind_assoc: "rbind (rbind m f) g = rbind m (\<lambda>x s. rbind (f x s) g)"
  by (cases m) auto

text \<open>A step that runs only when its condition holds: \<^verbatim>\<open>if(b) f();\<close>\<close>

definition rwhen :: "bool \<Rightarrow> ('s \<Rightarrow> ('s, unit) res) \<Rightarrow> 's \<Rightarrow> ('s, unit) res" where
  "rwhen b f s = (if b then f s else Ok () s)"

lemma rwhen_simps [simp]: "rwhen True f s = f s" "rwhen False f s = Ok () s"
  by (simp_all add: rwhen_def)

section \<open>Words\<close>

lemma and_not_mask_eq: "a AND NOT (mask n) = push_bit n (drop_bit n a)"
  for a :: "'a::len word"
  by (rule bit_word_eqI) (auto simp: bit_simps)

lemma take_bit_unat [simp]: "take_bit LENGTH('a) (unat a) = unat a" for a :: "'a::len word"
  by (rule take_bit_nat_eq_self) (rule unsigned_less)

lemma unat_push_drop: "unat (push_bit n (drop_bit n a)) = unat a - unat a mod 2 ^ n"
  for a :: "'a::len word"
proof -
  have "unat a div 2 ^ n * 2 ^ n \<le> unat a" by simp
  also have "unat a < 2 ^ LENGTH('a)" by (rule unsigned_less)
  finally have *: "unat a div 2 ^ n * 2 ^ n < 2 ^ LENGTH('a)" .
  have "unat (push_bit n (drop_bit n a)) = take_bit LENGTH('a) (push_bit n (drop_bit n (unat a)))"
    by (simp add: unsigned_push_bit_eq unsigned_drop_bit_eq)
  also have "\<dots> = unat a div 2 ^ n * 2 ^ n"
    using * by (simp add: take_bit_eq_mod push_bit_eq_mult drop_bit_eq_div)
  finally show ?thesis by (simp add: minus_mod_eq_div_mult)
qed

lemma unat_and_mask: "unat (a AND mask n) = unat a mod 2 ^ n" for a :: "'a::len word"
proof -
  have "unat (a AND mask n) = take_bit n (unat a)"
    by (simp only: unsigned_take_bit_eq flip: take_bit_eq_mask)
  then show ?thesis by (simp only: take_bit_eq_mod)
qed

text \<open>A negated \<^verbatim>\<open>uint\<close> below 2 to the 31 is a negative \<^verbatim>\<open>int\<close>.\<close>

lemma sint_neg: "0 < sz \<Longrightarrow> sz < 0x80000000 \<Longrightarrow> sint (- sz) < 0" for sz :: u32
proof -
  assume a: "0 < sz" "sz < 0x80000000"
  have u: "unat (- sz) = 2 ^ 32 - unat sz"
    using unat_sub_if_size [of 0 sz] a(1) by (simp add: word_size word_less_nat_alt)
  have "unat sz < 0x80000000" "0 < unat sz" using a by (simp_all add: word_less_nat_alt)
  then have "0x80000000 \<le> unat (- sz)" by (simp add: u)
  moreover have "unat (- sz) < 2 ^ 32" using unsigned_less [of "- sz", where ?'a = nat] by simp
  ultimately have "unat (- sz) div 0x80000000 = 1" by simp
  then have "bit (unat (- sz)) 31" by (simp add: bit_iff_odd)
  then have "bit (- sz) 31" by (simp add: bit_unsigned_iff)
  then show ?thesis using bit_last_iff [of "- sz"] by simp
qed

end
