(* ===== verification/Spinlock.thy ===== *)
theory Spinlock
  imports Xv6_Prelude
begin

text \<open>
  Spin locks and the nesting of interrupt disabling, from \<^verbatim>\<open>spinlock.c\<close>.  The
  first part is the code as one processor runs it: \<open>pushcli\<close>, \<open>popcli\<close>, \<open>holding\<close>,
  \<open>acquire\<close>, \<open>release\<close> over the record \<open>kcore\<close> (the processor's interrupt state and the kernel's
  locks), which every later component state extends.  Its lemmas say that an acquire and the matching
  release cancel out exactly, at any nesting depth, so that critical sections compose.  The second part
  interleaves the single steps of \<open>acquire\<close> and \<open>release\<close> on any number of processors
  and shows mutual exclusion, and that \<open>holding\<close>, which reads the lock without synchronisation,
  is never wrong.  The call-stack record \<^verbatim>\<open>lk->pcs\<close> and the lock's name are debugging aids
  that no code reads, and are left out.
\<close>

section \<open>One processor's view\<close>

record cpu =
  cpu_id :: nat
  eflags_if :: bool      \<comment> \<open>\<^verbatim>\<open>FL_IF\<close> of the processor's flags: interrupts enabled\<close>
  ncli :: int
  intena :: bool

record spinlock =
  lk_locked :: u32
  lk_cpu :: "nat option"

record kcore =
  k_cpu :: cpu
  k_locks :: "lockid \<Rightarrow> spinlock"

definition initlock :: "lockid \<Rightarrow> 'a kcore_scheme \<Rightarrow> 'a kcore_scheme" where
  "initlock l s = s\<lparr>k_locks := (k_locks s)(l := \<lparr>lk_locked = 0, lk_cpu = None\<rparr>)\<rparr>"

definition pushcli :: "'a kcore_scheme \<Rightarrow> ('a kcore_scheme, unit) res" where
  "pushcli s =
     (let eflags = eflags_if (k_cpu s);
          c = (k_cpu s)\<lparr>eflags_if := False, ncli := ncli (k_cpu s) + 1\<rparr>
      in Ok () (s\<lparr>k_cpu := if ncli (k_cpu s) = 0 then c\<lparr>intena := eflags\<rparr> else c\<rparr>))"

definition popcli :: "'a kcore_scheme \<Rightarrow> ('a kcore_scheme, unit) res" where
  "popcli s =
     (if eflags_if (k_cpu s) then Panic ''popcli - interruptible''
      else let c = (k_cpu s)\<lparr>ncli := ncli (k_cpu s) - 1\<rparr>
      in if ncli c < 0 then Panic ''popcli''
         else Ok () (s\<lparr>k_cpu := if ncli c = 0 \<and> intena c then c\<lparr>eflags_if := True\<rparr> else c\<rparr>))"

definition holding :: "lockid \<Rightarrow> 'a kcore_scheme \<Rightarrow> bool" where
  "holding l s \<longleftrightarrow> lk_locked (k_locks s l) \<noteq> 0 \<and> lk_cpu (k_locks s l) = Some (cpu_id (k_cpu s))"

text \<open>
  A lock that another processor holds is waited for by spinning: the outcome is \<open>Spin\<close>.
  That two processors never both get past the loop is the subject of the second part.
\<close>

definition acquire :: "lockid \<Rightarrow> 'a kcore_scheme \<Rightarrow> ('a kcore_scheme, unit) res" where
  "acquire l s =
     rbind (pushcli s) (\<lambda>_ s.
       if holding l s then Panic ''acquire''
       else if lk_locked (k_locks s l) \<noteq> 0 then Spin l
       else Ok () (s\<lparr>k_locks := (k_locks s)(l := \<lparr>lk_locked = 1, lk_cpu = Some (cpu_id (k_cpu s))\<rparr>)\<rparr>))"

definition release :: "lockid \<Rightarrow> 'a kcore_scheme \<Rightarrow> ('a kcore_scheme, unit) res" where
  "release l s =
     (if \<not> holding l s then Panic ''release''
      else popcli (s\<lparr>k_locks := (k_locks s)(l := \<lparr>lk_locked = 0, lk_cpu = None\<rparr>)\<rparr>))"

subsection \<open>Interrupt nesting\<close>

text \<open>
  The processor state is consistent when the nesting depth is not negative, interrupts are off
  at every positive depth, and at depth 0 the saved flag agrees with the processor (it did when the last
  \<open>popcli\<close> brought the depth to 0).
\<close>

definition cpu_ok :: "cpu \<Rightarrow> bool" where
  "cpu_ok c \<longleftrightarrow> 0 \<le> ncli c \<and> (if ncli c = 0 then intena c = eflags_if c else \<not> eflags_if c)"

definition pushed :: "cpu \<Rightarrow> cpu" where
  "pushed c = c\<lparr>eflags_if := False, ncli := ncli c + 1,
     intena := (if ncli c = 0 then eflags_if c else intena c)\<rparr>"

lemma pushed_simps [simp]:
  "cpu_id (pushed c) = cpu_id c" "ncli (pushed c) = ncli c + 1" "\<not> eflags_if (pushed c)"
  by (simp_all add: pushed_def)

lemma cpu_ok_pushed [simp]: "cpu_ok c \<Longrightarrow> cpu_ok (pushed c)"
  by (simp add: cpu_ok_def pushed_def)

lemma pushcli_eq: "pushcli s = Ok () (s\<lparr>k_cpu := pushed (k_cpu s)\<rparr>)"
  by (simp add: pushcli_def pushed_def)

lemma popcli_pushed:
  "cpu_ok c \<Longrightarrow> k_cpu t = pushed c \<Longrightarrow> popcli t = Ok () (t\<lparr>k_cpu := c\<rparr>)"
  by (auto simp: popcli_def pushed_def cpu_ok_def Let_def)

subsection \<open>Critical sections\<close>

definition lock_ready :: "lockid \<Rightarrow> 'a kcore_scheme \<Rightarrow> bool" where
  "lock_ready l s \<longleftrightarrow> k_locks s l = \<lparr>lk_locked = 0, lk_cpu = None\<rparr> \<and> cpu_ok (k_cpu s)"

definition held :: "lockid \<Rightarrow> 'a kcore_scheme \<Rightarrow> 'a kcore_scheme" where
  "held l s = s\<lparr>k_cpu := pushed (k_cpu s),
     k_locks := (k_locks s)(l := \<lparr>lk_locked = 1, lk_cpu = Some (cpu_id (k_cpu s))\<rparr>)\<rparr>"

lemma acquire_ready [res_simps]: "lock_ready l s \<Longrightarrow> acquire l s = Ok () (held l s)"
  by (simp add: acquire_def pushcli_eq held_def lock_ready_def holding_def)

text \<open>Acquiring a lock this processor already holds stops the kernel, at any depth.\<close>

lemma acquire_holding: "holding l s \<Longrightarrow> acquire l s = Panic ''acquire''"
  by (simp add: acquire_def pushcli_eq holding_def)

lemma release_held:
  assumes "lock_ready l s" "k_cpu t = pushed (k_cpu s)" "k_locks t l = k_locks (held l s) l"
  shows "release l t = Ok () (t\<lparr>k_cpu := k_cpu s, k_locks := (k_locks t)(l := k_locks s l)\<rparr>)"
proof -
  have "holding l t" using assms by (simp add: holding_def held_def)
  moreover have "popcli (t\<lparr>k_locks := (k_locks t)(l := k_locks s l)\<rparr>)
      = Ok () (t\<lparr>k_locks := (k_locks t)(l := k_locks s l)\<rparr>\<lparr>k_cpu := k_cpu s\<rparr>)"
    using assms by (intro popcli_pushed) (simp_all add: lock_ready_def)
  ultimately show ?thesis using assms(1) by (simp add: release_def lock_ready_def)
qed

lemma held_simps [simp]:
  "k_cpu (held l s) = pushed (k_cpu s)" "kcore.more (held l s) = kcore.more s"
  "l' \<noteq> l \<Longrightarrow> k_locks (held l s) l' = k_locks s l'" "holding l (held l s)"
  by (simp_all add: held_def holding_def)

lemma lock_ready_held [simp]: "l' \<noteq> l \<Longrightarrow> lock_ready l' s \<Longrightarrow> lock_ready l' (held l s)"
  by (simp add: lock_ready_def)

section \<open>Many processors\<close>

text \<open>
  The memory accesses of \<open>acquire\<close> and \<open>release\<close>, one step each, on processors numbered by
  \<open>nat\<close>: the two separate reads of \<open>holding\<close> (\<^verbatim>\<open>lock->locked\<close>, then \<^verbatim>\<open>lock->cpu\<close>), the atomic
  \<^verbatim>\<open>xchg\<close>, and the writes of \<^verbatim>\<open>lk->cpu\<close>.  \<open>Stuck\<close> is a processor in \<^verbatim>\<open>panic()\<close>.
\<close>

datatype spin_pc =
    Out | AcqReadLocked | AcqReadCpu | AcqXchg | AcqSetCpu
  | Inside | RelReadLocked | RelReadCpu | RelClearCpu | RelXchg | Stuck

record spin_sys =
  sp_locked :: u32
  sp_cpu :: "nat option"
  sp_pc :: "nat \<Rightarrow> spin_pc"

abbreviation (input) goto :: "nat \<Rightarrow> spin_pc \<Rightarrow> spin_sys \<Rightarrow> spin_sys" where
  "goto c p s \<equiv> s\<lparr>sp_pc := (sp_pc s)(c := p)\<rparr>"

inductive spin_step :: "spin_sys \<Rightarrow> nat \<Rightarrow> spin_sys \<Rightarrow> bool" where
  call_acquire: "sp_pc s c = Out \<Longrightarrow> spin_step s c (goto c AcqReadLocked s)"
| acq_seen_locked: "sp_pc s c = AcqReadLocked \<Longrightarrow> sp_locked s \<noteq> 0 \<Longrightarrow> spin_step s c (goto c AcqReadCpu s)"
| acq_seen_free: "sp_pc s c = AcqReadLocked \<Longrightarrow> sp_locked s = 0 \<Longrightarrow> spin_step s c (goto c AcqXchg s)"
| acq_panic: "sp_pc s c = AcqReadCpu \<Longrightarrow> sp_cpu s = Some c \<Longrightarrow> spin_step s c (goto c Stuck s)"
| acq_not_mine: "sp_pc s c = AcqReadCpu \<Longrightarrow> sp_cpu s \<noteq> Some c \<Longrightarrow> spin_step s c (goto c AcqXchg s)"
| acq_spin: "sp_pc s c = AcqXchg \<Longrightarrow> sp_locked s \<noteq> 0 \<Longrightarrow> spin_step s c (s\<lparr>sp_locked := 1\<rparr>)"
| acq_win: "sp_pc s c = AcqXchg \<Longrightarrow> sp_locked s = 0 \<Longrightarrow> spin_step s c (goto c AcqSetCpu (s\<lparr>sp_locked := 1\<rparr>))"
| acq_set: "sp_pc s c = AcqSetCpu \<Longrightarrow> spin_step s c (goto c Inside (s\<lparr>sp_cpu := Some c\<rparr>))"
| call_release: "sp_pc s c = Inside \<Longrightarrow> spin_step s c (goto c RelReadLocked s)"
| rel_seen_locked: "sp_pc s c = RelReadLocked \<Longrightarrow> sp_locked s \<noteq> 0 \<Longrightarrow> spin_step s c (goto c RelReadCpu s)"
| rel_panic_free: "sp_pc s c = RelReadLocked \<Longrightarrow> sp_locked s = 0 \<Longrightarrow> spin_step s c (goto c Stuck s)"
| rel_panic_other: "sp_pc s c = RelReadCpu \<Longrightarrow> sp_cpu s \<noteq> Some c \<Longrightarrow> spin_step s c (goto c Stuck s)"
| rel_mine: "sp_pc s c = RelReadCpu \<Longrightarrow> sp_cpu s = Some c \<Longrightarrow> spin_step s c (goto c RelClearCpu s)"
| rel_clear: "sp_pc s c = RelClearCpu \<Longrightarrow> spin_step s c (goto c RelXchg (s\<lparr>sp_cpu := None\<rparr>))"
| rel_unlock: "sp_pc s c = RelXchg \<Longrightarrow> spin_step s c (goto c Out (s\<lparr>sp_locked := 0\<rparr>))"

definition spin_init :: spin_sys where
  "spin_init = \<lparr>sp_locked = 0, sp_cpu = None, sp_pc = (\<lambda>_. Out)\<rparr>"

inductive spin_reach :: "spin_sys \<Rightarrow> bool" where
  spin_start: "spin_reach spin_init"
| spin_next: "spin_reach s \<Longrightarrow> spin_step s c t \<Longrightarrow> spin_reach t"

text \<open>A processor owns the lock from its winning \<^verbatim>\<open>xchg\<close> to the one that clears it.\<close>

definition owns :: "spin_sys \<Rightarrow> nat \<Rightarrow> bool" where
  "owns s c \<longleftrightarrow> sp_pc s c \<in> {AcqSetCpu, Inside, RelReadLocked, RelReadCpu, RelClearCpu, RelXchg}"

definition spin_inv :: "nat option \<Rightarrow> spin_sys \<Rightarrow> bool" where
  "spin_inv own s \<longleftrightarrow>
     (\<forall>d. owns s d \<longleftrightarrow> own = Some d) \<and>
     (sp_locked s \<noteq> 0 \<longleftrightarrow> own \<noteq> None) \<and>
     (\<forall>d. sp_cpu s = Some d \<longleftrightarrow> own = Some d \<and> sp_pc s d \<notin> {AcqSetCpu, RelXchg}) \<and>
     (\<forall>d. sp_pc s d \<noteq> Stuck)"

lemma spin_inv_init: "spin_inv None spin_init"
  by (simp add: spin_inv_def spin_init_def owns_def)

lemma spin_inv_owner: "spin_inv own s \<Longrightarrow> own = Some c \<longleftrightarrow> owns s c"
  by (simp add: spin_inv_def)

lemma owns_goto [simp]: "owns (goto c p s) d =
  (if d = c then p \<in> {AcqSetCpu, Inside, RelReadLocked, RelReadCpu, RelClearCpu, RelXchg} else owns s d)"
  by (simp add: owns_def)

lemma owns_fields [simp]:
  "owns (s\<lparr>sp_locked := l, sp_pc := p\<rparr>) d = owns (s\<lparr>sp_pc := p\<rparr>) d"
  "owns (s\<lparr>sp_cpu := o', sp_pc := p\<rparr>) d = owns (s\<lparr>sp_pc := p\<rparr>) d"
  "owns (s\<lparr>sp_locked := l\<rparr>) d = owns s d"
  by (simp_all add: owns_def)

text \<open>
  Only the winning \<^verbatim>\<open>xchg\<close> and the clearing one change the owner.
\<close>

lemma spin_step_inv:
  assumes "spin_step s c t" "spin_inv own s"
  shows "\<exists>own'. spin_inv own' t"
  using assms
proof (induction rule: spin_step.induct)
  case (acq_win s c)
  then have "spin_inv (Some c) (goto c AcqSetCpu (s\<lparr>sp_locked := 1\<rparr>))"
    by (auto simp: spin_inv_def)
  then show ?case ..
next
  case (rel_unlock s c)
  then have "own = Some c" by (auto simp: spin_inv_def owns_def)
  with rel_unlock have "spin_inv None (goto c Out (s\<lparr>sp_locked := 0\<rparr>))"
    by (auto simp: spin_inv_def)
  then show ?case ..
next
  case (call_acquire s c)
  then have "own \<noteq> Some c" by (simp add: owns_def spin_inv_owner)
  with call_acquire have "spin_inv own (goto c AcqReadLocked s)" by (auto simp: spin_inv_def)
  then show ?case ..
next
  case (acq_seen_locked s c)
  then have "own \<noteq> Some c" by (simp add: owns_def spin_inv_owner)
  with acq_seen_locked have "spin_inv own (goto c AcqReadCpu s)" by (auto simp: spin_inv_def)
  then show ?case ..
next
  case (acq_seen_free s c)
  then have "own \<noteq> Some c" by (simp add: owns_def spin_inv_owner)
  with acq_seen_free have "spin_inv own (goto c AcqXchg s)" by (auto simp: spin_inv_def)
  then show ?case ..
next
  case (acq_not_mine s c)
  then have "own \<noteq> Some c" by (simp add: owns_def spin_inv_owner)
  with acq_not_mine have "spin_inv own (goto c AcqXchg s)" by (auto simp: spin_inv_def)
  then show ?case ..
next
  case (acq_panic s c)
  then have "own = Some c \<longleftrightarrow> owns s c" by (simp add: spin_inv_owner)
  with acq_panic show ?case by (auto simp: spin_inv_def owns_def)
next
  case (rel_panic_free s c)
  then have "own = Some c \<longleftrightarrow> owns s c" by (simp add: spin_inv_owner)
  with rel_panic_free show ?case by (auto simp: spin_inv_def owns_def)
next
  case (rel_panic_other s c)
  then have "own = Some c \<longleftrightarrow> owns s c" by (simp add: spin_inv_owner)
  with rel_panic_other show ?case by (auto simp: spin_inv_def owns_def)
next
  case (acq_spin s c)
  then have "spin_inv own (s\<lparr>sp_locked := 1\<rparr>)" by (auto simp: spin_inv_def)
  then show ?case ..
next
  case (acq_set s c)
  then have "own = Some c" by (simp add: owns_def spin_inv_owner)
  with acq_set have "spin_inv own (goto c Inside (s\<lparr>sp_cpu := Some c\<rparr>))" by (auto simp: spin_inv_def)
  then show ?case ..
next
  case (call_release s c)
  then have "own = Some c" by (simp add: owns_def spin_inv_owner)
  with call_release have "spin_inv own (goto c RelReadLocked s)" by (auto simp: spin_inv_def)
  then show ?case ..
next
  case (rel_seen_locked s c)
  then have "own = Some c" by (simp add: owns_def spin_inv_owner)
  with rel_seen_locked have "spin_inv own (goto c RelReadCpu s)" by (auto simp: spin_inv_def)
  then show ?case ..
next
  case (rel_mine s c)
  then have "own = Some c" by (simp add: owns_def spin_inv_owner)
  with rel_mine have "spin_inv own (goto c RelClearCpu s)" by (auto simp: spin_inv_def)
  then show ?case ..
next
  case (rel_clear s c)
  then have "own = Some c" by (simp add: owns_def spin_inv_owner)
  with rel_clear have "spin_inv own (goto c RelXchg (s\<lparr>sp_cpu := None\<rparr>))" by (auto simp: spin_inv_def)
  then show ?case ..
qed

lemma spin_reach_inv: "spin_reach s \<Longrightarrow> \<exists>own. spin_inv own s"
  by (induction rule: spin_reach.induct) (auto intro: spin_inv_init spin_step_inv)

section \<open>Properties\<close>

text \<open>
  C3: At most one processor is between the \<^verbatim>\<open>xchg\<close> that wins the lock and the \<^verbatim>\<open>xchg\<close> that clears it,
  in every interleaving; and no processor that acquires when outside and releases when inside
  ever sees \<open>holding\<close> answer wrongly, so none panics.
\<close>

theorem spin_mutual_exclusion:
  assumes "spin_reach s"
  shows "(owns s c \<and> owns s d \<longrightarrow> c = d) \<and> sp_pc s c \<noteq> Stuck"
proof -
  from assms obtain own where "spin_inv own s" using spin_reach_inv by blast
  then show ?thesis by (auto simp: spin_inv_def)
qed

theorem spin_mutual_exclusion_witness:
  "\<exists>s. spin_reach s \<and> sp_pc s 3 = AcqXchg \<and> (owns s 3 \<and> owns s 4 \<longrightarrow> 3 = (4::nat)) \<and> sp_pc s 3 \<noteq> Stuck"
proof -
  have 1: "spin_reach (goto 3 AcqReadLocked spin_init)"
    by (rule spin_next [OF spin_start call_acquire [of _ 3]]) (simp add: spin_init_def)
  have 2: "spin_reach (goto 3 AcqXchg (goto 3 AcqReadLocked spin_init))"
    by (rule spin_next [OF 1 acq_seen_free]) (simp_all add: spin_init_def)
  show ?thesis
    using 2 spin_mutual_exclusion [OF 2, of 3 4]
    by (intro exI [of _ "goto 3 AcqXchg (goto 3 AcqReadLocked spin_init)"]) simp
qed

text \<open>
  Acquiring a free lock succeeds, makes this processor its holder and disables interrupts; the
  matching release brings back exactly the state before, interrupt flag included, at
  whatever depth of nesting the pair runs.
\<close>

theorem acquire_release_restores:
  assumes "lock_ready l s"
  shows "\<exists>t. acquire l s = Ok () t \<and> holding l t \<and> \<not> eflags_if (k_cpu t) \<and> release l t = Ok () s"
proof -
  have "release l (held l s) = Ok () s"
    using release_held [OF assms, of "held l s"] by (simp add: held_def)
  then show ?thesis using assms by (simp add: acquire_ready)
qed

definition boot_core :: kcore where
  "boot_core = \<lparr>k_cpu = \<lparr>cpu_id = 0, eflags_if = True, ncli = 0, intena = True\<rparr>,
     k_locks = (\<lambda>_. \<lparr>lk_locked = 0, lk_cpu = None\<rparr>)\<rparr>"

lemma boot_core_ready: "lock_ready l boot_core"
  by (simp add: boot_core_def lock_ready_def cpu_ok_def)

end
