(* ===== verification/Mmu.thy ===== *)
theory Mmu
  imports Xv6_Prelude
begin

text \<open>
  The address arithmetic of \<^verbatim>\<open>mmu.h\<close> and \<^verbatim>\<open>memlayout.h\<close>: rounding to pages, the
  split of a virtual address into page-directory index, page-table index and offset, the address
  and flag parts of a page-table entry, and the translation between kernel virtual and
  physical addresses.  All of it is 32-bit arithmetic that wraps around.  The lemmas give the
  numeric meaning of each macro and the round trips between them.
\<close>

abbreviation (input) EXTMEM :: u32 where "EXTMEM \<equiv> 0x100000"
abbreviation (input) PHYSTOP :: u32 where "PHYSTOP \<equiv> 0xE000000"
abbreviation (input) DEVSPACE :: u32 where "DEVSPACE \<equiv> 0xFE000000"
abbreviation (input) KERNBASE :: u32 where "KERNBASE \<equiv> 0x80000000"
abbreviation (input) KERNLINK :: u32 where "KERNLINK \<equiv> 0x80100000"

abbreviation (input) NPDENTRIES :: nat where "NPDENTRIES \<equiv> 1024"
abbreviation (input) NPTENTRIES :: u32 where "NPTENTRIES \<equiv> 1024"
abbreviation (input) PGSIZE :: u32 where "PGSIZE \<equiv> 4096"

abbreviation (input) PTE_P :: u32 where "PTE_P \<equiv> 0x001"
abbreviation (input) PTE_W :: u32 where "PTE_W \<equiv> 0x002"
abbreviation (input) PTE_U :: u32 where "PTE_U \<equiv> 0x004"

definition v2p :: "u32 \<Rightarrow> u32" where
  "v2p a = a - KERNBASE"

definition p2v :: "u32 \<Rightarrow> u32" where
  "p2v a = a + KERNBASE"

definition PDX :: "u32 \<Rightarrow> u32" where
  "PDX va = drop_bit 22 va AND 0x3FF"

definition PTX :: "u32 \<Rightarrow> u32" where
  "PTX va = drop_bit 12 va AND 0x3FF"

definition PGADDR :: "u32 \<Rightarrow> u32 \<Rightarrow> u32 \<Rightarrow> u32" where
  "PGADDR d t off = (push_bit 22 d OR push_bit 12 t OR off)"

definition PGROUNDUP :: "u32 \<Rightarrow> u32" where
  "PGROUNDUP sz = (sz + PGSIZE - 1) AND NOT (PGSIZE - 1)"

definition PGROUNDDOWN :: "u32 \<Rightarrow> u32" where
  "PGROUNDDOWN a = a AND NOT (PGSIZE - 1)"

definition PTE_ADDR :: "u32 \<Rightarrow> u32" where
  "PTE_ADDR pte = pte AND NOT 0xFFF"

definition PTE_FLAGS :: "u32 \<Rightarrow> u32" where
  "PTE_FLAGS pte = pte AND 0xFFF"

section \<open>Numeric meaning\<close>

lemma PGMASK_eq: "(0xFFF :: u32) = mask 12" and IDXMASK_eq: "(0x3FF :: u32) = mask 10"
  by (simp_all add: mask_eq_exp_minus_1)

lemma v2p_p2v [simp]: "v2p (p2v a) = a" and p2v_v2p [simp]: "p2v (v2p a) = a"
  by (simp_all add: v2p_def p2v_def)

lemma p2v_inject [simp]: "p2v a = p2v b \<longleftrightarrow> a = b"
  by (simp add: p2v_def)

lemma PGROUNDDOWN_eq: "PGROUNDDOWN a = PTE_ADDR a"
  by (simp add: PGROUNDDOWN_def PTE_ADDR_def)

lemma unat_PTE_ADDR [page_simps]: "unat (PTE_ADDR a) = unat a - unat a mod 4096"
  unfolding PTE_ADDR_def PGMASK_eq and_not_mask_eq by (simp add: unat_push_drop)

lemma unat_PTE_FLAGS [page_simps]: "unat (PTE_FLAGS a) = unat a mod 4096"
  unfolding PTE_FLAGS_def PGMASK_eq unat_and_mask by simp

lemma unat_PDX [page_simps]: "unat (PDX va) = unat va div 4194304"
proof -
  have "unat va div 4194304 < 1024"
    using unsigned_less [of va, where ?'a = nat] by (simp add: less_mult_imp_div_less)
  then show ?thesis
    unfolding PDX_def IDXMASK_eq unat_and_mask by (simp add: drop_bit_eq_div unat_div)
qed

lemma unat_PTX [page_simps]: "unat (PTX va) = unat va div 4096 mod 1024"
  unfolding PTX_def IDXMASK_eq unat_and_mask by (simp add: drop_bit_eq_div unat_div)

lemma PDX_less: "unat (PDX va) < 1024" and PTX_less: "unat (PTX va) < 1024"
  using unsigned_less [of va, where ?'a = nat] by (simp_all add: page_simps less_mult_imp_div_less)

lemma PGROUNDUP_eq: "PGROUNDUP a = PTE_ADDR (a + 4095)"
  by (simp add: PGROUNDUP_def PTE_ADDR_def add.commute)

lemma unat_PGROUNDUP [page_simps]:
  "unat a \<le> 0xFFFFF000 \<Longrightarrow> unat (PGROUNDUP a) = (unat a + 4095) div 4096 * 4096"
  by (simp add: PGROUNDUP_eq unat_PTE_ADDR unat_word_ariths minus_mod_eq_div_mult)

text \<open>Rounding up wraps to 0 in the last page of the address space.\<close>

lemma PGROUNDUP_wraps: "0xFFFFF000 < unat a \<Longrightarrow> PGROUNDUP a = 0"
proof -
  assume a: "0xFFFFF000 < unat a"
  have "unat a < 4294967296" using unsigned_less [of a, where ?'a = nat] by simp
  with a have "unat (a + 4095) = unat a + 4095 - 4294967296"
    by (simp add: unat_word_ariths mod_if)
  with a have "unat (PTE_ADDR (a + 4095)) = 0"
    using unsigned_less [of a, where ?'a = nat] by (simp add: unat_PTE_ADDR)
  then show ?thesis by (simp add: PGROUNDUP_eq unat_0_iff)
qed

section \<open>Page alignment and round trips\<close>

definition pg_aligned :: "u32 \<Rightarrow> bool" where
  "pg_aligned a \<longleftrightarrow> a mod PGSIZE = 0"

lemma pg_aligned_unat: "pg_aligned a \<longleftrightarrow> unat a mod 4096 = 0"
  by (simp add: pg_aligned_def unat_mod flip: unat_0_iff)

lemma PTE_ADDR_aligned [simp]: "pg_aligned (PTE_ADDR a)"
  by (simp add: pg_aligned_unat unat_PTE_ADDR minus_mod_eq_mult_div)

lemma PGROUNDDOWN_aligned [simp]: "pg_aligned (PGROUNDDOWN a)"
  by (simp add: PGROUNDDOWN_eq)

lemma PGROUNDUP_aligned [simp]: "pg_aligned (PGROUNDUP a)"
  by (simp add: PGROUNDUP_eq)

lemma PTE_ADDR_id [simp]: "pg_aligned a \<Longrightarrow> PTE_ADDR a = a"
  by (simp add: word_unat_eq_iff unat_PTE_ADDR pg_aligned_unat)

lemma PTE_ADDR_id_iff: "PTE_ADDR a = a \<longleftrightarrow> pg_aligned a"
  by (metis PTE_ADDR_id PTE_ADDR_aligned)

lemma unat_add_mod_PGSIZE: "unat (a + b) mod 4096 = (unat a + unat b) mod 4096" for a b :: u32
  by (simp add: unat_word_ariths mod_mod_cancel)

lemma p2v_aligned [simp]: "pg_aligned (p2v a) \<longleftrightarrow> pg_aligned a"
proof -
  have "(unat a + 524288 * 4096) mod 4096 = unat a mod 4096" by (rule mod_mult_self1)
  then show ?thesis by (simp add: pg_aligned_unat p2v_def unat_add_mod_PGSIZE)
qed

lemma v2p_aligned [simp]: "pg_aligned (v2p a) \<longleftrightarrow> pg_aligned a"
  using p2v_aligned [of "v2p a"] by simp

text \<open>Two addresses have the same indices exactly when they lie in the same page.\<close>

lemma same_indices_iff: "PDX a = PDX b \<and> PTX a = PTX b \<longleftrightarrow> PGROUNDDOWN a = PGROUNDDOWN b"
proof -
  define x y where "x = unat a div 4096" and "y = unat b div 4096"
  have "PDX a = PDX b \<and> PTX a = PTX b \<longleftrightarrow> x div 1024 = y div 1024 \<and> x mod 1024 = y mod 1024"
    by (simp add: word_unat_eq_iff page_simps x_def y_def flip: div_mult2_eq)
  also have "\<dots> \<longleftrightarrow> x = y" by (metis div_mod_decomp)
  also have "\<dots> \<longleftrightarrow> PGROUNDDOWN a = PGROUNDDOWN b"
    by (simp add: PGROUNDDOWN_eq word_unat_eq_iff page_simps minus_mod_eq_div_mult x_def y_def)
  finally show ?thesis .
qed

lemma PGADDR_split: "PGADDR (PDX va) (PTX va) (PTE_FLAGS va) = va"
proof (rule bit_word_eqI)
  fix n assume "n < LENGTH(32)"
  then show "bit (PGADDR (PDX va) (PTX va) (PTE_FLAGS va)) n = bit va n"
    unfolding PGADDR_def PDX_def PTX_def PTE_FLAGS_def PGMASK_eq IDXMASK_eq
    by (cases "n < 22") (auto simp: bit_simps)
qed

lemma pg_aligned_take_bit: "pg_aligned a \<longleftrightarrow> take_bit 12 a = 0"
  by (simp add: pg_aligned_def take_bit_eq_mod)

lemma take_bit_small: "unat a < 4096 \<Longrightarrow> take_bit 12 a = a" for a :: u32
  by (simp add: word_unat_eq_iff unsigned_take_bit_eq take_bit_nat_eq_self)

lemma drop_bit_small: "unat a < 4096 \<Longrightarrow> drop_bit 12 a = 0" for a :: u32
  by (simp add: word_unat_eq_iff drop_bit_eq_div unat_div)

lemma PTE_ADDR_eq: "PTE_ADDR a = push_bit 12 (drop_bit 12 a)"
  unfolding PTE_ADDR_def PGMASK_eq and_not_mask_eq ..

lemma PTE_FLAGS_eq: "PTE_FLAGS a = take_bit 12 a"
  unfolding PTE_FLAGS_def PGMASK_eq take_bit_eq_mask ..

lemma PTE_ADDR_OR: "pg_aligned pa \<Longrightarrow> unat perm < 4096 \<Longrightarrow> PTE_ADDR (pa OR perm) = pa"
proof -
  assume *: "pg_aligned pa" "unat perm < 4096"
  then have "PTE_ADDR (pa OR perm) = PTE_ADDR pa"
    by (simp add: PTE_ADDR_eq drop_bit_or drop_bit_small)
  with * show ?thesis by simp
qed

lemma PTE_FLAGS_OR: "pg_aligned pa \<Longrightarrow> unat perm < 4096 \<Longrightarrow> PTE_FLAGS (pa OR perm) = perm"
  by (simp add: PTE_FLAGS_eq pg_aligned_take_bit take_bit_small)

lemma pg_aligned_obtain:
  assumes "pg_aligned p" obtains k where "unat p = 4096 * k" "k < 1048576"
proof -
  from assms obtain k where k: "unat p = 4096 * k"
    unfolding pg_aligned_unat mod_eq_0_iff_dvd by (auto elim: dvdE)
  with unsigned_less [of p, where ?'a = nat] have "k < 1048576" by simp
  with k show thesis by (rule that)
qed

lemma unat_page_offset:
  assumes "pg_aligned p" "unat d < 4096"
  shows "unat (p + d) = unat p + unat d"
proof -
  obtain k where "unat p = 4096 * k" "k < 1048576"
    using assms(1) by (rule pg_aligned_obtain)
  with assms(2) show ?thesis by (simp add: unat_word_ariths)
qed

lemma PGROUNDDOWN_offset [simp]:
  assumes "pg_aligned p" "unat d < 4096"
  shows "PGROUNDDOWN (p + d) = p"
proof -
  obtain k where "unat p = 4096 * k" "k < 1048576"
    using assms(1) by (rule pg_aligned_obtain)
  with assms show ?thesis
    by (simp add: word_unat_eq_iff PGROUNDDOWN_eq unat_PTE_ADDR unat_page_offset)
qed

lemma in_page_iff:
  assumes "pg_aligned p" shows "unat (a - p) < 4096 \<longleftrightarrow> PGROUNDDOWN a = p"
proof
  assume "unat (a - p) < 4096"
  with PGROUNDDOWN_offset [OF assms this] show "PGROUNDDOWN a = p" by simp
next
  assume p: "PGROUNDDOWN a = p"
  then have "unat p = unat a - unat a mod 4096" by (simp add: PGROUNDDOWN_eq flip: unat_PTE_ADDR)
  then have "unat (a - p) = unat a mod 4096"
    by (simp add: unat_sub_if_size word_size)
  then show "unat (a - p) < 4096" by simp
qed

lemma PGROUNDDOWN_id [simp]: "pg_aligned p \<Longrightarrow> PGROUNDDOWN p = p"
  by (simp add: PGROUNDDOWN_eq)

lemma pg_aligned_mult: "pg_aligned a \<longleftrightarrow> (\<exists>k. a = 4096 * k)"
proof
  assume "pg_aligned a"
  then obtain k where "unat a = 4096 * k" by (rule pg_aligned_obtain)
  then have "a = 4096 * of_nat k" by (metis of_nat_mult of_nat_numeral of_nat_unat ucast_id)
  then show "\<exists>k. a = 4096 * k" ..
next
  assume "\<exists>k. a = 4096 * k"
  then show "pg_aligned a" by (auto simp: pg_aligned_unat unat_word_ariths mod_mod_cancel)
qed

lemma pg_aligned_arith [simp]:
  "pg_aligned a \<Longrightarrow> pg_aligned b \<Longrightarrow> pg_aligned (a + b)"
  "pg_aligned a \<Longrightarrow> pg_aligned b \<Longrightarrow> pg_aligned (a - b)"
  "pg_aligned (4096 * c)" "pg_aligned 4096" "pg_aligned 0"
proof -
  assume *: "pg_aligned a" "pg_aligned b"
  then obtain j k where jk: "a = 4096 * j" "b = 4096 * k" by (auto simp: pg_aligned_mult)
  have "a + b = 4096 * (j + k)" "a - b = 4096 * (j - k)" by (simp_all add: jk algebra_simps)
  then show "pg_aligned (a + b)" "pg_aligned (a - b)" unfolding pg_aligned_mult by blast+
qed (auto simp: pg_aligned_mult intro: exI [of _ "0 :: u32"] exI [of _ "1 :: u32"])

text \<open>The \<open>Suc k\<close> pages from an aligned address: the first, then the \<open>k\<close> after it.\<close>

lemma page_count_Suc:
  assumes "pg_aligned x" "k < 1048576"
  shows "unat x < 4096 * Suc k \<longleftrightarrow> x = 0 \<or> unat (x - 4096) < 4096 * k"
proof (cases "x = 0")
  case False
  obtain j where j: "unat x = 4096 * j" using assms(1) by (rule pg_aligned_obtain)
  with False have "j \<noteq> 0" by (auto simp flip: unat_0_iff)
  then have "unat (x - 4096) = 4096 * j - 4096" using j by (simp add: unat_sub_if_size word_size)
  with j False \<open>j \<noteq> 0\<close> show ?thesis by auto
qed simp

lemma page_count_last:
  assumes "pg_aligned x" "k < 1048576" "x \<noteq> 0" "unat (x - 4096) < 4096 * k"
  shows "unat x < 4096 * Suc k"
  using page_count_Suc assms by blast

lemma page_count_zero: "k < 1048576 \<Longrightarrow> \<not> unat (0 - 4096 :: u32) < 4096 * k"
  by simp

end
