(* ===== verification/Memlib.thy ===== *)
theory Memlib
  imports Mmu
begin

text \<open>
  Byte-addressed kernel memory and the routines of \<^verbatim>\<open>string.c\<close> that work on it.  Memory is a
  function from 32-bit kernel virtual addresses to bytes; \<open>load32\<close> and \<open>store32\<close> are the
  little-endian word accesses the compiler emits for a \<^verbatim>\<open>uint\<close> lvalue.  Each routine is
  the loop of the source; the lemmas give its closed form: \<open>memset_eq\<close> (the word-at-a-time
  path fills exactly the bytes the byte path would), \<open>memmove_eq\<close> (correct for every overlap of
  source and destination), and the frame facts by word and by page that page-table and
  allocator proofs run on.
\<close>

type_synonym memory = "u32 \<Rightarrow> u8"

section \<open>Word access\<close>

definition load32 :: "memory \<Rightarrow> u32 \<Rightarrow> u32" where
  "load32 m a = ucast (m a) OR push_bit 8 (ucast (m (a + 1)))
     OR push_bit 16 (ucast (m (a + 2))) OR push_bit 24 (ucast (m (a + 3)))"

definition store32 :: "memory \<Rightarrow> u32 \<Rightarrow> u32 \<Rightarrow> memory" where
  "store32 m a v = m(a := ucast v, a + 1 := ucast (drop_bit 8 v),
     a + 2 := ucast (drop_bit 16 v), a + 3 := ucast (drop_bit 24 v))"

lemma load32_store32 [simp]: "load32 (store32 m a v) a = v"
proof (rule bit_word_eqI)
  fix n assume n: "n < LENGTH(32)"
  then consider "n < 8" | "8 \<le> n" "n < 16" | "16 \<le> n" "n < 24" | "24 \<le> n" "n < 32"
    by fastforce
  then show "bit (load32 (store32 m a v) a) n = bit v n"
    by cases (auto simp: load32_def store32_def bit_simps)
qed

definition aligned4 :: "u32 \<Rightarrow> bool" where
  "aligned4 a \<longleftrightarrow> take_bit 2 a = 0"

lemma aligned4_unat: "aligned4 a \<longleftrightarrow> unat a mod 4 = 0"
  by (simp add: aligned4_def take_bit_eq_mod word_unat_eq_iff unat_mod)

lemma drop2_offset: "aligned4 a \<Longrightarrow> unat i < 4 \<Longrightarrow> drop_bit 2 (a + i) = drop_bit 2 a" for a i :: u32
proof -
  assume a: "aligned4 a" and i: "unat i < 4"
  from a obtain k where k: "unat a = 4 * k"
    unfolding aligned4_unat mod_eq_0_iff_dvd by (auto elim: dvdE)
  with unsigned_less [of a, where ?'a = nat] have "k < 1073741824" by simp
  with k i have "unat (a + i) = unat a + unat i"
    by (simp add: unat_word_ariths)
  then have "unat (a + i) div 4 = unat a div 4"
    using k i by simp
  then show ?thesis by (simp add: word_unat_eq_iff drop_bit_eq_div unat_div)
qed

lemma drop2_offsets [simp]:
  "aligned4 a \<Longrightarrow> drop_bit 2 (a + 1) = drop_bit 2 a"
  "aligned4 a \<Longrightarrow> drop_bit 2 (a + 2) = drop_bit 2 a"
  "aligned4 a \<Longrightarrow> drop_bit 2 (a + 3) = drop_bit 2 a" for a :: u32
  by (simp_all add: drop2_offset)

lemma aligned4_eqI: "aligned4 a \<Longrightarrow> aligned4 b \<Longrightarrow> drop_bit 2 a = drop_bit 2 b \<Longrightarrow> a = b" for a b :: u32
  unfolding aligned4_def by (metis bits_ident)

lemma store32_other:
  "aligned4 a \<Longrightarrow> drop_bit 2 b \<noteq> drop_bit 2 a \<Longrightarrow> store32 m a v b = m b"
  by (auto simp: store32_def)

lemma load32_cong:
  assumes "aligned4 a" "\<And>b. drop_bit 2 b = drop_bit 2 a \<Longrightarrow> m b = m' b"
  shows "load32 m a = load32 m' a"
  using assms by (simp add: load32_def)

lemma load32_store32_other [simp]:
  "aligned4 a \<Longrightarrow> aligned4 b \<Longrightarrow> a \<noteq> b \<Longrightarrow> load32 (store32 m a v) b = load32 m b"
  by (rule load32_cong) (metis aligned4_eqI store32_other)+

section \<open>Pages\<close>

lemma PGROUNDDOWN_drop: "PGROUNDDOWN a = push_bit 12 (drop_bit 10 (drop_bit 2 a))"
  by (simp add: PGROUNDDOWN_eq PTE_ADDR_eq)

lemma pg_aligned_aligned4: "pg_aligned a \<Longrightarrow> aligned4 a"
  by (auto simp: aligned4_unat elim!: pg_aligned_obtain)

lemma same_page_cong: "drop_bit 2 a = drop_bit 2 b \<Longrightarrow> PGROUNDDOWN a = PGROUNDDOWN b"
  by (simp only: PGROUNDDOWN_drop)

lemma load32_page_cong:
  "aligned4 a \<Longrightarrow> (\<And>b. PGROUNDDOWN b = PGROUNDDOWN a \<Longrightarrow> m b = m' b) \<Longrightarrow> load32 m a = load32 m' a"
  by (rule load32_cong) (auto dest: same_page_cong)

lemma store32_other_page:
  "aligned4 a \<Longrightarrow> PGROUNDDOWN b \<noteq> PGROUNDDOWN a \<Longrightarrow> store32 m a v b = m b"
  by (rule store32_other) (auto dest: same_page_cong)

section \<open>Filling and moving memory\<close>

primrec stosb :: "memory \<Rightarrow> u32 \<Rightarrow> u8 \<Rightarrow> nat \<Rightarrow> memory" where
  "stosb m a c 0 = m"
| "stosb m a c (Suc n) = stosb (m(a := c)) (a + 1) c n"

primrec stosl :: "memory \<Rightarrow> u32 \<Rightarrow> u32 \<Rightarrow> nat \<Rightarrow> memory" where
  "stosl m a c 0 = m"
| "stosl m a c (Suc n) = stosl (store32 m a c) (a + 4) c n"

text \<open>\<^verbatim>\<open>(int)dst%4 == 0\<close> holds exactly when the two low bits are clear, signed or not.\<close>

definition memset :: "memory \<Rightarrow> u32 \<Rightarrow> i32 \<Rightarrow> u32 \<Rightarrow> memory" where
  "memset m dst c n =
     (if dst mod 4 = 0 \<and> n mod 4 = 0 then
        let c = c AND 0xFF
        in stosl m dst (push_bit 24 c OR push_bit 16 c OR push_bit 8 c OR c) (unat (n div 4))
      else stosb m dst (ucast c) (unat n))"

primrec move_up :: "memory \<Rightarrow> u32 \<Rightarrow> u32 \<Rightarrow> nat \<Rightarrow> memory" where
  "move_up m d s 0 = m"
| "move_up m d s (Suc n) = move_up (m(d := m s)) (d + 1) (s + 1) n"

primrec move_down :: "memory \<Rightarrow> u32 \<Rightarrow> u32 \<Rightarrow> nat \<Rightarrow> memory" where
  "move_down m d s 0 = m"
| "move_down m d s (Suc n) = move_down (m(d - 1 := m (s - 1))) (d - 1) (s - 1) n"

definition memmove :: "memory \<Rightarrow> u32 \<Rightarrow> u32 \<Rightarrow> u32 \<Rightarrow> memory" where
  "memmove m dst src n =
     (if src < dst \<and> src + n > dst then move_down m (dst + n) (src + n) (unat n)
      else move_up m dst src (unat n))"

definition memcpy :: "memory \<Rightarrow> u32 \<Rightarrow> u32 \<Rightarrow> u32 \<Rightarrow> memory" where
  "memcpy m dst src n = memmove m dst src n"

text \<open>The offset of an address from a base, and stepping it.\<close>

lemma unat_minus_Suc: "b \<noteq> a \<Longrightarrow> unat (b - a) = Suc (unat (b - (a + 1)))" for a b :: u32
proof -
  assume "b \<noteq> a"
  then have "1 + (b - (a + 1)) \<noteq> 0" by simp
  then show ?thesis using unatSuc [of "b - (a + 1)"] by (simp add: algebra_simps)
qed

lemma stosb_eq:
  "n \<le> 2 ^ 32 \<Longrightarrow> stosb m a c n = (\<lambda>b. if unat (b - a) < n then c else m b)"
proof (induction n arbitrary: m a)
  case 0
  then show ?case by simp
next
  case (Suc n)
  then have IH: "stosb (m(a := c)) (a + 1) c n
      = (\<lambda>b. if unat (b - (a + 1)) < n then c else (m(a := c)) b)" by simp
  show ?case
  proof
    fix b
    have "unat (b - a) < Suc n \<longleftrightarrow> b = a \<or> unat (b - (a + 1)) < n"
      by (cases "b = a") (simp_all add: unat_minus_Suc)
    then show "stosb m a c (Suc n) b = (if unat (b - a) < Suc n then c else m b)"
      by (auto simp: IH)
  qed
qed

lemma stosb_add: "stosb m a c (k + n) = stosb (stosb m a c k) (a + of_nat k) c n"
  by (induction k arbitrary: m a) (simp_all add: algebra_simps)

lemma store32_rep:
  assumes "w = push_bit 24 c OR push_bit 16 c OR push_bit 8 c OR c" "c = ucast (x :: u8)"
  shows "store32 m a w = stosb m a x 4"
proof -
  have "ucast w = x" "ucast (drop_bit 8 w) = x" "ucast (drop_bit 16 w) = x" "ucast (drop_bit 24 w) = x"
    unfolding assms by (rule bit_word_eqI; auto simp: bit_simps dest: bit_imp_le_length)+
  then show ?thesis by (simp add: store32_def numeral_eq_Suc add.assoc [of a])
qed

lemma stosl_stosb:
  assumes "w = push_bit 24 c OR push_bit 16 c OR push_bit 8 c OR c" "c = ucast (x :: u8)"
  shows "stosl m a w n = stosb m a x (4 * n)"
proof (induction n arbitrary: m a)
  case 0
  then show ?case by simp
next
  case (Suc n)
  have "stosb m a x (4 * Suc n) = stosb (stosb m a x 4) (a + 4) x (4 * n)"
    using stosb_add [of m a x 4 "4 * n"] by simp
  then show ?case by (simp add: Suc.IH store32_rep [OF assms])
qed

lemma BYTEMASK_eq: "(0xFF :: u32) = mask 8"
  by (simp add: mask_eq_exp_minus_1)

lemma memset_eq: "memset m dst c n = (\<lambda>b. if unat (b - dst) < unat n then ucast c else m b)"
proof -
  have n: "unat n \<le> 2 ^ 32" using unsigned_less [of n, where ?'a = nat] by simp
  show ?thesis
  proof (cases "dst mod 4 = 0 \<and> n mod 4 = 0")
    case True
    define w where "w = c AND 0xFF"
    have w: "w = ucast (ucast c :: u8)"
      unfolding w_def BYTEMASK_eq by (rule bit_word_eqI) (auto simp: bit_simps)
    have "unat n mod 4 = 0" using True by (simp add: word_unat_eq_iff unat_mod)
    then have "4 * unat (n div 4) = unat n" by (simp add: unat_div mod_0_imp_dvd)
    with True show ?thesis
      by (simp add: memset_def Let_def stosl_stosb [OF refl w] stosb_eq [OF n] flip: w_def)
  next
    case False
    show ?thesis unfolding memset_def if_not_P [OF False] by (rule stosb_eq [OF n])
  qed
qed

lemma memset_page:
  "pg_aligned p \<Longrightarrow> memset m p c PGSIZE = (\<lambda>b. if PGROUNDDOWN b = p then ucast c else m b)"
  by (simp add: memset_eq in_page_iff)

lemma of_nat_u32_eq_0: "i < 2 ^ 32 \<Longrightarrow> (of_nat i :: u32) = 0 \<longleftrightarrow> i = 0"
  by (simp add: word_unat_eq_iff unat_of_nat take_bit_nat_eq_self)

text \<open>
  Copying upwards is right when no byte is overwritten before it is read: the target of an
  earlier copy is never the source of a later one.
\<close>

lemma move_up_correct:
  assumes "n \<le> 2 ^ 32"
    and "\<And>i j. i < j \<Longrightarrow> j < n \<Longrightarrow> d + of_nat i \<noteq> s + of_nat j"
  shows "i < n \<Longrightarrow> move_up m d s n (d + of_nat i) = m (s + of_nat i)"
    and "(\<And>i. i < n \<Longrightarrow> b \<noteq> d + of_nat i) \<Longrightarrow> move_up m d s n b = m b"
  using assms
proof (induction n arbitrary: m d s i b)
  case 0
  { case 1 then show ?case by simp }
  { case 2 then show ?case by simp }
next
  case (Suc n)
  { case 1
    let ?m = "m(d := m s)"
    have apart: "d + 1 + of_nat i \<noteq> s + 1 + of_nat j" if "i < j" "j < n" for i j
      using "1"(3) [of "Suc i" "Suc j"] that by (simp add: algebra_simps)
    show ?case
    proof (cases i)
      case 0
      have "d \<noteq> d + 1 + of_nat k" if "k < n" for k
        using of_nat_u32_eq_0 [of "Suc k"] that "1"(2) by (simp add: algebra_simps)
      then have "move_up ?m (d + 1) (s + 1) n d = ?m d"
        using "1"(2) apart by (intro Suc.IH(2)) auto
      with 0 show ?thesis by simp
    next
      case (Suc k)
      then have "move_up ?m (d + 1) (s + 1) n (d + 1 + of_nat k) = ?m (s + 1 + of_nat k)"
        using "1"(1,2) apart by (intro Suc.IH(1)) auto
      moreover have "s + 1 + of_nat k \<noteq> d"
        using "1"(3) [of 0 "Suc k"] "1"(1) Suc by (auto simp: algebra_simps)
      ultimately show ?thesis using Suc by (simp add: algebra_simps)
    qed }
  { case 2
    have apart: "d + 1 + of_nat i \<noteq> s + 1 + of_nat j" if "i < j" "j < n" for i j
      using "2"(3) [of "Suc i" "Suc j"] that by (simp add: algebra_simps)
    have "b \<noteq> d + 1 + of_nat k" if "k < n" for k
      using "2"(1) [of "Suc k"] that by (simp add: algebra_simps)
    then have "move_up (m(d := m s)) (d + 1) (s + 1) n b = (m(d := m s)) b"
      using "2"(2) apart by (intro Suc.IH(2)) auto
    with "2"(1) [of 0] show ?case by simp }
qed

lemma move_down_correct:
  assumes "n \<le> 2 ^ 32"
    and "\<And>i j. i < j \<Longrightarrow> j < n \<Longrightarrow> d + of_nat j \<noteq> s + of_nat i"
  shows "i < n \<Longrightarrow> move_down m (d + of_nat n) (s + of_nat n) n (d + of_nat i) = m (s + of_nat i)"
    and "(\<And>i. i < n \<Longrightarrow> b \<noteq> d + of_nat i)
      \<Longrightarrow> move_down m (d + of_nat n) (s + of_nat n) n b = m b"
  using assms
proof (induction n arbitrary: m i b)
  case 0
  { case 1 then show ?case by simp }
  { case 2 then show ?case by simp }
next
  case (Suc n)
  have step: "move_down m (d + of_nat (Suc n)) (s + of_nat (Suc n)) (Suc n)
      = move_down (m(d + of_nat n := m (s + of_nat n))) (d + of_nat n) (s + of_nat n) n" for m
    by (simp add: algebra_simps)
  { case 1
    let ?m = "m(d + of_nat n := m (s + of_nat n))"
    have apart: "d + of_nat j \<noteq> s + of_nat i" if "i < j" "j < n" for i j
      using "1"(3) that by simp
    show ?case
    proof (cases "i = n")
      case True
      have "d + of_nat n \<noteq> d + of_nat k" if "k < n" for k
        using of_nat_u32_eq_0 [of "n - k"] that "1"(2) by (auto simp: of_nat_diff)
      then have "move_down ?m (d + of_nat n) (s + of_nat n) n (d + of_nat n) = ?m (d + of_nat n)"
        using "1"(2) apart by (intro Suc.IH(2)) auto
      then show ?thesis unfolding step True by simp
    next
      case False
      with "1"(1) have "i < n" by simp
      then have "move_down ?m (d + of_nat n) (s + of_nat n) n (d + of_nat i) = ?m (s + of_nat i)"
        using "1"(2) apart by (intro Suc.IH(1)) auto
      moreover have "s + of_nat i \<noteq> d + of_nat n"
        using "1"(3) [of i n] \<open>i < n\<close> by auto
      ultimately show ?thesis using step by simp
    qed }
  { case 2
    let ?m = "m(d + of_nat n := m (s + of_nat n))"
    have apart: "d + of_nat j \<noteq> s + of_nat i" if "i < j" "j < n" for i j
      using "2"(3) that by simp
    have "move_down ?m (d + of_nat n) (s + of_nat n) n b = ?m b"
      using "2"(1,2) apart by (intro Suc.IH(2)) auto
    with "2"(1) [of n] step show ?case by simp }
qed

lemma unat_offset_index: "b = d + of_nat (unat (b - d))" for b d :: u32
  by simp

lemma move_up_eq:
  assumes "n \<le> 2 ^ 32" "\<And>i j. i < j \<Longrightarrow> j < n \<Longrightarrow> d + of_nat i \<noteq> s + of_nat j"
  shows "move_up m d s n = (\<lambda>b. if unat (b - d) < n then m (s + (b - d)) else m b)"
proof
  fix b
  show "move_up m d s n b = (if unat (b - d) < n then m (s + (b - d)) else m b)"
  proof (cases "unat (b - d) < n")
    case True
    with move_up_correct(1) [OF assms, of "unat (b - d)" m] show ?thesis by simp
  next
    case False
    then have "b \<noteq> d + of_nat i" if "i < n" for i
      using that assms(1) by (auto simp: unat_of_nat take_bit_nat_eq_self)
    with False move_up_correct(2) [OF assms, of b m] show ?thesis by simp
  qed
qed

lemma move_down_eq:
  assumes "n \<le> 2 ^ 32" "\<And>i j. i < j \<Longrightarrow> j < n \<Longrightarrow> d + of_nat j \<noteq> s + of_nat i"
  shows "move_down m (d + of_nat n) (s + of_nat n) n
    = (\<lambda>b. if unat (b - d) < n then m (s + (b - d)) else m b)"
proof
  fix b
  show "move_down m (d + of_nat n) (s + of_nat n) n b
    = (if unat (b - d) < n then m (s + (b - d)) else m b)"
  proof (cases "unat (b - d) < n")
    case True
    with move_down_correct(1) [OF assms, of "unat (b - d)" m] show ?thesis by simp
  next
    case False
    then have "b \<noteq> d + of_nat i" if "i < n" for i
      using that assms(1) by (auto simp: unat_of_nat take_bit_nat_eq_self)
    with False move_down_correct(2) [OF assms, of b m] show ?thesis by simp
  qed
qed

text \<open>
  The two blocks may overlap in any way, as long as neither runs past the end of the address
  space; the source must stop one byte short of it, or \<^verbatim>\<open>s + n > d\<close> wraps to 0 and picks the
  wrong direction.
\<close>

lemma unat_add_of_nat: "unat a + i < 2 ^ 32 \<Longrightarrow> unat (a + of_nat i) = unat a + i" for a :: u32
  by (simp add: unat_word_ariths unat_of_nat take_bit_nat_eq_self)

lemma memmove_eq:
  assumes "unat src + unat n < 2 ^ 32" "unat dst + unat n \<le> 2 ^ 32"
  shows "memmove m dst src n = (\<lambda>b. if unat (b - dst) < unat n then m (src + (b - dst)) else m b)"
proof -
  have n: "unat n \<le> 2 ^ 32" using unsigned_less [of n, where ?'a = nat] by simp
  have addr: "unat (dst + of_nat i) = unat dst + i" "unat (src + of_nat i) = unat src + i"
    if "i < unat n" for i
    using that assms by (simp_all add: unat_add_of_nat)
  have over: "src + n > dst \<longleftrightarrow> unat src + unat n > unat dst"
    using assms(1) by (simp add: word_less_nat_alt unat_word_ariths)
  show ?thesis
  proof (cases "src < dst \<and> src + n > dst")
    case True
    then have "dst + of_nat j \<noteq> src + of_nat i" if "i < j" "j < unat n" for i j
      using that addr [of i] addr [of j] by (auto simp: word_less_nat_alt dest!: unat_cong)
    from move_down_eq [OF n this] True show ?thesis by (simp add: memmove_def)
  next
    case False
    then have "dst + of_nat i \<noteq> src + of_nat j" if "i < j" "j < unat n" for i j
      using that addr [of i] addr [of j] over by (auto simp: word_less_nat_alt dest!: unat_cong)
    from move_up_eq [OF n this] show ?thesis unfolding memmove_def if_not_P [OF False] .
  qed
qed

section \<open>Properties\<close>

text \<open>
  \<open>memset\<close> sets exactly the \<open>n\<close> bytes from \<open>dst\<close> on to the low byte of \<open>c\<close>, whichever of
  its two paths (a word or a byte at a time) it takes.
\<close>

theorem memset_fills:
  "memset m dst c n = (\<lambda>b. if unat (b - dst) < unat n then ucast c else m b)"
  by (rule memset_eq)

text \<open>
  C39: \<open>memmove\<close> puts the old bytes of the source block into the destination block and changes
  nothing else, however the two blocks overlap.
\<close>

theorem memmove_overlap_safe:
  assumes "unat src + unat n < 2 ^ 32" "unat dst + unat n \<le> 2 ^ 32"
  shows "memmove m dst src n = (\<lambda>b. if unat (b - dst) < unat n then m (src + (b - dst)) else m b)"
  using assms by (rule memmove_eq)

theorem memmove_overlap_safe_witness:
  "unat (100 :: u32) + unat (8 :: u32) < 2 ^ 32 \<and> unat (104 :: u32) + unat (8 :: u32) \<le> 2 ^ 32 \<and>
   memmove ucast 104 100 8 110 = 106"
proof -
  have h: "unat (100 :: u32) + unat (8 :: u32) < 2 ^ 32" "unat (104 :: u32) + unat (8 :: u32) \<le> 2 ^ 32"
    by simp_all
  show ?thesis using h by (simp add: memmove_overlap_safe [OF h])
qed

end
