(* ===== verification/Kalloc.thy ===== *)
theory Kalloc
  imports Spinlock Memlib
begin

text \<open>
  The physical page allocator, \<^verbatim>\<open>kalloc.c\<close>.  The free list is threaded through the free pages
  themselves: \<^verbatim>\<open>struct run\<close> is the first word of each.  The record \<open>kmem\<close> extends the
  processor-and-locks state with memory, the list head and \<^verbatim>\<open>use_lock\<close>; \<^verbatim>\<open>end\<close>, which the
  linker places, is a field that no code writes.  \<open>free_pages\<close> relates a state to the list
  of pages it holds free; the locale \<open>page_allocator\<close> is the contract clients rely
  on, interpreted here for \<open>kalloc\<close> and \<open>kfree\<close>.
\<close>

record kmem = kcore +
  mem :: memory
  km_use_lock :: bool
  km_freelist :: u32
  k_end :: u32

definition kfree :: "u32 \<Rightarrow> 'a kmem_scheme \<Rightarrow> ('a kmem_scheme, unit) res" where
  "kfree v s =
     (if v mod PGSIZE \<noteq> 0 \<or> v < k_end s \<or> v2p v \<ge> PHYSTOP then Panic ''kfree''
      else let s = s\<lparr>mem := memset (mem s) v 1 PGSIZE\<rparr>
      in rbind (rwhen (km_use_lock s) (acquire KmemLock) s) (\<lambda>_ s.
         let s = s\<lparr>mem := store32 (mem s) v (km_freelist s)\<rparr>;
             s = s\<lparr>km_freelist := v\<rparr>
         in rwhen (km_use_lock s) (release KmemLock) s))"

definition kalloc :: "'a kmem_scheme \<Rightarrow> ('a kmem_scheme, u32) res" where
  "kalloc s =
     rbind (rwhen (km_use_lock s) (acquire KmemLock) s) (\<lambda>_ s.
       let r = km_freelist s;
           s = (if r \<noteq> 0 then s\<lparr>km_freelist := load32 (mem s) r\<rparr> else s)
       in rbind (rwhen (km_use_lock s) (release KmemLock) s) (\<lambda>_ s. Ok r s))"

text \<open>
  The loop of \<open>freerange\<close> stops because \<open>kfree\<close> panics at the first page past
  \<open>PHYSTOP\<close>, long before the address can wrap around.
\<close>

lemma kfree_Ok_bound: "kfree p s = Ok x t \<Longrightarrow> unat p < 0x8E000000"
proof -
  assume "kfree p s = Ok x t"
  then have "v2p p < PHYSTOP" by (auto simp: kfree_def split: if_splits)
  then show ?thesis
    by (simp add: v2p_def word_less_nat_alt unat_sub_if_size word_size split: if_splits)
qed

function freerange_loop :: "u32 \<Rightarrow> u32 \<Rightarrow> 'a kmem_scheme \<Rightarrow> ('a kmem_scheme, unit) res" where
  "freerange_loop p vend s =
     (if p + PGSIZE \<le> vend
      then rbind (kfree p s) (\<lambda>_ s. freerange_loop (p + PGSIZE) vend s)
      else Ok () s)"
  by pat_completeness auto
termination
proof (relation "measure (\<lambda>(p, vend, s). 2 ^ 32 - unat p)", goal_cases)
  case 1
  show ?case by simp
next
  case (2 p vend s x s')
  then have "unat (p + PGSIZE) = unat p + 4096"
    using kfree_Ok_bound [of p s x s'] by (simp add: unat_word_ariths)
  then show ?case using kfree_Ok_bound [OF 2(2)] by simp
qed

declare freerange_loop.simps [simp del]

definition freerange :: "u32 \<Rightarrow> u32 \<Rightarrow> 'a kmem_scheme \<Rightarrow> ('a kmem_scheme, unit) res" where
  "freerange vstart vend s = freerange_loop (PGROUNDUP vstart) vend s"

definition kinit1 :: "u32 \<Rightarrow> u32 \<Rightarrow> 'a kmem_scheme \<Rightarrow> ('a kmem_scheme, unit) res" where
  "kinit1 vstart vend s = freerange vstart vend ((initlock KmemLock s)\<lparr>km_use_lock := False\<rparr>)"

definition kinit2 :: "u32 \<Rightarrow> u32 \<Rightarrow> 'a kmem_scheme \<Rightarrow> ('a kmem_scheme, unit) res" where
  "kinit2 vstart vend s = rbind (freerange vstart vend s) (\<lambda>_ s. Ok () (s\<lparr>km_use_lock := True\<rparr>))"

section \<open>Closed forms\<close>

definition kmem_ready :: "'a kmem_scheme \<Rightarrow> bool" where
  "kmem_ready s \<longleftrightarrow> (km_use_lock s \<longrightarrow> lock_ready KmemLock s)"

text \<open>A page \<open>kfree\<close> accepts: aligned, above the kernel image, below \<open>PHYSTOP\<close>.\<close>

definition page_ok :: "u32 \<Rightarrow> u32 \<Rightarrow> bool" where
  "page_ok e v \<longleftrightarrow> pg_aligned v \<and> e \<le> v \<and> v2p v < PHYSTOP"

lemma page_ok_aligned [simp]: "page_ok e v \<Longrightarrow> pg_aligned v"
  by (simp add: page_ok_def)

lemma page_ok_nonzero: "page_ok e v \<Longrightarrow> v \<noteq> 0"
  by (auto simp: page_ok_def v2p_def)

lemma kalloc_eq:
  assumes "kmem_ready s"
  shows "kalloc s = Ok (km_freelist s)
    (if km_freelist s \<noteq> 0 then s\<lparr>km_freelist := load32 (mem s) (km_freelist s)\<rparr> else s)"
proof (cases "km_use_lock s")
  case True
  with assms have r: "lock_ready KmemLock s" by (simp add: kmem_ready_def)
  then show ?thesis
    by (simp add: kalloc_def True acquire_ready release_held [OF r] Let_def held_def)
next
  case False
  then show ?thesis by (simp add: kalloc_def Let_def)
qed

lemma kfree_eq:
  assumes "kmem_ready s" "page_ok (k_end s) v"
  shows "kfree v s = Ok () (s\<lparr>mem := store32 (memset (mem s) v 1 PGSIZE) v (km_freelist s),
    km_freelist := v\<rparr>)"
proof -
  have g: "\<not> (v mod PGSIZE \<noteq> 0 \<or> v < k_end s \<or> v2p v \<ge> PHYSTOP)"
    using assms(2) by (auto simp: page_ok_def pg_aligned_def)
  let ?s = "s\<lparr>mem := memset (mem s) v 1 PGSIZE\<rparr>"
  show ?thesis
  proof (cases "km_use_lock s")
    case True
    with assms have r: "lock_ready KmemLock ?s" by (simp add: kmem_ready_def lock_ready_def)
    then show ?thesis unfolding kfree_def if_not_P [OF g]
      by (simp add: True acquire_ready release_held [OF r] Let_def held_def)
  next
    case False
    then show ?thesis unfolding kfree_def if_not_P [OF g] by (simp add: Let_def)
  qed
qed

lemma kfree_panic:
  assumes "\<not> page_ok (k_end s) v"
  shows "kfree v s = Panic ''kfree''"
proof -
  have "v mod PGSIZE \<noteq> 0 \<or> v < k_end s \<or> v2p v \<ge> PHYSTOP"
    using assms unfolding page_ok_def pg_aligned_def by (meson linorder_not_less)
  then show ?thesis unfolding kfree_def by (rule if_P)
qed

section \<open>The free list\<close>

fun runs :: "memory \<Rightarrow> u32 \<Rightarrow> u32 list \<Rightarrow> bool" where
  "runs m p [] \<longleftrightarrow> p = 0"
| "runs m p (x # xs) \<longleftrightarrow> p = x \<and> p \<noteq> 0 \<and> runs m (load32 m p) xs"

definition free_pages :: "'a kmem_scheme \<Rightarrow> u32 list \<Rightarrow> bool" where
  "free_pages s fl \<longleftrightarrow>
     runs (mem s) (km_freelist s) fl \<and> distinct fl \<and> (\<forall>p \<in> set fl. page_ok (k_end s) p)"

lemma runs_cong: "(\<And>p. p \<in> set xs \<Longrightarrow> load32 m p = load32 m' p) \<Longrightarrow> runs m p xs = runs m' p xs"
  by (induction xs arbitrary: p) auto

lemma runs_frame:
  assumes "\<And>p. p \<in> set xs \<Longrightarrow> pg_aligned p"
    and "\<And>b. PGROUNDDOWN b \<in> set xs \<Longrightarrow> m b = m' b"
  shows "runs m p xs = runs m' p xs"
  using assms by (intro runs_cong load32_page_cong) (auto simp: pg_aligned_aligned4)

lemma free_pages_frame:
  assumes "free_pages s fl" "km_freelist t = km_freelist s" "k_end t = k_end s"
    and "\<And>b. PGROUNDDOWN b \<in> set fl \<Longrightarrow> mem t b = mem s b"
  shows "free_pages t fl"
proof -
  have "runs (mem t) (km_freelist t) fl = runs (mem s) (km_freelist s) fl"
    unfolding assms(2) using assms by (intro runs_frame) (auto simp: free_pages_def)
  with assms show ?thesis by (simp add: free_pages_def)
qed

lemma free_pages_Nil: "free_pages s [] \<longleftrightarrow> km_freelist s = 0"
  by (simp add: free_pages_def)

lemma free_pages_ConsD:
  "free_pages s (p # fl) \<Longrightarrow> km_freelist s = p \<and> p \<noteq> 0 \<and> page_ok (k_end s) p \<and> p \<notin> set fl"
  by (auto simp: free_pages_def)

lemma kalloc_Nil: "kmem_ready s \<Longrightarrow> free_pages s [] \<Longrightarrow> kalloc s = Ok 0 s"
  by (simp add: kalloc_eq free_pages_Nil)

lemma kalloc_Cons:
  assumes "kmem_ready s" "free_pages s (p # fl)"
  shows "kalloc s = Ok p (s\<lparr>km_freelist := load32 (mem s) p\<rparr>)"
    and "free_pages (s\<lparr>km_freelist := load32 (mem s) p\<rparr>) fl"
  using assms by (auto simp: kalloc_eq free_pages_def)

lemma store32_in_page:
  "pg_aligned p \<Longrightarrow> PGROUNDDOWN b \<noteq> p \<Longrightarrow> store32 (memset m p c PGSIZE) p v b = m b"
  by (simp add: store32_other_page pg_aligned_aligned4 memset_page)

lemma kfree_page:
  assumes "kmem_ready s" "free_pages s fl" "page_ok (k_end s) p" "p \<notin> set fl"
  shows "\<exists>t. kfree p s = Ok () t \<and> kmem_ready t \<and> free_pages t (p # fl) \<and> k_end t = k_end s
    \<and> (\<forall>b. PGROUNDDOWN b \<noteq> p \<longrightarrow> mem t b = mem s b)
    \<and> t = s\<lparr>mem := mem t, km_freelist := p\<rparr>"
proof -
  let ?m = "store32 (memset (mem s) p 1 PGSIZE) p (km_freelist s)"
  have al: "pg_aligned q" if "q \<in> set fl" for q
    using assms(2) that by (auto simp: free_pages_def)
  have "runs ?m (km_freelist s) fl = runs (mem s) (km_freelist s) fl"
    using assms(3,4) al by (intro runs_frame) (auto intro!: store32_in_page)
  with assms have "free_pages (s\<lparr>mem := ?m, km_freelist := p\<rparr>) (p # fl)"
    by (auto simp: free_pages_def page_ok_nonzero)
  moreover have "kmem_ready (s\<lparr>mem := ?m, km_freelist := p\<rparr>)"
    using assms(1) by (simp add: kmem_ready_def lock_ready_def)
  ultimately show ?thesis
    using assms by (auto simp: kfree_eq store32_in_page)
qed

section \<open>The allocator's contract\<close>

text \<open>
  What a client of the allocator may rely on: \<open>pool s ps\<close> says that the pages \<open>ps\<close> are free in
  \<open>s\<close>, the next to be handed out first.  Allocation takes the first page and leaves
  memory alone; freeing adds a page and writes to no other.
\<close>

locale page_allocator =
  fixes alloc :: "'s \<Rightarrow> ('s, u32) res"
    and free :: "u32 \<Rightarrow> 's \<Rightarrow> ('s, unit) res"
    and ready :: "'s \<Rightarrow> bool"
    and pool :: "'s \<Rightarrow> u32 list \<Rightarrow> bool"
    and lim :: "'s \<Rightarrow> 'l"
    and okp :: "'l \<Rightarrow> u32 \<Rightarrow> bool"
    and content :: "'s \<Rightarrow> memory"
  assumes alloc_Nil: "ready s \<Longrightarrow> pool s [] \<Longrightarrow> alloc s = Ok 0 s"
    and alloc_Cons: "ready s \<Longrightarrow> pool s (p # ps) \<Longrightarrow>
      \<exists>t. alloc s = Ok p t \<and> ready t \<and> pool t ps \<and> lim t = lim s \<and> content t = content s"
    and free_page: "ready s \<Longrightarrow> pool s ps \<Longrightarrow> okp (lim s) p \<Longrightarrow> p \<notin> set ps \<Longrightarrow>
      \<exists>t. free p s = Ok () t \<and> ready t \<and> pool t (p # ps) \<and> lim t = lim s
        \<and> (\<forall>b. PGROUNDDOWN b \<noteq> p \<longrightarrow> content t b = content s b)"
    and pool_ok: "pool s ps \<Longrightarrow> distinct ps \<and> (\<forall>p \<in> set ps. okp (lim s) p \<and> p \<noteq> 0)"

text \<open>A client that allocates \<open>n\<close> pages in a row, and one that frees a list of them.\<close>

fun alloc_many :: "('s \<Rightarrow> ('s, u32) res) \<Rightarrow> nat \<Rightarrow> 's \<Rightarrow> ('s, u32 list) res" where
  "alloc_many al 0 s = Ok [] s"
| "alloc_many al (Suc n) s =
     rbind (al s) (\<lambda>p s. rbind (alloc_many al n s) (\<lambda>ps s. Ok (p # ps) s))"

fun free_many :: "(u32 \<Rightarrow> 's \<Rightarrow> ('s, unit) res) \<Rightarrow> u32 list \<Rightarrow> 's \<Rightarrow> ('s, unit) res" where
  "free_many fr [] s = Ok () s"
| "free_many fr (p # ps) s = rbind (fr p s) (\<lambda>_ s. free_many fr ps s)"

context page_allocator
begin

lemma alloc_many_pool:
  "ready s \<Longrightarrow> pool s ps \<Longrightarrow> n \<le> length ps \<Longrightarrow>
   \<exists>t. alloc_many alloc n s = Ok (take n ps) t \<and> ready t \<and> pool t (drop n ps)
     \<and> lim t = lim s \<and> content t = content s"
proof (induction n arbitrary: s ps)
  case 0
  then show ?case by simp
next
  case (Suc n)
  then obtain p qs where ps: "ps = p # qs" "n \<le> length qs" by (cases ps) auto
  with Suc.prems obtain t where "alloc s = Ok p t" "ready t" "pool t qs"
    "lim t = lim s" "content t = content s" using alloc_Cons by blast
  with Suc.IH [of t qs] ps show ?case by auto
qed

lemma free_many_pool:
  "ready s \<Longrightarrow> pool s ps \<Longrightarrow> distinct (qs @ ps) \<Longrightarrow> (\<forall>q \<in> set qs. okp (lim s) q) \<Longrightarrow>
   \<exists>t. free_many free qs s = Ok () t \<and> ready t \<and> pool t (rev qs @ ps) \<and> lim t = lim s
     \<and> (\<forall>b. PGROUNDDOWN b \<notin> set qs \<longrightarrow> content t b = content s b)"
proof (induction qs arbitrary: s ps)
  case Nil
  then show ?case by auto
next
  case (Cons q qs)
  then obtain t where t: "free q s = Ok () t" "ready t" "pool t (q # ps)" "lim t = lim s"
    "\<forall>b. PGROUNDDOWN b \<noteq> q \<longrightarrow> content t b = content s b"
    using free_page [of s ps q] by auto
  with Cons.IH [of t "q # ps"] Cons.prems show ?case by fastforce
qed

lemma free_then_alloc:
  "ready s \<Longrightarrow> pool s ps \<Longrightarrow> okp (lim s) p \<Longrightarrow> p \<notin> set ps \<Longrightarrow>
   \<exists>t u. free p s = Ok () t \<and> alloc t = Ok p u \<and> pool u ps"
  using free_page alloc_Cons by metis

end

interpretation kal: page_allocator kalloc kfree kmem_ready free_pages k_end page_ok mem
proof (unfold_locales, goal_cases)
  case (1 s)
  then show ?case by (rule kalloc_Nil)
next
  case (2 s p ps)
  then show ?case
    using kalloc_Cons [of s p ps] by (auto simp: kmem_ready_def lock_ready_def)
next
  case (3 s ps p)
  then show ?case using kfree_page [of s ps p] by auto
next
  case (4 s ps)
  then show ?case by (auto simp: free_pages_def dest: page_ok_nonzero)
qed

section \<open>Initialisation\<close>

text \<open>The pages \<open>freerange\<close> hands to \<open>kfree\<close>, in order.\<close>

fun pages_from :: "u32 \<Rightarrow> nat \<Rightarrow> u32 list" where
  "pages_from p 0 = []"
| "pages_from p (Suc n) = p # pages_from (p + PGSIZE) n"

lemma pages_from_2: "pages_from p 2 = [p, p + PGSIZE]"
  by (simp only: numeral_2_eq_2 pages_from.simps)

lemma freerange_loop_free_many:
  assumes "\<And>i. i < n \<Longrightarrow> p + PGSIZE * of_nat i + PGSIZE \<le> vend"
    and "\<not> p + PGSIZE * of_nat n + PGSIZE \<le> vend"
  shows "freerange_loop p vend s = free_many kfree (pages_from p n) s"
  using assms
proof (induction n arbitrary: p s)
  case 0
  then show ?case by (simp add: freerange_loop.simps)
next
  case (Suc n)
  have "p + PGSIZE \<le> vend" using Suc.prems(1) [of 0] by simp
  moreover have "(p + PGSIZE) + PGSIZE * of_nat i + PGSIZE \<le> vend" if "i < n" for i
    using Suc.prems(1) [of "Suc i"] that by (simp add: algebra_simps)
  then have "freerange_loop (p + PGSIZE) vend =
      (free_many kfree (pages_from (p + PGSIZE) n) :: 'a kmem_scheme \<Rightarrow> _)"
    using Suc.prems(2) by (intro ext Suc.IH) (simp_all add: algebra_simps)
  ultimately show ?case by (simp add: freerange_loop.simps [of p])
qed

lemma in_pages_from:
  "unat p + 4096 * n \<le> 2 ^ 32 \<Longrightarrow> q \<in> set (pages_from p n) \<longleftrightarrow>
     (\<exists>i < n. unat q = unat p + 4096 * i)"
proof (induction n arbitrary: p)
  case 0
  then show ?case by simp
next
  case (Suc n)
  show ?case
  proof (cases n)
    case 0
    then show ?thesis by (auto simp: word_unat_eq_iff)
  next
    case (Suc m)
    with Suc.prems have u: "unat (p + PGSIZE) = unat p + 4096" by (simp add: unat_word_ariths)
    with Suc.prems have "q \<in> set (pages_from (p + PGSIZE) n) \<longleftrightarrow> (\<exists>i < n. unat q = unat p + 4096 * Suc i)"
      by (subst Suc.IH) auto
    then show ?thesis by (auto simp: word_unat_eq_iff less_Suc_eq_0_disj)
  qed
qed

lemma distinct_pages_from: "unat p + 4096 * n \<le> 2 ^ 32 \<Longrightarrow> distinct (pages_from p n)"
proof (induction n arbitrary: p)
  case 0
  then show ?case by simp
next
  case (Suc n)
  show ?case
  proof (cases n)
    case 0
    then show ?thesis by simp
  next
    case (Suc m)
    with Suc.prems have u: "unat (p + PGSIZE) = unat p + 4096" by (simp add: unat_word_ariths)
    with Suc.prems Suc.IH [of "p + PGSIZE"] show ?thesis
      by (auto simp: in_pages_from)
  qed
qed

text \<open>
  \<open>kinit1\<close> and \<open>kinit2\<close> are called with page-aligned ends; between a start above the kernel image
  and an end within physical memory, every whole page becomes free, the last one first.
\<close>

lemma freerange_pages:
  assumes "kmem_ready s" "free_pages s fl"
    and p: "p = PGROUNDUP vstart" "unat p + 4096 * n \<le> unat vend" "unat vend < unat p + 4096 * Suc n"
    and e: "k_end s \<le> p" "unat KERNBASE \<le> unat p" "unat vend \<le> unat (p2v PHYSTOP)"
    and fl: "\<forall>q \<in> set fl. q \<notin> set (pages_from p n)"
  shows "\<exists>t. freerange vstart vend s = Ok () t \<and> kmem_ready t
    \<and> free_pages t (rev (pages_from p n) @ fl) \<and> k_end t = k_end s"
proof -
  have top: "unat vend \<le> 0x8E000000" using e(3) by (simp add: p2v_def)
  have n: "unat p + 4096 * n \<le> 2 ^ 32" using p(2) top by simp
  have off: "unat (p + PGSIZE * of_nat i + PGSIZE) = unat p + 4096 * Suc i" if "i \<le> n" for i
  proof -
    have "unat p + 4096 * Suc i < 2 ^ 32" using p(2) top that by simp
    then have "unat (p + of_nat (4096 * Suc i)) = unat p + 4096 * Suc i" by (rule unat_add_of_nat)
    then show ?thesis by (simp add: algebra_simps)
  qed
  have "freerange vstart vend s = free_many kfree (pages_from p n) s"
    unfolding freerange_def p(1) [symmetric]
  proof (rule freerange_loop_free_many)
    fix i assume "i < n"
    then show "p + PGSIZE * of_nat i + PGSIZE \<le> vend"
      using off [of i] p(2) by (simp add: word_le_nat_alt)
  next
    show "\<not> p + PGSIZE * of_nat n + PGSIZE \<le> vend"
      using off [of n] p(3) by (simp add: word_le_nat_alt)
  qed
  moreover have "page_ok (k_end s) q" if q: "q \<in> set (pages_from p n)" for q
  proof -
    obtain i where i: "i < n" "unat q = unat p + 4096 * i"
      using q in_pages_from [OF n, of q] by blast
    have "pg_aligned p" using p(1) by simp
    then have "pg_aligned q" using i by (simp add: pg_aligned_unat)
    moreover have "k_end s \<le> q" using e(1) i by (simp add: word_le_nat_alt)
    moreover have "v2p q < PHYSTOP"
      using i e(2) p(2) top by (simp add: v2p_def word_less_nat_alt unat_sub_if_size word_size)
    ultimately show ?thesis by (simp add: page_ok_def)
  qed
  moreover have disj: "set (pages_from p n) \<inter> set fl = {}" using fl by blast
  ultimately show ?thesis
    using kal.free_many_pool [OF assms(1,2), of "pages_from p n"] disj distinct_pages_from [OF n]
      assms(2) by (auto simp: free_pages_def)
qed

section \<open>Properties\<close>

text \<open>
  \<open>kalloc\<close> hands out the page at the head of the free list and shortens the list by it, touching no
  memory; with nothing free it returns 0 and changes nothing.
\<close>

theorem kalloc_takes_head:
  assumes "kmem_ready s" "free_pages s fl"
  shows "case fl of
      [] \<Rightarrow> kalloc s = Ok 0 s
    | p # ps \<Rightarrow> (\<exists>t. kalloc s = Ok p t \<and> free_pages t ps \<and> kmem_ready t \<and> mem t = mem s
        \<and> page_ok (k_end s) p \<and> p \<notin> set ps)"
proof (cases fl)
  case Nil
  with assms show ?thesis by (simp add: kal.alloc_Nil)
next
  case (Cons p ps)
  with assms kal.alloc_Cons [of s p ps] kal.pool_ok [of s fl] show ?thesis by auto
qed

definition boot_kmem :: kmem where
  "boot_kmem = kcore.extend boot_core
     \<lparr>mem = (\<lambda>_. 0), km_use_lock = False, km_freelist = 0x80400000, k_end = 0x80110000\<rparr>"

lemma boot_kmem_pages: "kmem_ready boot_kmem" "free_pages boot_kmem [0x80400000]"
  by (simp_all add: boot_kmem_def kcore.defs boot_core_def kmem_ready_def free_pages_def
      load32_def page_ok_def pg_aligned_def v2p_def)

text \<open>
  C37: \<open>kfree\<close> panics on an address that is not a whole page between the end of the kernel and
  \<open>PHYSTOP\<close>; a page it accepts goes to the front of the free list, is the next one \<open>kalloc\<close> returns, and no
  byte outside it changes.
\<close>

theorem kfree_returns_page:
  assumes "kmem_ready s" "free_pages s fl" "p \<notin> set fl"
  shows "if page_ok (k_end s) p
    then \<exists>t u. kfree p s = Ok () t \<and> free_pages t (p # fl) \<and> kmem_ready t
      \<and> (\<forall>b. PGROUNDDOWN b \<noteq> p \<longrightarrow> mem t b = mem s b) \<and> kalloc t = Ok p u \<and> free_pages u fl
    else kfree p s = Panic ''kfree''"
proof (cases "page_ok (k_end s) p")
  case True
  then obtain t where t: "kfree p s = Ok () t" "kmem_ready t" "free_pages t (p # fl)"
    "\<forall>b. PGROUNDDOWN b \<noteq> p \<longrightarrow> mem t b = mem s b"
    using assms kal.free_page by metis
  then obtain u where "kalloc t = Ok p u" "free_pages u fl" using kal.alloc_Cons by metis
  with t True show ?thesis by auto
next
  case False
  then show ?thesis by (simp add: kfree_panic)
qed

theorem kfree_returns_page_witness:
  "kmem_ready boot_kmem \<and> free_pages boot_kmem [0x80400000] \<and>
   (\<exists>t u. kfree 0x80401000 boot_kmem = Ok () t \<and> free_pages t [0x80401000, 0x80400000]
      \<and> kalloc t = Ok 0x80401000 u) \<and>
   kfree 0x80401004 boot_kmem = Panic ''kfree''"
proof -
  have "page_ok (k_end boot_kmem) 0x80401000" "\<not> page_ok (k_end boot_kmem) 0x80401004"
    by (simp_all add: boot_kmem_def kcore.defs page_ok_def pg_aligned_def v2p_def)
  then show ?thesis
    using boot_kmem_pages kfree_returns_page [of boot_kmem "[0x80400000]" "0x80401000"]
      kfree_returns_page [of boot_kmem "[0x80400000]" "0x80401004"] by auto
qed

text \<open>
  C38: \<open>freerange\<close>, the body of \<open>kinit1\<close> and \<open>kinit2\<close>, puts exactly the whole pages between its bounds on the
  free list, the last one first, keeping what was free before.
\<close>

theorem freerange_frees_range:
  assumes "kmem_ready s" "free_pages s fl"
    and "unat (PGROUNDUP vstart) + 4096 * n \<le> unat vend"
    and "unat vend < unat (PGROUNDUP vstart) + 4096 * Suc n"
    and "k_end s \<le> PGROUNDUP vstart" "unat KERNBASE \<le> unat (PGROUNDUP vstart)"
    and "unat vend \<le> unat (p2v PHYSTOP)"
    and "\<forall>q \<in> set fl. q \<notin> set (pages_from (PGROUNDUP vstart) n)"
  shows "\<exists>t. freerange vstart vend s = Ok () t \<and> kmem_ready t
    \<and> free_pages t (rev (pages_from (PGROUNDUP vstart) n) @ fl)"
  using freerange_pages [OF assms(1,2) refl assms(3-8)] by blast

theorem freerange_frees_range_witness:
  "\<exists>t. freerange 0x80500123 0x80503456 boot_kmem = Ok () t \<and>
     free_pages t [0x80502000, 0x80501000, 0x80400000]"
proof -
  have p: "PGROUNDUP 0x80500123 = 0x80501000" by (simp add: PGROUNDUP_def)
  have "\<exists>t. freerange 0x80500123 0x80503456 boot_kmem = Ok () t \<and> kmem_ready t
    \<and> free_pages t (rev (pages_from (PGROUNDUP 0x80500123) 2) @ [0x80400000])"
    by (rule freerange_frees_range [OF boot_kmem_pages])
      (simp_all add: p p2v_def boot_kmem_def kcore.defs pages_from_2)
  then show ?thesis by (auto simp: p pages_from_2)
qed

end
