(* ===== verification/Vm.thy ===== *)
theory Vm
  imports Kalloc
begin

text \<open>
  Page tables and address spaces, \<^verbatim>\<open>vm.c\<close>.  A page directory and its page tables are
  ordinary pages of kernel memory: \<open>walkpgdir\<close> and \<open>mappages\<close> read and write their entries with
  \<open>load32\<close> and \<open>store32\<close>.  The abstract view of an address space is \<open>translate\<close>, the partial function
  from virtual addresses to frames and flags that the hardware walk computes; \<open>pt_wf\<close> is the shape
  invariant (aligned, distinct table pages), and \<open>pt_pages\<close> the pages the structure occupies, kept apart
  from the free list.  Loading a program segment (\<open>loaduvm\<close>) reads a file and is modelled
  with \<^verbatim>\<open>exec\<close>; segment descriptors and the task state are processor set-up with no effect on the
  address space.
\<close>

record vmst = kmem +
  k_data :: u32     \<comment> \<open>the linker's \<^verbatim>\<open>data\<close>: start of the kernel's writable data\<close>
  kpgdir :: u32
  cr3 :: u32        \<comment> \<open>the hardware's page-table base register\<close>

section \<open>Walking and mapping\<close>

definition walkpgdir :: "u32 \<Rightarrow> u32 \<Rightarrow> bool \<Rightarrow> 'a kmem_scheme \<Rightarrow> ('a kmem_scheme, u32) res" where
  "walkpgdir pgdir va alloc s =
     (let pde = pgdir + 4 * PDX va; e = load32 (mem s) pde
      in if e AND PTE_P \<noteq> 0 then Ok (p2v (PTE_ADDR e) + 4 * PTX va) s
         else if \<not> alloc then Ok 0 s
         else rbind (kalloc s) (\<lambda>pgtab s.
           if pgtab = 0 then Ok 0 s
           else let s = s\<lparr>mem := memset (mem s) pgtab 0 PGSIZE\<rparr>;
                    s = s\<lparr>mem := store32 (mem s) pde (v2p pgtab OR PTE_P OR PTE_W OR PTE_U)\<rparr>
                in Ok (pgtab + 4 * PTX va) s))"

text \<open>
  The loop of \<open>mappages\<close> ends at \<^verbatim>\<open>a == last\<close>; \<open>n\<close> bounds the pages still to come.
\<close>

fun mappages_loop ::
  "nat \<Rightarrow> u32 \<Rightarrow> u32 \<Rightarrow> u32 \<Rightarrow> u32 \<Rightarrow> u32 \<Rightarrow> 'a kmem_scheme \<Rightarrow> ('a kmem_scheme, int) res" where
  "mappages_loop n pgdir a lastp pa perm s =
     rbind (walkpgdir pgdir a True s) (\<lambda>pte s.
       if pte = 0 then Ok (- 1) s
       else if load32 (mem s) pte AND PTE_P \<noteq> 0 then Panic ''remap''
       else let s = s\<lparr>mem := store32 (mem s) pte (pa OR perm OR PTE_P)\<rparr>
       in if a = lastp then Ok 0 s
          else (case n of
              0 \<Rightarrow> Diverge
            | Suc n \<Rightarrow> mappages_loop n pgdir (a + PGSIZE) lastp (pa + PGSIZE) perm s))"

declare mappages_loop.simps [simp del]

definition mappages ::
  "u32 \<Rightarrow> u32 \<Rightarrow> u32 \<Rightarrow> u32 \<Rightarrow> u32 \<Rightarrow> 'a kmem_scheme \<Rightarrow> ('a kmem_scheme, int) res" where
  "mappages pgdir va sz pa perm s =
     (let a = PGROUNDDOWN va; lastp = PGROUNDDOWN (va + sz - 1)
      in mappages_loop (unat (lastp - a) div 4096) pgdir a lastp pa perm s)"

section \<open>The kernel part of an address space\<close>

definition kmap :: "u32 \<Rightarrow> (u32 \<times> u32 \<times> u32 \<times> u32) list" where
  "kmap data =
     [(KERNBASE, 0, EXTMEM, PTE_W),
      (KERNLINK, v2p KERNLINK, v2p data, 0),
      (data, v2p data, PHYSTOP, PTE_W),
      (DEVSPACE, DEVSPACE, 0, PTE_W)]"

fun setupkvm_loop ::
  "(u32 \<times> u32 \<times> u32 \<times> u32) list \<Rightarrow> u32 \<Rightarrow> 'a vmst_scheme \<Rightarrow> ('a vmst_scheme, u32) res" where
  "setupkvm_loop [] pgdir s = Ok pgdir s"
| "setupkvm_loop ((virt, phys_start, phys_end, perm) # ks) pgdir s =
     rbind (mappages pgdir virt (phys_end - phys_start) phys_start perm s) (\<lambda>r s.
       if r < 0 then Ok 0 s else setupkvm_loop ks pgdir s)"

definition setupkvm :: "'a vmst_scheme \<Rightarrow> ('a vmst_scheme, u32) res" where
  "setupkvm s =
     rbind (kalloc s) (\<lambda>pgdir s.
       if pgdir = 0 then Ok 0 s
       else let s = s\<lparr>mem := memset (mem s) pgdir 0 PGSIZE\<rparr>
       in if p2v PHYSTOP > DEVSPACE then Panic ''PHYSTOP too high''
          else setupkvm_loop (kmap (k_data s)) pgdir s)"

definition switchkvm :: "'a vmst_scheme \<Rightarrow> ('a vmst_scheme, unit) res" where
  "switchkvm s = Ok () (s\<lparr>cr3 := v2p (kpgdir s)\<rparr>)"

definition kvmalloc :: "'a vmst_scheme \<Rightarrow> ('a vmst_scheme, unit) res" where
  "kvmalloc s = rbind (setupkvm s) (\<lambda>pgdir s. switchkvm (s\<lparr>kpgdir := pgdir\<rparr>))"

section \<open>User memory\<close>

text \<open>
  Bytes copied in from outside the modelled memory (the initial program, a buffer of the
  caller) come as a list.
\<close>

definition write_bytes :: "memory \<Rightarrow> u32 \<Rightarrow> u8 list \<Rightarrow> memory" where
  "write_bytes m a bs = (\<lambda>b. if unat (b - a) < length bs then bs ! unat (b - a) else m b)"

text \<open>\<open>inituvm\<close> uses the page \<open>kalloc\<close> returns without checking it: 0 is a write through a null pointer.\<close>

definition inituvm :: "u32 \<Rightarrow> u8 list \<Rightarrow> 'a kmem_scheme \<Rightarrow> ('a kmem_scheme, unit) res" where
  "inituvm pgdir init s =
     (if length init \<ge> 4096 then Panic ''inituvm: more than a page''
      else rbind (kalloc s) (\<lambda>pg s.
        if pg = 0 then Fault ''inituvm: null page''
        else let s = s\<lparr>mem := memset (mem s) pg 0 PGSIZE\<rparr>
        in rbind (mappages pgdir 0 PGSIZE (v2p pg) (PTE_W OR PTE_U) s) (\<lambda>_ s.
             Ok () (s\<lparr>mem := write_bytes (mem s) pg init\<rparr>))))"

text \<open>
  \<open>deallocuvm\<close>: when a page table is missing the loop adds 1024 pages to \<open>a\<close>, wherever in
  the missing table's range \<open>a\<close> stood.  The fuel is the number of pages of the address
  space.
\<close>

fun deallocuvm_loop :: "nat \<Rightarrow> u32 \<Rightarrow> u32 \<Rightarrow> u32 \<Rightarrow> 'a kmem_scheme \<Rightarrow> ('a kmem_scheme, unit) res" where
  "deallocuvm_loop n pgdir a oldsz s =
     (if a < oldsz then
        (case n of
           0 \<Rightarrow> Diverge
         | Suc n \<Rightarrow>
             rbind (walkpgdir pgdir a False s) (\<lambda>pte s.
               if pte = 0 then deallocuvm_loop n pgdir (a + (NPTENTRIES - 1) * PGSIZE + PGSIZE) oldsz s
               else if load32 (mem s) pte AND PTE_P \<noteq> 0 then
                 let pa = PTE_ADDR (load32 (mem s) pte)
                 in if pa = 0 then Panic ''kfree''
                    else rbind (kfree (p2v pa) s) (\<lambda>_ s.
                      deallocuvm_loop n pgdir (a + PGSIZE) oldsz (s\<lparr>mem := store32 (mem s) pte 0\<rparr>))
               else deallocuvm_loop n pgdir (a + PGSIZE) oldsz s))
      else Ok () s)"

declare deallocuvm_loop.simps [simp del]

definition deallocuvm :: "u32 \<Rightarrow> u32 \<Rightarrow> u32 \<Rightarrow> 'a kmem_scheme \<Rightarrow> ('a kmem_scheme, u32) res" where
  "deallocuvm pgdir oldsz newsz s =
     (if newsz \<ge> oldsz then Ok oldsz s
      else rbind (deallocuvm_loop 1048576 pgdir (PGROUNDUP newsz) oldsz s) (\<lambda>_ s. Ok newsz s))"

text \<open>
  \<open>allocuvm\<close> does not look at the result of \<open>mappages\<close>.  The message it prints when memory runs
  out is console output.
\<close>

fun allocuvm_loop ::
  "nat \<Rightarrow> u32 \<Rightarrow> u32 \<Rightarrow> u32 \<Rightarrow> u32 \<Rightarrow> 'a kmem_scheme \<Rightarrow> ('a kmem_scheme, u32) res" where
  "allocuvm_loop n pgdir a oldsz newsz s =
     (if a < newsz then
        (case n of
           0 \<Rightarrow> Diverge
         | Suc n \<Rightarrow>
             rbind (kalloc s) (\<lambda>pg s.
               if pg = 0 then rbind (deallocuvm pgdir newsz oldsz s) (\<lambda>_ s. Ok 0 s)
               else let s = s\<lparr>mem := memset (mem s) pg 0 PGSIZE\<rparr>
               in rbind (mappages pgdir a PGSIZE (v2p pg) (PTE_W OR PTE_U) s) (\<lambda>_ s.
                    allocuvm_loop n pgdir (a + PGSIZE) oldsz newsz s)))
      else Ok newsz s)"

declare allocuvm_loop.simps [simp del]

definition allocuvm :: "u32 \<Rightarrow> u32 \<Rightarrow> u32 \<Rightarrow> 'a kmem_scheme \<Rightarrow> ('a kmem_scheme, u32) res" where
  "allocuvm pgdir oldsz newsz s =
     (if newsz \<ge> KERNBASE then Ok 0 s
      else if newsz < oldsz then Ok oldsz s
      else allocuvm_loop 1048576 pgdir (PGROUNDUP oldsz) oldsz newsz s)"

fun freevm_loop :: "nat \<Rightarrow> u32 \<Rightarrow> nat \<Rightarrow> 'a kmem_scheme \<Rightarrow> ('a kmem_scheme, unit) res" where
  "freevm_loop 0 pgdir i s = Ok () s"
| "freevm_loop (Suc n) pgdir i s =
     (let e = load32 (mem s) (pgdir + 4 * of_nat i)
      in rbind (rwhen (e AND PTE_P \<noteq> 0) (kfree (p2v (PTE_ADDR e))) s) (\<lambda>_ s.
           freevm_loop n pgdir (Suc i) s))"

definition freevm :: "u32 \<Rightarrow> 'a kmem_scheme \<Rightarrow> ('a kmem_scheme, unit) res" where
  "freevm pgdir s =
     (if pgdir = 0 then Panic ''freevm: no pgdir''
      else rbind (deallocuvm pgdir KERNBASE 0 s) (\<lambda>_ s.
        rbind (freevm_loop NPDENTRIES pgdir 0 s) (\<lambda>_ s. kfree pgdir s)))"

definition clearpteu :: "u32 \<Rightarrow> u32 \<Rightarrow> 'a kmem_scheme \<Rightarrow> ('a kmem_scheme, unit) res" where
  "clearpteu pgdir uva s =
     rbind (walkpgdir pgdir uva False s) (\<lambda>pte s.
       if pte = 0 then Panic ''clearpteu''
       else Ok () (s\<lparr>mem := store32 (mem s) pte (load32 (mem s) pte AND NOT PTE_U)\<rparr>))"

fun copyuvm_loop :: "nat \<Rightarrow> u32 \<Rightarrow> u32 \<Rightarrow> u32 \<Rightarrow> u32 \<Rightarrow> 'a kmem_scheme \<Rightarrow> ('a kmem_scheme, u32) res" where
  "copyuvm_loop n pgdir d i sz s =
     (if i < sz then
        (case n of
           0 \<Rightarrow> Diverge
         | Suc n \<Rightarrow>
             rbind (walkpgdir pgdir i False s) (\<lambda>pte s.
               if pte = 0 then Panic ''copyuvm: pte should exist''
               else if load32 (mem s) pte AND PTE_P = 0 then Panic ''copyuvm: page not present''
               else let pa = PTE_ADDR (load32 (mem s) pte); flags = PTE_FLAGS (load32 (mem s) pte)
               in rbind (kalloc s) (\<lambda>pg s.
                    if pg = 0 then rbind (freevm d s) (\<lambda>_ s. Ok 0 s)
                    else let s = s\<lparr>mem := memmove (mem s) pg (p2v pa) PGSIZE\<rparr>
                    in rbind (mappages d i PGSIZE (v2p pg) flags s) (\<lambda>r s.
                         if r < 0 then rbind (freevm d s) (\<lambda>_ s. Ok 0 s)
                         else copyuvm_loop n pgdir d (i + PGSIZE) sz s))))
      else Ok d s)"

declare copyuvm_loop.simps [simp del]

definition copyuvm :: "u32 \<Rightarrow> u32 \<Rightarrow> 'a vmst_scheme \<Rightarrow> ('a vmst_scheme, u32) res" where
  "copyuvm pgdir sz s =
     rbind (setupkvm s) (\<lambda>d s.
       if d = 0 then Ok 0 s else copyuvm_loop 1048576 pgdir d 0 sz s)"

text \<open>\<open>uva2ka\<close> dereferences what \<open>walkpgdir\<close> returns without checking it for 0.\<close>

definition uva2ka :: "u32 \<Rightarrow> u32 \<Rightarrow> 'a kmem_scheme \<Rightarrow> ('a kmem_scheme, u32) res" where
  "uva2ka pgdir uva s =
     rbind (walkpgdir pgdir uva False s) (\<lambda>pte s.
       if pte = 0 then Fault ''uva2ka: null pte''
       else if load32 (mem s) pte AND PTE_P = 0 then Ok 0 s
       else if load32 (mem s) pte AND PTE_U = 0 then Ok 0 s
       else Ok (p2v (PTE_ADDR (load32 (mem s) pte))) s)"

function copyout :: "u32 \<Rightarrow> u32 \<Rightarrow> u8 list \<Rightarrow> 'a kmem_scheme \<Rightarrow> ('a kmem_scheme, int) res" where
  "copyout pgdir va buf s =
     (if buf = [] then Ok 0 s
      else let va0 = PGROUNDDOWN va
      in rbind (uva2ka pgdir va0 s) (\<lambda>pa0 s.
           if pa0 = 0 then Ok (- 1) s
           else let n = min (length buf) (4096 - unat (va - va0))
           in copyout pgdir (va0 + PGSIZE) (drop n buf)
                (s\<lparr>mem := write_bytes (mem s) (pa0 + (va - va0)) (take n buf)\<rparr>)))"
  by pat_completeness auto
termination
proof (relation "measure (\<lambda>(pgdir, va, buf, s). length buf)", goal_cases)
  case 1
  show ?case by simp
next
  case (2 pgdir va buf s va0 pa0 t n)
  have "unat (va - PGROUNDDOWN va) < 4096" using in_page_iff [OF PGROUNDDOWN_aligned] by blast
  with 2 show ?case by simp
qed

declare copyout.simps [simp del]

end
