(* ===== verification/Vm_Laws.thy ===== *)
theory Vm_Laws
  imports Vm
begin

text \<open>
  What the page-table code of \<^verbatim>\<open>vm.c\<close> does to an address space.  \<open>pte_val\<close> is the entry the hardware
  would use for a virtual address (0 when a table is missing) and \<open>translate\<close> the mapping it
  stands for; every operation is shown to change \<open>pte_val\<close> at the intended pages only, to keep the
  shape invariant \<open>pt_wf\<close>, and to take page-table pages from the free list.
\<close>

section \<open>Entries of a table page\<close>

lemma unat_entry: "unat i < 1024 \<Longrightarrow> unat (4 * i) = 4 * unat i" for i :: u32
  by (simp add: unat_word_ariths)

lemma entry_page [simp]: "pg_aligned p \<Longrightarrow> unat i < 1024 \<Longrightarrow> PGROUNDDOWN (p + 4 * i) = p"
  by (rule PGROUNDDOWN_offset) (simp_all add: unat_entry)

lemma entry_aligned4 [simp]: "pg_aligned p \<Longrightarrow> unat i < 1024 \<Longrightarrow> aligned4 (p + 4 * i)"
  by (auto simp: aligned4_unat unat_page_offset unat_entry elim!: pg_aligned_obtain)

lemma entry_inj [simp]:
  "unat i < 1024 \<Longrightarrow> unat j < 1024 \<Longrightarrow> 4 * i = 4 * j \<longleftrightarrow> i = j" for i j :: u32
  by (metis mult_cancel_left unat_entry word_unat_eq_iff zero_neq_numeral)

lemma entry_nonzero: "page_ok e p \<Longrightarrow> unat i < 1024 \<Longrightarrow> p + 4 * i \<noteq> 0"
proof
  assume "page_ok e p" "unat i < 1024" "p + 4 * i = 0"
  then have "PGROUNDDOWN 0 = p" using entry_page [of p i] by simp
  moreover have "PGROUNDDOWN 0 = 0" by (simp add: PGROUNDDOWN_def)
  ultimately show False using page_ok_nonzero [OF \<open>page_ok e p\<close>] by simp
qed

declare PDX_less [simp] PTX_less [simp]

section \<open>The abstract address space\<close>

definition pde_of :: "memory \<Rightarrow> u32 \<Rightarrow> u32 \<Rightarrow> u32" where
  "pde_of m pgdir va = load32 m (pgdir + 4 * PDX va)"

definition tab_of :: "memory \<Rightarrow> u32 \<Rightarrow> u32 \<Rightarrow> u32" where
  "tab_of m pgdir va = p2v (PTE_ADDR (pde_of m pgdir va))"

definition has_tab :: "memory \<Rightarrow> u32 \<Rightarrow> u32 \<Rightarrow> bool" where
  "has_tab m pgdir va \<longleftrightarrow> pde_of m pgdir va AND PTE_P \<noteq> 0"

definition pte_val :: "memory \<Rightarrow> u32 \<Rightarrow> u32 \<Rightarrow> u32" where
  "pte_val m pgdir va =
     (if has_tab m pgdir va then load32 m (tab_of m pgdir va + 4 * PTX va) else 0)"

definition translate :: "memory \<Rightarrow> u32 \<Rightarrow> u32 \<Rightarrow> (u32 \<times> u32) option" where
  "translate m pgdir va =
     (let e = pte_val m pgdir va in if e AND PTE_P = 0 then None else Some (PTE_ADDR e, PTE_FLAGS e))"

definition pt_pages :: "memory \<Rightarrow> u32 \<Rightarrow> u32 set" where
  "pt_pages m pgdir = insert pgdir {tab_of m pgdir va | va. has_tab m pgdir va}"

definition pt_wf :: "u32 \<Rightarrow> memory \<Rightarrow> u32 \<Rightarrow> bool" where
  "pt_wf e m pgdir \<longleftrightarrow>
     page_ok e pgdir \<and>
     (\<forall>va. has_tab m pgdir va \<longrightarrow> page_ok e (tab_of m pgdir va) \<and> tab_of m pgdir va \<noteq> pgdir) \<and>
     (\<forall>va vb. has_tab m pgdir va \<and> has_tab m pgdir vb \<and> tab_of m pgdir va = tab_of m pgdir vb
        \<longrightarrow> PDX va = PDX vb)"

lemma tab_in_pt_pages [simp, intro]: "has_tab m pgdir va \<Longrightarrow> tab_of m pgdir va \<in> pt_pages m pgdir"
  by (auto simp: pt_pages_def)

lemma pgdir_in_pt_pages [simp]: "pgdir \<in> pt_pages m pgdir"
  by (simp add: pt_pages_def)

lemma PDX_PGROUNDDOWN [simp]: "PDX (PGROUNDDOWN va) = PDX va"
  and PTX_PGROUNDDOWN [simp]: "PTX (PGROUNDDOWN va) = PTX va"
  using same_indices_iff [of "PGROUNDDOWN va" va] by simp_all

lemma same_PDX: "PDX va = PDX vb \<Longrightarrow> pde_of m pgdir va = pde_of m pgdir vb
    \<and> tab_of m pgdir va = tab_of m pgdir vb \<and> has_tab m pgdir va = has_tab m pgdir vb"
  by (simp add: pde_of_def tab_of_def has_tab_def)

lemma pt_wf_D:
  assumes "pt_wf e m pgdir"
  shows "page_ok e pgdir" "pg_aligned pgdir"
    "has_tab m pgdir va \<Longrightarrow> page_ok e (tab_of m pgdir va)"
    "has_tab m pgdir va \<Longrightarrow> pg_aligned (tab_of m pgdir va)"
    "has_tab m pgdir va \<Longrightarrow> tab_of m pgdir va \<noteq> pgdir"
    "has_tab m pgdir va \<Longrightarrow> has_tab m pgdir vb \<Longrightarrow> tab_of m pgdir va = tab_of m pgdir vb \<Longrightarrow> PDX va = PDX vb"
  using assms unfolding pt_wf_def by (blast intro: page_ok_aligned)+

text \<open>Two memories with the same directory entries have the same tables and shape.\<close>

lemma same_pdes:
  assumes "\<And>va. pde_of m' pgdir va = pde_of m pgdir va"
  shows "tab_of m' pgdir = tab_of m pgdir" "has_tab m' pgdir = has_tab m pgdir"
    "pt_pages m' pgdir = pt_pages m pgdir" "pt_wf e m' pgdir = pt_wf e m pgdir"
  using assms by (simp_all add: tab_of_def has_tab_def pt_pages_def pt_wf_def fun_eq_iff)

lemma load32_page_eq:
  "aligned4 a \<Longrightarrow> PGROUNDDOWN a = p \<Longrightarrow> (\<And>b. PGROUNDDOWN b = p \<Longrightarrow> m' b = m b) \<Longrightarrow> load32 m' a = load32 m a"
  by (rule load32_page_cong) auto

text \<open>Writes outside the structure's pages do not change the address space.\<close>

lemma pt_frame:
  assumes wf: "pt_wf e m pgdir"
    and eq: "\<And>b. PGROUNDDOWN b \<in> pt_pages m pgdir \<Longrightarrow> m' b = m b"
  shows "pde_of m' pgdir va = pde_of m pgdir va" "pt_pages m' pgdir = pt_pages m pgdir"
    "pt_wf e m' pgdir" "pte_val m' pgdir va = pte_val m pgdir va"
    "translate m' pgdir va = translate m pgdir va"
proof -
  have pde: "pde_of m' pgdir va = pde_of m pgdir va" for va
    unfolding pde_of_def using pt_wf_D(2) [OF wf] eq
    by (intro load32_page_eq [of _ pgdir]) auto
  then show "pde_of m' pgdir va = pde_of m pgdir va" .
  note same = same_pdes [OF pde]
  show "pt_pages m' pgdir = pt_pages m pgdir" "pt_wf e m' pgdir"
    using same wf by auto
  have "load32 m' (tab_of m pgdir va + 4 * PTX va) = load32 m (tab_of m pgdir va + 4 * PTX va)"
    if "has_tab m pgdir va"
    using pt_wf_D(4) [OF wf that] eq that
    by (intro load32_page_eq [of _ "tab_of m pgdir va"]) auto
  then show pv: "pte_val m' pgdir va = pte_val m pgdir va"
    by (simp add: pte_val_def same)
  show "translate m' pgdir va = translate m pgdir va"
    by (simp add: translate_def pv)
qed

section \<open>Writing one entry\<close>

lemma store_pte:
  fixes v :: u32
  assumes wf: "pt_wf e m pgdir" and tab: "has_tab m pgdir va"
  defines "q \<equiv> tab_of m pgdir va + 4 * PTX va"
  defines "m' \<equiv> store32 m q v"
  shows "pde_of m' pgdir vb = pde_of m pgdir vb" "pt_pages m' pgdir = pt_pages m pgdir" "pt_wf e m' pgdir"
    "pte_val m' pgdir vb = (if PGROUNDDOWN vb = PGROUNDDOWN va then v else pte_val m pgdir vb)"
    "PGROUNDDOWN b \<notin> pt_pages m pgdir \<Longrightarrow> m' b = m b"
proof -
  have al: "pg_aligned (tab_of m pgdir va)" using pt_wf_D(4) [OF wf tab] .
  then have q: "aligned4 q" "PGROUNDDOWN q = tab_of m pgdir va" by (simp_all add: q_def)
  have other: "m' b = m b" if "PGROUNDDOWN b \<noteq> tab_of m pgdir va" for b
    using q that by (simp add: m'_def store32_other_page)
  have pde: "pde_of m' pgdir vb = pde_of m pgdir vb" for vb
    unfolding pde_of_def using pt_wf_D(2) [OF wf] pt_wf_D(5) [OF wf tab] other
    by (intro load32_page_eq [of _ pgdir]) auto
  then show "pde_of m' pgdir vb = pde_of m pgdir vb" .
  note same = same_pdes [OF pde]
  show "pt_pages m' pgdir = pt_pages m pgdir" "pt_wf e m' pgdir" using same wf by auto
  show "m' b = m b" if "PGROUNDDOWN b \<notin> pt_pages m pgdir"
    using other that tab by (metis tab_in_pt_pages)
  show "pte_val m' pgdir vb = (if PGROUNDDOWN vb = PGROUNDDOWN va then v else pte_val m pgdir vb)"
  proof (cases "has_tab m pgdir vb")
    case False
    then have "PDX vb \<noteq> PDX va" using tab same_PDX by metis
    then have "PGROUNDDOWN vb \<noteq> PGROUNDDOWN va" using same_indices_iff by metis
    with False show ?thesis by (simp add: pte_val_def same)
  next
    case True
    have vb: "pg_aligned (tab_of m pgdir vb)" using pt_wf_D(4) [OF wf True] .
    let ?q = "tab_of m pgdir vb + 4 * PTX vb"
    have "?q = q \<longleftrightarrow> PGROUNDDOWN vb = PGROUNDDOWN va"
    proof
      assume "?q = q"
      moreover have "PGROUNDDOWN ?q = tab_of m pgdir vb" using vb by simp
      ultimately have "tab_of m pgdir vb = tab_of m pgdir va" using q by simp
      with \<open>?q = q\<close> pt_wf_D(6) [OF wf True tab] show "PGROUNDDOWN vb = PGROUNDDOWN va"
        unfolding q_def by (simp flip: same_indices_iff)
    next
      assume "PGROUNDDOWN vb = PGROUNDDOWN va"
      then show "?q = q" unfolding q_def using same_PDX [of vb va] by (simp flip: same_indices_iff)
    qed
    moreover have "load32 m' ?q = (if ?q = q then v else load32 m ?q)"
      using q(1) vb by (simp add: m'_def)
    ultimately show ?thesis using True by (simp add: pte_val_def same)
  qed
qed

section \<open>Adding a table\<close>

lemma and_1_OR [simp]: "(a OR b) AND 1 = 0 \<longleftrightarrow> a AND 1 = 0 \<and> b AND 1 = 0" for a b :: u32
  by (simp add: bit.conj_disj_distrib2 or_eq_0_iff)

abbreviation (input) table_entry :: "u32 \<Rightarrow> u32" where
  "table_entry pg \<equiv> v2p pg OR 7"  \<comment> \<open>\<^verbatim>\<open>PTE_P | PTE_W | PTE_U\<close>\<close>

lemma table_entry_addr: "pg_aligned pg \<Longrightarrow> PTE_ADDR (v2p pg OR 7) = v2p pg"
  using PTE_ADDR_OR [of "v2p pg" 7] by simp

lemma new_table:
  assumes wf: "pt_wf e m pgdir" and no: "\<not> has_tab m pgdir va"
    and pg: "page_ok e pg" "pg \<notin> pt_pages m pgdir"
  defines "m' \<equiv> store32 (memset m pg 0 PGSIZE) (pgdir + 4 * PDX va) (table_entry pg)"
  shows "has_tab m' pgdir vb \<longleftrightarrow> PDX vb = PDX va \<or> has_tab m pgdir vb"
    "tab_of m' pgdir vb = (if PDX vb = PDX va then pg else tab_of m pgdir vb)"
    "pt_pages m' pgdir = insert pg (pt_pages m pgdir)" "pt_wf e m' pgdir"
    "pte_val m' pgdir vb = pte_val m pgdir vb"
    "PGROUNDDOWN b \<notin> insert pg (pt_pages m pgdir) \<Longrightarrow> m' b = m b"
proof -
  have al: "pg_aligned pgdir" "pg_aligned pg" using pt_wf_D(2) [OF wf] pg by auto
  have ne: "pg \<noteq> pgdir" using pg(2) by auto
  have other: "m' b = m b" if "PGROUNDDOWN b \<noteq> pgdir" "PGROUNDDOWN b \<noteq> pg" for b
    using that al by (simp add: m'_def store32_other_page memset_page)
  have zero: "m' b = 0" if "PGROUNDDOWN b = pg" for b
    using that al ne by (simp add: m'_def store32_other_page memset_page)
  have pde: "pde_of m' pgdir vb = (if PDX vb = PDX va then table_entry pg else pde_of m pgdir vb)" for vb
  proof (cases "PDX vb = PDX va")
    case True
    then show ?thesis by (simp add: pde_of_def m'_def)
  next
    case False
    have "load32 (memset m pg 0 PGSIZE) (pgdir + 4 * PDX vb) = load32 m (pgdir + 4 * PDX vb)"
      using al ne by (intro load32_page_eq [of _ pgdir]) (auto simp: memset_page)
    with False al show ?thesis by (simp add: pde_of_def m'_def)
  qed
  show tab: "has_tab m' pgdir vb \<longleftrightarrow> PDX vb = PDX va \<or> has_tab m pgdir vb" for vb
    by (simp add: has_tab_def pde)
  show to: "tab_of m' pgdir vb = (if PDX vb = PDX va then pg else tab_of m pgdir vb)" for vb
    using al by (simp add: tab_of_def pde table_entry_addr)
  have old: "PDX vb \<noteq> PDX va" if "has_tab m pgdir vb" for vb
    using that no same_PDX by metis
  show "pt_pages m' pgdir = insert pg (pt_pages m pgdir)"
  proof (rule set_eqI)
    fix p
    show "p \<in> pt_pages m' pgdir \<longleftrightarrow> p \<in> insert pg (pt_pages m pgdir)"
      unfolding pt_pages_def tab to using old by (auto split: if_splits)
  qed
  have notab: "tab_of m pgdir vb \<noteq> pg" if "has_tab m pgdir vb" for vb
    using that pg(2) by auto
  show "pt_wf e m' pgdir"
    unfolding pt_wf_def
  proof (intro conjI allI impI)
    show "page_ok e pgdir" by (rule pt_wf_D(1) [OF wf])
    fix vb assume "has_tab m' pgdir vb"
    then show "page_ok e (tab_of m' pgdir vb)" "tab_of m' pgdir vb \<noteq> pgdir"
      using pg(1) ne pt_wf_D(3,5) [OF wf] by (auto simp: tab to)
  next
    fix vb vc
    assume "has_tab m' pgdir vb \<and> has_tab m' pgdir vc \<and> tab_of m' pgdir vb = tab_of m' pgdir vc"
    then show "PDX vb = PDX vc"
      using pt_wf_D(6) [OF wf, of vb vc] notab [of vb] notab [of vc] by (auto simp: tab to split: if_splits)
  qed
  show "pte_val m' pgdir vb = pte_val m pgdir vb"
  proof (cases "PDX vb = PDX va")
    case True
    have "load32 m' (pg + 4 * PTX vb) = load32 (\<lambda>_. 0) (pg + 4 * PTX vb)"
      using al zero by (intro load32_page_eq [of _ pg]) auto
    also have "\<dots> = 0" by (simp add: load32_def)
    finally show ?thesis
      using True no same_PDX [OF True] by (simp add: pte_val_def tab to)
  next
    case False
    show ?thesis
    proof (cases "has_tab m pgdir vb")
      case True
      have "load32 m' (tab_of m pgdir vb + 4 * PTX vb) = load32 m (tab_of m pgdir vb + 4 * PTX vb)"
        using other notab [OF True] pt_wf_D(4,5) [OF wf True]
        by (intro load32_page_eq [of _ "tab_of m pgdir vb"]) auto
      with True False show ?thesis by (simp add: pte_val_def tab to)
    next
      case no_vb: False
      with False show ?thesis by (simp add: pte_val_def tab)
    qed
  qed
  show "m' b = m b" if "PGROUNDDOWN b \<notin> insert pg (pt_pages m pgdir)"
    using that by (intro other) auto
qed

section \<open>Growing an address space\<close>

text \<open>
  \<open>vm_inv s fl pgdir\<close>: the allocator is usable, \<open>fl\<close> is its free list, and \<open>pgdir\<close> is a well-formed directory none of
  whose pages is free.  \<open>vm_grow\<close>: from \<open>s\<close> to \<open>t\<close> the structure took some pages from the front of the
  free list, and wrote to no page but its own.
\<close>

definition vm_inv :: "'a kmem_scheme \<Rightarrow> u32 list \<Rightarrow> u32 \<Rightarrow> bool" where
  "vm_inv s fl pgdir \<longleftrightarrow> kmem_ready s \<and> free_pages s fl \<and> pt_wf (k_end s) (mem s) pgdir
     \<and> pt_pages (mem s) pgdir \<inter> set fl = {}"

definition only_mem :: "'a kmem_scheme \<Rightarrow> 'a kmem_scheme \<Rightarrow> bool" where
  "only_mem s t \<longleftrightarrow> (\<exists>m f. t = s\<lparr>mem := m, km_freelist := f\<rparr>)"

lemma only_memI: "t = s\<lparr>mem := m, km_freelist := f\<rparr> \<Longrightarrow> only_mem s t"
  by (auto simp: only_mem_def)

lemma only_memE:
  assumes "only_mem s t" obtains m f where "t = s\<lparr>mem := m, km_freelist := f\<rparr>"
  using assms by (auto simp: only_mem_def)

lemma only_mem_refl [simp]: "only_mem s s"
  by (rule only_memI [where m = "mem s" and f = "km_freelist s"]) simp

lemma only_mem_trans [trans]: "only_mem s t \<Longrightarrow> only_mem t u \<Longrightarrow> only_mem s u"
  by (elim only_memE) (rule only_memI, simp)

lemma only_mem_update [simp]:
  "only_mem s t \<Longrightarrow> only_mem s (t\<lparr>mem := m\<rparr>)" "only_mem s t \<Longrightarrow> only_mem s (t\<lparr>km_freelist := f\<rparr>)"
proof -
  assume "only_mem s t"
  then obtain n g where t: "t = s\<lparr>mem := n, km_freelist := g\<rparr>" by (rule only_memE)
  show "only_mem s (t\<lparr>mem := m\<rparr>)" by (rule only_memI [where m = m and f = g]) (simp add: t)
  show "only_mem s (t\<lparr>km_freelist := f\<rparr>)" by (rule only_memI [where m = n and f = f]) (simp add: t)
qed

lemma only_mem_fields:
  "only_mem s t \<Longrightarrow> k_end t = k_end s \<and> kmem_ready t = kmem_ready s \<and> kmem.more t = kmem.more s
     \<and> k_cpu t = k_cpu s \<and> k_locks t = k_locks s \<and> km_use_lock t = km_use_lock s"
  by (auto simp: only_mem_def kmem_ready_def lock_ready_def)

definition vm_grow :: "u32 \<Rightarrow> 'a kmem_scheme \<Rightarrow> u32 list \<Rightarrow> 'a kmem_scheme \<Rightarrow> u32 list \<Rightarrow> bool" where
  "vm_grow pgdir s fl t fl' \<longleftrightarrow>
     vm_inv t fl' pgdir \<and>
     (\<exists>us. fl = us @ fl' \<and> pt_pages (mem t) pgdir = set us \<union> pt_pages (mem s) pgdir) \<and>
     (\<forall>b. PGROUNDDOWN b \<notin> pt_pages (mem t) pgdir \<longrightarrow> mem t b = mem s b) \<and>
     only_mem s t"

lemma vm_grow_refl: "vm_inv s fl pgdir \<Longrightarrow> vm_grow pgdir s fl s fl"
  by (simp add: vm_grow_def)

lemma vm_grow_trans:
  assumes "vm_grow pgdir s fl t fl'" "vm_grow pgdir t fl' u fl''"
  shows "vm_grow pgdir s fl u fl''"
proof -
  obtain us where us: "fl = us @ fl'" "pt_pages (mem t) pgdir = set us \<union> pt_pages (mem s) pgdir"
    using assms(1) by (auto simp: vm_grow_def)
  obtain vs where vs: "fl' = vs @ fl''" "pt_pages (mem u) pgdir = set vs \<union> pt_pages (mem t) pgdir"
    using assms(2) by (auto simp: vm_grow_def)
  have "only_mem s u" using assms by (auto simp: vm_grow_def intro: only_mem_trans)
  moreover have "mem u b = mem s b" if "PGROUNDDOWN b \<notin> pt_pages (mem u) pgdir" for b
    using that assms vs by (simp add: vm_grow_def)
  ultimately show ?thesis
    using assms(2) us vs by (auto simp: vm_grow_def intro!: exI [of _ "us @ vs"])
qed

lemma walkpgdir_noalloc:
  "walkpgdir pgdir va False s =
     Ok (if has_tab (mem s) pgdir va then tab_of (mem s) pgdir va + 4 * PTX va else 0) s"
  by (simp add: walkpgdir_def has_tab_def tab_of_def pde_of_def Let_def)

lemma walkpgdir_tab:
  "has_tab (mem s) pgdir va \<Longrightarrow> walkpgdir pgdir va al s = Ok (tab_of (mem s) pgdir va + 4 * PTX va) s"
  by (simp add: walkpgdir_def has_tab_def tab_of_def pde_of_def Let_def)

lemma walkpgdir_nomem:
  "kmem_ready s \<Longrightarrow> free_pages s [] \<Longrightarrow> \<not> has_tab (mem s) pgdir va \<Longrightarrow> walkpgdir pgdir va True s = Ok 0 s"
  by (simp add: walkpgdir_def has_tab_def pde_of_def Let_def kalloc_Nil)

lemma walkpgdir_new:
  assumes "vm_inv s (p # ps) pgdir" "\<not> has_tab (mem s) pgdir va"
  shows "\<exists>t. walkpgdir pgdir va True s = Ok (p + 4 * PTX va) t \<and> vm_grow pgdir s (p # ps) t ps
    \<and> has_tab (mem t) pgdir va \<and> tab_of (mem t) pgdir va = p
    \<and> (\<forall>vb. pte_val (mem t) pgdir vb = pte_val (mem s) pgdir vb)"
proof -
  let ?m = "store32 (memset (mem s) p 0 PGSIZE) (pgdir + 4 * PDX va) (table_entry p)"
  let ?t = "s\<lparr>km_freelist := load32 (mem s) p, mem := ?m\<rparr>"
  have inv: "kmem_ready s" "free_pages s (p # ps)" "pt_wf (k_end s) (mem s) pgdir"
    "pt_pages (mem s) pgdir \<inter> set (p # ps) = {}"
    using assms(1) by (auto simp: vm_inv_def)
  have pg: "page_ok (k_end s) p" "p \<notin> pt_pages (mem s) pgdir" "p \<noteq> 0" "p \<notin> set ps"
    using inv free_pages_ConsD [OF inv(2)] by auto
  note new = new_table [OF inv(3) assms(2) pg(1,2)]
  have "free_pages ?t ps"
    using inv(4) pg(4) by (intro free_pages_frame [OF kalloc_Cons(2) [OF inv(1,2)]]) (auto intro!: new(6))
  moreover have "kmem_ready ?t" using inv(1) by (simp add: kmem_ready_def lock_ready_def)
  ultimately have "vm_grow pgdir s (p # ps) ?t ps"
    using new(3,4,6) inv(4) pg by (auto simp: vm_grow_def vm_inv_def)
  moreover have "walkpgdir pgdir va True s = Ok (p + 4 * PTX va) ?t"
    using assms(2) pg(3) kalloc_Cons(1) [OF inv(1,2)]
    by (simp add: walkpgdir_def has_tab_def pde_of_def Let_def)
  ultimately show ?thesis using new(1,2,5) by auto
qed

lemma walkpgdir_alloc:
  assumes "vm_inv s fl pgdir"
  shows "\<exists>q t fl'. walkpgdir pgdir va True s = Ok q t \<and> vm_grow pgdir s fl t fl'
    \<and> (\<forall>vb. pte_val (mem t) pgdir vb = pte_val (mem s) pgdir vb)
    \<and> length fl \<le> Suc (length fl')
    \<and> (if q = 0 then fl = [] else has_tab (mem t) pgdir va \<and> q = tab_of (mem t) pgdir va + 4 * PTX va)"
proof (cases "has_tab (mem s) pgdir va")
  case True
  with assms have "page_ok (k_end s) (tab_of (mem s) pgdir va)" by (auto simp: vm_inv_def intro: pt_wf_D)
  then have "tab_of (mem s) pgdir va + 4 * PTX va \<noteq> 0" by (rule entry_nonzero) simp
  with True assms vm_grow_refl [OF assms] show ?thesis by (auto simp: walkpgdir_tab)
next
  case False
  show ?thesis
  proof (cases fl)
    case Nil
    with False assms have "walkpgdir pgdir va True s = Ok 0 s" by (simp add: walkpgdir_nomem vm_inv_def)
    with Nil vm_grow_refl [OF assms] show ?thesis by auto
  next
    case (Cons p ps)
    then have "page_ok (k_end s) p" using assms by (auto simp: vm_inv_def dest: free_pages_ConsD)
    then have "p + 4 * PTX va \<noteq> 0" by (rule entry_nonzero) simp
    with Cons walkpgdir_new [of s p ps] assms False show ?thesis by fastforce
  qed
qed

text \<open>Writing an entry of a present table stays within the structure.\<close>

lemma vm_grow_store:
  assumes "vm_grow pgdir s fl t fl'" "has_tab (mem t) pgdir va"
  shows "vm_grow pgdir s fl (t\<lparr>mem := store32 (mem t) (tab_of (mem t) pgdir va + 4 * PTX va) v\<rparr>) fl'"
proof -
  have wf: "pt_wf (k_end t) (mem t) pgdir" using assms(1) by (simp add: vm_grow_def vm_inv_def)
  note st = store_pte [OF wf assms(2), where v = v]
  let ?t = "t\<lparr>mem := store32 (mem t) (tab_of (mem t) pgdir va + 4 * PTX va) v\<rparr>"
  have "free_pages t fl'" and dis: "pt_pages (mem t) pgdir \<inter> set fl' = {}"
    using assms(1) by (simp_all add: vm_grow_def vm_inv_def)
  then have "free_pages ?t fl'"
    using st(5) by (elim free_pages_frame) auto
  moreover have "kmem_ready ?t" using assms(1) by (simp add: vm_grow_def vm_inv_def kmem_ready_def lock_ready_def)
  ultimately show ?thesis
    using assms(1) st(2,3,5) dis by (auto simp: vm_grow_def vm_inv_def)
qed

section \<open>Mapping a range of pages\<close>

text \<open>
  The address space after \<open>k\<close> pages from \<open>a\<close> have been mapped to consecutive frames from \<open>pa\<close>.
\<close>

definition map_range :: "u32 \<Rightarrow> u32 \<Rightarrow> u32 \<Rightarrow> nat \<Rightarrow> (u32 \<Rightarrow> u32) \<Rightarrow> u32 \<Rightarrow> u32" where
  "map_range a pa perm k f vb =
     (if unat (PGROUNDDOWN vb - a) < 4096 * k then (pa + (PGROUNDDOWN vb - a)) OR perm OR PTE_P else f vb)"

lemma map_range_0 [simp]: "map_range a pa perm 0 f = f"
  by (simp add: map_range_def fun_eq_iff)

lemma map_range_Suc:
  assumes "pg_aligned a" "k < 1048576"
  shows "map_range (a + PGSIZE) (pa + PGSIZE) perm k
      (\<lambda>vb. if PGROUNDDOWN vb = a then pa OR perm OR PTE_P else f vb) = map_range a pa perm (Suc k) f"
proof
  fix vb
  have "pg_aligned (PGROUNDDOWN vb - a)" using assms by simp
  note c = page_count_Suc [OF this assms(2)] page_count_zero [OF assms(2)]
  have e: "PGROUNDDOWN vb - (a + 4096) = PGROUNDDOWN vb - a - 4096"
    "pa + 4096 + (PGROUNDDOWN vb - a - 4096) = pa + (PGROUNDDOWN vb - a)" by simp_all
  show "map_range (a + PGSIZE) (pa + PGSIZE) perm k
      (\<lambda>vb. if PGROUNDDOWN vb = a then pa OR perm OR PTE_P else f vb) vb = map_range a pa perm (Suc k) f vb"
    using c unfolding map_range_def e by (cases "PGROUNDDOWN vb - a = 0") auto
qed

text \<open>One round of the loop: the entry for \<open>a\<close> is found or its table made, unless memory runs out.\<close>

lemma walk_store:
  assumes inv: "vm_inv s fl pgdir" and al: "pg_aligned a" and free: "pte_val (mem s) pgdir a AND PTE_P = 0"
  obtains (nomem) t where "walkpgdir pgdir a True s = Ok 0 t" "vm_grow pgdir s fl t []"
      "pte_val (mem t) pgdir = pte_val (mem s) pgdir" "fl = []"
  | (found) q t fl' where "walkpgdir pgdir a True s = Ok q t" "q \<noteq> 0" "load32 (mem t) q AND PTE_P = 0"
      "\<And>v. vm_grow pgdir s fl (t\<lparr>mem := store32 (mem t) q v\<rparr>) fl'"
      "\<And>v. pte_val (store32 (mem t) q v) pgdir =
          (\<lambda>vb. if PGROUNDDOWN vb = a then v else pte_val (mem s) pgdir vb)"
      "length fl \<le> Suc (length fl')"
proof -
  obtain q t fl' where w: "walkpgdir pgdir a True s = Ok q t" "vm_grow pgdir s fl t fl'"
      "\<And>vb. pte_val (mem t) pgdir vb = pte_val (mem s) pgdir vb" "length fl \<le> Suc (length fl')"
    and q: "if q = 0 then fl = [] else has_tab (mem t) pgdir a \<and> q = tab_of (mem t) pgdir a + 4 * PTX a"
    using walkpgdir_alloc [OF inv, of a] by blast
  show thesis
  proof (cases "q = 0")
    case True
    with q w(2) have "fl' = []" by (auto simp: vm_grow_def)
    with True w q show thesis by (intro nomem) (auto simp: fun_eq_iff)
  next
    case False
    with q have tab: "has_tab (mem t) pgdir a" and q: "q = tab_of (mem t) pgdir a + 4 * PTX a" by auto
    have wf: "pt_wf (k_end t) (mem t) pgdir" using w(2) by (simp add: vm_grow_def vm_inv_def)
    have "load32 (mem t) q = pte_val (mem s) pgdir a"
      using tab w(3) [of a] by (simp add: pte_val_def q)
    with w(1,4) False free store_pte(4) [OF wf tab] vm_grow_store [OF w(2) tab] show thesis
      by (intro found [of q t fl']) (auto simp: q w(3) al fun_eq_iff)
  qed
qed

lemma unat_pages: "n < 1048576 \<Longrightarrow> unat (4096 * of_nat n :: u32) = 4096 * n"
  by (simp add: unat_word_ariths unat_of_nat)

lemma mappages_loop_steps:
  "walkpgdir pgdir a True s = Ok 0 t \<Longrightarrow> mappages_loop n pgdir a lastp pa perm s = Ok (- 1) t"
  "walkpgdir pgdir a True s = Ok q t \<Longrightarrow> q \<noteq> 0 \<Longrightarrow> load32 (mem t) q AND PTE_P \<noteq> 0 \<Longrightarrow>
    mappages_loop n pgdir a lastp pa perm s = Panic ''remap''"
  "walkpgdir pgdir lastp True s = Ok q t \<Longrightarrow> q \<noteq> 0 \<Longrightarrow> load32 (mem t) q AND PTE_P = 0 \<Longrightarrow>
    mappages_loop n pgdir lastp lastp pa perm s = Ok 0 (t\<lparr>mem := store32 (mem t) q (pa OR perm OR PTE_P)\<rparr>)"
  "walkpgdir pgdir a True s = Ok q t \<Longrightarrow> q \<noteq> 0 \<Longrightarrow> load32 (mem t) q AND PTE_P = 0 \<Longrightarrow> a \<noteq> lastp \<Longrightarrow>
    mappages_loop (Suc n) pgdir a lastp pa perm s =
    mappages_loop n pgdir (a + PGSIZE) lastp (pa + PGSIZE) perm (t\<lparr>mem := store32 (mem t) q (pa OR perm OR PTE_P)\<rparr>)"
  by (subst mappages_loop.simps, simp add: Let_def)+

lemma mappages_loop_spec:
  assumes "vm_inv s fl pgdir" "pg_aligned a" "n < 1048576" "lastp = a + PGSIZE * of_nat n"
    and "\<And>i. i \<le> n \<Longrightarrow> pte_val (mem s) pgdir (a + PGSIZE * of_nat i) AND PTE_P = 0"
  shows "\<exists>r t fl' k. mappages_loop n pgdir a lastp pa perm s = Ok r t \<and> vm_grow pgdir s fl t fl'
    \<and> (r = 0 \<and> k = Suc n \<or> r = - 1 \<and> k \<le> n \<and> fl' = [] \<and> length fl \<le> k)
    \<and> pte_val (mem t) pgdir = map_range a pa perm k (pte_val (mem s) pgdir)"
  using assms
proof (induction n arbitrary: a pa s fl)
  case 0
  then have "pte_val (mem s) pgdir a AND PTE_P = 0" by force
  with 0 show ?case
  proof (elim walk_store)
    fix t assume "walkpgdir pgdir a True s = Ok 0 t" "vm_grow pgdir s fl t []"
      "pte_val (mem t) pgdir = pte_val (mem s) pgdir" "fl = []"
    then show ?case by (auto simp: mappages_loop_steps)
  next
    fix q t fl'
    assume "walkpgdir pgdir a True s = Ok q t" "q \<noteq> 0" "load32 (mem t) q AND PTE_P = 0"
      "\<And>v. vm_grow pgdir s fl (t\<lparr>mem := store32 (mem t) q v\<rparr>) fl'"
      "\<And>v. pte_val (store32 (mem t) q v) pgdir =
          (\<lambda>vb. if PGROUNDDOWN vb = a then v else pte_val (mem s) pgdir vb)"
    with 0 map_range_Suc [of a 0 pa perm "pte_val (mem s) pgdir"] show ?case
      by (auto simp: mappages_loop_steps)
  qed
next
  case (Suc n)
  then have "pte_val (mem s) pgdir a AND PTE_P = 0" by force
  from Suc.prems(1,2) this show ?case
  proof (cases rule: walk_store)
    case (nomem t)
    then show ?thesis
      by (intro exI [of _ "- 1"] exI [of _ t] exI [of _ "[]"] exI [of _ 0]) (simp add: mappages_loop_steps)
  next
    case (found q t fl')
    let ?t = "t\<lparr>mem := store32 (mem t) q (pa OR perm OR PTE_P)\<rparr>"
    have ne: "a \<noteq> lastp"
    proof
      assume "a = lastp"
      then have "unat (4096 * of_nat (Suc n) :: u32) = 0" using Suc.prems(4) by simp
      moreover have "unat (4096 * of_nat (Suc n) :: u32) = 4096 * Suc n"
        using Suc.prems(3) by (rule unat_pages)
      ultimately show False by simp
    qed
    have "pte_val (mem ?t) pgdir (a + PGSIZE + PGSIZE * of_nat i) AND PTE_P = 0" if "i \<le> n" for i
    proof -
      have "pte_val (mem s) pgdir (a + PGSIZE + PGSIZE * of_nat i) AND PTE_P = 0"
        using Suc.prems(5) [of "Suc i"] that by (simp add: algebra_simps)
      moreover have "unat (4096 * of_nat (Suc i) :: u32) = 4096 * Suc i"
        using Suc.prems(3) that by (intro unat_pages) simp
      then have "a + PGSIZE + PGSIZE * of_nat i \<noteq> a" by auto
      ultimately show ?thesis using found(5) Suc.prems(2) by simp
    qed
    moreover have "vm_inv ?t fl' pgdir" using found(4) by (simp add: vm_grow_def)
    ultimately obtain r u fl'' k where u: "mappages_loop n pgdir (a + PGSIZE) lastp (pa + PGSIZE) perm ?t = Ok r u"
        "vm_grow pgdir ?t fl' u fl''" "r = 0 \<and> k = Suc n \<or> r = - 1 \<and> k \<le> n \<and> fl'' = [] \<and> length fl' \<le> k"
        "pte_val (mem u) pgdir = map_range (a + PGSIZE) (pa + PGSIZE) perm k (pte_val (mem ?t) pgdir)"
      using Suc.IH [of ?t fl' "a + PGSIZE" "pa + PGSIZE"] Suc.prems(2,3,4) by (auto simp: algebra_simps)
    have "pte_val (mem u) pgdir = map_range a pa perm (Suc k) (pte_val (mem s) pgdir)"
      using u(3,4) Suc.prems(2,3) found(5) by (auto simp: map_range_Suc)
    moreover have "mappages_loop (Suc n) pgdir a lastp pa perm s = Ok r u"
      using found(1-3) ne u(1) by (simp add: mappages_loop_steps)
    ultimately show ?thesis
      using u(3) found(6) vm_grow_trans [OF found(4) u(2)] by (intro exI [of _ r] exI [of _ u] exI [of _ fl''] exI [of _ "Suc k"]) auto
  qed
qed

lemma page_span:
  assumes "pg_aligned a" "pg_aligned b"
  shows "unat (b - a) div 4096 < 1048576" "b = a + PGSIZE * of_nat (unat (b - a) div 4096)"
proof -
  have "pg_aligned (b - a)" using assms by simp
  then obtain k where k: "unat (b - a) = 4096 * k" "k < 1048576" by (rule pg_aligned_obtain)
  then show "unat (b - a) div 4096 < 1048576" by simp
  have "b - a = of_nat (4096 * k)" unfolding k(1) [symmetric] by simp
  with k show "b = a + PGSIZE * of_nat (unat (b - a) div 4096)" by (simp add: algebra_simps)
qed

text \<open>The number of pages \<open>mappages\<close> is asked to map, less one.\<close>

definition map_span :: "u32 \<Rightarrow> u32 \<Rightarrow> nat" where
  "map_span va sz = unat (PGROUNDDOWN (va + sz - 1) - PGROUNDDOWN va) div 4096"

lemma mappages_spec:
  assumes "vm_inv s fl pgdir"
    and "\<And>i. i \<le> map_span va sz \<Longrightarrow> pte_val (mem s) pgdir (PGROUNDDOWN va + PGSIZE * of_nat i) AND PTE_P = 0"
  shows "\<exists>r t fl' k. mappages pgdir va sz pa perm s = Ok r t \<and> vm_grow pgdir s fl t fl'
    \<and> (r = 0 \<and> k = Suc (map_span va sz) \<or> r = - 1 \<and> k \<le> map_span va sz \<and> fl' = [] \<and> length fl \<le> k)
    \<and> pte_val (mem t) pgdir = map_range (PGROUNDDOWN va) pa perm k (pte_val (mem s) pgdir)"
  using mappages_loop_spec [OF assms(1) _ page_span, of "PGROUNDDOWN va" "PGROUNDDOWN (va + sz - 1)"] assms(2)
  by (simp add: mappages_def Let_def map_span_def)

text \<open>One page.\<close>

lemma map_span_page [simp]: "pg_aligned va \<Longrightarrow> map_span va PGSIZE = 0"
  by (simp add: map_span_def flip: add_diff_eq)

lemma map_range_1:
  "pg_aligned a \<Longrightarrow> map_range a pa perm (Suc 0) f vb = (if PGROUNDDOWN vb = a then pa OR perm OR PTE_P else f vb)"
  using map_range_Suc [of a 0 pa perm f, THEN fun_cong, of vb] by simp

lemma mappages_page:
  assumes "vm_inv s fl pgdir" "pg_aligned a" "pte_val (mem s) pgdir a AND PTE_P = 0"
  shows "\<exists>r t fl'. mappages pgdir a PGSIZE pa perm s = Ok r t \<and> vm_grow pgdir s fl t fl'
    \<and> length fl \<le> Suc (length fl') \<and> (r = 0 \<or> r = - 1 \<and> fl = [] \<and> fl' = [])
    \<and> (\<forall>vb. pte_val (mem t) pgdir vb =
          (if r = 0 \<and> PGROUNDDOWN vb = a then pa OR perm OR PTE_P else pte_val (mem s) pgdir vb))"
proof -
  have e: "mappages pgdir a PGSIZE pa perm s = mappages_loop 0 pgdir a a pa perm s"
    using assms(2) by (simp add: mappages_def flip: add_diff_eq)
  from assms show ?thesis
  proof (cases rule: walk_store)
    case (nomem t)
    then show ?thesis by (simp add: e mappages_loop_steps)
  next
    case (found q t fl')
    then show ?thesis
      by (intro exI [of _ 0] exI [of _ "t\<lparr>mem := store32 (mem t) q (pa OR perm OR PTE_P)\<rparr>"] exI [of _ fl'])
        (simp add: e mappages_loop_steps)
  qed
qed

text \<open>Mapping over a present page stops the kernel.\<close>

lemma mappages_remap_panic:
  assumes "pte_val (mem s) pgdir va AND PTE_P \<noteq> 0" "pt_wf e (mem s) pgdir"
  shows "mappages pgdir va sz pa perm s = Panic ''remap''"
proof -
  let ?a = "PGROUNDDOWN va"
  have tab: "has_tab (mem s) pgdir va" using assms(1) by (auto simp: pte_val_def split: if_splits)
  then have tab': "has_tab (mem s) pgdir ?a" "tab_of (mem s) pgdir ?a = tab_of (mem s) pgdir va"
    using same_PDX [of ?a va "mem s" pgdir] by simp_all
  have "tab_of (mem s) pgdir va + 4 * PTX va \<noteq> 0"
    using pt_wf_D(3) [OF assms(2) tab] by (rule entry_nonzero) simp
  with tab tab' assms(1) show ?thesis
    by (simp add: mappages_def Let_def mappages_loop_steps(2) [OF walkpgdir_tab] pte_val_def)
qed

end
