(* ===== verification/Vm_User.thy ===== *)
theory Vm_User
  imports Vm_Laws
begin

text \<open>
  The user part of an address space: what \<open>deallocuvm\<close>, \<open>allocuvm\<close>, \<open>clearpteu\<close>, \<open>uva2ka\<close> and \<open>copyout\<close> of
  \<^verbatim>\<open>vm.c\<close> do to the mapping \<open>pte_val\<close>, to the free list and to the bytes of the mapped frames.
\<close>

section \<open>Releasing pages\<close>

definition present :: "memory \<Rightarrow> u32 \<Rightarrow> u32 \<Rightarrow> bool" where
  "present m pgdir va \<longleftrightarrow> pte_val m pgdir va AND PTE_P \<noteq> 0"

definition frame_of :: "memory \<Rightarrow> u32 \<Rightarrow> u32 \<Rightarrow> u32" where
  "frame_of m pgdir va = p2v (PTE_ADDR (pte_val m pgdir va))"

text \<open>The frames behind the present pages of \<open>n\<close> pages from \<open>a\<close>.\<close>

definition uframes :: "memory \<Rightarrow> u32 \<Rightarrow> u32 \<Rightarrow> nat \<Rightarrow> u32 list" where
  "uframes m pgdir a n = map (frame_of m pgdir) (filter (present m pgdir) (pages_from a n))"

text \<open>Frames that may be freed: distinct pages of the allocator that nothing else uses.\<close>

definition frames_ok :: "'a kmem_scheme \<Rightarrow> u32 list \<Rightarrow> u32 \<Rightarrow> u32 list \<Rightarrow> bool" where
  "frames_ok s fl pgdir ps \<longleftrightarrow> distinct ps \<and>
     (\<forall>p \<in> set ps. page_ok (k_end s) p \<and> p \<noteq> KERNBASE \<and> p \<notin> set fl \<and> p \<notin> pt_pages (mem s) pgdir)"

lemma pte_val_page [simp]: "pte_val m pgdir (PGROUNDDOWN va) = pte_val m pgdir va"
  using same_PDX [of "PGROUNDDOWN va" va m pgdir] by (simp add: pte_val_def)

lemma present_page [simp]: "present m pgdir (PGROUNDDOWN va) = present m pgdir va"
  by (simp add: present_def)

lemma present_has_tab: "present m pgdir va \<Longrightarrow> has_tab m pgdir va"
  by (auto simp: present_def pte_val_def split: if_splits)

lemma deallocuvm_loop_steps:
  "\<not> a < oldsz \<Longrightarrow> deallocuvm_loop n pgdir a oldsz s = Ok () s"
  "a < oldsz \<Longrightarrow> walkpgdir pgdir a False s = Ok 0 t \<Longrightarrow>
    deallocuvm_loop (Suc n) pgdir a oldsz s = deallocuvm_loop n pgdir (0x400000 + a) oldsz t"
  "a < oldsz \<Longrightarrow> walkpgdir pgdir a False s = Ok q t \<Longrightarrow> q \<noteq> 0 \<Longrightarrow> load32 (mem t) q AND PTE_P = 0 \<Longrightarrow>
    deallocuvm_loop (Suc n) pgdir a oldsz s = deallocuvm_loop n pgdir (a + PGSIZE) oldsz t"
  "a < oldsz \<Longrightarrow> walkpgdir pgdir a False s = Ok q t \<Longrightarrow> q \<noteq> 0 \<Longrightarrow> load32 (mem t) q AND PTE_P \<noteq> 0 \<Longrightarrow>
    PTE_ADDR (load32 (mem t) q) \<noteq> 0 \<Longrightarrow> kfree (p2v (PTE_ADDR (load32 (mem t) q))) t = Ok () u \<Longrightarrow>
    deallocuvm_loop (Suc n) pgdir a oldsz s =
      deallocuvm_loop n pgdir (a + PGSIZE) oldsz (u\<lparr>mem := store32 (mem u) q 0\<rparr>)"
  by (subst deallocuvm_loop.simps, simp add: Let_def)+

text \<open>The pages of the range that ends at \<open>oldsz\<close>.\<close>

definition covers :: "u32 \<Rightarrow> nat \<Rightarrow> u32 \<Rightarrow> bool" where
  "covers a n oldsz \<longleftrightarrow> unat oldsz \<le> unat a + 4096 * n \<and> (n = 0 \<or> unat a + 4096 * n < unat oldsz + 4096)
     \<and> unat oldsz \<le> 0x80000000"

lemma covers_0: "covers a 0 oldsz \<Longrightarrow> \<not> a < oldsz"
  by (simp add: covers_def word_less_nat_alt)

lemma covers_Suc:
  assumes "covers a (Suc n) oldsz"
  shows "a < oldsz" "covers (a + PGSIZE) n oldsz" "unat (a + PGSIZE) = unat a + 4096"
proof -
  show u: "unat (a + PGSIZE) = unat a + 4096" using assms by (simp add: covers_def unat_word_ariths)
  show "a < oldsz" using assms by (simp add: covers_def word_less_nat_alt)
  show "covers (a + PGSIZE) n oldsz" using assms unfolding covers_def u by auto
qed

lemma covers_skip:
  assumes "covers a (Suc n) oldsz"
  shows "covers (0x400000 + a) (Suc n - 1024) oldsz"
    and "unat (0x400000 + a) = unat a + 4096 * 1024"
proof -
  show u: "unat (0x400000 + a) = unat a + 4096 * 1024"
    using assms by (simp add: covers_def unat_word_ariths)
  show "covers (0x400000 + a) (Suc n - 1024) oldsz" using assms unfolding covers_def u
    by (cases "Suc n \<le> 1024") auto
qed

text \<open>A range with no present page is left as it is, however the loop steps over it.\<close>

lemma pages_from_drop: "set (pages_from (a + PGSIZE * of_nat k) (n - k)) \<subseteq> set (pages_from a n)"
proof (induction k arbitrary: a n)
  case 0
  then show ?case by simp
next
  case (Suc k)
  show ?case
  proof (cases n)
    case (Suc m)
    have "set (pages_from (a + PGSIZE + PGSIZE * of_nat k) (m - k)) \<subseteq> set (pages_from (a + PGSIZE) m)"
      by (rule Suc.IH)
    then show ?thesis by (auto simp: Suc algebra_simps)
  qed simp
qed

lemma deallocuvm_loop_none:
  assumes "covers a n oldsz" "n \<le> N" "pt_wf e (mem s) pgdir"
    and "\<forall>va \<in> set (pages_from a n). \<not> present (mem s) pgdir va"
  shows "deallocuvm_loop N pgdir a oldsz s = Ok () s"
  using assms
proof (induction n arbitrary: a N rule: less_induct)
  case (less n)
  show ?case
  proof (cases n)
    case 0
    with less.prems show ?thesis by (simp add: covers_0 deallocuvm_loop_steps)
  next
    case (Suc m)
    then obtain M where N: "N = Suc M" "m \<le> M" using less.prems(2) by (cases N) auto
    note c = less.prems(1) [unfolded Suc]
    show ?thesis
    proof (cases "has_tab (mem s) pgdir a")
      case False
      have "set (pages_from (0x400000 + a) (Suc m - 1024)) \<subseteq> set (pages_from a n)"
        using pages_from_drop [of a 1024 n] by (simp add: Suc add.commute)
      then have "\<forall>va \<in> set (pages_from (0x400000 + a) (Suc m - 1024)). \<not> present (mem s) pgdir va"
        using less.prems(4) by blast
      then have "deallocuvm_loop M pgdir (0x400000 + a) oldsz s = Ok () s"
        using covers_skip(1) [OF c] less.prems(3) N by (intro less.IH [of "Suc m - 1024"]) (simp_all add: Suc)
      with False covers_Suc(1) [OF c] show ?thesis
        by (simp add: N deallocuvm_loop_steps(2) [OF _ walkpgdir_noalloc [THEN trans]])
    next
      case True
      let ?q = "tab_of (mem s) pgdir a + 4 * PTX a"
      have "page_ok e (tab_of (mem s) pgdir a)" using pt_wf_D(3) [OF less.prems(3) True] .
      then have q: "?q \<noteq> 0" by (rule entry_nonzero) simp
      have "load32 (mem s) ?q AND PTE_P = 0"
        using less.prems(4) True Suc by (simp add: present_def pte_val_def)
      moreover have "deallocuvm_loop M pgdir (a + PGSIZE) oldsz s = Ok () s"
        using less.IH [of m "a + PGSIZE" M] covers_Suc(2) [OF c] less.prems(3,4) N Suc by auto
      ultimately show ?thesis
        using True q covers_Suc(1) [OF c] by (simp add: N deallocuvm_loop_steps(3) [OF _ walkpgdir_tab])
    qed
  qed
qed

text \<open>
  The general case.  A table may be missing only from the point on where no page is present any
  more, as after an \<open>allocuvm\<close> that ran out of memory half way.
\<close>

definition tables_first :: "memory \<Rightarrow> u32 \<Rightarrow> u32 \<Rightarrow> nat \<Rightarrow> bool" where
  "tables_first m pgdir a n \<longleftrightarrow> (\<forall>i < n. \<not> has_tab m pgdir (a + PGSIZE * of_nat i) \<longrightarrow>
     (\<forall>va \<in> set (pages_from (a + PGSIZE * of_nat i) (n - i)). \<not> present m pgdir va))"

lemma tables_first_0:
  assumes "tables_first m pgdir a (Suc n)" "\<not> has_tab m pgdir a"
  shows "\<forall>va \<in> set (pages_from a (Suc n)). \<not> present m pgdir va"
  using assms(1) [unfolded tables_first_def, THEN spec, of 0] assms(2) by simp

lemma tables_first_Suc: "tables_first m pgdir a (Suc n) \<Longrightarrow> tables_first m pgdir (a + PGSIZE) n"
  unfolding tables_first_def
proof (intro allI impI)
  fix i
  assume *: "\<forall>i < Suc n. \<not> has_tab m pgdir (a + PGSIZE * of_nat i) \<longrightarrow>
      (\<forall>va \<in> set (pages_from (a + PGSIZE * of_nat i) (Suc n - i)). \<not> present m pgdir va)"
    and i: "i < n" "\<not> has_tab m pgdir (a + PGSIZE + PGSIZE * of_nat i)"
  have e: "a + PGSIZE * of_nat (Suc i) = a + PGSIZE + PGSIZE * of_nat i" by (simp add: algebra_simps)
  show "\<forall>va \<in> set (pages_from (a + PGSIZE + PGSIZE * of_nat i) (n - i)). \<not> present m pgdir va"
    using *[rule_format, of "Suc i", unfolded e] i by auto
qed

text \<open>What releasing the pages \<open>vas\<close> does.\<close>

definition uvm_freed :: "u32 \<Rightarrow> u32 list \<Rightarrow> 'a kmem_scheme \<Rightarrow> u32 list \<Rightarrow> 'a kmem_scheme \<Rightarrow> u32 list \<Rightarrow> bool" where
  "uvm_freed pgdir vas s fl t ps \<longleftrightarrow>
     vm_inv t (rev ps @ fl) pgdir \<and> pt_pages (mem t) pgdir = pt_pages (mem s) pgdir \<and>
     (\<forall>va. has_tab (mem t) pgdir va = has_tab (mem s) pgdir va) \<and>
     (\<forall>va. pte_val (mem t) pgdir va =
        (if PGROUNDDOWN va \<in> set vas \<and> present (mem s) pgdir va then 0 else pte_val (mem s) pgdir va)) \<and>
     (\<forall>b. PGROUNDDOWN b \<notin> set ps \<union> pt_pages (mem s) pgdir \<longrightarrow> mem t b = mem s b) \<and>
     only_mem s t"

lemma uvm_freed_refl:
  assumes "vm_inv s fl pgdir" "\<forall>va \<in> set vas. \<not> present (mem s) pgdir va"
  shows "uvm_freed pgdir vas s fl s []"
proof -
  have "\<not> (PGROUNDDOWN va \<in> set vas \<and> present (mem s) pgdir va)" for va
    using assms(2) present_page by blast
  with assms(1) show ?thesis by (auto simp: uvm_freed_def)
qed

lemma uvm_freed_present:
  "uvm_freed pgdir vas s fl t ps \<Longrightarrow> present (mem t) pgdir va \<longleftrightarrow> present (mem s) pgdir va \<and> PGROUNDDOWN va \<notin> set vas"
  by (auto simp: uvm_freed_def present_def)

lemma uvm_freed_trans:
  assumes "uvm_freed pgdir vas s fl t ps" "uvm_freed pgdir vbs t (rev ps @ fl) u qs"
  shows "uvm_freed pgdir (vas @ vbs) s fl u (ps @ qs)"
proof -
  have "only_mem s u" using assms by (auto simp: uvm_freed_def intro: only_mem_trans)
  moreover have "pte_val (mem u) pgdir va =
      (if PGROUNDDOWN va \<in> set (vas @ vbs) \<and> present (mem s) pgdir va then 0 else pte_val (mem s) pgdir va)" for va
    using assms uvm_freed_present [OF assms(1), of va] by (auto simp: uvm_freed_def)
  ultimately show ?thesis using assms by (simp add: uvm_freed_def)
qed

lemma uvm_free_one:
  assumes inv: "vm_inv s fl pgdir" and a: "pg_aligned a" "present (mem s) pgdir a"
    and p: "frames_ok s fl pgdir [frame_of (mem s) pgdir a]"
  defines "q \<equiv> tab_of (mem s) pgdir a + 4 * PTX a"
  shows "\<exists>u. kfree (frame_of (mem s) pgdir a) s = Ok () u
    \<and> uvm_freed pgdir [a] s fl (u\<lparr>mem := store32 (mem u) q 0\<rparr>) [frame_of (mem s) pgdir a]"
proof -
  let ?p = "frame_of (mem s) pgdir a"
  have s: "kmem_ready s" "free_pages s fl" "pt_wf (k_end s) (mem s) pgdir" "pt_pages (mem s) pgdir \<inter> set fl = {}"
    using inv by (auto simp: vm_inv_def)
  have p': "page_ok (k_end s) ?p" "?p \<notin> set fl" "?p \<notin> pt_pages (mem s) pgdir" using p by (auto simp: frames_ok_def)
  obtain u where u: "kfree ?p s = Ok () u" "kmem_ready u" "free_pages u (?p # fl)" "k_end u = k_end s"
      "\<And>b. PGROUNDDOWN b \<noteq> ?p \<Longrightarrow> mem u b = mem s b" "u = s\<lparr>mem := mem u, km_freelist := ?p\<rparr>"
    using kfree_page [OF s(1,2) p'(1,2)] by blast
  have same: "mem u b = mem s b" if "PGROUNDDOWN b \<in> pt_pages (mem s) pgdir" for b
    using that p'(3) u(5) by metis
  note fr = pt_frame [OF s(3) same]
  have tabs: "tab_of (mem u) pgdir = tab_of (mem s) pgdir" "has_tab (mem u) pgdir = has_tab (mem s) pgdir"
    using same_pdes [OF fr(1)] by simp_all
  have tab: "has_tab (mem u) pgdir a" using present_has_tab [OF a(2)] by (simp add: tabs)
  note st = store_pte [OF fr(3) tab, where v = 0, unfolded tabs, folded q_def]
  let ?t = "u\<lparr>mem := store32 (mem u) q 0\<rparr>"
  have "free_pages ?t (?p # fl)"
  proof (rule free_pages_frame [OF u(3)])
    fix b assume "PGROUNDDOWN b \<in> set (?p # fl)"
    then have "PGROUNDDOWN b \<notin> pt_pages (mem s) pgdir" using p'(3) s(4) by auto
    then show "mem ?t b = mem u b" using st(5) by (simp add: fr(2))
  qed simp_all
  moreover have "kmem_ready ?t" using u(2) by (simp add: kmem_ready_def lock_ready_def)
  ultimately have "vm_inv ?t (?p # fl) pgdir"
    using st(2,3) s(4) p'(3) by (simp add: vm_inv_def fr(2) u(4))
  moreover have "has_tab (mem ?t) pgdir va = has_tab (mem s) pgdir va" for va
    using st(1) by (simp add: has_tab_def fr(1))
  moreover have "only_mem s ?t" by (rule only_mem_update(1) [OF only_memI [OF u(6)]])
  moreover have "pte_val (mem ?t) pgdir va =
      (if PGROUNDDOWN va \<in> set [a] \<and> present (mem s) pgdir va then 0 else pte_val (mem s) pgdir va)" for va
    using st(4) [of va] a present_page [of "mem s" pgdir va] by (auto simp: fr(4))
  ultimately show ?thesis
    using u(1,5) st(2,5) by (auto simp: uvm_freed_def fr(2))
qed

lemma frames_ok_rest:
  assumes "frames_ok s fl pgdir (p # ps)" "uvm_freed pgdir vas s fl t [p]"
  shows "frames_ok t (p # fl) pgdir ps"
  using assms only_mem_fields [of s t] by (auto simp: frames_ok_def uvm_freed_def)

lemma uframes_Suc: "uframes m pgdir a (Suc n) =
    (if present m pgdir a then [frame_of m pgdir a] else []) @ uframes m pgdir (a + PGSIZE) n"
  by (simp add: uframes_def)

lemma uframes_freed:
  assumes "uvm_freed pgdir vas s fl t ps" "\<And>va. va \<in> set (pages_from a n) \<Longrightarrow> PGROUNDDOWN va \<notin> set vas"
  shows "uframes (mem t) pgdir a n = uframes (mem s) pgdir a n"
proof -
  have "present (mem t) pgdir va = present (mem s) pgdir va \<and> frame_of (mem t) pgdir va = frame_of (mem s) pgdir va"
    if "va \<in> set (pages_from a n)" for va
    using assms(1) assms(2) [OF that] uvm_freed_present [OF assms(1), of va]
    by (simp add: uvm_freed_def frame_of_def)
  then show ?thesis unfolding uframes_def by (intro map_cong filter_cong) auto
qed

lemma covers_pages:
  assumes "covers a (Suc n) oldsz" "pg_aligned a" "va \<in> set (pages_from (a + PGSIZE) n)"
  shows "PGROUNDDOWN va = va" "va \<noteq> a"
proof -
  have "unat (a + PGSIZE) + 4096 * n \<le> 2 ^ 32" and u: "unat (a + PGSIZE) = unat a + 4096"
    using assms(1) covers_Suc(3) [OF assms(1)] by (auto simp: covers_def)
  with assms(3) obtain i where i: "unat va = unat a + 4096 + 4096 * i" using in_pages_from by metis
  then show "va \<noteq> a" by auto
  have "pg_aligned va" using i assms(2) by (simp add: pg_aligned_unat)
  then show "PGROUNDDOWN va = va" by simp
qed

lemma deallocuvm_loop_spec:
  assumes "vm_inv s fl pgdir" "pg_aligned a" "covers a n oldsz" "n \<le> N"
    and "frames_ok s fl pgdir (uframes (mem s) pgdir a n)" "tables_first (mem s) pgdir a n"
  shows "\<exists>t. deallocuvm_loop N pgdir a oldsz s = Ok () t
    \<and> uvm_freed pgdir (pages_from a n) s fl t (uframes (mem s) pgdir a n)"
  using assms
proof (induction n arbitrary: a N s fl)
  case 0
  then show ?case by (simp add: covers_0 deallocuvm_loop_steps uframes_def uvm_freed_refl)
next
  case (Suc n)
  then obtain M where N: "N = Suc M" "n \<le> M" by (cases N) auto
  note c = covers_Suc [OF Suc.prems(3)]
  have wf: "pt_wf (k_end s) (mem s) pgdir" using Suc.prems(1) by (simp add: vm_inv_def)
  let ?q = "tab_of (mem s) pgdir a + 4 * PTX a"
  have qnz: "?q \<noteq> 0" if "has_tab (mem s) pgdir a"
    using pt_wf_D(3) [OF wf that] by (rule entry_nonzero) simp
  consider (notab) "\<not> has_tab (mem s) pgdir a"
    | (absent) "has_tab (mem s) pgdir a" "\<not> present (mem s) pgdir a"
    | (there) "present (mem s) pgdir a" by blast
  then show ?case
  proof cases
    case notab
    then have none: "\<forall>va \<in> set (pages_from a (Suc n)). \<not> present (mem s) pgdir va"
      by (rule tables_first_0 [OF Suc.prems(6)])
    then have "uframes (mem s) pgdir a (Suc n) = []" unfolding uframes_def by (simp add: filter_empty_conv)
    then show ?thesis
      using deallocuvm_loop_none [OF Suc.prems(3,4) wf none] uvm_freed_refl [OF Suc.prems(1) none] by simp
  next
    case absent
    have "\<exists>t. deallocuvm_loop M pgdir (a + PGSIZE) oldsz s = Ok () t
        \<and> uvm_freed pgdir (pages_from (a + PGSIZE) n) s fl t (uframes (mem s) pgdir (a + PGSIZE) n)"
      using Suc.prems absent(2) c(2) N by (intro Suc.IH) (simp_all add: uframes_Suc tables_first_Suc)
    moreover have "uvm_freed pgdir [a] s fl s []" using Suc.prems(1) absent(2) by (intro uvm_freed_refl) auto
    moreover have "deallocuvm_loop N pgdir a oldsz s = deallocuvm_loop M pgdir (a + PGSIZE) oldsz s"
      using absent c(1) qnz by (simp add: N deallocuvm_loop_steps(3) [OF _ walkpgdir_tab] present_def pte_val_def)
    ultimately show ?thesis
      using absent(2) uvm_freed_trans [of pgdir "[a]" s fl s "[]"] by (auto simp: uframes_Suc)
  next
    case there
    let ?p = "frame_of (mem s) pgdir a"
    have tab: "has_tab (mem s) pgdir a" using there by (rule present_has_tab)
    have fr: "frames_ok s fl pgdir (?p # uframes (mem s) pgdir (a + PGSIZE) n)"
      using Suc.prems(5) there by (simp add: uframes_Suc)
    then have "frames_ok s fl pgdir [?p]" by (auto simp: frames_ok_def)
    then obtain u where u: "kfree ?p s = Ok () u" "uvm_freed pgdir [a] s fl (u\<lparr>mem := store32 (mem u) ?q 0\<rparr>) [?p]"
      using uvm_free_one [OF Suc.prems(1,2) there] by blast
    let ?t = "u\<lparr>mem := store32 (mem u) ?q 0\<rparr>"
    have fe: "uframes (mem ?t) pgdir (a + PGSIZE) n = uframes (mem s) pgdir (a + PGSIZE) n"
      using covers_pages [OF Suc.prems(3,2)] by (intro uframes_freed [OF u(2)]) simp
    have "tables_first (mem ?t) pgdir (a + PGSIZE) n"
      using tables_first_Suc [OF Suc.prems(6)] u(2) uvm_freed_present [OF u(2)]
      by (auto simp: tables_first_def uvm_freed_def)
    moreover have "vm_inv ?t (?p # fl) pgdir" using u(2) by (simp add: uvm_freed_def)
    ultimately obtain v where v: "deallocuvm_loop M pgdir (a + PGSIZE) oldsz ?t = Ok () v"
        "uvm_freed pgdir (pages_from (a + PGSIZE) n) ?t (?p # fl) v (uframes (mem s) pgdir (a + PGSIZE) n)"
      using Suc.IH [of ?t "?p # fl" "a + PGSIZE" M] frames_ok_rest [OF fr u(2)] Suc.prems(2) c(2) N(2) fe by auto
    have e: "load32 (mem s) ?q = pte_val (mem s) pgdir a" using tab by (simp add: pte_val_def)
    have "PTE_ADDR (load32 (mem s) ?q) \<noteq> 0"
      using fr e by (auto simp: frames_ok_def frame_of_def p2v_def)
    then have "deallocuvm_loop N pgdir a oldsz s = Ok () v"
      using there u(1) v(1) qnz [OF tab] c(1)
      by (simp add: N deallocuvm_loop_steps(4) [OF _ walkpgdir_tab [OF tab]] e present_def frame_of_def)
    then show ?thesis using uvm_freed_trans [OF u(2)] v(2) there by (auto simp: uframes_Suc)
  qed
qed

definition npages :: "u32 \<Rightarrow> nat" where
  "npages sz = (unat sz + 4095) div 4096"

lemma npages_bounds: "unat sz \<le> 4096 * npages sz" "4096 * npages sz < unat sz + 4096"
proof -
  have "4096 * npages sz + (unat sz + 4095) mod 4096 = unat sz + 4095"
    unfolding npages_def by (rule mult_div_mod_eq)
  moreover have "(unat sz + 4095) mod 4096 < 4096" by simp
  ultimately show "unat sz \<le> 4096 * npages sz" "4096 * npages sz < unat sz + 4096" by linarith+
qed

lemma npages_mono: "a \<le> b \<Longrightarrow> npages a \<le> npages b"
  unfolding npages_def by (intro div_le_mono) (simp add: word_le_nat_alt)

lemma covers_PGROUNDUP:
  assumes "newsz \<le> oldsz" "oldsz \<le> KERNBASE"
  shows "covers (PGROUNDUP newsz) (npages oldsz - npages newsz) oldsz" "unat (PGROUNDUP newsz) = 4096 * npages newsz"
proof -
  have le: "unat newsz \<le> unat oldsz" "unat oldsz \<le> 0x80000000" using assms by (simp_all add: word_le_nat_alt)
  then show u: "unat (PGROUNDUP newsz) = 4096 * npages newsz" by (simp add: unat_PGROUNDUP npages_def)
  have "npages newsz \<le> npages oldsz" using assms(1) by (rule npages_mono)
  then obtain d where d: "npages oldsz = npages newsz + d" using le_Suc_ex by blast
  show "covers (PGROUNDUP newsz) (npages oldsz - npages newsz) oldsz"
    using le npages_bounds [of oldsz] unfolding covers_def u d by simp
qed

lemma npages_less: "sz \<le> KERNBASE \<Longrightarrow> npages sz \<le> 524288"
  using npages_bounds(2) [of sz] by (simp add: word_le_nat_alt)

text \<open>Shrinking from \<open>oldsz\<close> to \<open>newsz\<close>.\<close>

lemma deallocuvm_spec:
  assumes "vm_inv s fl pgdir" "newsz < oldsz" "oldsz \<le> KERNBASE"
    and "frames_ok s fl pgdir (uframes (mem s) pgdir (PGROUNDUP newsz) (npages oldsz - npages newsz))"
    and "tables_first (mem s) pgdir (PGROUNDUP newsz) (npages oldsz - npages newsz)"
  shows "\<exists>t. deallocuvm pgdir oldsz newsz s = Ok newsz t
    \<and> uvm_freed pgdir (pages_from (PGROUNDUP newsz) (npages oldsz - npages newsz)) s fl t
        (uframes (mem s) pgdir (PGROUNDUP newsz) (npages oldsz - npages newsz))"
proof -
  have "newsz \<le> oldsz" using assms(2) by simp
  note c = covers_PGROUNDUP [OF this assms(3)]
  have "npages oldsz - npages newsz \<le> 1048576" using npages_less [OF assms(3)] by simp
  from deallocuvm_loop_spec [OF assms(1) _ c(1) this assms(4,5)] assms(2) show ?thesis
    by (auto simp: deallocuvm_def)
qed

lemma deallocuvm_grow: "newsz \<ge> oldsz \<Longrightarrow> deallocuvm pgdir oldsz newsz s = Ok oldsz s"
  by (simp add: deallocuvm_def)

section \<open>Adding pages\<close>

text \<open>
  From \<open>s\<close> to \<open>t\<close> the pages \<open>ps\<close> and new table pages left the front of the free list; \<open>ps\<close> are zeroed
  and no page but these and the tables was written.
\<close>

definition uvm_grow :: "u32 \<Rightarrow> 'a kmem_scheme \<Rightarrow> u32 list \<Rightarrow> 'a kmem_scheme \<Rightarrow> u32 list \<Rightarrow> u32 list \<Rightarrow> bool" where
  "uvm_grow pgdir s fl t fl' ps \<longleftrightarrow>
     vm_inv t fl' pgdir \<and>
     (\<exists>us. fl = us @ fl' \<and> set ps \<union> pt_pages (mem t) pgdir = set us \<union> pt_pages (mem s) pgdir) \<and>
     pt_pages (mem s) pgdir \<subseteq> pt_pages (mem t) pgdir \<and>
     set ps \<inter> pt_pages (mem t) pgdir = {} \<and> set ps \<subseteq> set fl \<and> distinct ps \<and>
     (\<forall>b. PGROUNDDOWN b \<in> set ps \<longrightarrow> mem t b = 0) \<and>
     (\<forall>b. PGROUNDDOWN b \<notin> set ps \<union> pt_pages (mem t) pgdir \<longrightarrow> mem t b = mem s b) \<and>
     only_mem s t"

lemma vm_inv_distinct: "vm_inv s fl pgdir \<Longrightarrow> distinct fl"
  by (simp add: vm_inv_def free_pages_def)

lemma uvm_grow_tables: "vm_grow pgdir s fl t fl' \<Longrightarrow> uvm_grow pgdir s fl t fl' []"
  by (auto simp: uvm_grow_def vm_grow_def)

lemma uvm_grow_trans:
  assumes st: "uvm_grow pgdir s fl t fl' ps" and tu: "uvm_grow pgdir t fl' u fl'' qs" and fl: "distinct fl"
  shows "uvm_grow pgdir s fl u fl'' (ps @ qs)"
proof -
  obtain us where us: "fl = us @ fl'" "set ps \<union> pt_pages (mem t) pgdir = set us \<union> pt_pages (mem s) pgdir"
    using st by (auto simp: uvm_grow_def)
  obtain vs where vs: "fl' = vs @ fl''" "set qs \<union> pt_pages (mem u) pgdir = set vs \<union> pt_pages (mem t) pgdir"
    using tu by (auto simp: uvm_grow_def)
  have sub: "pt_pages (mem s) pgdir \<subseteq> pt_pages (mem t) pgdir" "pt_pages (mem t) pgdir \<subseteq> pt_pages (mem u) pgdir"
    using st tu by (simp_all add: uvm_grow_def)
  have ps: "set ps \<inter> pt_pages (mem t) pgdir = {}" "distinct ps" "\<forall>b. PGROUNDDOWN b \<in> set ps \<longrightarrow> mem t b = 0"
    "set ps \<subseteq> set fl"
    using st by (simp_all add: uvm_grow_def)
  have qs: "set qs \<inter> pt_pages (mem u) pgdir = {}" "distinct qs" "set qs \<subseteq> set fl'"
    using tu by (simp_all add: uvm_grow_def)
  have "pt_pages (mem t) pgdir \<inter> set fl' = {}" using st by (simp add: uvm_grow_def vm_inv_def)
  have psu: "set ps \<subseteq> set us \<union> pt_pages (mem t) pgdir" using us(2) sub(1) by blast
  then have psu': "set ps \<subseteq> set us" using ps(1) by blast
  have us_vs: "set us \<inter> set fl' = {}" using fl us(1) by auto
  then have 1: "set ps \<inter> set qs = {}" using psu' qs(3) by blast
  have 2: "set ps \<inter> pt_pages (mem u) pgdir = {}"
    using vs psu' us_vs ps(1) by fastforce
  have 3: "set (ps @ qs) \<union> pt_pages (mem u) pgdir = set (us @ vs) \<union> pt_pages (mem s) pgdir"
    using us(2) vs(2) sub by auto
  have 4: "mem u b = 0" if "PGROUNDDOWN b \<in> set (ps @ qs)" for b
    using that tu ps(3) 1 2 by (auto simp: uvm_grow_def)
  have 5: "mem u b = mem s b" if "PGROUNDDOWN b \<notin> set (ps @ qs) \<union> pt_pages (mem u) pgdir" for b
    using that st tu sub by (auto simp: uvm_grow_def)
  have "only_mem s u" using st tu by (auto simp: uvm_grow_def intro: only_mem_trans)
  moreover have "vm_inv u fl'' pgdir" using tu by (simp add: uvm_grow_def)
  moreover have "set (ps @ qs) \<subseteq> set fl" using ps(4) qs(3) us(1) by auto
  ultimately show ?thesis
    using us(1) vs(1) 1 2 3 4 5 ps(2) qs(1,2) sub unfolding uvm_grow_def by auto
qed

lemma kalloc_zero:
  assumes inv: "vm_inv s (p # fl) pgdir"
  shows "\<exists>u. kalloc s = Ok p u \<and> (let t = u\<lparr>mem := memset (mem u) p 0 PGSIZE\<rparr> in
    uvm_grow pgdir s (p # fl) t fl [p] \<and> pte_val (mem t) pgdir = pte_val (mem s) pgdir
    \<and> has_tab (mem t) pgdir = has_tab (mem s) pgdir)"
proof -
  have s: "kmem_ready s" "free_pages s (p # fl)" "pt_wf (k_end s) (mem s) pgdir" "pt_pages (mem s) pgdir \<inter> set (p # fl) = {}"
    using inv by (auto simp: vm_inv_def)
  note k = kalloc_Cons [OF s(1,2)] free_pages_ConsD [OF s(2)]
  then have al: "pg_aligned p" by auto
  let ?u = "s\<lparr>km_freelist := load32 (mem s) p\<rparr>"
  define t where "t = ?u\<lparr>mem := memset (mem ?u) p 0 PGSIZE\<rparr>"
  have t: "km_freelist t = km_freelist ?u" "k_end t = k_end s" "only_mem s t" "kmem_ready t"
    using s(1) by (auto simp: t_def kmem_ready_def lock_ready_def intro: only_mem_update)
  have m: "mem t b = (if PGROUNDDOWN b = p then 0 else mem s b)" for b
    using al by (simp add: t_def memset_page)
  have same: "mem t b = mem s b" if "PGROUNDDOWN b \<in> pt_pages (mem s) pgdir" for b
    using that s(4) m by auto
  note fr = pt_frame [OF s(3) same]
  have pp: "pt_pages (mem t) pgdir = pt_pages (mem s) pgdir" by (rule fr(2))
  have "free_pages t fl" using k(3) m by (intro free_pages_frame [OF k(2)]) (auto simp: t)
  then have "vm_inv t fl pgdir" using fr(2,3) s(4) t by (simp add: vm_inv_def)
  then have "uvm_grow pgdir s (p # fl) t fl [p]"
    using s(4) m t(3) pp by (auto simp: uvm_grow_def)
  moreover have "pte_val (mem t) pgdir = pte_val (mem s) pgdir" using fr(4) by blast
  moreover have "has_tab (mem t) pgdir = has_tab (mem s) pgdir" by (rule same_pdes(2)) (rule fr(1))
  ultimately show ?thesis using k(1) unfolding t_def by (auto simp: Let_def)
qed

text \<open>Pages mapped one after another from \<open>a\<close>, user-accessible and writable, to the frames \<open>ps\<close>.\<close>

definition alloc_range :: "u32 \<Rightarrow> u32 list \<Rightarrow> (u32 \<Rightarrow> u32) \<Rightarrow> u32 \<Rightarrow> u32" where
  "alloc_range a ps f vb =
     (let i = unat (PGROUNDDOWN vb - a) div 4096 in if i < length ps then v2p (ps ! i) OR 7 else f vb)"

lemma alloc_range_Nil [simp]: "alloc_range a [] f = f"
  by (simp add: alloc_range_def fun_eq_iff)

lemma alloc_range_snoc:
  assumes "pg_aligned a" "length ps < 1048576"
  shows "alloc_range a (ps @ [p]) f = (\<lambda>vb. if PGROUNDDOWN vb = a + PGSIZE * of_nat (length ps)
    then v2p p OR 7 else alloc_range a ps f vb)"
proof
  fix vb
  have "pg_aligned (PGROUNDDOWN vb - a)" using assms by simp
  then obtain k where k: "unat (PGROUNDDOWN vb - a) = 4096 * k" by (rule pg_aligned_obtain)
  have "PGROUNDDOWN vb = a + PGSIZE * of_nat (length ps) \<longleftrightarrow> PGROUNDDOWN vb - a = 4096 * of_nat (length ps)"
    by (auto simp: algebra_simps)
  also have "\<dots> \<longleftrightarrow> k = length ps"
    using k assms(2) by (simp add: word_unat_eq_iff unat_pages)
  finally show "alloc_range a (ps @ [p]) f vb = (if PGROUNDDOWN vb = a + PGSIZE * of_nat (length ps)
    then v2p p OR 7 else alloc_range a ps f vb)"
    using k by (auto simp: alloc_range_def nth_append Let_def less_Suc_eq)
qed

lemma alloc_page:
  assumes inv: "vm_inv s (p # fl) pgdir" and a: "pg_aligned a" "\<not> present (mem s) pgdir a"
  shows "\<exists>u v r fl'. kalloc s = Ok p u
    \<and> mappages pgdir a PGSIZE (v2p p) (PTE_W OR PTE_U) (u\<lparr>mem := memset (mem u) p 0 PGSIZE\<rparr>) = Ok r v
    \<and> uvm_grow pgdir s (p # fl) v fl' [p] \<and> length fl \<le> Suc (length fl')
    \<and> (r = 0 \<or> r = - 1 \<and> fl = [] \<and> fl' = [])
    \<and> pte_val (mem v) pgdir = (\<lambda>vb. if r = 0 \<and> PGROUNDDOWN vb = a then v2p p OR 7 else pte_val (mem s) pgdir vb)"
proof -
  obtain u where u: "kalloc s = Ok p u" "uvm_grow pgdir s (p # fl) (u\<lparr>mem := memset (mem u) p 0 PGSIZE\<rparr>) fl [p]"
      "pte_val (mem (u\<lparr>mem := memset (mem u) p 0 PGSIZE\<rparr>)) pgdir = pte_val (mem s) pgdir"
    using kalloc_zero [OF inv] by (auto simp: Let_def)
  let ?t = "u\<lparr>mem := memset (mem u) p 0 PGSIZE\<rparr>"
  have "vm_inv ?t fl pgdir" using u(2) by (simp add: uvm_grow_def)
  moreover have "pte_val (mem ?t) pgdir a AND PTE_P = 0" using a(2) u(3) by (simp add: present_def)
  ultimately obtain r v fl' where v: "mappages pgdir a PGSIZE (v2p p) (PTE_W OR PTE_U) ?t = Ok r v"
      "vm_grow pgdir ?t fl v fl'" "length fl \<le> Suc (length fl')" "r = 0 \<or> r = - 1 \<and> fl = [] \<and> fl' = []"
      "\<And>vb. pte_val (mem v) pgdir vb = (if r = 0 \<and> PGROUNDDOWN vb = a
        then v2p p OR (PTE_W OR PTE_U) OR PTE_P else pte_val (mem ?t) pgdir vb)"
    using mappages_page [of ?t fl pgdir a "v2p p" "PTE_W OR PTE_U"] a(1) by metis
  have "uvm_grow pgdir s (p # fl) v fl' ([p] @ [])"
    using uvm_grow_trans [OF u(2) uvm_grow_tables [OF v(2)] vm_inv_distinct [OF inv]] .
  then show ?thesis using u(1,3) v by (intro exI [of _ u] exI [of _ v] exI [of _ r] exI [of _ fl']) auto
qed

lemma pages_from_map: "pages_from a n = map (\<lambda>i. a + PGSIZE * of_nat i) [0..<n]"
proof (induction n arbitrary: a)
  case (Suc n)
  have "map (\<lambda>i. a + PGSIZE * of_nat i) [0..<Suc n] = a # map (\<lambda>i. a + PGSIZE * of_nat (Suc i)) [0..<n]"
    by (simp del: upt_Suc add: upt_conv_Cons map_Suc_upt [symmetric] comp_def)
  then show ?case by (simp add: Suc.IH algebra_simps)
qed simp

lemma alloc_range_at:
  assumes "pg_aligned a" "i < 1048576"
  shows "alloc_range a ps f (a + PGSIZE * of_nat i) = (if i < length ps then v2p (ps ! i) OR 7 else f (a + PGSIZE * of_nat i))"
  using assms by (simp add: alloc_range_def unat_pages)

text \<open>The state of the loop of \<open>allocuvm\<close> when \<open>ps\<close> have been mapped from \<open>a\<close> and \<open>xs\<close> were allocated in vain.\<close>

definition alloc_inv ::
  "u32 \<Rightarrow> u32 \<Rightarrow> nat \<Rightarrow> 'a kmem_scheme \<Rightarrow> u32 list \<Rightarrow> 'a kmem_scheme \<Rightarrow> u32 list \<Rightarrow> u32 list \<Rightarrow> u32 list \<Rightarrow> bool" where
  "alloc_inv pgdir a n s fl t fl' ps xs \<longleftrightarrow>
     pg_aligned a \<and> n < 1048576 \<and> length ps \<le> n \<and> vm_inv s fl pgdir \<and> KERNBASE < k_end s \<and>
     (\<forall>va \<in> set (pages_from a n). \<not> present (mem s) pgdir va) \<and>
     uvm_grow pgdir s fl t fl' (ps @ xs) \<and> pte_val (mem t) pgdir = alloc_range a ps (pte_val (mem s) pgdir)"

lemma alloc_inv_page:
  assumes "alloc_inv pgdir a n s fl t fl' ps xs" "p \<in> set (ps @ xs)"
  shows "page_ok (k_end t) p" "p \<noteq> KERNBASE" "p \<notin> pt_pages (mem t) pgdir" "p \<notin> set fl'"
proof -
  have g: "uvm_grow pgdir s fl t fl' (ps @ xs)" and s: "free_pages s fl" "KERNBASE < k_end s"
    using assms(1) by (auto simp: alloc_inv_def vm_inv_def)
  have e: "k_end t = k_end s" using g only_mem_fields by (auto simp: uvm_grow_def)
  have p: "p \<in> set fl" using g assms(2) by (auto simp: uvm_grow_def)
  then show "page_ok (k_end t) p" using s(1) e by (simp add: free_pages_def)
  then show "p \<noteq> KERNBASE" using s(2) e by (auto simp: page_ok_def)
  show n: "p \<notin> pt_pages (mem t) pgdir" using g assms(2) by (auto simp: uvm_grow_def)
  obtain us where us: "fl = us @ fl'" "set (ps @ xs) \<union> pt_pages (mem t) pgdir = set us \<union> pt_pages (mem s) pgdir"
    and sub: "pt_pages (mem s) pgdir \<subseteq> pt_pages (mem t) pgdir"
    using g by (auto simp: uvm_grow_def)
  then have "p \<in> set us" using assms(2) n by blast
  then show "p \<notin> set fl'" using us(1) s(1) by (auto simp: free_pages_def)
qed

lemma alloc_inv_at:
  assumes "alloc_inv pgdir a n s fl t fl' ps xs" "i < n"
  shows "present (mem t) pgdir (a + PGSIZE * of_nat i) \<longleftrightarrow> i < length ps"
    and "i < length ps \<Longrightarrow> frame_of (mem t) pgdir (a + PGSIZE * of_nat i) = ps ! i"
proof -
  have al: "pg_aligned (ps ! i)" if "i < length ps"
    using alloc_inv_page(1) [OF assms(1), of "ps ! i"] that by simp
  have i: "i < 1048576" and a: "pg_aligned a"
    and np: "\<not> present (mem s) pgdir (a + PGSIZE * of_nat i)"
    and v: "pte_val (mem t) pgdir = alloc_range a ps (pte_val (mem s) pgdir)"
    using assms by (auto simp: alloc_inv_def pages_from_map)
  show "present (mem t) pgdir (a + PGSIZE * of_nat i) \<longleftrightarrow> i < length ps"
    using np by (simp add: present_def v alloc_range_at [OF a i])
  show "frame_of (mem t) pgdir (a + PGSIZE * of_nat i) = ps ! i" if "i < length ps"
    using that al by (simp add: frame_of_def v alloc_range_at [OF a i] table_entry_addr)
qed

lemma alloc_inv_frames:
  assumes inv: "alloc_inv pgdir a n s fl t fl' ps xs"
  shows "uframes (mem t) pgdir a n = ps" "frames_ok t fl' pgdir ps" "tables_first (mem t) pgdir a n"
proof -
  have le: "length ps \<le> n" using inv by (simp add: alloc_inv_def)
  then have "[0..<n] = [0..<length ps] @ [length ps..<n]" by (metis le_add_diff_inverse upt_add_eq_append zero_le)
  moreover have "filter (\<lambda>i. i < length ps) ([0..<length ps] @ [length ps..<n]) = [0..<length ps]"
    by (auto simp: filter_empty_conv)
  ultimately have f: "filter (\<lambda>i. i < length ps) [0..<n] = [0..<length ps]" by simp
  have "uframes (mem t) pgdir a n =
      map (\<lambda>i. frame_of (mem t) pgdir (a + PGSIZE * of_nat i)) (filter (\<lambda>i. i < length ps) [0..<n])"
    unfolding uframes_def pages_from_map filter_map map_map comp_def
    using alloc_inv_at(1) [OF inv] by (intro map_cong filter_cong) auto
  also have "\<dots> = map ((!) ps) [0..<length ps]"
    unfolding f using alloc_inv_at(2) [OF inv] le by (intro map_cong) auto
  finally show "uframes (mem t) pgdir a n = ps" by (simp add: map_nth)
  show "frames_ok t fl' pgdir ps"
    using inv alloc_inv_page [OF inv] by (auto simp: frames_ok_def alloc_inv_def uvm_grow_def)
  show "tables_first (mem t) pgdir a n" unfolding tables_first_def
  proof (intro allI impI ballI)
    fix i va assume i: "i < n" "\<not> has_tab (mem t) pgdir (a + PGSIZE * of_nat i)"
      and va: "va \<in> set (pages_from (a + PGSIZE * of_nat i) (n - i))"
    have "\<not> i < length ps" using i alloc_inv_at(1) [OF inv i(1)] present_has_tab by blast
    moreover from va obtain j where "j < n - i" "va = a + PGSIZE * of_nat (i + j)"
      by (auto simp: pages_from_map algebra_simps)
    ultimately show "\<not> present (mem t) pgdir va" using alloc_inv_at(1) [OF inv, of "i + j"] by simp
  qed
qed

lemma allocuvm_loop_steps:
  "\<not> a < newsz \<Longrightarrow> allocuvm_loop N pgdir a oldsz newsz s = Ok newsz s"
  "a < newsz \<Longrightarrow> kalloc s = Ok 0 t \<Longrightarrow> deallocuvm pgdir newsz oldsz t = Ok x u \<Longrightarrow>
    allocuvm_loop (Suc N) pgdir a oldsz newsz s = Ok 0 u"
  "a < newsz \<Longrightarrow> kalloc s = Ok p u \<Longrightarrow> p \<noteq> 0 \<Longrightarrow>
    mappages pgdir a PGSIZE (v2p p) (PTE_W OR PTE_U) (u\<lparr>mem := memset (mem u) p 0 PGSIZE\<rparr>) = Ok r v \<Longrightarrow>
    allocuvm_loop (Suc N) pgdir a oldsz newsz s = allocuvm_loop N pgdir (a + PGSIZE) oldsz newsz v"
  by (subst allocuvm_loop.simps, simp add: Let_def)+

lemma in_pages_from_index:
  assumes "pg_aligned a" "n < 1048576"
  shows "PGROUNDDOWN va \<in> set (pages_from a n) \<longleftrightarrow> unat (PGROUNDDOWN va - a) div 4096 < n"
    and "PGROUNDDOWN va = a + PGSIZE * of_nat (unat (PGROUNDDOWN va - a) div 4096)"
proof -
  show e: "PGROUNDDOWN va = a + PGSIZE * of_nat (unat (PGROUNDDOWN va - a) div 4096)"
    using page_span(2) [OF assms(1) PGROUNDDOWN_aligned] .
  show "PGROUNDDOWN va \<in> set (pages_from a n) \<longleftrightarrow> unat (PGROUNDDOWN va - a) div 4096 < n"
  proof
    assume "PGROUNDDOWN va \<in> set (pages_from a n)"
    then obtain j where "j < n" "PGROUNDDOWN va = a + PGSIZE * of_nat j" by (auto simp: pages_from_map)
    then show "unat (PGROUNDDOWN va - a) div 4096 < n" using assms(2) by (simp add: unat_pages)
  next
    assume "unat (PGROUNDDOWN va - a) div 4096 < n"
    then show "PGROUNDDOWN va \<in> set (pages_from a n)" using e by (auto simp: pages_from_map)
  qed
qed

text \<open>Undoing: the pages mapped so far are unmapped and freed again.\<close>

lemma alloc_inv_undo:
  assumes inv: "alloc_inv pgdir a n s fl t fl' ps xs" and a: "a = PGROUNDUP oldsz" "n = npages newsz - npages oldsz"
    and sz: "oldsz < newsz" "newsz \<le> KERNBASE"
  shows "\<exists>u. deallocuvm pgdir newsz oldsz t = Ok oldsz u \<and> vm_inv u (rev ps @ fl') pgdir
    \<and> pte_val (mem u) pgdir = (\<lambda>va. if PGROUNDDOWN va \<in> set (pages_from a (length ps)) then 0 else pte_val (mem s) pgdir va)
    \<and> only_mem s u"
proof -
  have v: "vm_inv t fl' pgdir" and le: "length ps \<le> n" and n: "n < 1048576" "pg_aligned a" and st: "only_mem s t"
    and pv: "pte_val (mem t) pgdir = alloc_range a ps (pte_val (mem s) pgdir)"
    using inv by (auto simp: alloc_inv_def uvm_grow_def)
  note fr = alloc_inv_frames [OF inv]
  from deallocuvm_spec [OF v sz, folded a, unfolded fr(1), OF fr(2,3)] obtain u where
    u: "deallocuvm pgdir newsz oldsz t = Ok oldsz u" "uvm_freed pgdir (pages_from a n) t fl' u ps" by blast
  have "pte_val (mem u) pgdir va = (if PGROUNDDOWN va \<in> set (pages_from a (length ps)) then 0 else pte_val (mem s) pgdir va)" for va
  proof -
    define i where "i = unat (PGROUNDDOWN va - a) div 4096"
    have e: "PGROUNDDOWN va = a + PGSIZE * of_nat i" unfolding i_def using in_pages_from_index(2) [OF n(2,1)] .
    have in_n: "PGROUNDDOWN va \<in> set (pages_from a k) \<longleftrightarrow> i < k" if "k < 1048576" for k
      unfolding i_def using in_pages_from_index(1) [OF n(2) that] .
    have pres: "present (mem t) pgdir va \<longleftrightarrow> i < length ps" if "i < n"
      using alloc_inv_at(1) [OF inv that] e present_page [of "mem t" pgdir va] by simp
    have "pte_val (mem u) pgdir va = (if i < n \<and> present (mem t) pgdir va then 0 else pte_val (mem t) pgdir va)"
      using u(2) in_n [OF n(1)] by (simp add: uvm_freed_def)
    also have "\<dots> = (if i < length ps then 0 else pte_val (mem s) pgdir va)"
      using pres le by (auto simp: pv alloc_range_def i_def [symmetric])
    finally show ?thesis using in_n [of "length ps"] le n(1) by simp
  qed
  moreover have "only_mem s u" using st u(2) by (auto simp: uvm_freed_def intro: only_mem_trans)
  ultimately show ?thesis using u by (auto simp: uvm_freed_def)
qed

text \<open>
  The three ways \<open>allocuvm\<close> ends: everything mapped; memory exhausted and the growth undone; or the
  last page allocated but not mapped because there was no page left for its table.
\<close>

definition alloc_done where
  "alloc_done pgdir a n newsz s fl r u \<longleftrightarrow>
     r = newsz \<and> (\<exists>fl' ps. length ps = n \<and> alloc_inv pgdir a n s fl u fl' ps [])"

definition alloc_undone where
  "alloc_undone pgdir a s fl r u \<longleftrightarrow>
     r = (0 :: u32) \<and> (\<exists>ps. set ps \<subseteq> set fl \<and> vm_inv u (rev ps) pgdir \<and> only_mem s u
       \<and> pte_val (mem u) pgdir = (\<lambda>va. if PGROUNDDOWN va \<in> set (pages_from a (length ps)) then 0 else pte_val (mem s) pgdir va))"

definition alloc_hole where
  "alloc_hole pgdir a n newsz s fl r u \<longleftrightarrow>
     r = newsz \<and> (\<exists>ps x. Suc (length ps) = n \<and> alloc_inv pgdir a n s fl u [] ps [x])"

lemma covers_at:
  assumes "covers a n newsz" "k \<le> n"
  shows "a + PGSIZE * of_nat k < newsz \<longleftrightarrow> k < n"
proof (cases "n = 0")
  case False
  then have b: "unat a + 4096 * n < unat newsz + 4096" "unat newsz \<le> unat a + 4096 * n" "unat newsz \<le> 0x80000000"
    using assms(1) by (auto simp: covers_def)
  have "unat (a + of_nat (4096 * k)) = unat a + 4096 * k"
    by (rule unat_add_of_nat) (use b assms(2) in simp)
  then have "unat (a + PGSIZE * of_nat k) = unat a + 4096 * k" by simp
  with b assms(2) show ?thesis unfolding word_less_nat_alt by auto
qed (use assms covers_0 in auto)

lemma alloc_inv_step:
  assumes inv: "alloc_inv pgdir a n s fl t (p # fl') ps []" and k: "length ps < n"
  shows "\<exists>u v r fl''. kalloc t = Ok p u \<and> p \<noteq> 0
    \<and> mappages pgdir (a + PGSIZE * of_nat (length ps)) PGSIZE (v2p p) (PTE_W OR PTE_U)
        (u\<lparr>mem := memset (mem u) p 0 PGSIZE\<rparr>) = Ok r v
    \<and> (if r = 0 then alloc_inv pgdir a n s fl v fl'' (ps @ [p]) [] \<and> length fl' \<le> Suc (length fl'')
       else fl' = [] \<and> alloc_inv pgdir a n s fl v [] ps [p])"
proof -
  let ?a = "a + PGSIZE * of_nat (length ps)"
  have v: "vm_inv t (p # fl') pgdir" "vm_inv s fl pgdir" and n: "n < 1048576" "pg_aligned a"
    and g: "uvm_grow pgdir s fl t (p # fl') ps"
    and pv: "pte_val (mem t) pgdir = alloc_range a ps (pte_val (mem s) pgdir)"
    using inv by (auto simp: alloc_inv_def uvm_grow_def)
  have al: "pg_aligned ?a" using n(2) by simp
  have "\<not> present (mem t) pgdir ?a" using alloc_inv_at(1) [OF inv k] by simp
  from alloc_page [OF v(1) al this] obtain u v r fl'' where *: "kalloc t = Ok p u"
      "mappages pgdir ?a PGSIZE (v2p p) (PTE_W OR PTE_U) (u\<lparr>mem := memset (mem u) p 0 PGSIZE\<rparr>) = Ok r v"
      "uvm_grow pgdir t (p # fl') v fl'' [p]" "length fl' \<le> Suc (length fl'')"
      "r = 0 \<or> r = - 1 \<and> fl' = [] \<and> fl'' = []"
      "pte_val (mem v) pgdir = (\<lambda>vb. if r = 0 \<and> PGROUNDDOWN vb = ?a then v2p p OR 7 else pte_val (mem t) pgdir vb)"
    by blast
  have g': "uvm_grow pgdir s fl v fl'' (ps @ [p])"
    using uvm_grow_trans [OF g *(3) vm_inv_distinct [OF v(2)]] .
  have "p \<noteq> 0" using v(1) by (auto simp: vm_inv_def dest: free_pages_ConsD)
  moreover have "alloc_inv pgdir a n s fl v fl'' (ps @ [p]) []" if "r = 0"
    using inv k g' *(6) that by (auto simp: alloc_inv_def alloc_range_snoc pv)
  moreover have "alloc_inv pgdir a n s fl v [] ps [p]" if "r \<noteq> 0"
    using inv g' *(5,6) that by (auto simp: alloc_inv_def)
  ultimately show ?thesis using *(1,2,4,5) by (intro exI [of _ u] exI [of _ v] exI [of _ r] exI [of _ fl'']) auto
qed

lemma kalloc_none: "vm_inv t [] pgdir \<Longrightarrow> kalloc t = Ok 0 t"
  by (simp add: vm_inv_def kalloc_Nil)

lemma allocuvm_loop_spec:
  assumes "alloc_inv pgdir a n s fl t fl' ps []" "n - length ps \<le> N"
    and a: "a = PGROUNDUP oldsz" "n = npages newsz - npages oldsz" and sz: "oldsz \<le> newsz" "newsz \<le> KERNBASE"
  shows "\<exists>r u. allocuvm_loop N pgdir (a + PGSIZE * of_nat (length ps)) oldsz newsz t = Ok r u
    \<and> (alloc_done pgdir a n newsz s fl r u \<or> 
       length fl' < 2 * (n - length ps) \<and> (alloc_undone pgdir a s fl r u \<or> alloc_hole pgdir a n newsz s fl r u))"
  using assms(1,2)
proof (induction "n - length ps" arbitrary: N t fl' ps)
  case 0
  then have "length ps = n" by (simp add: alloc_inv_def)
  with 0 covers_at [OF covers_PGROUNDUP(1) [OF sz], folded a, of n] show ?case
    by (auto simp: allocuvm_loop_steps alloc_done_def)
next
  case (Suc k)
  obtain M where N: "N = Suc M" "k \<le> M" using Suc.hyps(2) Suc.prems(2) by (cases N) auto
  have len: "length ps < n" and vt: "vm_inv t fl' pgdir" using Suc.hyps(2) Suc.prems(1) by (auto simp: alloc_inv_def uvm_grow_def)
  note c = covers_at [OF covers_PGROUNDUP(1) [OF sz], folded a]
  have lt: "a + PGSIZE * of_nat (length ps) < newsz" using c [of "length ps"] len by simp
  have sz': "oldsz < newsz" using len a(2) sz(1) by (cases "oldsz = newsz") auto
  have none: "\<exists>r u. allocuvm_loop (Suc N') pgdir b oldsz newsz v = Ok r u \<and> alloc_undone pgdir a s fl r u"
    if i: "alloc_inv pgdir a n s fl v [] qs xs" and b: "b < newsz" for v b qs xs N'
  proof -
    have vv: "vm_inv v [] pgdir" and sub: "set qs \<subseteq> set fl" using i by (auto simp: alloc_inv_def uvm_grow_def)
    from alloc_inv_undo [OF i a sz' sz(2)] obtain u where "deallocuvm pgdir newsz oldsz v = Ok oldsz u"
      "alloc_undone pgdir a s fl 0 u" using sub by (auto simp: alloc_undone_def)
    with allocuvm_loop_steps(2) [OF b kalloc_none [OF vv]] show ?thesis by blast
  qed
  show ?case
  proof (cases fl')
    case Nil
    then show ?thesis using none [OF Suc.prems(1) [unfolded Nil] lt, of M] len N by auto
  next
    case (Cons p fl1)
    from alloc_inv_step [of pgdir a n s fl t p fl1 ps] Suc.prems(1) len obtain u v r fl'' where
      st: "kalloc t = Ok p u" "p \<noteq> 0" "mappages pgdir (a + PGSIZE * of_nat (length ps)) PGSIZE (v2p p) (PTE_W OR PTE_U)
          (u\<lparr>mem := memset (mem u) p 0 PGSIZE\<rparr>) = Ok r v"
        "if r = 0 then alloc_inv pgdir a n s fl v fl'' (ps @ [p]) [] \<and> length fl1 \<le> Suc (length fl'')
         else fl1 = [] \<and> alloc_inv pgdir a n s fl v [] ps [p]"
      unfolding Cons by blast
    have e: "a + PGSIZE * of_nat (length ps) + PGSIZE = a + PGSIZE * of_nat (Suc (length ps))" by (simp add: algebra_simps)
    note loop = allocuvm_loop_steps(3) [OF lt st(1-3), of M oldsz, folded N(1), unfolded e]
    show ?thesis
    proof (cases "r = 0")
      case True
      with st(4) Suc.hyps(1) [of "ps @ [p]" v fl'' M] Suc.hyps(2) N(2) show ?thesis
        unfolding loop Cons by fastforce
    next
      case False
      then have i: "alloc_inv pgdir a n s fl v [] ps [p]" "fl1 = []" using st(4) by auto
      show ?thesis
      proof (cases "Suc (length ps) = n")
        case True
        then have "allocuvm_loop M pgdir (a + PGSIZE * of_nat (Suc (length ps))) oldsz newsz v = Ok newsz v"
          using c [of "Suc (length ps)"] by (intro allocuvm_loop_steps(1)) simp
        with i True len show ?thesis unfolding loop Cons by (auto simp: alloc_hole_def)
      next
        case False
        then have lt': "a + PGSIZE * of_nat (Suc (length ps)) < newsz" and "M \<noteq> 0"
          using c [of "Suc (length ps)"] len N Suc.hyps(2) by auto
        then obtain M' where "M = Suc M'" by (cases M) auto
        with none [OF i(1) lt', of M'] i(2) len show ?thesis unfolding loop Cons by auto
      qed
    qed
  qed
qed

lemma allocuvm_spec:
  assumes "vm_inv s fl pgdir" "KERNBASE < k_end s" and sz: "oldsz \<le> newsz" "newsz < KERNBASE"
    and "\<forall>va \<in> set (pages_from (PGROUNDUP oldsz) (npages newsz - npages oldsz)). \<not> present (mem s) pgdir va"
  shows "\<exists>r u. allocuvm pgdir oldsz newsz s = Ok r u
    \<and> (alloc_done pgdir (PGROUNDUP oldsz) (npages newsz - npages oldsz) newsz s fl r u \<or>
       length fl < 2 * (npages newsz - npages oldsz) \<and>
       (alloc_undone pgdir (PGROUNDUP oldsz) s fl r u
        \<or> alloc_hole pgdir (PGROUNDUP oldsz) (npages newsz - npages oldsz) newsz s fl r u))"
proof -
  have "newsz \<le> KERNBASE" using sz(2) by simp
  then have n: "npages newsz \<le> 524288" by (rule npages_less)
  have "uvm_grow pgdir s fl s fl []" using uvm_grow_tables [OF vm_grow_refl [OF assms(1)]] .
  with assms n have i: "alloc_inv pgdir (PGROUNDUP oldsz) (npages newsz - npages oldsz) s fl s fl [] []"
    by (simp add: alloc_inv_def)
  have c: "\<not> newsz \<ge> KERNBASE" "\<not> newsz < oldsz" using sz by auto
  show ?thesis
    using allocuvm_loop_spec [OF i _ refl refl sz(1) \<open>newsz \<le> KERNBASE\<close>, of 1048576] n
    unfolding allocuvm_def if_not_P [OF c(1)] if_not_P [OF c(2)] by simp
qed

section \<open>Reaching user memory from the kernel\<close>

definition user_page :: "memory \<Rightarrow> u32 \<Rightarrow> u32 \<Rightarrow> bool" where
  "user_page m pgdir va \<longleftrightarrow> present m pgdir va \<and> pte_val m pgdir va AND PTE_U \<noteq> 0"

lemma uva2ka_spec:
  assumes "pt_wf e (mem s) pgdir"
  shows "uva2ka pgdir uva s =
    (if \<not> has_tab (mem s) pgdir uva then Fault ''uva2ka: null pte''
     else Ok (if user_page (mem s) pgdir uva then frame_of (mem s) pgdir uva else 0) s)"
proof (cases "has_tab (mem s) pgdir uva")
  case True
  have "tab_of (mem s) pgdir uva + 4 * PTX uva \<noteq> 0"
    using pt_wf_D(3) [OF assms True] by (rule entry_nonzero) simp
  with True show ?thesis
    by (simp add: uva2ka_def walkpgdir_tab user_page_def present_def pte_val_def frame_of_def)
qed (simp add: uva2ka_def walkpgdir_noalloc)

lemma clearpteu_spec:
  assumes "pt_wf e (mem s) pgdir"
  shows "if has_tab (mem s) pgdir uva
    then \<exists>t. clearpteu pgdir uva s = Ok () t \<and> pt_wf e (mem t) pgdir \<and> has_tab (mem t) pgdir uva
      \<and> (\<forall>va. pte_val (mem t) pgdir va = (if PGROUNDDOWN va = PGROUNDDOWN uva
            then pte_val (mem s) pgdir uva AND NOT PTE_U else pte_val (mem s) pgdir va))
      \<and> (\<forall>b. PGROUNDDOWN b \<notin> pt_pages (mem s) pgdir \<longrightarrow> mem t b = mem s b)
    else clearpteu pgdir uva s = Panic ''clearpteu''"
proof (cases "has_tab (mem s) pgdir uva")
  case True
  have "tab_of (mem s) pgdir uva + 4 * PTX uva \<noteq> 0"
    using pt_wf_D(3) [OF assms True] by (rule entry_nonzero) simp
  moreover note st = store_pte [OF assms True, where v = "pte_val (mem s) pgdir uva AND NOT PTE_U"]
  moreover note same_pdes(2) [OF st(1)]
  ultimately show ?thesis using True
    by (simp add: clearpteu_def walkpgdir_tab pte_val_def [of _ _ uva])
qed (simp add: clearpteu_def walkpgdir_noalloc)

text \<open>The kernel address of a user byte.\<close>

definition uaddr :: "memory \<Rightarrow> u32 \<Rightarrow> u32 \<Rightarrow> u32" where
  "uaddr m pgdir va = frame_of m pgdir va + (va - PGROUNDDOWN va)"

lemma frame_aligned [simp]: "pg_aligned (frame_of m pgdir va)"
  by (simp add: frame_of_def)

lemma page_off: "unat (va - PGROUNDDOWN va) < 4096"
  using in_page_iff [OF PGROUNDDOWN_aligned] by blast

lemma uaddr_page [simp]: "PGROUNDDOWN (uaddr m pgdir va) = frame_of m pgdir va"
  unfolding uaddr_def by (rule PGROUNDDOWN_offset) (simp_all add: page_off)

text \<open>A buffer \<open>copyout\<close> can write: every page mapped for the user, to frames of its own.\<close>

definition user_range :: "u32 \<Rightarrow> memory \<Rightarrow> u32 \<Rightarrow> u32 \<Rightarrow> nat \<Rightarrow> bool" where
  "user_range e m pgdir va n \<longleftrightarrow> unat va + n \<le> 2 ^ 32 \<and>
     (\<forall>i < n. user_page m pgdir (va + of_nat i) \<and> page_ok e (frame_of m pgdir (va + of_nat i))
        \<and> frame_of m pgdir (va + of_nat i) \<notin> pt_pages m pgdir) \<and>
     (\<forall>i < n. \<forall>j < n. frame_of m pgdir (va + of_nat i) = frame_of m pgdir (va + of_nat j) \<longrightarrow>
        PGROUNDDOWN (va + of_nat i) = PGROUNDDOWN (va + of_nat j))"

lemma off_mod: "unat (va - PGROUNDDOWN va) = unat va mod 4096"
proof -
  have "unat (PGROUNDDOWN va) = unat va - unat va mod 4096" by (simp add: PGROUNDDOWN_eq unat_PTE_ADDR)
  then show ?thesis by (simp add: unat_sub_if_size word_size)
qed

lemma page_step:
  assumes "unat va + i < 2 ^ 32"
  shows "PGROUNDDOWN (va + of_nat i) = PGROUNDDOWN va \<longleftrightarrow> unat (va - PGROUNDDOWN va) + i < 4096"
    and "va + of_nat i - PGROUNDDOWN va = (va - PGROUNDDOWN va) + of_nat i"
proof -
  show e: "va + of_nat i - PGROUNDDOWN va = (va - PGROUNDDOWN va) + of_nat i" by simp
  have "unat (va - PGROUNDDOWN va) \<le> unat va" by (simp add: off_mod)
  then have "unat ((va - PGROUNDDOWN va) + of_nat i) = unat (va - PGROUNDDOWN va) + i"
    using assms by (intro unat_add_of_nat) simp
  then show "PGROUNDDOWN (va + of_nat i) = PGROUNDDOWN va \<longleftrightarrow> unat (va - PGROUNDDOWN va) + i < 4096"
    unfolding in_page_iff [OF PGROUNDDOWN_aligned, symmetric] e by simp
qed

lemma frame_of_same_page: "PGROUNDDOWN va = PGROUNDDOWN vb \<Longrightarrow> frame_of m pgdir va = frame_of m pgdir vb"
  unfolding frame_of_def using pte_val_page [of m pgdir va] pte_val_page [of m pgdir vb] by simp

text \<open>The bytes of one page.\<close>

definition copied :: "memory \<Rightarrow> u32 \<Rightarrow> u32 \<Rightarrow> u8 list \<Rightarrow> memory \<Rightarrow> bool" where
  "copied m pgdir va bs m' \<longleftrightarrow>
     (\<forall>i < length bs. m' (uaddr m pgdir (va + of_nat i)) = bs ! i) \<and>
     (\<forall>b. (\<forall>i < length bs. b \<noteq> uaddr m pgdir (va + of_nat i)) \<longrightarrow> m' b = m b)"

lemma write_chunk:
  assumes r: "unat va + length bs \<le> 2 ^ 32" and n: "length bs \<le> 4096 - unat (va - PGROUNDDOWN va)"
  shows "copied m pgdir va bs (write_bytes m (frame_of m pgdir va + (va - PGROUNDDOWN va)) bs)"
proof -
  let ?base = "frame_of m pgdir va + (va - PGROUNDDOWN va)"
  let ?m = "write_bytes m ?base bs"
  have len: "length bs \<le> 4096" using n by simp
  have u: "uaddr m pgdir (va + of_nat i) = ?base + of_nat i" if "i < length bs" for i
  proof -
    have "unat (va - PGROUNDDOWN va) + i < 4096" using n that page_off [of va] by simp
    then have "PGROUNDDOWN (va + of_nat i) = PGROUNDDOWN va" using r that page_step(1) [of va i] by simp
    then show ?thesis using frame_of_same_page [of "va + of_nat i" va m pgdir] by (simp add: uaddr_def)
  qed
  have "?m (uaddr m pgdir (va + of_nat i)) = bs ! i" if "i < length bs" for i
    using that len u [OF that] by (simp add: write_bytes_def unat_of_nat)
  moreover have "?m b = m b" if b: "\<forall>i < length bs. b \<noteq> uaddr m pgdir (va + of_nat i)" for b
  proof -
    have "\<not> unat (b - ?base) < length bs"
    proof
      assume l: "unat (b - ?base) < length bs"
      have "?base + of_nat (unat (b - ?base)) = b" by simp
      with u [OF l] b l show False by metis
    qed
    then show ?thesis by (simp add: write_bytes_def)
  qed
  ultimately show ?thesis by (simp add: copied_def)
qed

lemma user_range_frame:
  assumes "user_range e m pgdir va n" "\<And>vb. pte_val m' pgdir vb = pte_val m pgdir vb"
    "pt_pages m' pgdir = pt_pages m pgdir" "k \<le> n"
  shows "user_range e m' pgdir (va + of_nat k) (n - k)"
proof -
  have f: "frame_of m' pgdir = frame_of m pgdir" "user_page m' pgdir = user_page m pgdir"
    using assms(2) by (simp_all add: frame_of_def user_page_def present_def fun_eq_iff)
  have "unat (va + of_nat k) + (n - k) \<le> 2 ^ 32"
  proof (cases "unat va + k < 2 ^ 32")
    case True
    then have "unat (va + of_nat k) = unat va + k" by (rule unat_add_of_nat)
    then show ?thesis using assms(1,4) by (simp add: user_range_def)
  next
    case False
    then have "n - k = 0" using assms(1,4) by (simp add: user_range_def)
    then show ?thesis using unsigned_less [of "va + of_nat k", where ?'a = nat] by simp
  qed
  moreover have e: "va + of_nat k + of_nat i = va + of_nat (k + i)" for i by simp
  moreover have lt: "k + i < n" if "i < n - k" for i using that by simp
  ultimately show ?thesis using assms(1) unfolding user_range_def f assms(3) e by (meson lt)
qed

lemma copied_frame:
  assumes "pt_wf e m pgdir" "user_range e m pgdir va n" "length bs \<le> n" "copied m pgdir va bs m'"
  shows "pt_wf e m' pgdir" "pte_val m' pgdir vb = pte_val m pgdir vb" "pt_pages m' pgdir = pt_pages m pgdir"
    "uaddr m' pgdir vb = uaddr m pgdir vb"
proof -
  have "m' b = m b" if "PGROUNDDOWN b \<in> pt_pages m pgdir" for b
  proof -
    have "b \<noteq> uaddr m pgdir (va + of_nat i)" if "i < length bs" for i
      using \<open>PGROUNDDOWN b \<in> pt_pages m pgdir\<close> assms(2,3) that by (auto simp: user_range_def)
    then show ?thesis using assms(4) by (simp add: copied_def)
  qed
  note pf = pt_frame [OF assms(1) this]
  show "pt_wf e m' pgdir" "pte_val m' pgdir vb = pte_val m pgdir vb" "pt_pages m' pgdir = pt_pages m pgdir"
    using pf(2-4) by simp_all
  show "uaddr m' pgdir vb = uaddr m pgdir vb" by (simp add: uaddr_def frame_of_def pf(4))
qed

text \<open>A part that ends with its page, and the rest.\<close>

lemma uaddr_apart:
  assumes "user_range e m pgdir va len" "unat (va - PGROUNDDOWN va) + n = 4096" "i < n" "n \<le> j" "j < len"
  shows "uaddr m pgdir (va + of_nat i) \<noteq> uaddr m pgdir (va + of_nat j)"
proof
  assume "uaddr m pgdir (va + of_nat i) = uaddr m pgdir (va + of_nat j)"
  then have "frame_of m pgdir (va + of_nat i) = frame_of m pgdir (va + of_nat j)" by (metis uaddr_page)
  then have p: "PGROUNDDOWN (va + of_nat i) = PGROUNDDOWN (va + of_nat j)"
    using assms(1,3,4,5) unfolding user_range_def by (meson less_le_trans less_trans)
  have r: "unat va + i < 2 ^ 32" "unat va + j < 2 ^ 32" using assms by (simp_all add: user_range_def)
  have "PGROUNDDOWN (va + of_nat i) = PGROUNDDOWN va" using page_step(1) [OF r(1)] assms(2,3) by simp
  moreover have "PGROUNDDOWN (va + of_nat j) \<noteq> PGROUNDDOWN va" using page_step(1) [OF r(2)] assms(2,4) by simp
  ultimately show False using p by simp
qed

lemma copied_append:
  assumes r: "user_range e m pgdir va (length bs + length cs)" and wf: "pt_wf e m pgdir"
    and off: "unat (va - PGROUNDDOWN va) + length bs = 4096"
    and m1: "copied m pgdir va bs m1" and m2: "copied m1 pgdir (va + of_nat (length bs)) cs m2"
  shows "copied m pgdir va (bs @ cs) m2"
proof -
  have ua: "uaddr m1 pgdir vb = uaddr m pgdir vb" for vb by (rule copied_frame(4) [OF wf r _ m1]) simp
  have e: "va + of_nat (length bs) + of_nat i = va + of_nat (length bs + i)" for i by simp
  have m2': "m2 (uaddr m pgdir (va + of_nat (length bs + i))) = cs ! i" if "i < length cs" for i
    using m2 that unfolding copied_def ua e by simp
  have m2'': "m2 b = m1 b" if "\<And>i. i < length cs \<Longrightarrow> b \<noteq> uaddr m pgdir (va + of_nat (length bs + i))" for b
    using m2 that unfolding copied_def ua e by simp
  have "m2 (uaddr m pgdir (va + of_nat i)) = (bs @ cs) ! i" if i: "i < length (bs @ cs)" for i
  proof (cases "i < length bs")
    case True
    then have "m2 (uaddr m pgdir (va + of_nat i)) = m1 (uaddr m pgdir (va + of_nat i))"
      using uaddr_apart [OF r off True] by (intro m2'') (simp del: of_nat_add)
    with True m1 show ?thesis by (simp add: copied_def nth_append)
  next
    case False
    with i m2' [of "i - length bs"] show ?thesis by (simp add: nth_append del: of_nat_add)
  qed
  moreover have "m2 b = m b" if b: "\<forall>i < length (bs @ cs). b \<noteq> uaddr m pgdir (va + of_nat i)" for b
  proof -
    have "m2 b = m1 b" using b by (intro m2'') (simp del: of_nat_add)
    also have "\<dots> = m b" using b m1 by (simp add: copied_def)
    finally show ?thesis .
  qed
  ultimately show ?thesis unfolding copied_def by blast
qed

lemma copyout_Nil [simp]: "copyout pgdir va [] s = Ok 0 s"
  by (subst copyout.simps) simp

lemma copyout_step:
  assumes wf: "pt_wf e (mem s) pgdir" and r: "user_range e (mem s) pgdir va (length buf)" and "buf \<noteq> []"
  defines "n \<equiv> min (length buf) (4096 - unat (va - PGROUNDDOWN va))"
  defines "m1 \<equiv> write_bytes (mem s) (frame_of (mem s) pgdir va + (va - PGROUNDDOWN va)) (take n buf)"
  shows "copyout pgdir va buf s = copyout pgdir (PGROUNDDOWN va + PGSIZE) (drop n buf) (s\<lparr>mem := m1\<rparr>)"
    and "copied (mem s) pgdir va (take n buf) m1"
proof -
  have "user_page (mem s) pgdir (va + of_nat 0)" "page_ok e (frame_of (mem s) pgdir (va + of_nat 0))"
    using r \<open>buf \<noteq> []\<close> unfolding user_range_def by blast+
  then have u: "user_page (mem s) pgdir va" "frame_of (mem s) pgdir va \<noteq> 0" "has_tab (mem s) pgdir va"
    by (auto simp: user_page_def present_has_tab page_ok_nonzero)
  have "frame_of (mem s) pgdir (PGROUNDDOWN va) = frame_of (mem s) pgdir va"
    "user_page (mem s) pgdir (PGROUNDDOWN va) = user_page (mem s) pgdir va"
    by (simp_all add: frame_of_def user_page_def)
  with u have "uva2ka pgdir (PGROUNDDOWN va) s = Ok (frame_of (mem s) pgdir va) s"
    using same_PDX [of "PGROUNDDOWN va" va "mem s" pgdir] by (simp add: uva2ka_spec [OF wf])
  then show "copyout pgdir va buf s = copyout pgdir (PGROUNDDOWN va + PGSIZE) (drop n buf) (s\<lparr>mem := m1\<rparr>)"
    using \<open>buf \<noteq> []\<close> u(2) by (subst copyout.simps) (simp add: Let_def n_def m1_def)
  show "copied (mem s) pgdir va (take n buf) m1"
    unfolding m1_def using r by (intro write_chunk) (auto simp: user_range_def n_def)
qed

lemma copyout_spec:
  assumes "pt_wf e (mem s) pgdir" "user_range e (mem s) pgdir va (length buf)"
  shows "\<exists>m'. copyout pgdir va buf s = Ok 0 (s\<lparr>mem := m'\<rparr>) \<and> copied (mem s) pgdir va buf m'"
  using assms
proof (induction "length buf" arbitrary: buf va s rule: less_induct)
  case less
  show ?case
  proof (cases "buf = []")
    case True
    then have "copyout pgdir va buf s = Ok 0 (s\<lparr>mem := mem s\<rparr>)" "copied (mem s) pgdir va buf (mem s)"
      by (simp_all add: copied_def)
    then show ?thesis by blast
  next
    case False
    define n where "n = min (length buf) (4096 - unat (va - PGROUNDDOWN va))"
    define m1 where "m1 = write_bytes (mem s) (frame_of (mem s) pgdir va + (va - PGROUNDDOWN va)) (take n buf)"
    note step = copyout_step [OF less.prems False, folded n_def, folded m1_def]
    have n: "0 < n" "n \<le> length buf" using False page_off [of va] by (auto simp: n_def)
    show ?thesis
    proof (cases "n = length buf")
      case True
      then show ?thesis using step by auto
    next
      case False
      then have nlt: "n < length buf" and off: "unat (va - PGROUNDDOWN va) + n = 4096"
        using n page_off [of va] by (auto simp: n_def)
      have "of_nat (unat (va - PGROUNDDOWN va) + n) = (va - PGROUNDDOWN va) + of_nat n" by simp
      then have va': "PGROUNDDOWN va + PGSIZE = va + of_nat n" unfolding off by (simp add: algebra_simps)
      have len: "length (take n buf) \<le> length buf" "length (take n buf) = n" using nlt by simp_all
      note fr = copied_frame [OF less.prems len(1) step(2)]
      have lt: "length (drop n buf) < length buf" using n nlt by auto
      have "user_range e m1 pgdir (va + of_nat n) (length (drop n buf))"
        using user_range_frame [OF less.prems(2) fr(2,3), of n] nlt by simp
      then obtain m' where m': "copyout pgdir (va + of_nat n) (drop n buf) (s\<lparr>mem := m1\<rparr>) = Ok 0 (s\<lparr>mem := m'\<rparr>)"
          "copied m1 pgdir (va + of_nat n) (drop n buf) m'"
        using less.hyps [OF lt, of "s\<lparr>mem := m1\<rparr>" "va + of_nat n"] fr(1) by auto
      have "copied (mem s) pgdir va (take n buf @ drop n buf) m'"
        using less.prems m'(2) step(2) off len by (intro copied_append [of e _ _ _ _ _ m1]) simp_all
      then show ?thesis using m'(1) step(1) unfolding va' by auto
    qed
  qed
qed

text \<open>A page that is not mapped for the user makes \<open>copyout\<close> fail.\<close>

lemma copyout_unmapped:
  assumes "pt_wf e (mem s) pgdir" "buf \<noteq> []" "has_tab (mem s) pgdir va" "\<not> user_page (mem s) pgdir va"
  shows "copyout pgdir va buf s = Ok (- 1) s"
proof -
  have "user_page (mem s) pgdir (PGROUNDDOWN va) = user_page (mem s) pgdir va" by (simp add: user_page_def)
  with assms same_PDX [of "PGROUNDDOWN va" va "mem s" pgdir] show ?thesis
    by (subst copyout.simps) (simp add: uva2ka_spec [OF assms(1)])
qed

end
