(* ===== verification/Vm_Props.thy ===== *)
theory Vm_Props
  imports Vm_User
begin

text \<open>
  The properties of the address-space code, with the small concrete address space \<open>demo_vm\<close> (one
  directory, one table, one user page at 0) that the witnesses run it on.
\<close>

section \<open>A concrete address space\<close>

definition demo_mem :: memory where
  "demo_mem = store32 (store32 (\<lambda>_. 0) 0x80500000 (v2p 0x80501000 OR 7)) 0x80501000 (v2p 0x80502000 OR 7)"

definition demo_vm :: kmem where
  "demo_vm = boot_kmem\<lparr>mem := demo_mem\<rparr>"

lemma boot_no_tab: "\<not> has_tab (\<lambda>_. 0) pgdir va" "pte_val (\<lambda>_. 0) pgdir va = 0"
  by (simp_all add: has_tab_def pte_val_def pde_of_def load32_def)

lemma page_ok_demo: "page_ok 0x80110000 0x80500000" "page_ok 0x80110000 0x80501000" "page_ok 0x80110000 0x80502000"
  by (simp_all add: page_ok_def pg_aligned_def v2p_def)

lemma boot_fields: "mem boot_kmem = (\<lambda>_. 0)" "k_end boot_kmem = 0x80110000" "km_freelist boot_kmem = 0x80400000"
  by (simp_all add: boot_kmem_def kcore.defs)

lemma boot_wf: "pt_wf 0x80110000 (\<lambda>_. 0) 0x80500000" "pt_pages (\<lambda>_. 0) 0x80500000 = {0x80500000}"
  using page_ok_demo(1) by (auto simp: pt_wf_def pt_pages_def boot_no_tab)

lemma boot_vm_inv: "vm_inv boot_kmem [0x80400000] 0x80500000"
  using boot_kmem_pages boot_wf by (simp add: vm_inv_def boot_fields)

lemma memset_zero: "memset (\<lambda>_. 0) p 0 n = (\<lambda>_. 0)"
  by (simp add: memset_eq fun_eq_iff)

lemma demo_tab:
  defines "m \<equiv> store32 (\<lambda>_. 0) 0x80500000 (v2p 0x80501000 OR 7)"
  shows "pt_wf 0x80110000 m 0x80500000" "pt_pages m 0x80500000 = {0x80501000, 0x80500000}"
    "has_tab m 0x80500000 va \<longleftrightarrow> PDX va = 0" "PDX va = 0 \<Longrightarrow> tab_of m 0x80500000 va = 0x80501000"
    "pte_val m 0x80500000 va = 0"
proof -
  have "(0x80501000 :: u32) \<notin> pt_pages (\<lambda>_. 0) 0x80500000" by (simp add: boot_wf)
  note n = new_table [OF boot_wf(1) boot_no_tab(1) page_ok_demo(2) this, where va = 0]
  have e: "store32 (memset (\<lambda>_. 0) 0x80501000 0 PGSIZE) (0x80500000 + 4 * PDX 0) (v2p 0x80501000 OR 7) = m"
    by (simp add: m_def memset_zero PDX_def)
  note n = n [unfolded e]
  show "pt_wf 0x80110000 m 0x80500000" by (rule n(4))
  show "pt_pages m 0x80500000 = {0x80501000, 0x80500000}" using n(3) by (simp add: boot_wf)
  show "has_tab m 0x80500000 va \<longleftrightarrow> PDX va = 0" using n(1) by (simp add: boot_no_tab PDX_def [of 0])
  show "tab_of m 0x80500000 va = 0x80501000" if "PDX va = 0" using n(2) that by (simp add: PDX_def [of 0])
  show "pte_val m 0x80500000 va = 0" using n(5) by (simp add: boot_no_tab)
qed

lemma demo_space:
  "pt_wf 0x80110000 demo_mem 0x80500000" "pt_pages demo_mem 0x80500000 = {0x80501000, 0x80500000}"
  "has_tab demo_mem 0x80500000 va \<longleftrightarrow> PDX va = 0"
  "pte_val demo_mem 0x80500000 va = (if PGROUNDDOWN va = 0 then 0x502007 else 0)"
proof -
  have "PDX 0 = 0" "PTX 0 = 0" "PGROUNDDOWN 0 = 0" by (simp_all add: PDX_def PTX_def PGROUNDDOWN_def)
  note st = store_pte [OF demo_tab(1), where va = 0 and v = "v2p 0x80502000 OR 7"]
  have t: "has_tab (store32 (\<lambda>_. 0) 0x80500000 (v2p 0x80501000 OR 7)) 0x80500000 0"
    using demo_tab(3) [of 0] \<open>PDX 0 = 0\<close> by simp
  have "tab_of (store32 (\<lambda>_. 0) 0x80500000 (v2p 0x80501000 OR 7)) 0x80500000 0 + 4 * PTX 0 = 0x80501000"
    using demo_tab(4) [of 0] \<open>PDX 0 = 0\<close> \<open>PTX 0 = 0\<close> by simp
  note st = st [OF t, unfolded this, folded demo_mem_def]
  show "pt_wf 0x80110000 demo_mem 0x80500000" by (rule st(3))
  show "pt_pages demo_mem 0x80500000 = {0x80501000, 0x80500000}" using st(2) demo_tab(2) by simp
  show "has_tab demo_mem 0x80500000 va \<longleftrightarrow> PDX va = 0"
    using same_pdes(2) [OF st(1)] demo_tab(3) by simp
  show "pte_val demo_mem 0x80500000 va = (if PGROUNDDOWN va = 0 then 0x502007 else 0)"
    using st(4) [of va] demo_tab(5) \<open>PGROUNDDOWN 0 = 0\<close> by (simp add: v2p_def)
qed

lemma demo_vm_inv: "vm_inv demo_vm [0x80400000] 0x80500000"
proof -
  have "load32 demo_mem 0x80400000 = load32 (\<lambda>_. 0) 0x80400000"
    by (rule load32_page_eq [where p = "0x80400000"])
      (auto simp: demo_mem_def store32_other_page aligned4_def PGROUNDDOWN_def)
  then have "free_pages demo_vm [0x80400000]" using boot_kmem_pages(2)
    by (simp add: demo_vm_def free_pages_def boot_fields load32_def)
  then show ?thesis using boot_kmem_pages(1) demo_space
    by (simp add: vm_inv_def demo_vm_def boot_fields kmem_ready_def lock_ready_def)
qed

text \<open>The same with a second free page.\<close>

definition demo_vm2 :: kmem where
  "demo_vm2 = demo_vm\<lparr>mem := store32 demo_mem 0x80401000 0x80400000, km_freelist := 0x80401000\<rparr>"

lemma demo2_other: "PGROUNDDOWN b \<noteq> 0x80401000 \<Longrightarrow> mem demo_vm2 b = demo_mem b"
  by (simp add: demo_vm2_def store32_other_page aligned4_def PGROUNDDOWN_def)

lemma demo2_space:
  "pt_wf 0x80110000 (mem demo_vm2) 0x80500000" "pt_pages (mem demo_vm2) 0x80500000 = {0x80501000, 0x80500000}"
  "pte_val (mem demo_vm2) 0x80500000 va = (if PGROUNDDOWN va = 0 then 0x502007 else 0)"
  "has_tab (mem demo_vm2) 0x80500000 va \<longleftrightarrow> PDX va = 0"
proof -
  have "mem demo_vm2 b = demo_mem b" if "PGROUNDDOWN b \<in> pt_pages demo_mem 0x80500000" for b
    using that by (intro demo2_other) (auto simp: demo_space)
  note fr = pt_frame [OF demo_space(1) this]
  show "pt_wf 0x80110000 (mem demo_vm2) 0x80500000" using fr(3) by simp
  show "pt_pages (mem demo_vm2) 0x80500000 = {0x80501000, 0x80500000}" using fr(2) demo_space(2) by simp
  show "pte_val (mem demo_vm2) 0x80500000 va = (if PGROUNDDOWN va = 0 then 0x502007 else 0)"
    using fr(4) demo_space(4) by simp
  show "has_tab (mem demo_vm2) 0x80500000 va \<longleftrightarrow> PDX va = 0"
    using same_pdes(2) [OF fr(1)] demo_space(3) by simp
qed

lemma demo2_vm_inv: "vm_inv demo_vm2 [0x80401000, 0x80400000] 0x80500000"
proof -
  have "load32 (mem demo_vm2) 0x80400000 = load32 demo_mem 0x80400000"
    by (rule load32_page_eq [where p = "0x80400000"]) (auto simp: aligned4_def PGROUNDDOWN_def intro!: demo2_other)
  moreover have "free_pages demo_vm [0x80400000]" using demo_vm_inv by (simp add: vm_inv_def)
  ultimately have "free_pages demo_vm2 [0x80401000, 0x80400000]"
    by (simp add: demo_vm2_def demo_vm_def free_pages_def boot_fields page_ok_def pg_aligned_def v2p_def)
  then show ?thesis using boot_kmem_pages(1) demo2_space(1,2)
    by (simp add: vm_inv_def demo_vm2_def demo_vm_def boot_fields kmem_ready_def lock_ready_def)
qed

lemma demo_fields: "mem demo_vm = demo_mem" "k_end demo_vm = 0x80110000" "k_end demo_vm2 = 0x80110000"
  by (simp_all add: demo_vm_def demo_vm2_def boot_fields)

section \<open>Properties\<close>

text \<open>
  C17: \<open>mappages\<close> on pages that are not yet mapped always returns; it maps them, in order, to
  consecutive frames with the requested permissions, changes no other entry, takes table pages from the front of the
  free list only, and fails (with \<open>-1\<close> and a prefix of the range mapped) only when fewer free pages than pages to map
  were left.
\<close>

theorem mappages_maps_range:
  assumes "vm_inv s fl pgdir"
    and "\<forall>i \<le> map_span va sz. pte_val (mem s) pgdir (PGROUNDDOWN va + PGSIZE * of_nat i) AND PTE_P = 0"
  shows "\<exists>r t fl' k. mappages pgdir va sz pa perm s = Ok r t \<and> vm_grow pgdir s fl t fl'
    \<and> (r = 0 \<and> k = Suc (map_span va sz) \<or> r = - 1 \<and> k \<le> map_span va sz \<and> fl' = [] \<and> length fl \<le> k)
    \<and> pte_val (mem t) pgdir = map_range (PGROUNDDOWN va) pa perm k (pte_val (mem s) pgdir)"
  using assms by (intro mappages_spec) auto

theorem mappages_maps_range_witness:
  "\<exists>t. mappages 0x80500000 0x1234 0x100 0x200000 PTE_W boot_kmem = Ok 0 t
     \<and> pte_val (mem t) 0x80500000 0x1000 = 0x200003 \<and> pte_val (mem t) 0x80500000 0x2000 = 0"
proof -
  have pre: "map_span 0x1234 0x100 = 0" "PGROUNDDOWN 0x1234 = 0x1000" "PGROUNDDOWN 0x1000 = 0x1000"
    "PGROUNDDOWN 0x2000 = 0x2000"
    by (simp_all add: map_span_def PGROUNDDOWN_def)
  have "\<exists>r t fl' k. mappages 0x80500000 0x1234 0x100 0x200000 PTE_W boot_kmem = Ok r t
      \<and> vm_grow 0x80500000 boot_kmem [0x80400000] t fl'
      \<and> (r = 0 \<and> k = Suc (map_span 0x1234 0x100)
         \<or> r = - 1 \<and> k \<le> map_span 0x1234 0x100 \<and> fl' = [] \<and> length [0x80400000 :: u32] \<le> k)
      \<and> pte_val (mem t) 0x80500000 =
          map_range (PGROUNDDOWN 0x1234) 0x200000 PTE_W k (pte_val (mem boot_kmem) 0x80500000)"
    by (rule mappages_maps_range [OF boot_vm_inv]) (simp add: boot_fields boot_no_tab)
  then show ?thesis by (auto simp: pre map_range_def boot_fields boot_no_tab)
qed

text \<open>
  C15: with two free pages for every page to add, \<open>allocuvm\<close> returns the new size; the pages between the two sizes are
  mapped, user-accessible and writable, to distinct zeroed frames taken from the free list, no other
  entry changes, and no byte outside those frames and the tables is written.
\<close>

theorem allocuvm_grows:
  assumes "vm_inv s fl pgdir" "KERNBASE < k_end s" "oldsz \<le> newsz" "newsz < KERNBASE"
    and "\<forall>va \<in> set (pages_from (PGROUNDUP oldsz) (npages newsz - npages oldsz)). \<not> present (mem s) pgdir va"
    and "2 * (npages newsz - npages oldsz) \<le> length fl"
  shows "\<exists>t fl' ps. allocuvm pgdir oldsz newsz s = Ok newsz t \<and> length ps = npages newsz - npages oldsz
    \<and> pte_val (mem t) pgdir = alloc_range (PGROUNDUP oldsz) ps (pte_val (mem s) pgdir)
    \<and> uvm_grow pgdir s fl t fl' ps"
  using allocuvm_spec [OF assms(1-5)] assms(6) by (auto simp: alloc_done_def alloc_inv_def)

theorem allocuvm_grows_witness:
  "\<exists>t p. allocuvm 0x80500000 0x800 0x2000 demo_vm2 = Ok 0x2000 t \<and> pte_val (mem t) 0x80500000 0 = 0x502007
     \<and> pte_val (mem t) 0x80500000 0x1000 = v2p p OR 7 \<and> p \<in> {0x80401000, 0x80400000} \<and> mem t p = 0"
proof -
  have n: "npages 0x800 = 1" "npages 0x2000 = 2" "PGROUNDDOWN 0 = 0" "PGROUNDDOWN 0x1000 = 0x1000"
    "PGROUNDUP 0x800 = 0x1000" "pages_from 0x1000 1 = [0x1000]"
    by (simp_all add: npages_def PGROUNDDOWN_def PGROUNDUP_def)
  have "\<exists>t fl' ps. allocuvm 0x80500000 0x800 0x2000 demo_vm2 = Ok 0x2000 t
      \<and> length ps = npages 0x2000 - npages 0x800
      \<and> pte_val (mem t) 0x80500000 = alloc_range (PGROUNDUP 0x800) ps (pte_val (mem demo_vm2) 0x80500000)
      \<and> uvm_grow 0x80500000 demo_vm2 [0x80401000, 0x80400000] t fl' ps"
    by (rule allocuvm_grows [OF demo2_vm_inv]) (simp_all add: demo_fields n present_def demo2_space)
  then obtain t fl' ps where t: "allocuvm 0x80500000 0x800 0x2000 demo_vm2 = Ok 0x2000 t" "length ps = 1"
      "pte_val (mem t) 0x80500000 = alloc_range 0x1000 ps (pte_val (mem demo_vm2) 0x80500000)"
      "uvm_grow 0x80500000 demo_vm2 [0x80401000, 0x80400000] t fl' ps" unfolding n by auto
  then obtain p where p: "ps = [p]" by (auto simp: length_Suc_conv)
  with t(4) have in2: "p \<in> {0x80401000, 0x80400000}" by (auto simp: uvm_grow_def)
  then have "PGROUNDDOWN p = p" by (auto simp: PGROUNDDOWN_def)
  with t(4) p have "mem t p = 0" by (auto simp: uvm_grow_def)
  moreover have "pte_val (mem t) 0x80500000 0 = 0x502007" "pte_val (mem t) 0x80500000 0x1000 = v2p p OR 7"
    using n(3,4) by (simp_all add: t(3) p alloc_range_def demo2_space)
  ultimately show ?thesis using t(1) in2 by blast
qed

text \<open>
  C19: \<open>allocuvm\<close> always returns, whatever the amount of free memory.  When it returns 0 instead
  of the new size, every page it had mapped is unmapped and free again and the rest of the address space is as before.
\<close>

theorem allocuvm_failure_undone:
  assumes "vm_inv s fl pgdir" "KERNBASE < k_end s" "oldsz \<le> newsz" "newsz < KERNBASE"
    and "\<forall>va \<in> set (pages_from (PGROUNDUP oldsz) (npages newsz - npages oldsz)). \<not> present (mem s) pgdir va"
  shows "\<exists>r t. allocuvm pgdir oldsz newsz s = Ok r t \<and> (r = newsz \<or> r = 0 \<and>
    (\<exists>ps. set ps \<subseteq> set fl \<and> vm_inv t (rev ps) pgdir \<and> only_mem s t \<and>
       (\<forall>va. pte_val (mem t) pgdir va =
          (if PGROUNDDOWN va \<in> set (pages_from (PGROUNDUP oldsz) (length ps)) then 0 else pte_val (mem s) pgdir va))))"
proof -
  from allocuvm_spec [OF assms] obtain r t where "allocuvm pgdir oldsz newsz s = Ok r t"
    "r = newsz \<or> alloc_undone pgdir (PGROUNDUP oldsz) s fl r t" by (auto simp: alloc_done_def alloc_hole_def)
  then show ?thesis unfolding alloc_undone_def by (intro exI [of _ r] exI [of _ t]) auto
qed

theorem allocuvm_failure_undone_witness:
  "\<exists>r t. allocuvm 0x80500000 0x1000 0x5000 demo_vm2 = Ok r t \<and> (r = 0x5000 \<or> r = 0)"
proof -
  have n: "npages 0x1000 = 1" "npages 0x5000 = 5" "PGROUNDUP 0x1000 = 0x1000"
    by (simp_all add: npages_def PGROUNDUP_def)
  have p: "pages_from 0x1000 4 = [0x1000, 0x2000, 0x3000, 0x4000]"
    by (simp add: pages_from_map upt_rec)
  have "PGROUNDDOWN 0x1000 \<noteq> 0" "PGROUNDDOWN 0x2000 \<noteq> 0" "PGROUNDDOWN 0x3000 \<noteq> 0" "PGROUNDDOWN 0x4000 \<noteq> 0"
    by (simp_all add: PGROUNDDOWN_def)
  then have "\<forall>va \<in> set (pages_from (PGROUNDUP 0x1000) (npages 0x5000 - npages 0x1000)). \<not> present (mem demo_vm2) 0x80500000 va"
    by (simp add: n p present_def demo2_space)
  from allocuvm_failure_undone [OF demo2_vm_inv _ _ _ this] show ?thesis by (auto simp: demo_fields)
qed

text \<open>
  C20: \<open>allocuvm\<close> ignores a failing \<open>mappages\<close>: with one free page left and the page table of the new page missing, it
  reports success although the page it was asked to add is not mapped, and the free page is lost.
\<close>

theorem allocuvm_reports_unmapped_page:
  assumes "vm_inv s [p] pgdir" "oldsz < newsz" "newsz < KERNBASE" "npages newsz = Suc (npages oldsz)"
    and "\<not> has_tab (mem s) pgdir (PGROUNDUP oldsz)"
  shows "\<exists>t. allocuvm pgdir oldsz newsz s = Ok newsz t \<and> \<not> present (mem t) pgdir (PGROUNDUP oldsz)
    \<and> free_pages t []"
proof -
  let ?a = "PGROUNDUP oldsz"
  obtain u where u: "kalloc s = Ok p u" "uvm_grow pgdir s [p] (u\<lparr>mem := memset (mem u) p 0 PGSIZE\<rparr>) [] [p]"
      "has_tab (mem (u\<lparr>mem := memset (mem u) p 0 PGSIZE\<rparr>)) pgdir = has_tab (mem s) pgdir"
    using kalloc_zero [OF assms(1)] by (auto simp: Let_def)
  let ?t = "u\<lparr>mem := memset (mem u) p 0 PGSIZE\<rparr>"
  have t: "kmem_ready ?t" "free_pages ?t []" "\<not> has_tab (mem ?t) pgdir ?a"
    using u(2,3) assms(5) by (simp_all add: uvm_grow_def vm_inv_def)
  have "PGROUNDDOWN (?a + PGSIZE - 1) = ?a" by (simp flip: add_diff_eq)
  then have "mappages pgdir ?a PGSIZE (v2p p) (PTE_W OR PTE_U) ?t = Ok (- 1) ?t"
    by (simp add: mappages_def mappages_loop_steps(1) [OF walkpgdir_nomem [OF t]])
  moreover have "p \<noteq> 0" using assms(1) by (auto simp: vm_inv_def dest: free_pages_ConsD)
  moreover have le: "oldsz \<le> newsz" "newsz \<le> KERNBASE" using assms(2,3) by simp_all
  have "covers ?a 1 newsz" using covers_PGROUNDUP(1) [OF le] assms(4) by simp
  then have "?a < newsz" "\<not> ?a + PGSIZE < newsz" using covers_at [of ?a 1 newsz 0] covers_at [of ?a 1 newsz 1] by simp_all
  ultimately have "allocuvm_loop (Suc 1048575) pgdir ?a oldsz newsz s = Ok newsz ?t"
    using allocuvm_loop_steps(3) [of ?a newsz s p u pgdir "- 1" ?t 1048575 oldsz] u(1)
      allocuvm_loop_steps(1) [of "?a + PGSIZE" newsz] by simp
  moreover have c: "\<not> newsz \<ge> KERNBASE" "\<not> newsz < oldsz" using assms(2,3) by auto
  ultimately have "allocuvm pgdir oldsz newsz s = Ok newsz ?t"
    unfolding allocuvm_def if_not_P [OF c(1)] if_not_P [OF c(2)] by simp
  moreover have "\<not> present (mem ?t) pgdir ?a" using t(3) present_has_tab by blast
  ultimately show ?thesis using t(2) by blast
qed

theorem allocuvm_reports_unmapped_page_witness:
  "\<exists>t. allocuvm 0x80500000 0x400000 0x400001 demo_vm = Ok 0x400001 t \<and> \<not> present (mem t) 0x80500000 0x400000"
proof -
  have n: "npages 0x400001 = Suc (npages 0x400000)" "PGROUNDUP 0x400000 = 0x400000"
    by (simp_all add: npages_def PGROUNDUP_def)
  have "\<not> has_tab (mem demo_vm) 0x80500000 (PGROUNDUP 0x400000)" by (simp add: n demo_fields demo_space PDX_def)
  from allocuvm_reports_unmapped_page [OF demo_vm_inv _ _ n(1) this] show ?thesis by (auto simp: n)
qed

text \<open>
  C16: \<open>deallocuvm\<close> from a larger to a smaller size returns the new size, frees the frame of every
  present page from the rounded-up new size to the old one, clears exactly their entries, and writes to nothing else, when the frames are
  pages of the allocator used once and every page table up to the last present page exists.
\<close>

theorem deallocuvm_frees_pages:
  assumes "vm_inv s fl pgdir" "newsz < oldsz" "oldsz \<le> KERNBASE"
    and "frames_ok s fl pgdir (uframes (mem s) pgdir (PGROUNDUP newsz) (npages oldsz - npages newsz))"
    and "tables_first (mem s) pgdir (PGROUNDUP newsz) (npages oldsz - npages newsz)"
  shows "\<exists>t. deallocuvm pgdir oldsz newsz s = Ok newsz t
    \<and> uvm_freed pgdir (pages_from (PGROUNDUP newsz) (npages oldsz - npages newsz)) s fl t
        (uframes (mem s) pgdir (PGROUNDUP newsz) (npages oldsz - npages newsz))"
  using assms by (rule deallocuvm_spec)

theorem deallocuvm_frees_pages_witness:
  "\<exists>t. deallocuvm 0x80500000 0x1000 0 demo_vm = Ok 0 t \<and> free_pages t [0x80502000, 0x80400000]
     \<and> \<not> present (mem t) 0x80500000 0"
proof -
  have n: "npages 0x1000 = 1" "npages 0 = 0" "PGROUNDUP 0 = 0" "PGROUNDDOWN 0 = 0" "PDX 0 = 0"
    by (simp_all add: npages_def PGROUNDUP_def PGROUNDDOWN_def PDX_def)
  have f: "uframes demo_mem 0x80500000 0 (Suc 0) = [0x80502000]" "present demo_mem 0x80500000 0"
    by (simp_all add: uframes_def present_def frame_of_def demo_space n PTE_ADDR_def p2v_def)
  have "\<exists>t. deallocuvm 0x80500000 0x1000 0 demo_vm = Ok 0 t
    \<and> uvm_freed 0x80500000 (pages_from (PGROUNDUP 0) (npages 0x1000 - npages 0)) demo_vm [0x80400000] t
        (uframes (mem demo_vm) 0x80500000 (PGROUNDUP 0) (npages 0x1000 - npages 0))"
    by (rule deallocuvm_frees_pages [OF demo_vm_inv])
      (simp_all add: n f demo_fields frames_ok_def tables_first_def demo_space page_ok_demo)
  then show ?thesis
    by (auto simp: n f demo_fields uvm_freed_def vm_inv_def present_def [of "mem _"])
qed

text \<open>
  C18: \<open>copyout\<close> into a range the user has mapped, on frames of its own, returns 0 with every byte of the
  buffer at its address in the target address space and every other byte of memory unchanged, however the range straddles pages.
\<close>

theorem copyout_writes_range:
  assumes "pt_wf e (mem s) pgdir" "user_range e (mem s) pgdir va (length buf)"
  shows "\<exists>t. copyout pgdir va buf s = Ok 0 t
    \<and> (\<forall>i < length buf. mem t (uaddr (mem s) pgdir (va + of_nat i)) = buf ! i)
    \<and> (\<forall>b. (\<forall>i < length buf. b \<noteq> uaddr (mem s) pgdir (va + of_nat i)) \<longrightarrow> mem t b = mem s b)
    \<and> (\<forall>vb. pte_val (mem t) pgdir vb = pte_val (mem s) pgdir vb)"
proof -
  obtain m where m: "copyout pgdir va buf s = Ok 0 (s\<lparr>mem := m\<rparr>)" "copied (mem s) pgdir va buf m"
    using copyout_spec [OF assms] by blast
  with copied_frame(2) [OF assms order_refl m(2)] show ?thesis by (auto simp: copied_def)
qed

theorem copyout_writes_range_witness:
  "\<exists>t. copyout 0x80500000 0xFF0 [1, 2, 3] demo_vm = Ok 0 t \<and> mem t 0x80502FF0 = 1 \<and> mem t 0x80502FF2 = 3"
proof -
  have p: "PGROUNDDOWN 0xFF0 = 0" "PGROUNDDOWN 0xFF1 = 0" "PGROUNDDOWN 0xFF2 = 0" by (simp_all add: PGROUNDDOWN_def)
  have fr: "frame_of demo_mem 0x80500000 0xFF0 = 0x80502000" "frame_of demo_mem 0x80500000 0xFF1 = 0x80502000"
    "frame_of demo_mem 0x80500000 0xFF2 = 0x80502000"
    by (simp_all add: frame_of_def demo_space p PTE_ADDR_def p2v_def)
  have "user_range 0x80110000 (mem demo_vm) 0x80500000 0xFF0 (length [1, 2, 3 :: u8])"
    by (auto simp: user_range_def demo_fields less_Suc_eq fr p demo_space page_ok_demo user_page_def present_def)
  moreover have "pt_wf 0x80110000 (mem demo_vm) 0x80500000" by (simp add: demo_fields demo_space)
  ultimately obtain t where t: "copyout 0x80500000 0xFF0 [1, 2, 3] demo_vm = Ok 0 t"
      "\<forall>i < length [1, 2, 3 :: u8]. mem t (uaddr (mem demo_vm) 0x80500000 (0xFF0 + of_nat i)) = [1, 2, 3] ! i"
    using copyout_writes_range by blast
  have "mem t (uaddr (mem demo_vm) 0x80500000 (0xFF0 + of_nat 0)) = 1"
    "mem t (uaddr (mem demo_vm) 0x80500000 (0xFF0 + of_nat 2)) = 3"
    using t(2) [THEN spec, of 0] t(2) [THEN spec, of 2] by simp_all
  then show ?thesis using t(1) by (simp add: uaddr_def demo_fields fr p)
qed

text \<open>
  \<open>clearpteu\<close> takes the user bit from the one page it is called for and changes no other entry, after which the
  kernel's copying routines refuse the page; without a page table it panics.
\<close>

theorem clearpteu_hides_page:
  assumes "pt_wf e (mem s) pgdir"
  shows "if has_tab (mem s) pgdir uva
    then \<exists>t. clearpteu pgdir uva s = Ok () t
      \<and> (\<forall>va. pte_val (mem t) pgdir va = (if PGROUNDDOWN va = PGROUNDDOWN uva
            then pte_val (mem s) pgdir uva AND NOT PTE_U else pte_val (mem s) pgdir va))
      \<and> (\<forall>buf. buf \<noteq> [] \<longrightarrow> copyout pgdir uva buf t = Ok (- 1) t)
    else clearpteu pgdir uva s = Panic ''clearpteu''"
proof (cases "has_tab (mem s) pgdir uva")
  case True
  with clearpteu_spec [OF assms, of uva] obtain t where t: "clearpteu pgdir uva s = Ok () t" "pt_wf e (mem t) pgdir"
      "\<forall>va. pte_val (mem t) pgdir va = (if PGROUNDDOWN va = PGROUNDDOWN uva
            then pte_val (mem s) pgdir uva AND NOT PTE_U else pte_val (mem s) pgdir va)"
      "has_tab (mem t) pgdir uva" by auto
  have "(pte_val (mem s) pgdir uva AND NOT PTE_U) AND PTE_U = 0" by (rule bit_word_eqI) (auto simp: bit_simps)
  then have "\<not> user_page (mem t) pgdir uva" using t(3) by (simp add: user_page_def)
  with t True show ?thesis by (auto simp: copyout_unmapped)
next
  case False
  with clearpteu_spec [OF assms, of uva] show ?thesis by simp
qed

end
