(* ===== verification/Cstring.thy ===== *)
theory Cstring
  imports Xv6_Prelude
begin

text \<open>
  The string routines of \<^verbatim>\<open>string.c\<close> and \<^verbatim>\<open>ulib.c\<close>.  A pointer operand is the list of bytes from the
  pointer to the end of the object it points into; a read past that end is \<open>None\<close>.  A routine that
  writes returns the bytes it stores from the start of its destination, \<open>poke\<close> puts them there.  The
  lemmas relate each loop to the C string \<open>cstr\<close> of its operand and bound what it reads and writes.
\<close>

definition cstr :: "u8 list \<Rightarrow> u8 list" where
  "cstr s = takeWhile (\<lambda>c. c \<noteq> 0) s"

definition poke :: "u8 list \<Rightarrow> u8 list \<Rightarrow> u8 list" where
  "poke dst bs = bs @ drop (length bs) dst"

section \<open>The kernel's routines\<close>

fun memcmp :: "u8 list \<Rightarrow> u8 list \<Rightarrow> nat \<Rightarrow> int option" where
  "memcmp s1 s2 0 = Some 0"
| "memcmp (a # s1) (b # s2) (Suc n) = (if a \<noteq> b then Some (uint a - uint b) else memcmp s1 s2 n)"
| "memcmp _ _ (Suc n) = None"

fun strncmp :: "u8 list \<Rightarrow> u8 list \<Rightarrow> nat \<Rightarrow> int option" where
  "strncmp p q 0 = Some 0"
| "strncmp (a # p) (b # q) (Suc n) = (if a \<noteq> 0 \<and> a = b then strncmp p q n else Some (uint a - uint b))"
| "strncmp _ _ (Suc n) = None"

fun strncpy :: "u8 list \<Rightarrow> nat \<Rightarrow> u8 list option" where
  "strncpy t 0 = Some []"
| "strncpy (c # t) (Suc n) = (if c \<noteq> 0 then map_option (Cons c) (strncpy t n) else Some (0 # replicate n 0))"
| "strncpy [] (Suc n) = None"

text \<open>\<open>safestrcpy_loop t n\<close> is the loop with \<open>n\<close> characters still to copy, and the final \<^verbatim>\<open>*s = 0\<close>.\<close>

fun safestrcpy_loop :: "u8 list \<Rightarrow> nat \<Rightarrow> u8 list option" where
  "safestrcpy_loop t 0 = Some [0]"
| "safestrcpy_loop (c # t) (Suc n) = (if c \<noteq> 0 then map_option (Cons c) (safestrcpy_loop t n) else Some [0, 0])"
| "safestrcpy_loop [] (Suc n) = None"

definition safestrcpy :: "u8 list \<Rightarrow> int \<Rightarrow> u8 list option" where
  "safestrcpy t n = (if n \<le> 0 then Some [] else safestrcpy_loop t (nat (n - 1)))"

fun strlen :: "u8 list \<Rightarrow> nat option" where
  "strlen (c # s) = (if c \<noteq> 0 then map_option Suc (strlen s) else Some 0)"
| "strlen [] = None"

section \<open>The user library's routines\<close>

fun strcpy :: "u8 list \<Rightarrow> u8 list option" where
  "strcpy (c # t) = (if c \<noteq> 0 then map_option (Cons c) (strcpy t) else Some [0])"
| "strcpy [] = None"

fun strcmp :: "u8 list \<Rightarrow> u8 list \<Rightarrow> int option" where
  "strcmp (a # p) (b # q) = (if a \<noteq> 0 \<and> a = b then strcmp p q else Some (uint a - uint b))"
| "strcmp _ _ = None"

text \<open>\<open>strchr\<close> returns the offset of the match; \<open>Some None\<close> is its null result.\<close>

fun strchr :: "u8 list \<Rightarrow> u8 \<Rightarrow> nat option option" where
  "strchr (d # s) c = (if d = 0 then Some None else if d = c then Some (Some 0)
     else map_option (map_option Suc) (strchr s c))"
| "strchr [] c = None"

fun atoi_loop :: "u8 list \<Rightarrow> i32 \<Rightarrow> i32 option" where
  "atoi_loop (c # s) n = (if 48 \<le> c \<and> c \<le> 57 then atoi_loop s (n * 10 + ucast c - 48) else Some n)"
| "atoi_loop [] n = None"

definition atoi :: "u8 list \<Rightarrow> i32 option" where
  "atoi s = atoi_loop s 0"

text \<open>
  \<open>gets\<close> reads single characters; \<open>rd\<close> is the system call, on the state of the system: the character
  it delivered, or \<open>None\<close> when \<^verbatim>\<open>read\<close> returns less than 1.
\<close>

fun gets_loop :: "nat \<Rightarrow> ('s \<Rightarrow> u8 option \<times> 's) \<Rightarrow> 's \<Rightarrow> u8 list \<times> 's" where
  "gets_loop (Suc (Suc m)) rd s =
     (case rd s of
        (None, s) \<Rightarrow> ([0], s)
      | (Some c, s) \<Rightarrow> if c = 10 \<or> c = 13 then ([c, 0], s)
          else (let (r, s) = gets_loop (Suc m) rd s in (c # r, s)))"
| "gets_loop _ rd s = ([0], s)"

definition gets :: "nat \<Rightarrow> ('s \<Rightarrow> u8 option \<times> 's) \<Rightarrow> 's \<Rightarrow> u8 list \<times> 's" where
  "gets m rd s = gets_loop m rd s"

section \<open>Lemmas\<close>

lemma cstr_simps [simp]: "cstr [] = []" "cstr (c # s) = (if c = 0 then [] else c # cstr s)"
  by (simp_all add: cstr_def)

lemma uint_diff_0 [simp]: "uint a - uint b = 0 \<longleftrightarrow> a = b" for a b :: u8
  by (simp add: word_uint_eq_iff)

lemma strlen_eq: "strlen s = (if 0 \<in> set s then Some (length (cstr s)) else None)"
  by (induction s) auto

lemma strncmp_spec:
  "n \<le> length p \<Longrightarrow> n \<le> length q \<Longrightarrow>
   \<exists>r. strncmp p q n = Some r \<and> (r = 0 \<longleftrightarrow> cstr (take n p) = cstr (take n q))"
proof (induction p q n rule: strncmp.induct)
  case (2 a p b q n)
  then show ?case by (cases "a \<noteq> 0 \<and> a = b") (auto simp del: right_minus_eq)
qed auto

lemma memcmp_spec:
  "n \<le> length p \<Longrightarrow> n \<le> length q \<Longrightarrow> \<exists>r. memcmp p q n = Some r \<and> (r = 0 \<longleftrightarrow> take n p = take n q)"
  by (induction p q n rule: memcmp.induct) (auto simp del: right_minus_eq)

lemma strcmp_spec:
  "0 \<in> set p \<Longrightarrow> 0 \<in> set q \<Longrightarrow> \<exists>r. strcmp p q = Some r \<and> (r = 0 \<longleftrightarrow> cstr p = cstr q)"
  by (induction p q rule: strcmp.induct) (auto simp del: right_minus_eq)

text \<open>\<open>strncpy\<close> stores exactly \<open>n\<close> bytes: the string, cut at \<open>n\<close>, and zeros.\<close>

lemma strncpy_eq:
  "0 \<in> set (take n t) \<or> n \<le> length t \<Longrightarrow>
   strncpy t n = Some (cstr (take n t) @ replicate (n - length (cstr (take n t))) 0)"
  by (induction t n rule: strncpy.induct) auto

lemma strncpy_length: "strncpy t n = Some r \<Longrightarrow> length r = n"
  by (induction t n arbitrary: r rule: strncpy.induct) (auto split: if_splits)

lemma safestrcpy_loop_spec:
  "0 \<in> set (take n t) \<or> n \<le> length t \<Longrightarrow>
   \<exists>r. safestrcpy_loop t n = Some r \<and> length r \<le> Suc n \<and> 0 \<in> set r \<and> cstr r = cstr (take n t)"
  by (induction t n rule: safestrcpy_loop.induct) auto

lemma gets_loop_bound: "0 < m \<Longrightarrow> length (fst (gets_loop m rd s)) \<le> m"
  by (induction m rd s rule: gets_loop.induct) (auto split: option.splits prod.splits)

lemma strchr_spec:
  "0 \<in> set s \<Longrightarrow> \<exists>r. strchr s c = Some r \<and> (case r of
      None \<Rightarrow> c \<notin> set (cstr s)
    | Some i \<Rightarrow> i < length (cstr s) \<and> cstr s ! i = c \<and> c \<notin> set (take i (cstr s)))"
proof (induction s)
  case (Cons d s)
  show ?case
  proof (cases "d = 0 \<or> d = c")
    case False
    with Cons.prems Cons.IH obtain r where "strchr s c = Some r" "case r of
        None \<Rightarrow> c \<notin> set (cstr s)
      | Some i \<Rightarrow> i < length (cstr s) \<and> cstr s ! i = c \<and> c \<notin> set (take i (cstr s))" by auto
    with False show ?thesis by (cases r) auto
  qed auto
qed simp

section \<open>Properties\<close>

text \<open>
  \<open>strncmp\<close> on operands of at least \<open>n\<close> bytes reads only those, and returns 0 exactly when the strings, cut at
  \<open>n\<close> bytes, are equal (the comparison that directory lookup uses).
\<close>

theorem strncmp_zero_iff_equal:
  assumes "n \<le> length p" "n \<le> length q"
  shows "\<exists>r. strncmp p q n = Some r \<and> (r = 0 \<longleftrightarrow> cstr (take n p) = cstr (take n q))"
  using assms by (rule strncmp_spec)

text \<open>
  C40: \<open>safestrcpy\<close> with a positive bound \<open>n\<close> stores at most \<open>n\<close> bytes, among them a terminating 0, and the string it
  leaves is the source string cut at \<open>n - 1\<close> characters.
\<close>

theorem safestrcpy_terminates_string:
  assumes "0 < n" "0 \<in> set (take (nat n - 1) t) \<or> nat n - 1 \<le> length t"
  shows "\<exists>r. safestrcpy t n = Some r \<and> int (length r) \<le> n \<and> 0 \<in> set r
    \<and> (\<forall>dst. cstr (poke dst r) = cstr (take (nat n - 1) t))"
proof -
  obtain r where r: "safestrcpy_loop t (nat n - 1) = Some r" "length r \<le> Suc (nat n - 1)" "0 \<in> set r"
      "cstr r = cstr (take (nat n - 1) t)"
    using safestrcpy_loop_spec [OF assms(2)] by blast
  have "cstr (poke dst r) = cstr r" for dst
    using r(3) unfolding poke_def cstr_def by (simp add: takeWhile_append1 [of 0])
  moreover have "nat (n - 1) = nat n - 1" by simp
  ultimately show ?thesis using r assms(1) by (auto simp: safestrcpy_def)
qed

theorem safestrcpy_terminates_string_witness:
  "\<exists>r. safestrcpy [115, 104, 101, 108, 108, 0] 4 = Some r \<and> int (length r) \<le> 4 \<and> 0 \<in> set r
     \<and> cstr (poke (replicate 16 1) r) = [115, 104, 101]"
proof -
  have k: "take (nat 4 - 1) [115, 104, 101, 108, 108, 0 :: u8] = [115, 104, 101]" by simp
  then show ?thesis
    using safestrcpy_terminates_string [of 4 "[115, 104, 101, 108, 108, 0]"] unfolding k by auto
qed

end
