(* ===== verification/Sched.thy ===== *)
theory Sched
  imports Vm_User Cstring
begin

text \<open>
  The process table and scheduling, \<^verbatim>\<open>proc.c\<close> without the parts that use files (\<^verbatim>\<open>fork\<close>, \<^verbatim>\<open>exit\<close> and \<^verbatim>\<open>userinit\<close>
  are in a later theory).  The table is a list of 64 \<open>proc\<close> records, \<open>cur\<close> the running process.
  A process that calls \<open>sched\<close> leaves its kernel code at the context switch: the outcome is \<open>Swtch s\<close>
  with the state at that point, and what the code does when it is resumed is a definition of its own (\<open>sched_return\<close>,
  \<open>sleep_return\<close>, \<open>yield_return\<close>).  Trap frames and contexts lie in the kernel stack page, at the offsets of
  \<^verbatim>\<open>struct trapframe\<close> and \<^verbatim>\<open>struct context\<close>.
\<close>

section \<open>State\<close>

datatype procstate = UNUSED | EMBRYO | SLEEPING | RUNNABLE | RUNNING | ZOMBIE

record proc =
  p_sz :: u32
  p_pgdir :: u32
  p_kstack :: u32
  p_state :: procstate
  p_pid :: i32
  p_parent :: "nat option"
  p_tf :: u32
  p_context :: u32
  p_chan :: "chan option"
  p_killed :: i32
  p_ofile :: "nat option list"
  p_cwd :: "nat option"
  p_name :: "u8 list"
  p_swapFile :: "nat option"

record procst = vmst +
  pt_proc :: "proc list"
  nextpid :: i32
  initproc :: "nat option"
  cur :: "nat option"        \<comment> \<open>\<^verbatim>\<open>proc\<close>, the process this processor runs\<close>
  ts_esp0 :: u32             \<comment> \<open>the stack the task state segment names\<close>
  forkret_addr :: u32
  trapret_addr :: u32

abbreviation (input) TF_SIZE :: u32 where "TF_SIZE \<equiv> 76"
abbreviation (input) TF_EAX :: u32 where "TF_EAX \<equiv> 28"
abbreviation (input) TF_ES :: u32 where "TF_ES \<equiv> 40"
abbreviation (input) TF_DS :: u32 where "TF_DS \<equiv> 44"
abbreviation (input) TF_EIP :: u32 where "TF_EIP \<equiv> 56"
abbreviation (input) TF_CS :: u32 where "TF_CS \<equiv> 60"
abbreviation (input) TF_EFLAGS :: u32 where "TF_EFLAGS \<equiv> 64"
abbreviation (input) TF_ESP :: u32 where "TF_ESP \<equiv> 68"
abbreviation (input) TF_SS :: u32 where "TF_SS \<equiv> 72"
abbreviation (input) CTX_SIZE :: u32 where "CTX_SIZE \<equiv> 20"
abbreviation (input) CTX_EIP :: u32 where "CTX_EIP \<equiv> 16"

definition proc_at :: "nat \<Rightarrow> 'a procst_scheme \<Rightarrow> proc" where
  "proc_at i s = pt_proc s ! i"

definition upd_proc :: "nat \<Rightarrow> (proc \<Rightarrow> proc) \<Rightarrow> 'a procst_scheme \<Rightarrow> 'a procst_scheme" where
  "upd_proc i f s = s\<lparr>pt_proc := (pt_proc s)[i := f (pt_proc s ! i)]\<rparr>"

text \<open>The code dereferences \<^verbatim>\<open>proc\<close> freely; without a current process that is a null pointer.\<close>

definition with_cur :: "(nat \<Rightarrow> 'a procst_scheme \<Rightarrow> ('a procst_scheme, 'b) res) \<Rightarrow> 'a procst_scheme \<Rightarrow> ('a procst_scheme, 'b) res" where
  "with_cur f s = (case cur s of None \<Rightarrow> Fault ''proc is null'' | Some p \<Rightarrow> f p s)"

section \<open>Creating a process\<close>

definition pinit :: "'a procst_scheme \<Rightarrow> ('a procst_scheme, unit) res" where
  "pinit s = Ok () (initlock PtableLock s)"

fun scan_procs :: "(proc \<Rightarrow> bool) \<Rightarrow> proc list \<Rightarrow> nat \<Rightarrow> nat option" where
  "scan_procs P [] i = None"
| "scan_procs P (p # ps) i = (if P p then Some i else scan_procs P ps (Suc i))"

definition allocproc :: "'a procst_scheme \<Rightarrow> ('a procst_scheme, nat option) res" where
  "allocproc s =
     rbind (acquire PtableLock s) (\<lambda>_ s.
       case scan_procs (\<lambda>p. p_state p = UNUSED) (pt_proc s) 0 of
         None \<Rightarrow> rbind (release PtableLock s) (\<lambda>_ s. Ok None s)
       | Some i \<Rightarrow>
           let s = upd_proc i (\<lambda>p. p\<lparr>p_state := EMBRYO, p_pid := nextpid s\<rparr>) s;
               s = s\<lparr>nextpid := nextpid s + 1\<rparr>
           in rbind (release PtableLock s) (\<lambda>_ s.
              rbind (kalloc s) (\<lambda>k s.
                let s = upd_proc i (\<lambda>p. p\<lparr>p_kstack := k\<rparr>) s
                in if k = 0 then Ok None (upd_proc i (\<lambda>p. p\<lparr>p_state := UNUSED\<rparr>) s)
                   else let sp = k + KSTACKSIZE;
                            sp = sp - TF_SIZE;
                            s = upd_proc i (\<lambda>p. p\<lparr>p_tf := sp\<rparr>) s;
                            sp = sp - 4;
                            s = s\<lparr>mem := store32 (mem s) sp (trapret_addr s)\<rparr>;
                            sp = sp - CTX_SIZE;
                            s = upd_proc i (\<lambda>p. p\<lparr>p_context := sp\<rparr>) s;
                            s = s\<lparr>mem := memset (mem s) sp 0 CTX_SIZE\<rparr>;
                            s = s\<lparr>mem := store32 (mem s) (sp + CTX_EIP) (forkret_addr s)\<rparr>
                        in Ok (Some i) s)))"

section \<open>Address space of the running process\<close>

definition switchuvm :: "nat \<Rightarrow> 'a procst_scheme \<Rightarrow> ('a procst_scheme, unit) res" where
  "switchuvm p s =
     rbind (pushcli s) (\<lambda>_ s.
     with_cur (\<lambda>c s.
       let s = s\<lparr>ts_esp0 := p_kstack (proc_at c s) + KSTACKSIZE\<rparr>
       in if p_pgdir (proc_at p s) = 0 then Panic ''switchuvm: no pgdir''
          else popcli (s\<lparr>cr3 := v2p (p_pgdir (proc_at p s))\<rparr>)) s)"

definition growproc :: "i32 \<Rightarrow> 'a procst_scheme \<Rightarrow> ('a procst_scheme, int) res" where
  "growproc n s = with_cur (\<lambda>c s.
     let sz = p_sz (proc_at c s); pgdir = p_pgdir (proc_at c s);
         finish = (\<lambda>sz s. rbind (switchuvm c (upd_proc c (\<lambda>p. p\<lparr>p_sz := sz\<rparr>) s)) (\<lambda>_ s. Ok 0 s))
     in if sint n > 0 then
          rbind (allocuvm pgdir sz (sz + n) s) (\<lambda>sz s. if sz = 0 then Ok (- 1) s else finish sz s)
        else if sint n < 0 then
          rbind (deallocuvm pgdir sz (sz + n) s) (\<lambda>sz s. if sz = 0 then Ok (- 1) s else finish sz s)
        else finish sz s) s"

section \<open>Giving up the processor\<close>

definition sched :: "'a procst_scheme \<Rightarrow> ('a procst_scheme, unit) res" where
  "sched s =
     (if \<not> holding PtableLock s then Panic ''sched ptable.lock''
      else if ncli (k_cpu s) \<noteq> 1 then Panic ''sched locks''
      else with_cur (\<lambda>c s.
        if p_state (proc_at c s) = RUNNING then Panic ''sched running''
        else if eflags_if (k_cpu s) then Panic ''sched interruptible''
        else Swtch s) s)"

definition sched_return :: "bool \<Rightarrow> 'a procst_scheme \<Rightarrow> ('a procst_scheme, unit) res" where
  "sched_return ena s = Ok () (s\<lparr>k_cpu := (k_cpu s)\<lparr>intena := ena\<rparr>\<rparr>)"

definition yield :: "'a procst_scheme \<Rightarrow> ('a procst_scheme, unit) res" where
  "yield s =
     rbind (acquire PtableLock s) (\<lambda>_ s.
     with_cur (\<lambda>c s. sched (upd_proc c (\<lambda>p. p\<lparr>p_state := RUNNABLE\<rparr>) s)) s)"

definition yield_return :: "bool \<Rightarrow> 'a procst_scheme \<Rightarrow> ('a procst_scheme, unit) res" where
  "yield_return ena s = rbind (sched_return ena s) (\<lambda>_ s. release PtableLock s)"

definition sleep :: "chan \<Rightarrow> lockid option \<Rightarrow> 'a procst_scheme \<Rightarrow> ('a procst_scheme, unit) res" where
  "sleep ch lk s =
     (case cur s of
        None \<Rightarrow> Panic ''sleep''
      | Some c \<Rightarrow>
        (case lk of
           None \<Rightarrow> Panic ''sleep without lk''
         | Some l \<Rightarrow>
             rbind (if l \<noteq> PtableLock then rbind (acquire PtableLock s) (\<lambda>_ s. release l s) else Ok () s) (\<lambda>_ s.
               sched (upd_proc c (\<lambda>p. p\<lparr>p_chan := Some ch, p_state := SLEEPING\<rparr>) s))))"

definition sleep_return :: "bool \<Rightarrow> lockid \<Rightarrow> 'a procst_scheme \<Rightarrow> ('a procst_scheme, unit) res" where
  "sleep_return ena l s =
     rbind (sched_return ena s) (\<lambda>_ s.
     with_cur (\<lambda>c s.
       let s = upd_proc c (\<lambda>p. p\<lparr>p_chan := None\<rparr>) s
       in if l \<noteq> PtableLock then rbind (release PtableLock s) (\<lambda>_ s. acquire l s) else Ok () s) s)"

definition wakeup_proc :: "chan \<Rightarrow> proc \<Rightarrow> proc" where
  "wakeup_proc ch p = (if p_state p = SLEEPING \<and> p_chan p = Some ch then p\<lparr>p_state := RUNNABLE\<rparr> else p)"

definition wakeup1 :: "chan \<Rightarrow> 'a procst_scheme \<Rightarrow> 'a procst_scheme" where
  "wakeup1 ch s = s\<lparr>pt_proc := map (wakeup_proc ch) (pt_proc s)\<rparr>"

definition wakeup :: "chan \<Rightarrow> 'a procst_scheme \<Rightarrow> ('a procst_scheme, unit) res" where
  "wakeup ch s = rbind (acquire PtableLock s) (\<lambda>_ s. release PtableLock (wakeup1 ch s))"

definition kill :: "i32 \<Rightarrow> 'a procst_scheme \<Rightarrow> ('a procst_scheme, int) res" where
  "kill pid s =
     rbind (acquire PtableLock s) (\<lambda>_ s.
       case scan_procs (\<lambda>p. p_pid p = pid) (pt_proc s) 0 of
         None \<Rightarrow> rbind (release PtableLock s) (\<lambda>_ s. Ok (- 1) s)
       | Some i \<Rightarrow>
           let s = upd_proc i (\<lambda>p. p\<lparr>p_killed := 1\<rparr>) s;
               s = (if p_state (proc_at i s) = SLEEPING then upd_proc i (\<lambda>p. p\<lparr>p_state := RUNNABLE\<rparr>) s else s)
           in rbind (release PtableLock s) (\<lambda>_ s. Ok 0 s))"

section \<open>The scheduler\<close>

text \<open>
  One pass over the table, held under \<^verbatim>\<open>ptable.lock\<close>: \<open>scheduler_from i\<close> goes on with entry \<open>i\<close> and stops where it
  switches to a process, with that process's number, or at the end of the pass.
  \<open>scheduler_back\<close> is what the scheduler does when the process switches back to it.
\<close>

function scheduler_from :: "nat \<Rightarrow> 'a procst_scheme \<Rightarrow> ('a procst_scheme, nat option) res" where
  "scheduler_from i s =
     (if i < length (pt_proc s) then
        if p_state (proc_at i s) \<noteq> RUNNABLE then scheduler_from (Suc i) s
        else rbind (switchuvm i (s\<lparr>cur := Some i\<rparr>)) (\<lambda>_ s.
          Ok (Some i) (upd_proc i (\<lambda>p. p\<lparr>p_state := RUNNING\<rparr>) s))
      else rbind (release PtableLock s) (\<lambda>_ s. Ok None s))"
  by pat_completeness auto
termination by (relation "measure (\<lambda>(i, s). length (pt_proc s) - i)") auto

declare scheduler_from.simps [simp del]

definition scheduler_start :: "'a procst_scheme \<Rightarrow> ('a procst_scheme, nat option) res" where
  "scheduler_start s =
     rbind (acquire PtableLock (s\<lparr>k_cpu := (k_cpu s)\<lparr>eflags_if := True\<rparr>\<rparr>)) (\<lambda>_ s. scheduler_from 0 s)"

definition scheduler_back :: "nat \<Rightarrow> 'a procst_scheme \<Rightarrow> ('a procst_scheme, nat option) res" where
  "scheduler_back i s = rbind (switchkvm s) (\<lambda>_ s. scheduler_from (Suc i) (s\<lparr>cur := None\<rparr>))"

section \<open>Waiting for children\<close>

definition reap :: "nat \<Rightarrow> 'a procst_scheme \<Rightarrow> ('a procst_scheme, i32) res" where
  "reap i s =
     (let pid = p_pid (proc_at i s)
      in rbind (kfree (p_kstack (proc_at i s)) s) (\<lambda>_ s.
         let s = upd_proc i (\<lambda>p. p\<lparr>p_kstack := 0\<rparr>) s
         in rbind (freevm (p_pgdir (proc_at i s)) s) (\<lambda>_ s.
            let s = upd_proc i (\<lambda>p. p\<lparr>p_state := UNUSED, p_pid := 0, p_parent := None,
                      p_name := (p_name p)[0 := 0], p_killed := 0\<rparr>) s
            in rbind (release PtableLock s) (\<lambda>_ s. Ok pid s))))"

function wait_scan :: "nat \<Rightarrow> nat \<Rightarrow> bool \<Rightarrow> 'a procst_scheme \<Rightarrow> ('a procst_scheme, i32) res" where
  "wait_scan c i havekids s =
     (if i < length (pt_proc s) then
        if p_parent (proc_at i s) \<noteq> Some c then wait_scan c (Suc i) havekids s
        else if p_state (proc_at i s) = ZOMBIE then reap i s
        else wait_scan c (Suc i) True s
      else if \<not> havekids \<or> p_killed (proc_at c s) \<noteq> 0 then rbind (release PtableLock s) (\<lambda>_ s. Ok (- 1) s)
      else rbind (sleep (ChanProc c) (Some PtableLock) s) (\<lambda>_ s. Ok 0 s))"
  by pat_completeness auto
termination by (relation "measure (\<lambda>(c, i, h, s). length (pt_proc s) - i)") auto

declare wait_scan.simps [simp del]

text \<open>
  \<open>sleep\<close> never returns directly (it always ends in \<open>Swtch\<close> or a panic), so the value 0 of the last
  branch is never delivered; \<open>wait_return\<close> is the next round of the loop after a wake-up.
\<close>

definition wait :: "'a procst_scheme \<Rightarrow> ('a procst_scheme, i32) res" where
  "wait s = rbind (acquire PtableLock s) (\<lambda>_ s. with_cur (\<lambda>c s. wait_scan c 0 False s) s)"

definition wait_return :: "bool \<Rightarrow> 'a procst_scheme \<Rightarrow> ('a procst_scheme, i32) res" where
  "wait_return ena s =
     rbind (sleep_return ena PtableLock s) (\<lambda>_ s. with_cur (\<lambda>c s. wait_scan c 0 False s) s)"

end
