(* ===== verification/Sched_Laws.thy ===== *)
theory Sched_Laws
  imports Sched
begin

text \<open>
  Facts about the process table: closed forms of \<open>wakeup\<close>, \<open>kill\<close>, \<open>sleep\<close>, \<open>allocproc\<close> and the
  scheduler's choice, and the sleep/wakeup protocol as an interleaving of its lock operations.
\<close>

section \<open>Closed forms\<close>

lemma scan_procs_None: "scan_procs P ps i = None \<longleftrightarrow> (\<forall>p \<in> set ps. \<not> P p)"
  by (induction P ps i rule: scan_procs.induct) auto

lemma scan_procs_Some:
  "scan_procs P ps i = Some j \<longleftrightarrow> i \<le> j \<and> j < i + length ps \<and> P (ps ! (j - i)) \<and> (\<forall>k < j - i. \<not> P (ps ! k))"
proof (induction P ps i rule: scan_procs.induct)
  case (2 P p ps i)
  show ?case
  proof (cases "P p")
    case True
    then show ?thesis by (auto simp: nth_Cons' intro: ccontr) 
  next
    case False
    have "(i \<le> j \<and> j < i + length (p # ps) \<and> P ((p # ps) ! (j - i)) \<and> (\<forall>k < j - i. \<not> P ((p # ps) ! k))) \<longleftrightarrow>
      (Suc i \<le> j \<and> j < Suc i + length ps \<and> P (ps ! (j - Suc i)) \<and> (\<forall>k < j - Suc i. \<not> P (ps ! k)))"
    proof (cases "Suc i \<le> j")
      case True
      then obtain d where d: "j = Suc i + d" using le_Suc_ex by blast
      have "(\<forall>k < Suc d. \<not> P ((p # ps) ! k)) \<longleftrightarrow> (\<forall>k < d. \<not> P (ps ! k))"
        using False by (auto simp: less_Suc_eq_0_disj)
      with d show ?thesis by simp
    next
      case False
      then show ?thesis using \<open>\<not> P p\<close> by (cases "j = i") auto
    qed
    with False 2 show ?thesis by simp
  qed
qed simp

text \<open>A critical section under a free lock leaves the locks and the interrupt state as they were.\<close>

lemma release_restores:
  assumes "lock_ready l s" "k_cpu t = k_cpu (held l s)" "k_locks t = k_locks (held l s)"
  shows "release l t = Ok () (t\<lparr>k_cpu := k_cpu s, k_locks := k_locks s\<rparr>)"
proof -
  have "(k_locks (held l s))(l := k_locks s l) = k_locks s" by (simp add: held_def)
  with release_held [OF assms(1), of t] assms(2,3) show ?thesis by simp
qed

lemma wakeup_eq:
  assumes "lock_ready PtableLock s" shows "wakeup ch s = Ok () (wakeup1 ch s)"
  using assms
  by (simp add: wakeup_def acquire_ready release_restores [OF assms] wakeup1_def held_def)

definition killed_proc :: "proc \<Rightarrow> proc" where
  "killed_proc p = p\<lparr>p_killed := 1, p_state := (if p_state p = SLEEPING then RUNNABLE else p_state p)\<rparr>"

lemma kill_eq:
  assumes r: "lock_ready PtableLock s"
  shows "kill pid s = (case scan_procs (\<lambda>p. p_pid p = pid) (pt_proc s) 0 of
      None \<Rightarrow> Ok (- 1) s
    | Some i \<Rightarrow> Ok 0 (upd_proc i killed_proc s))"
proof (cases "scan_procs (\<lambda>p. p_pid p = pid) (pt_proc s) 0")
  case None
  then show ?thesis
    by (simp add: kill_def acquire_ready [OF r] release_restores [OF r] held_def)
next
  case (Some i)
  then have "i < length (pt_proc s)" by (simp add: scan_procs_Some)
  with Some show ?thesis
    by (simp add: kill_def acquire_ready [OF r] release_restores [OF r] held_def upd_proc_def killed_proc_def
        proc_at_def Let_def)
qed

section \<open>Sleeping\<close>

text \<open>Releasing the outer of two nested locks first.\<close>

lemma release_outer:
  assumes "lock_ready l s" "lock_ready l' s" "l \<noteq> l'"
  shows "release l (held l' (held l s)) = Ok () (held l' s)"
proof -
  let ?s = "s\<lparr>k_cpu := pushed (k_cpu s)\<rparr>"
  have r: "lock_ready l ?s" using assms(1) by (simp add: lock_ready_def)
  have "release l (held l' (held l s)) = Ok () ((held l' (held l s))\<lparr>k_cpu := pushed (k_cpu s),
      k_locks := (k_locks (held l' (held l s)))(l := k_locks s l)\<rparr>)"
    using release_held [OF r, of "held l' (held l s)"] assms(3) by (simp add: held_def)
  also have "(held l' (held l s))\<lparr>k_cpu := pushed (k_cpu s), k_locks := (k_locks (held l' (held l s)))(l := k_locks s l)\<rparr>
      = held l' s"
    using assms(3) by (auto simp: held_def fun_upd_twist)
  finally show ?thesis .
qed

definition asleep :: "chan \<Rightarrow> proc \<Rightarrow> proc" where
  "asleep ch p = p\<lparr>p_chan := Some ch, p_state := SLEEPING\<rparr>"

lemma sched_held:
  assumes "lock_ready PtableLock s" "ncli (k_cpu s) = 0" "cur s = Some c" "c < length (pt_proc s)"
    "p_state p \<noteq> RUNNING"
  shows "sched (upd_proc c (\<lambda>_. p) (held PtableLock s)) = Swtch (upd_proc c (\<lambda>_. p) (held PtableLock s))"
  using assms by (simp add: sched_def upd_proc_def with_cur_def proc_at_def held_def holding_def)

lemma upd_proc_const: "upd_proc c f s = upd_proc c (\<lambda>_. f (pt_proc s ! c)) s"
  by (simp add: upd_proc_def)

lemma sleep_eq:
  assumes "lock_ready PtableLock s" "ncli (k_cpu s) = 0" "cur s = Some c" "c < length (pt_proc s)"
  shows "sleep ch (Some PtableLock) (held PtableLock s) = Swtch (upd_proc c (asleep ch) (held PtableLock s))"
    and "lock_ready l s \<Longrightarrow> l \<noteq> PtableLock \<Longrightarrow>
      sleep ch (Some l) (held l s) = Swtch (upd_proc c (asleep ch) (held PtableLock s))"
proof -
  have c: "cur (held l s) = Some c" for l using assms(3) by (simp add: held_def)
  have s: "sched (upd_proc c (\<lambda>p. p\<lparr>p_chan := Some ch, p_state := SLEEPING\<rparr>) (held PtableLock s))
      = Swtch (upd_proc c (asleep ch) (held PtableLock s))"
    using sched_held [OF assms] unfolding asleep_def by (subst (1 2) upd_proc_const) simp
  show "sleep ch (Some PtableLock) (held PtableLock s) = Swtch (upd_proc c (asleep ch) (held PtableLock s))"
    using s c by (simp add: sleep_def)
  assume "lock_ready l s" "l \<noteq> PtableLock"
  then show "sleep ch (Some l) (held l s) = Swtch (upd_proc c (asleep ch) (held PtableLock s))"
    using s c assms(1) by (simp add: sleep_def acquire_ready release_outer)
qed

text \<open>
  When the scheduler comes back to the process it holds \<^verbatim>\<open>ptable.lock\<close> for it; the process
  leaves with its own lock instead.
\<close>

lemma sleep_return_eq:
  assumes r: "lock_ready PtableLock s" "lock_ready l s" "l \<noteq> PtableLock" and c: "cur s = Some c"
    and ena: "ena = intena (k_cpu (held PtableLock s))"
  shows "sleep_return ena l (held PtableLock s) = Ok () (held l (upd_proc c (\<lambda>p. p\<lparr>p_chan := None\<rparr>) s))"
proof -
  have e: "(held PtableLock s)\<lparr>k_cpu := (k_cpu (held PtableLock s))\<lparr>intena := ena\<rparr>\<rparr> = held PtableLock s"
    by (simp add: ena)
  let ?t = "upd_proc c (\<lambda>p. p\<lparr>p_chan := None\<rparr>) (held PtableLock s)"
  have "release PtableLock ?t = Ok () (upd_proc c (\<lambda>p. p\<lparr>p_chan := None\<rparr>) s)"
    using release_restores [OF r(1), of ?t] by (simp add: upd_proc_def held_def)
  moreover have "lock_ready l (upd_proc c (\<lambda>p. p\<lparr>p_chan := None\<rparr>) s)"
    using r(2) by (simp add: lock_ready_def upd_proc_def)
  ultimately show ?thesis
    using r(3) c unfolding sleep_return_def sched_return_def rbind.simps e
    by (simp add: with_cur_def held_def [of PtableLock] acquire_ready)
qed

section \<open>The scheduler's choice\<close>

definition dispatched :: "nat \<Rightarrow> 'a procst_scheme \<Rightarrow> 'a procst_scheme" where
  "dispatched i s = upd_proc i (\<lambda>p. p\<lparr>p_state := RUNNING\<rparr>)
     (s\<lparr>cur := Some i, ts_esp0 := p_kstack (pt_proc s ! i) + KSTACKSIZE, cr3 := v2p (p_pgdir (pt_proc s ! i))\<rparr>)"

lemma switchuvm_eq:
  assumes "cpu_ok (k_cpu s)" "cur s = Some c" "p_pgdir (pt_proc s ! p) \<noteq> 0"
  shows "switchuvm p s = Ok () (s\<lparr>ts_esp0 := p_kstack (pt_proc s ! c) + KSTACKSIZE, cr3 := v2p (p_pgdir (pt_proc s ! p))\<rparr>)"
proof -
  let ?t = "s\<lparr>k_cpu := pushed (k_cpu s), ts_esp0 := p_kstack (pt_proc s ! c) + KSTACKSIZE, cr3 := v2p (p_pgdir (pt_proc s ! p))\<rparr>"
  have "popcli ?t = Ok () (?t\<lparr>k_cpu := k_cpu s\<rparr>)" using assms(1) by (intro popcli_pushed) simp_all
  with assms(2,3) show ?thesis by (simp add: switchuvm_def pushcli_eq with_cur_def proc_at_def Let_def)
qed

lemma switchuvm_no_pgdir:
  "cur s = Some c \<Longrightarrow> p_pgdir (pt_proc s ! p) = 0 \<Longrightarrow> switchuvm p s = Panic ''switchuvm: no pgdir''"
  by (simp add: switchuvm_def pushcli_eq with_cur_def proc_at_def Let_def)

text \<open>The pass goes on to the first runnable entry, or ends and releases the lock.\<close>

lemma scheduler_from_first:
  assumes "i \<le> j" "j < length (pt_proc s)" "\<And>k. i \<le> k \<Longrightarrow> k < j \<Longrightarrow> p_state (pt_proc s ! k) \<noteq> RUNNABLE"
    and "p_state (pt_proc s ! j) = RUNNABLE" "p_pgdir (pt_proc s ! j) \<noteq> 0" "cpu_ok (k_cpu s)"
  shows "scheduler_from i s = Ok (Some j) (dispatched j s)"
  using assms(1,3)
proof (induction "j - i" arbitrary: i)
  case 0
  then have "i = j" by simp
  with assms switchuvm_eq [of "s\<lparr>cur := Some j\<rparr>" j j] show ?case
    by (subst scheduler_from.simps) (simp add: proc_at_def dispatched_def)
next
  case (Suc d)
  then have "i < j" "p_state (pt_proc s ! i) \<noteq> RUNNABLE" by auto
  with assms(2) have "scheduler_from i s = scheduler_from (Suc i) s"
    by (subst scheduler_from.simps) (simp add: proc_at_def)
  with Suc.hyps(1) [of "Suc i"] Suc.hyps(2) Suc.prems \<open>i < j\<close> show ?case by simp
qed

lemma scheduler_from_none:
  assumes "\<And>k. i \<le> k \<Longrightarrow> k < length (pt_proc s) \<Longrightarrow> p_state (pt_proc s ! k) \<noteq> RUNNABLE"
  shows "scheduler_from i s = rbind (release PtableLock s) (\<lambda>_ s. Ok None s)"
  using assms
proof (induction "length (pt_proc s) - i" arbitrary: i)
  case 0
  then show ?case by (subst scheduler_from.simps) simp
next
  case (Suc d)
  then have "scheduler_from i s = scheduler_from (Suc i) s"
    by (subst scheduler_from.simps) (simp add: proc_at_def)
  with Suc show ?case by simp
qed

section \<open>Allocating a table entry\<close>

lemma upd_proc_simps [simp]:
  "k_cpu (upd_proc i f s) = k_cpu s" "k_locks (upd_proc i f s) = k_locks s" "mem (upd_proc i f s) = mem s"
  "km_freelist (upd_proc i f s) = km_freelist s" "km_use_lock (upd_proc i f s) = km_use_lock s" "k_end (upd_proc i f s) = k_end s"
  "cur (upd_proc i f s) = cur s" "nextpid (upd_proc i f s) = nextpid s" "initproc (upd_proc i f s) = initproc s"
  "trapret_addr (upd_proc i f s) = trapret_addr s" "forkret_addr (upd_proc i f s) = forkret_addr s"
  "length (pt_proc (upd_proc i f s)) = length (pt_proc s)"
  "i < length (pt_proc s) \<Longrightarrow> proc_at i (upd_proc i f s) = f (proc_at i s)"
  "i \<noteq> j \<Longrightarrow> proc_at j (upd_proc i f s) = proc_at j s"
  by (simp_all add: upd_proc_def proc_at_def)

definition embryo :: "i32 \<Rightarrow> u32 \<Rightarrow> proc \<Rightarrow> proc" where
  "embryo pid k p = p\<lparr>p_state := EMBRYO, p_pid := pid, p_kstack := k,
     p_tf := k + KSTACKSIZE - TF_SIZE, p_context := k + KSTACKSIZE - TF_SIZE - 4 - CTX_SIZE\<rparr>"

lemma proc_update_twice: "i < length ps \<Longrightarrow> (ps[i := x])[i := y] = ps[i := y]" for ps :: "proc list"
  by simp

lemma allocproc_found:
  assumes r: "lock_ready PtableLock s" "kmem_ready s"
    and i: "scan_procs (\<lambda>p. p_state p = UNUSED) (pt_proc s) 0 = Some i" and fl: "km_freelist s \<noteq> 0"
  defines "k \<equiv> km_freelist s" and "sp \<equiv> km_freelist s + KSTACKSIZE - TF_SIZE - 4"
  shows "allocproc s = Ok (Some i) (s\<lparr>km_freelist := load32 (mem s) k,
    pt_proc := (pt_proc s)[i := embryo (nextpid s) k (pt_proc s ! i)], nextpid := nextpid s + 1,
    mem := store32 (memset (store32 (mem s) sp (trapret_addr s)) (sp - CTX_SIZE) 0 CTX_SIZE)
      (sp - CTX_SIZE + CTX_EIP) (forkret_addr s)\<rparr>)"
proof -
  have il: "i < length (pt_proc s)" using i by (simp add: scan_procs_Some)
  let ?s1 = "(upd_proc i (\<lambda>p. p\<lparr>p_state := EMBRYO, p_pid := nextpid s\<rparr>) s)\<lparr>nextpid := nextpid s + 1\<rparr>"
  let ?h = "(upd_proc i (\<lambda>p. p\<lparr>p_state := EMBRYO, p_pid := nextpid s\<rparr>) (held PtableLock s))\<lparr>nextpid := nextpid s + 1\<rparr>"
  have rel: "release PtableLock ?h = Ok () ?s1"
    using release_restores [OF r(1), of ?h] by (simp add: held_def upd_proc_def)
  have "kmem_ready ?s1" using r(2) by (simp add: kmem_ready_def lock_ready_def)
  then have ka: "kalloc ?s1 = Ok k (?s1\<lparr>km_freelist := load32 (mem s) k\<rparr>)"
    using fl by (simp add: kalloc_eq k_def)
  have scan: "scan_procs (\<lambda>p. p_state p = UNUSED) (pt_proc (held PtableLock s)) 0 = Some i"
    using i by (simp add: held_def)
  have np: "nextpid (held PtableLock s) = nextpid s" by (simp add: held_def)
  have k0: "k \<noteq> 0" using fl by (simp add: k_def)
  show ?thesis
    unfolding allocproc_def acquire_ready [OF r(1)] rbind.simps scan option.case Let_def np upd_proc_simps(8) rel ka
      if_not_P [OF k0]
    using il by (simp add: k_def sp_def upd_proc_def embryo_def)
qed

end
