(* ===== verification/Sched_Props.thy ===== *)
theory Sched_Props
  imports Sched_Laws Vm_Props
begin

text \<open>
  Properties of the process table and the scheduler.  The first section interleaves the lock operations of
  \<open>sleep\<close> and \<open>wakeup\<close> for any number of processes: sleepers that wait for a condition
  guarded by a lock, and wakers that establish it under the same lock.
\<close>

section \<open>The sleep/wakeup protocol\<close>

text \<open>
  \<open>S_\<close> program points belong to a process in \<^verbatim>\<open>while(!cond) sleep(chan, lk);\<close>, \<open>W_\<close> points to one in
  \<^verbatim>\<open>cond = 1; wakeup(chan);\<close>, both under \<^verbatim>\<open>lk\<close>.  \<open>S_Asleep\<close> is state \<open>SLEEPING\<close> with \<^verbatim>\<open>ptable.lock\<close> still held until
  the scheduler releases it (\<open>S_Switched\<close>); \<open>S_Woken\<close> is \<open>RUNNABLE\<close>.
\<close>

datatype sw_pc =
    Idle | S_Check | S_AcqPtable | S_RelLk | S_SetSleeping | S_Asleep | S_Switched | S_Woken
  | S_Resumed | S_Relock | W_Set | W_AcqPtable | W_Scan | W_RelPtable | W_RelLk

record sw_sys =
  sw_lk :: "nat option"
  sw_ptable :: "nat option"
  sw_cond :: bool
  sw_pc :: "nat \<Rightarrow> sw_pc"

abbreviation (input) at_pc :: "nat \<Rightarrow> sw_pc \<Rightarrow> sw_sys \<Rightarrow> sw_sys" where
  "at_pc p l s \<equiv> s\<lparr>sw_pc := (sw_pc s)(p := l)\<rparr>"

definition sw_scan :: "(nat \<Rightarrow> sw_pc) \<Rightarrow> nat \<Rightarrow> sw_pc" where
  "sw_scan pcs q = (if pcs q = S_Asleep \<or> pcs q = S_Switched then S_Woken else pcs q)"

inductive sw_step :: "sw_sys \<Rightarrow> sw_sys \<Rightarrow> bool" where
  s_enter: "sw_pc s p = Idle \<Longrightarrow> sw_lk s = None \<Longrightarrow> sw_step s (at_pc p S_Check (s\<lparr>sw_lk := Some p\<rparr>))"
| s_ready: "sw_pc s p = S_Check \<Longrightarrow> sw_cond s \<Longrightarrow> sw_step s (at_pc p Idle (s\<lparr>sw_cond := False, sw_lk := None\<rparr>))"
| s_sleep: "sw_pc s p = S_Check \<Longrightarrow> \<not> sw_cond s \<Longrightarrow> sw_step s (at_pc p S_AcqPtable s)"
| s_acq: "sw_pc s p = S_AcqPtable \<Longrightarrow> sw_ptable s = None \<Longrightarrow> sw_step s (at_pc p S_RelLk (s\<lparr>sw_ptable := Some p\<rparr>))"
| s_rel: "sw_pc s p = S_RelLk \<Longrightarrow> sw_step s (at_pc p S_SetSleeping (s\<lparr>sw_lk := None\<rparr>))"
| s_set: "sw_pc s p = S_SetSleeping \<Longrightarrow> sw_step s (at_pc p S_Asleep s)"
| s_switch: "sw_pc s p = S_Asleep \<Longrightarrow> sw_step s (at_pc p S_Switched (s\<lparr>sw_ptable := None\<rparr>))"
| s_dispatch: "sw_pc s p = S_Woken \<Longrightarrow> sw_ptable s = None \<Longrightarrow> sw_step s (at_pc p S_Resumed (s\<lparr>sw_ptable := Some p\<rparr>))"
| s_resume: "sw_pc s p = S_Resumed \<Longrightarrow> sw_step s (at_pc p S_Relock (s\<lparr>sw_ptable := None\<rparr>))"
| s_relock: "sw_pc s p = S_Relock \<Longrightarrow> sw_lk s = None \<Longrightarrow> sw_step s (at_pc p S_Check (s\<lparr>sw_lk := Some p\<rparr>))"
| w_enter: "sw_pc s p = Idle \<Longrightarrow> sw_lk s = None \<Longrightarrow> sw_step s (at_pc p W_Set (s\<lparr>sw_lk := Some p\<rparr>))"
| w_set: "sw_pc s p = W_Set \<Longrightarrow> sw_step s (at_pc p W_AcqPtable (s\<lparr>sw_cond := True\<rparr>))"
| w_acq: "sw_pc s p = W_AcqPtable \<Longrightarrow> sw_ptable s = None \<Longrightarrow> sw_step s (at_pc p W_Scan (s\<lparr>sw_ptable := Some p\<rparr>))"
| w_scan: "sw_pc s p = W_Scan \<Longrightarrow> sw_step s (at_pc p W_RelPtable (s\<lparr>sw_pc := sw_scan (sw_pc s)\<rparr>))"
| w_relp: "sw_pc s p = W_RelPtable \<Longrightarrow> sw_step s (at_pc p W_RelLk (s\<lparr>sw_ptable := None\<rparr>))"
| w_rel: "sw_pc s p = W_RelLk \<Longrightarrow> sw_step s (at_pc p Idle (s\<lparr>sw_lk := None\<rparr>))"

inductive sw_reach :: "sw_sys \<Rightarrow> bool" where
  sw_start: "sw_reach \<lparr>sw_lk = None, sw_ptable = None, sw_cond = False, sw_pc = (\<lambda>_. Idle)\<rparr>"
| sw_next: "sw_reach s \<Longrightarrow> sw_step s t \<Longrightarrow> sw_reach t"

definition owns_lk :: "sw_pc \<Rightarrow> bool" where
  "owns_lk l \<longleftrightarrow> l \<in> {S_Check, S_AcqPtable, S_RelLk, W_Set, W_AcqPtable, W_Scan, W_RelPtable, W_RelLk}"

definition owns_ptable :: "sw_pc \<Rightarrow> bool" where
  "owns_ptable l \<longleftrightarrow> l \<in> {S_RelLk, S_SetSleeping, S_Asleep, S_Resumed, W_Scan, W_RelPtable}"

text \<open>Past its check of the condition and not yet woken.\<close>

definition committed :: "sw_pc \<Rightarrow> bool" where
  "committed l \<longleftrightarrow> l \<in> {S_AcqPtable, S_RelLk, S_SetSleeping, S_Asleep, S_Switched}"

definition sw_inv :: "sw_sys \<Rightarrow> bool" where
  "sw_inv s \<longleftrightarrow>
     (\<forall>p. owns_lk (sw_pc s p) \<longleftrightarrow> sw_lk s = Some p) \<and>
     (\<forall>p. owns_ptable (sw_pc s p) \<longleftrightarrow> sw_ptable s = Some p) \<and>
     (sw_cond s \<longrightarrow> (\<forall>q. committed (sw_pc s q) \<longrightarrow>
        (\<exists>w. sw_lk s = Some w \<and> sw_pc s w \<in> {W_AcqPtable, W_Scan})))"

lemma owns_lk_simps [simp]:
  "\<not> owns_lk Idle" "owns_lk S_Check" "owns_lk S_AcqPtable" "owns_lk S_RelLk" "\<not> owns_lk S_SetSleeping"
  "\<not> owns_lk S_Asleep" "\<not> owns_lk S_Switched" "\<not> owns_lk S_Woken" "\<not> owns_lk S_Resumed"
  "\<not> owns_lk S_Relock" "owns_lk W_Set" "owns_lk W_AcqPtable" "owns_lk W_Scan" "owns_lk W_RelPtable"
  "owns_lk W_RelLk"
  by (simp_all add: owns_lk_def)

lemma owns_ptable_simps [simp]:
  "\<not> owns_ptable Idle" "\<not> owns_ptable S_Check" "\<not> owns_ptable S_AcqPtable" "owns_ptable S_RelLk"
  "owns_ptable S_SetSleeping" "owns_ptable S_Asleep" "\<not> owns_ptable S_Switched" "\<not> owns_ptable S_Woken"
  "owns_ptable S_Resumed" "\<not> owns_ptable S_Relock" "\<not> owns_ptable W_Set" "\<not> owns_ptable W_AcqPtable"
  "owns_ptable W_Scan" "owns_ptable W_RelPtable" "\<not> owns_ptable W_RelLk"
  by (simp_all add: owns_ptable_def)

lemma committed_simps [simp]:
  "\<not> committed Idle" "\<not> committed S_Check" "committed S_AcqPtable" "committed S_RelLk"
  "committed S_SetSleeping" "committed S_Asleep" "committed S_Switched" "\<not> committed S_Woken"
  "\<not> committed S_Resumed" "\<not> committed S_Relock" "\<not> committed W_Set" "\<not> committed W_AcqPtable"
  "\<not> committed W_Scan" "\<not> committed W_RelPtable" "\<not> committed W_RelLk"
  by (simp_all add: committed_def)

lemma sw_scan_owns [simp]:
  "owns_lk (sw_scan pcs q) = owns_lk (pcs q)"
  "\<not> owns_ptable (pcs q) \<Longrightarrow> \<not> owns_ptable (sw_scan pcs q)"
  "\<not> owns_lk (pcs q) \<Longrightarrow> \<not> owns_ptable (pcs q) \<Longrightarrow> \<not> committed (sw_scan pcs q)"
  by (cases "pcs q"; simp add: sw_scan_def)+

lemma sw_inv_owner:
  assumes "sw_inv s"
  shows "owns_lk (sw_pc s p) \<Longrightarrow> sw_lk s = Some p" "owns_ptable (sw_pc s p) \<Longrightarrow> sw_ptable s = Some p"
    "\<not> owns_lk (sw_pc s p) \<Longrightarrow> sw_lk s \<noteq> Some p" "\<not> owns_ptable (sw_pc s p) \<Longrightarrow> sw_ptable s \<noteq> Some p"
  using assms by (auto simp: sw_inv_def)

text \<open>A step that moves process \<open>p\<close> alone.\<close>

lemma sw_inv_move:
  assumes "sw_inv s" and t: "t = s\<lparr>sw_pc := (sw_pc s)(p := l), sw_lk := k, sw_ptable := m, sw_cond := c\<rparr>"
    and lk: "owns_lk l \<longleftrightarrow> k = Some p" "\<And>q. q \<noteq> p \<Longrightarrow> k = Some q \<longleftrightarrow> sw_lk s = Some q"
    and pt: "owns_ptable l \<longleftrightarrow> m = Some p" "\<And>q. q \<noteq> p \<Longrightarrow> m = Some q \<longleftrightarrow> sw_ptable s = Some q"
    and wake: "c \<Longrightarrow> k = Some p \<and> l \<in> {W_AcqPtable, W_Scan} \<or>
      sw_cond s \<and> (committed l \<longrightarrow> committed (sw_pc s p)) \<and> sw_pc s p \<notin> {W_AcqPtable, W_Scan}"
  shows "sw_inv t"
proof -
  have "\<exists>w. k = Some w \<and> ((sw_pc s)(p := l)) w \<in> {W_AcqPtable, W_Scan}"
    if c: "c" and q: "committed (((sw_pc s)(p := l)) q)" for q
  proof (cases "k = Some p \<and> l \<in> {W_AcqPtable, W_Scan}")
    case False
    then have w: "sw_cond s" "committed l \<longrightarrow> committed (sw_pc s p)" "sw_pc s p \<notin> {W_AcqPtable, W_Scan}"
      using wake [OF c] by blast+
    then have "committed (sw_pc s q)" using q by (cases "q = p") simp_all
    then obtain w where "sw_lk s = Some w" "sw_pc s w \<in> {W_AcqPtable, W_Scan}"
      using w(1) assms(1) unfolding sw_inv_def by blast
    moreover from this have "w \<noteq> p" using w(3) by blast
    ultimately show ?thesis using lk(2) by (intro exI [of _ w]) simp
  qed (auto intro!: exI [of _ p])
  moreover have "owns_lk (((sw_pc s)(p := l)) q) \<longleftrightarrow> k = Some q" "owns_ptable (((sw_pc s)(p := l)) q) \<longleftrightarrow> m = Some q" for q
    using assms(1) lk pt by (cases "q = p"; simp add: sw_inv_def)+
  ultimately show ?thesis unfolding t sw_inv_def by simp
qed

lemma sw_inv_scan:
  assumes "sw_inv s" "sw_pc s p = W_Scan"
  shows "sw_inv (at_pc p W_RelPtable (s\<lparr>sw_pc := sw_scan (sw_pc s)\<rparr>))"
proof -
  have lk: "sw_lk s = Some p" "sw_ptable s = Some p"
    using sw_inv_owner(1,2) [OF assms(1), of p] assms(2) by simp_all
  have other: "\<not> owns_lk (sw_pc s q)" "\<not> owns_ptable (sw_pc s q)" if "q \<noteq> p" for q
    using sw_inv_owner(1,2) [OF assms(1), of q] lk that by auto
  then have "\<not> committed (if q = p then W_RelPtable else sw_scan (sw_pc s) q)" for q by simp
  with other lk show ?thesis by (auto simp: sw_inv_def)
qed

lemma sw_inv_step: "sw_step s t \<Longrightarrow> sw_inv s \<Longrightarrow> sw_inv t"
proof (induction rule: sw_step.induct)
  case (w_scan s p)
  then show ?case by (intro sw_inv_scan)
next
  case (s_enter s p)
  with sw_inv_owner [OF s_enter.prems, of p] show ?case
    by (intro sw_inv_move [OF s_enter.prems, where p = p and l = S_Check and k = "Some p" and m = "sw_ptable s" and c = "sw_cond s"]) auto
next
  case (s_ready s p)
  with sw_inv_owner [OF s_ready.prems, of p] show ?case
    by (intro sw_inv_move [OF s_ready.prems, where p = p and l = Idle and k = "None" and m = "sw_ptable s" and c = "False"]) auto
next
  case (s_sleep s p)
  with sw_inv_owner [OF s_sleep.prems, of p] show ?case
    by (intro sw_inv_move [OF s_sleep.prems, where p = p and l = S_AcqPtable and k = "sw_lk s" and m = "sw_ptable s" and c = "sw_cond s"]) auto
next
  case (s_acq s p)
  with sw_inv_owner [OF s_acq.prems, of p] show ?case
    by (intro sw_inv_move [OF s_acq.prems, where p = p and l = S_RelLk and k = "sw_lk s" and m = "Some p" and c = "sw_cond s"]) auto
next
  case (s_rel s p)
  with sw_inv_owner [OF s_rel.prems, of p] show ?case
    by (intro sw_inv_move [OF s_rel.prems, where p = p and l = S_SetSleeping and k = "None" and m = "sw_ptable s" and c = "sw_cond s"]) auto
next
  case (s_set s p)
  with sw_inv_owner [OF s_set.prems, of p] show ?case
    by (intro sw_inv_move [OF s_set.prems, where p = p and l = S_Asleep and k = "sw_lk s" and m = "sw_ptable s" and c = "sw_cond s"]) auto
next
  case (s_switch s p)
  with sw_inv_owner [OF s_switch.prems, of p] show ?case
    by (intro sw_inv_move [OF s_switch.prems, where p = p and l = S_Switched and k = "sw_lk s" and m = "None" and c = "sw_cond s"]) auto
next
  case (s_dispatch s p)
  with sw_inv_owner [OF s_dispatch.prems, of p] show ?case
    by (intro sw_inv_move [OF s_dispatch.prems, where p = p and l = S_Resumed and k = "sw_lk s" and m = "Some p" and c = "sw_cond s"]) auto
next
  case (s_resume s p)
  with sw_inv_owner [OF s_resume.prems, of p] show ?case
    by (intro sw_inv_move [OF s_resume.prems, where p = p and l = S_Relock and k = "sw_lk s" and m = "None" and c = "sw_cond s"]) auto
next
  case (s_relock s p)
  with sw_inv_owner [OF s_relock.prems, of p] show ?case
    by (intro sw_inv_move [OF s_relock.prems, where p = p and l = S_Check and k = "Some p" and m = "sw_ptable s" and c = "sw_cond s"]) auto
next
  case (w_enter s p)
  with sw_inv_owner [OF w_enter.prems, of p] show ?case
    by (intro sw_inv_move [OF w_enter.prems, where p = p and l = W_Set and k = "Some p" and m = "sw_ptable s" and c = "sw_cond s"]) auto
next
  case (w_set s p)
  with sw_inv_owner [OF w_set.prems, of p] show ?case
    by (intro sw_inv_move [OF w_set.prems, where p = p and l = W_AcqPtable and k = "sw_lk s" and m = "sw_ptable s" and c = "True"]) auto
next
  case (w_acq s p)
  with sw_inv_owner [OF w_acq.prems, of p] show ?case
    by (intro sw_inv_move [OF w_acq.prems, where p = p and l = W_Scan and k = "sw_lk s" and m = "Some p" and c = "sw_cond s"]) auto
next
  case (w_relp s p)
  with sw_inv_owner [OF w_relp.prems, of p] show ?case
    by (intro sw_inv_move [OF w_relp.prems, where p = p and l = W_RelLk and k = "sw_lk s" and m = "None" and c = "sw_cond s"]) auto
next
  case (w_rel s p)
  with sw_inv_owner [OF w_rel.prems, of p] show ?case
    by (intro sw_inv_move [OF w_rel.prems, where p = p and l = Idle and k = "None" and m = "sw_ptable s" and c = "sw_cond s"]) auto
qed

lemma sw_reach_inv: "sw_reach s \<Longrightarrow> sw_inv s"
proof (induction rule: sw_reach.induct)
  case sw_start
  then show ?case by (simp add: sw_inv_def)
qed (rule sw_inv_step)

section \<open>Properties\<close>

text \<open>
  C4: no wake-up is lost.  In every interleaving of processes that wait for a condition with \<open>sleep\<close> and processes
  that establish it and call \<open>wakeup\<close>, under one lock, whenever the condition holds and some process sleeps on it, a process that is still
  about to scan the table holds that lock; and the two locks are never held twice.
\<close>

theorem sleep_wakeup_no_lost_wakeup:
  assumes "sw_reach s"
  shows "(sw_cond s \<and> sw_pc s q \<in> {S_Asleep, S_Switched} \<longrightarrow>
      (\<exists>w. sw_lk s = Some w \<and> sw_pc s w \<in> {W_AcqPtable, W_Scan}))
    \<and> (owns_lk (sw_pc s p) \<and> owns_lk (sw_pc s q) \<longrightarrow> p = q)
    \<and> (owns_ptable (sw_pc s p) \<and> owns_ptable (sw_pc s q) \<longrightarrow> p = q)"
proof -
  have lk: "owns_lk (sw_pc s p) \<longleftrightarrow> sw_lk s = Some p" for p
    using sw_reach_inv [OF assms] by (simp add: sw_inv_def)
  have pt: "owns_ptable (sw_pc s p) \<longleftrightarrow> sw_ptable s = Some p" for p
    using sw_reach_inv [OF assms] by (simp add: sw_inv_def)
  have "committed (sw_pc s q) \<Longrightarrow> sw_cond s \<Longrightarrow> \<exists>w. sw_lk s = Some w \<and> sw_pc s w \<in> {W_AcqPtable, W_Scan}"
    using sw_reach_inv [OF assms] unfolding sw_inv_def by blast
  then show ?thesis by (auto simp: lk pt committed_def)
qed

definition sw_demo :: sw_sys where
  "sw_demo = \<lparr>sw_lk = Some 1, sw_ptable = None, sw_cond = True,
     sw_pc = (\<lambda>_. Idle)(0 := S_Switched, 1 := W_AcqPtable)\<rparr>"

lemma sw_next_eq: "sw_reach s \<Longrightarrow> sw_step s t \<Longrightarrow> t = u \<Longrightarrow> sw_reach u"
  using sw_next by blast

lemma sw_demo_reach: "sw_reach sw_demo"
proof -
  let ?s = "\<lambda>lk pt c p0 p1. \<lparr>sw_lk = lk, sw_ptable = pt, sw_cond = c, sw_pc = (\<lambda>_. Idle)(0 := p0, 1 := p1)\<rparr> :: sw_sys"
  have "sw_reach (?s None None False Idle Idle)" using sw_start by (simp add: fun_upd_idem)
  from sw_next_eq [OF this s_enter [where p = 0]] have "sw_reach (?s (Some 0) None False S_Check Idle)"
    by (simp add: fun_upd_twist)
  from sw_next_eq [OF this s_sleep [where p = 0]] have "sw_reach (?s (Some 0) None False S_AcqPtable Idle)"
    by (simp add: fun_upd_twist)
  from sw_next_eq [OF this s_acq [where p = 0]] have "sw_reach (?s (Some 0) (Some 0) False S_RelLk Idle)"
    by (simp add: fun_upd_twist)
  from sw_next_eq [OF this s_rel [where p = 0]] have "sw_reach (?s None (Some 0) False S_SetSleeping Idle)"
    by (simp add: fun_upd_twist)
  from sw_next_eq [OF this s_set [where p = 0]] have "sw_reach (?s None (Some 0) False S_Asleep Idle)"
    by (simp add: fun_upd_twist)
  from sw_next_eq [OF this s_switch [where p = 0]] have "sw_reach (?s None None False S_Switched Idle)"
    by (simp add: fun_upd_twist)
  from sw_next_eq [OF this w_enter [where p = 1]] have "sw_reach (?s (Some 1) None False S_Switched W_Set)"
    by (simp add: fun_upd_twist)
  from sw_next_eq [OF this w_set [where p = 1]] have "sw_reach (?s (Some 1) None True S_Switched W_AcqPtable)"
    by (simp add: fun_upd_twist)
  then show ?thesis by (simp add: sw_demo_def)
qed

theorem sleep_wakeup_no_lost_wakeup_witness:
  "sw_reach sw_demo \<and> sw_cond sw_demo \<and> sw_pc sw_demo 0 = S_Switched \<and>
   (\<exists>w. sw_lk sw_demo = Some w \<and> sw_pc sw_demo w \<in> {W_AcqPtable, W_Scan})"
proof -
  have "sw_cond sw_demo" "sw_pc sw_demo 0 = S_Switched" by (simp_all add: sw_demo_def)
  with sleep_wakeup_no_lost_wakeup [OF sw_demo_reach, of 0 0] sw_demo_reach show ?thesis by auto
qed

text \<open>
  C30: a process that calls \<open>sleep\<close> holding only the lock \<open>l\<close> gives up the processor without a panic; at the switch \<open>l\<close> is free, \<^verbatim>\<open>ptable.lock\<close> is
  held, and the process, and no other, is \<open>SLEEPING\<close> on the channel.  \<open>wakeup\<close> on that channel makes it
  \<open>RUNNABLE\<close>.
\<close>

theorem sleep_hands_over:
  assumes "lock_ready PtableLock s" "lock_ready l s" "l \<noteq> PtableLock" "ncli (k_cpu s) = 0"
    and "cur s = Some c" "c < length (pt_proc s)"
  shows "\<exists>t. sleep ch (Some l) (held l s) = Swtch t \<and> lock_ready l (t\<lparr>k_cpu := k_cpu s\<rparr>) \<and> holding PtableLock t
    \<and> pt_proc t = (pt_proc s)[c := asleep ch (pt_proc s ! c)]
    \<and> p_state (pt_proc (wakeup1 ch t) ! c) = RUNNABLE
    \<and> (\<forall>ch'. ch' \<noteq> ch \<longrightarrow> pt_proc (wakeup1 ch' t) ! c = pt_proc t ! c)"
proof -
  have e: "sleep ch (Some l) (held l s) = Swtch (upd_proc c (asleep ch) (held PtableLock s))"
    using sleep_eq(2) [OF assms(1,4-6) assms(2,3)] .
  have "lock_ready l ((upd_proc c (asleep ch) (held PtableLock s))\<lparr>k_cpu := k_cpu s\<rparr>)"
    using assms(1-3) by (simp add: lock_ready_def)
  moreover have "holding PtableLock (upd_proc c (asleep ch) (held PtableLock s))"
    by (simp add: holding_def held_def)
  ultimately show ?thesis
    unfolding e using assms(6) by (auto simp: upd_proc_def held_def wakeup1_def wakeup_proc_def asleep_def)
qed

definition free_proc :: proc where
  "free_proc = \<lparr>p_sz = 0, p_pgdir = 0, p_kstack = 0, p_state = UNUSED, p_pid = 0, p_parent = None, p_tf = 0, p_context = 0,
     p_chan = None, p_killed = 0, p_ofile = replicate 16 None, p_cwd = None, p_name = replicate 16 0, p_swapFile = None\<rparr>"

definition demo_procs :: "proc list" where
  "demo_procs = [free_proc\<lparr>p_state := RUNNING, p_pid := 1, p_pgdir := 0x80500000, p_sz := 0x1000\<rparr>,
     free_proc\<lparr>p_state := RUNNABLE, p_pid := 2, p_pgdir := 0x80500000, p_parent := Some 0\<rparr>, free_proc] @ replicate 61 free_proc"

definition demo_ps :: procst where
  "demo_ps = vmst.extend (kmem.extend demo_vm2 \<lparr>k_data = 0x80108000, kpgdir = 0x80500000, cr3 = 0x500000\<rparr>)
     \<lparr>pt_proc = demo_procs, nextpid = 3, initproc = Some 0, cur = Some 0, ts_esp0 = 0,
      forkret_addr = 0x80104000, trapret_addr = 0x80105000\<rparr>"

lemma demo_ps_fields [simp]:
  "pt_proc demo_ps = demo_procs" "nextpid demo_ps = 3" "cur demo_ps = Some 0" "mem demo_ps = mem demo_vm2"
  "km_freelist demo_ps = 0x80401000" "km_use_lock demo_ps = False" "k_end demo_ps = 0x80110000"
  "k_cpu demo_ps = k_cpu boot_core" "k_locks demo_ps = k_locks boot_core"
  "forkret_addr demo_ps = 0x80104000" "trapret_addr demo_ps = 0x80105000"
  by (simp_all add: demo_ps_def vmst.defs kmem.defs demo_vm2_def demo_vm_def boot_kmem_def kcore.defs)

lemma demo_ps_ready [simp]: "lock_ready l demo_ps" "kmem_ready demo_ps" "ncli (k_cpu boot_core) = 0" "cpu_ok (k_cpu boot_core)"
  by (simp_all add: lock_ready_def kmem_ready_def boot_core_def cpu_ok_def)

lemma demo_procs_simps [simp]:
  "length demo_procs = 64" "demo_procs ! 0 = free_proc\<lparr>p_state := RUNNING, p_pid := 1, p_pgdir := 0x80500000, p_sz := 0x1000\<rparr>"
  "demo_procs ! Suc 0 = free_proc\<lparr>p_state := RUNNABLE, p_pid := 2, p_pgdir := 0x80500000, p_parent := Some 0\<rparr>"
  "demo_procs ! 2 = free_proc"
  by (simp_all add: demo_procs_def nth_append)

theorem sleep_hands_over_witness:
  "\<exists>t. sleep ChanTicks (Some TicksLock) (held TicksLock demo_ps) = Swtch t \<and> holding PtableLock t
     \<and> p_state (pt_proc t ! 0) = SLEEPING \<and> p_state (pt_proc (wakeup1 ChanTicks t) ! 0) = RUNNABLE"
proof -
  have "\<exists>t. sleep ChanTicks (Some TicksLock) (held TicksLock demo_ps) = Swtch t
      \<and> lock_ready TicksLock (t\<lparr>k_cpu := k_cpu demo_ps\<rparr>) \<and> holding PtableLock t
      \<and> pt_proc t = (pt_proc demo_ps)[0 := asleep ChanTicks (pt_proc demo_ps ! 0)]
      \<and> p_state (pt_proc (wakeup1 ChanTicks t) ! 0) = RUNNABLE
      \<and> (\<forall>ch'. ch' \<noteq> ChanTicks \<longrightarrow> pt_proc (wakeup1 ch' t) ! 0 = pt_proc t ! 0)"
    by (rule sleep_hands_over) simp_all
  then show ?thesis by (auto simp: asleep_def)
qed

text \<open>
  C33: \<open>kill\<close> marks the first entry with the given pid and makes it runnable if it sleeps, or
  changes nothing and returns -1 when no entry has that pid.
\<close>

theorem kill_marks_first_match:
  assumes "lock_ready PtableLock s"
  shows "case scan_procs (\<lambda>p. p_pid p = pid) (pt_proc s) 0 of
      None \<Rightarrow> kill pid s = Ok (- 1) s \<and> (\<forall>p \<in> set (pt_proc s). p_pid p \<noteq> pid)
    | Some i \<Rightarrow> kill pid s = Ok 0 (s\<lparr>pt_proc := (pt_proc s)[i := killed_proc (pt_proc s ! i)]\<rparr>)
        \<and> p_pid (pt_proc s ! i) = pid \<and> (\<forall>k < i. p_pid (pt_proc s ! k) \<noteq> pid)"
proof (cases "scan_procs (\<lambda>p. p_pid p = pid) (pt_proc s) 0")
  case None
  then have "\<forall>p \<in> set (pt_proc s). p_pid p \<noteq> pid" by (simp add: scan_procs_None)
  then show ?thesis using kill_eq [OF assms, of pid] None by simp
next
  case (Some i)
  then have "p_pid (pt_proc s ! i) = pid" "\<forall>k < i. p_pid (pt_proc s ! k) \<noteq> pid" by (simp_all add: scan_procs_Some)
  then show ?thesis using kill_eq [OF assms, of pid] Some by (simp add: upd_proc_def)
qed

theorem kill_marks_first_match_witness:
  "\<exists>t. kill 2 demo_ps = Ok 0 t \<and> p_killed (pt_proc t ! 1) = 1"
proof -
  have i: "scan_procs (\<lambda>p. p_pid p = 2) (pt_proc demo_ps) 0 = Some 1"
    by (simp add: demo_procs_def free_proc_def)
  show ?thesis using kill_marks_first_match [of demo_ps 2] unfolding i by (simp add: killed_proc_def)
qed

text \<open>
  C34: \<open>kill\<close> does not look at the entry's state: killing pid 0, the pid of the entries not in use, succeeds, and the process that later gets that entry
  from \<open>allocproc\<close> starts out killed.
\<close>

theorem kill_zero_marks_next_process:
  assumes "lock_ready PtableLock s" "kmem_ready s" "km_freelist s \<noteq> 0"
    and "scan_procs (\<lambda>p. p_pid p = 0) (pt_proc s) 0 = Some i"
    and "scan_procs (\<lambda>p. p_state p = UNUSED) (pt_proc s) 0 = Some i"
  shows "\<exists>t u. kill 0 s = Ok 0 t \<and> allocproc t = Ok (Some i) u \<and> p_killed (pt_proc u ! i) = 1 \<and> p_state (pt_proc u ! i) = EMBRYO"
proof -
  let ?t = "upd_proc i killed_proc s"
  have i: "i < length (pt_proc s)" "p_state (pt_proc s ! i) = UNUSED" "\<forall>k < i. p_state (pt_proc s ! k) \<noteq> UNUSED"
    using assms(5) by (auto simp: scan_procs_Some)
  have "kill 0 s = Ok 0 ?t" using kill_eq [OF assms(1), of 0] assms(4) by simp
  moreover have "scan_procs (\<lambda>p. p_state p = UNUSED) (pt_proc ?t) 0 = Some i"
    using i by (simp add: scan_procs_Some upd_proc_def killed_proc_def)
  then obtain u where "allocproc ?t = Ok (Some i) u"
      "pt_proc u = (pt_proc ?t)[i := embryo (nextpid ?t) (km_freelist ?t) (pt_proc ?t ! i)]"
    using allocproc_found [of ?t i] assms(1-3) by (simp add: lock_ready_def kmem_ready_def)
  ultimately show ?thesis using i(1) by (auto simp: embryo_def upd_proc_def killed_proc_def)
qed

theorem kill_zero_marks_next_process_witness:
  "\<exists>t u. kill 0 demo_ps = Ok 0 t \<and> allocproc t = Ok (Some 2) u \<and> p_killed (pt_proc u ! 2) = 1
     \<and> p_state (pt_proc u ! 2) = EMBRYO"
proof -
  have "scan_procs (\<lambda>p. p_pid p = 0) (pt_proc demo_ps) 0 = Some 2"
    "scan_procs (\<lambda>p. p_state p = UNUSED) (pt_proc demo_ps) 0 = Some 2"
    by (simp_all add: demo_procs_def free_proc_def)
  then show ?thesis by (intro kill_zero_marks_next_process) simp_all
qed

text \<open>
  C31: \<open>allocproc\<close> with a free entry and a free page takes the first unused entry, gives it the next pid and the page as kernel stack, with the
  trap frame at the top of the page and below it a context that starts in \<^verbatim>\<open>forkret\<close> and returns
  to \<^verbatim>\<open>trapret\<close>; no byte outside that page changes.
\<close>

theorem allocproc_builds_stack:
  assumes "lock_ready PtableLock s" "kmem_ready s" "free_pages s (k # fl)"
    and "scan_procs (\<lambda>p. p_state p = UNUSED) (pt_proc s) 0 = Some i"
  shows "\<exists>t. allocproc s = Ok (Some i) t \<and> free_pages t fl \<and> nextpid t = nextpid s + 1
    \<and> pt_proc t = (pt_proc s)[i := embryo (nextpid s) k (pt_proc s ! i)]
    \<and> p_tf (pt_proc t ! i) = k + 4020 \<and> p_context (pt_proc t ! i) = k + 3996
    \<and> load32 (mem t) (k + 4012) = forkret_addr s \<and> load32 (mem t) (k + 4016) = trapret_addr s
    \<and> (\<forall>b. PGROUNDDOWN b \<noteq> k \<longrightarrow> mem t b = mem s b)"
proof -
  have fl: "km_freelist s = k" "k \<noteq> 0" "pg_aligned k" "k \<notin> set fl" using free_pages_ConsD [OF assms(3)] by auto
  have il: "i < length (pt_proc s)" using assms(4) by (simp add: scan_procs_Some)
  let ?m = "store32 (memset (store32 (mem s) (k + 4016) (trapret_addr s)) (k + 3996) 0 CTX_SIZE) (k + 4012) (forkret_addr s)"
  let ?t = "s\<lparr>km_freelist := load32 (mem s) k, pt_proc := (pt_proc s)[i := embryo (nextpid s) k (pt_proc s ! i)],
    nextpid := nextpid s + 1, mem := ?m\<rparr>"
  have e: "allocproc s = Ok (Some i) ?t"
    using allocproc_found [OF assms(1,2,4)] fl by (simp add: algebra_simps)
  have a4: "aligned4 (k + 4016)" "aligned4 (k + 4012)" "aligned4 (k + 3996)"
    using fl(3) by (auto simp: aligned4_unat unat_page_offset elim!: pg_aligned_obtain)
  have pg: "PGROUNDDOWN (k + 4016) = k" "PGROUNDDOWN (k + 4012) = k" using fl(3) by simp_all
  have ms: "memset m (k + 3996) 0 CTX_SIZE b = (if unat (b - (k + 3996)) < 20 then 0 else m b)" for m b
    by (simp add: memset_eq)
  have in_ctx: "PGROUNDDOWN b = k" if "unat (b - (k + 3996)) < 20" for b
  proof -
    define d where "d = b - (k + 3996)"
    have "b = k + (3996 + d)" by (simp add: d_def)
    moreover have "unat (3996 + d) < 4096" using that by (simp add: d_def [symmetric] unat_word_ariths)
    ultimately show ?thesis using PGROUNDDOWN_offset [OF fl(3)] by simp
  qed
  have other: "?m b = mem s b" if "PGROUNDDOWN b \<noteq> k" for b
    using that in_ctx [of b] a4 pg by (auto simp: store32_other_page ms)
  have d: "k + 4016 - (k + 3996) = 20" "k + 4016 + j - (k + 3996) = 20 + j" for j by simp_all
  have "load32 (memset m (k + 3996) 0 CTX_SIZE) (k + 4016) = load32 m (k + 4016)" for m
    unfolding load32_def ms d by simp
  with a4 have "load32 ?m (k + 4016) = trapret_addr s" by simp
  moreover have "free_pages ?t fl"
  proof (rule free_pages_frame [OF kalloc_Cons(2) [OF assms(2,3)]])
    fix b assume "PGROUNDDOWN b \<in> set fl"
    then have "PGROUNDDOWN b \<noteq> k" using fl(4) by auto
    from other [OF this] show "mem ?t b = mem (s\<lparr>km_freelist := load32 (mem s) k\<rparr>) b" by simp
  qed simp_all
  ultimately show ?thesis using e il other by (auto simp: embryo_def)
qed

theorem allocproc_builds_stack_witness:
  "\<exists>t. allocproc demo_ps = Ok (Some 2) t \<and> p_pid (pt_proc t ! 2) = 3 \<and> p_context (pt_proc t ! 2) = 0x80401F9C
     \<and> load32 (mem t) 0x80401FAC = 0x80104000"
proof -
  have i: "scan_procs (\<lambda>p. p_state p = UNUSED) (pt_proc demo_ps) 0 = Some 2"
    by (simp add: demo_procs_def free_proc_def)
  have "free_pages demo_ps [0x80401000, 0x80400000]"
    using demo2_vm_inv by (simp add: vm_inv_def free_pages_def demo_fields) (simp add: demo_vm2_def)
  from allocproc_builds_stack [OF _ _ this i] show ?thesis by (auto simp: embryo_def)
qed

text \<open>
  C32: the scheduler's pass, from any entry on, switches to the first runnable process at or after it: that process becomes the current one in state
  \<open>RUNNING\<close> with its page table loaded, and no other entry changes; so no runnable entry is passed over.
\<close>

theorem scheduler_picks_next_runnable:
  assumes "i \<le> j" "j < length (pt_proc s)" "p_state (pt_proc s ! j) = RUNNABLE" "cpu_ok (k_cpu s)"
    and "\<forall>k \<in> {i..<j}. p_state (pt_proc s ! k) \<noteq> RUNNABLE" "p_pgdir (pt_proc s ! j) \<noteq> 0"
  shows "\<exists>t. scheduler_from i s = Ok (Some j) t \<and> cur t = Some j \<and> cr3 t = v2p (p_pgdir (pt_proc s ! j))
    \<and> pt_proc t = (pt_proc s)[j := (pt_proc s ! j)\<lparr>p_state := RUNNING\<rparr>] \<and> mem t = mem s"
proof -
  have "scheduler_from i s = Ok (Some j) (dispatched j s)"
    using assms by (intro scheduler_from_first) auto
  then show ?thesis by (simp add: dispatched_def upd_proc_def)
qed

theorem scheduler_picks_next_runnable_witness:
  "\<exists>t. scheduler_from 0 demo_ps = Ok (Some 1) t \<and> cur t = Some 1 \<and> p_state (pt_proc t ! 1) = RUNNING"
proof -
  have "{0..<1 :: nat} = {0}" by auto
  then show ?thesis using scheduler_picks_next_runnable [of 0 1 demo_ps] by (auto simp: free_proc_def)
qed

text \<open>
  C35: shrinking the whole address space away with \<open>growproc\<close> reports failure although it happened: \<open>deallocuvm\<close> returns the new size 0, which \<open>growproc\<close> takes
  for an error, so the pages are freed and unmapped while the process keeps its old size.
\<close>

theorem growproc_to_zero_reports_failure:
  assumes "cur s = Some c" "c < length (pt_proc s)" "0 < p_sz (proc_at c s)" "p_sz (proc_at c s) < KERNBASE"
    and "vm_inv s fl (p_pgdir (proc_at c s))"
    and "frames_ok s fl (p_pgdir (proc_at c s)) (uframes (mem s) (p_pgdir (proc_at c s)) 0 (npages (p_sz (proc_at c s))))"
    and "tables_first (mem s) (p_pgdir (proc_at c s)) 0 (npages (p_sz (proc_at c s)))"
  shows "\<exists>t. growproc (- p_sz (proc_at c s)) s = Ok (- 1) t
    \<and> uvm_freed (p_pgdir (proc_at c s)) (pages_from 0 (npages (p_sz (proc_at c s)))) s fl t
        (uframes (mem s) (p_pgdir (proc_at c s)) 0 (npages (p_sz (proc_at c s))))
    \<and> p_sz (proc_at c t) = p_sz (proc_at c s)"
proof -
  let ?sz = "p_sz (proc_at c s)" and ?pg = "p_pgdir (proc_at c s)"
  have z: "npages 0 = 0" "PGROUNDUP 0 = 0" by (simp_all add: npages_def PGROUNDUP_def)
  have le: "?sz \<le> KERNBASE" using assms(4) by simp
  obtain t where t: "deallocuvm ?pg ?sz 0 s = Ok 0 t"
      "uvm_freed ?pg (pages_from 0 (npages ?sz)) s fl t (uframes (mem s) ?pg 0 (npages ?sz))"
    using deallocuvm_spec [OF assms(5,3) le] assms(6,7) unfolding z by auto
  then have "only_mem s t" by (simp add: uvm_freed_def)
  then have "pt_proc t = pt_proc s" by (elim only_memE) simp
  moreover have "sint (- ?sz) < 0" using assms(3,4) by (rule sint_neg)
  ultimately show ?thesis
    using t assms(1) by (auto simp: growproc_def with_cur_def Let_def proc_at_def)
qed

theorem growproc_to_zero_reports_failure_witness:
  "\<exists>t. growproc (- 0x1000) demo_ps = Ok (- 1) t \<and> p_sz (proc_at 0 t) = 0x1000 \<and> \<not> present (mem t) 0x80500000 0"
proof -
  have v: "vm_inv demo_ps [0x80401000, 0x80400000] 0x80500000"
    using demo2_vm_inv by (simp add: vm_inv_def free_pages_def demo_fields) (simp add: demo_vm2_def)
  have n: "npages 0x1000 = 1" "PGROUNDDOWN 0 = 0" "PDX 0 = 0"
    by (simp_all add: npages_def PGROUNDDOWN_def PDX_def)
  have f: "uframes (mem demo_vm2) 0x80500000 0 (Suc 0) = [0x80502000]" "present (mem demo_vm2) 0x80500000 0"
    by (simp_all add: uframes_def present_def frame_of_def demo2_space n PTE_ADDR_def p2v_def)
  have c: "p_sz (proc_at 0 demo_ps) = 0x1000" "p_pgdir (proc_at 0 demo_ps) = 0x80500000" by (simp_all add: proc_at_def)
  have "\<exists>t. growproc (- p_sz (proc_at 0 demo_ps)) demo_ps = Ok (- 1) t
    \<and> uvm_freed (p_pgdir (proc_at 0 demo_ps)) (pages_from 0 (npages (p_sz (proc_at 0 demo_ps)))) demo_ps [0x80401000, 0x80400000] t
        (uframes (mem demo_ps) (p_pgdir (proc_at 0 demo_ps)) 0 (npages (p_sz (proc_at 0 demo_ps))))
    \<and> p_sz (proc_at 0 t) = p_sz (proc_at 0 demo_ps)"
    by (rule growproc_to_zero_reports_failure)
      (simp_all add: c v n f frames_ok_def tables_first_def demo2_space page_ok_demo)
  then show ?thesis unfolding c by (auto simp: n f uvm_freed_def present_def [of "mem _"])
qed

end
