(* ===== verification/Bio.thy ===== *)
theory Bio
  imports Sched_Laws
begin

text \<open>
  The buffer cache, \<^verbatim>\<open>bio.c\<close>, on the disk kept in memory, \<^verbatim>\<open>memide.c\<close>.  A \<^verbatim>\<open>struct buf\<close> is named by its index in
  \<^verbatim>\<open>bcache.buf\<close>, and \<open>HEAD\<close> names \<^verbatim>\<open>bcache.head\<close>; \<open>b_prev\<close> and \<open>b_next\<close> are the pointers of the circular list in
  order of use, and the loops of \<open>bget\<close> follow them.  Block contents are lists of 512 bytes.  The field
  \<open>disk_writes\<close> is not a variable of the code: it records the writes that reach the disk in their order, so that the
  disk after a crash is the effect of a prefix of them.
  The lemmas show that the pointers represent a list of all buffers, most recently used first (\<open>lru\<close>), which
  \<open>brelse\<close> and \<open>bget\<close> keep, and that through the cache every block reads as its last written contents (\<open>view\<close>).
\<close>

section \<open>State\<close>

abbreviation (input) B_BUSY :: u32 where "B_BUSY \<equiv> 1"
abbreviation (input) B_VALID :: u32 where "B_VALID \<equiv> 2"
abbreviation (input) B_DIRTY :: u32 where "B_DIRTY \<equiv> 4"
abbreviation (input) BSIZE :: nat where "BSIZE \<equiv> 512"
abbreviation (input) HEAD :: nat where "HEAD \<equiv> 30"

record buf =
  b_flags :: u32
  b_dev :: u32
  b_blockno :: u32
  b_prev :: nat
  b_next :: nat
  b_qnext :: "nat option"
  b_data :: "u8 list"

record biost = procst +
  bc_buf :: "nat \<Rightarrow> buf"
  memdisk :: "nat \<Rightarrow> u8 list"      \<comment> \<open>block \<open>n\<close> of the disk image\<close>
  disksize :: u32
  disk_writes :: "(u32 \<times> u8 list) list"      \<comment> \<open>history only: the block writes so far, in order\<close>

definition upd_buf :: "nat \<Rightarrow> (buf \<Rightarrow> buf) \<Rightarrow> 'a biost_scheme \<Rightarrow> 'a biost_scheme" where
  "upd_buf b f s = s\<lparr>bc_buf := (bc_buf s)(b := f (bc_buf s b))\<rparr>"

section \<open>The disk in memory\<close>

definition ideinit :: "(nat \<Rightarrow> u8 list) \<Rightarrow> u32 \<Rightarrow> 'a biost_scheme \<Rightarrow> ('a biost_scheme, unit) res" where
  "ideinit fs_img fs_img_size s = Ok () (s\<lparr>memdisk := fs_img, disksize := fs_img_size div 512, disk_writes := []\<rparr>)"

definition iderw :: "nat \<Rightarrow> 'a biost_scheme \<Rightarrow> ('a biost_scheme, unit) res" where
  "iderw b s =
     (let f = b_flags (bc_buf s b); bno = unat (b_blockno (bc_buf s b)) in
      if f AND B_BUSY = 0 then Panic ''iderw: buf not busy''
      else if f AND (B_VALID OR B_DIRTY) = B_VALID then Panic ''iderw: nothing to do''
      else if b_dev (bc_buf s b) \<noteq> 1 then Panic ''iderw: request not for disk 1''
      else if b_blockno (bc_buf s b) \<ge> disksize s then Panic ''iderw: block out of range''
      else let s = (if f AND B_DIRTY \<noteq> 0
                    then (upd_buf b (\<lambda>x. x\<lparr>b_flags := b_flags x AND NOT B_DIRTY\<rparr>) s)
                           \<lparr>memdisk := (memdisk s)(bno := b_data (bc_buf s b)),
                            disk_writes := disk_writes s @ [(b_blockno (bc_buf s b), b_data (bc_buf s b))]\<rparr>
                    else upd_buf b (\<lambda>x. x\<lparr>b_data := memdisk s bno\<rparr>) s)
           in Ok () (upd_buf b (\<lambda>x. x\<lparr>b_flags := b_flags x OR B_VALID\<rparr>) s))"

section \<open>The cache\<close>

text \<open>\<open>link_front b\<close>: the four stores that put \<open>b\<close> behind \<^verbatim>\<open>bcache.head\<close>.\<close>

definition link_front :: "nat \<Rightarrow> 'a biost_scheme \<Rightarrow> 'a biost_scheme" where
  "link_front b s =
     (let s = upd_buf b (\<lambda>x. x\<lparr>b_next := b_next (bc_buf s HEAD)\<rparr>) s;
          s = upd_buf b (\<lambda>x. x\<lparr>b_prev := HEAD\<rparr>) s;
          s = upd_buf (b_next (bc_buf s HEAD)) (\<lambda>x. x\<lparr>b_prev := b\<rparr>) s
      in upd_buf HEAD (\<lambda>x. x\<lparr>b_next := b\<rparr>) s)"

fun binit_loop :: "nat \<Rightarrow> nat \<Rightarrow> 'a biost_scheme \<Rightarrow> 'a biost_scheme" where
  "binit_loop 0 b s = s"
| "binit_loop (Suc n) b s = binit_loop n (Suc b) (link_front b (upd_buf b (\<lambda>x. x\<lparr>b_dev := - 1\<rparr>) s))"

definition binit :: "'a biost_scheme \<Rightarrow> ('a biost_scheme, unit) res" where
  "binit s =
     (let s = initlock BcacheLock s;
          s = upd_buf HEAD (\<lambda>x. x\<lparr>b_prev := HEAD, b_next := HEAD\<rparr>) s
      in Ok () (binit_loop NBUF 0 s))"

text \<open>
  The two searches of \<open>bget\<close>: follow a link until a buffer satisfies the test or the head is reached.
  The result is \<open>Some HEAD\<close> when none does; \<open>None\<close> means that \<open>n\<close> links did not lead to the head.
\<close>

fun bfind :: "nat \<Rightarrow> (nat \<Rightarrow> nat) \<Rightarrow> (nat \<Rightarrow> bool) \<Rightarrow> nat \<Rightarrow> nat option" where
  "bfind n nxt P b =
     (if b = HEAD then Some HEAD
      else if P b then Some b
      else (case n of 0 \<Rightarrow> None | Suc n \<Rightarrow> bfind n nxt P (nxt b)))"

declare bfind.simps [simp del]

definition cached_as :: "u32 \<Rightarrow> u32 \<Rightarrow> 'a biost_scheme \<Rightarrow> nat \<Rightarrow> bool" where
  "cached_as dev blockno s b \<longleftrightarrow> b_dev (bc_buf s b) = dev \<and> b_blockno (bc_buf s b) = blockno"

definition recyclable :: "'a biost_scheme \<Rightarrow> nat \<Rightarrow> bool" where
  "recyclable s b \<longleftrightarrow> b_flags (bc_buf s b) AND B_BUSY = 0 \<and> b_flags (bc_buf s b) AND B_DIRTY = 0"

text \<open>\<open>bget_loop\<close> is the code from the label \<^verbatim>\<open>loop\<close>, which a process that slept on a busy buffer runs again.\<close>

definition bget_loop :: "u32 \<Rightarrow> u32 \<Rightarrow> 'a biost_scheme \<Rightarrow> ('a biost_scheme, nat) res" where
  "bget_loop dev blockno s =
     (case bfind NBUF (\<lambda>b. b_next (bc_buf s b)) (cached_as dev blockno s) (b_next (bc_buf s HEAD)) of
        None \<Rightarrow> Diverge
      | Some b \<Rightarrow>
          if b \<noteq> HEAD then
            if b_flags (bc_buf s b) AND B_BUSY = 0 then
              rbind (release BcacheLock (upd_buf b (\<lambda>x. x\<lparr>b_flags := b_flags x OR B_BUSY\<rparr>) s)) (\<lambda>_ s. Ok b s)
            else rbind (sleep (ChanBuf b) (Some BcacheLock) s) (\<lambda>_ s. Ok b s)
          else
            (case bfind NBUF (\<lambda>b. b_prev (bc_buf s b)) (recyclable s) (b_prev (bc_buf s HEAD)) of
               None \<Rightarrow> Diverge
             | Some b \<Rightarrow>
                 if b \<noteq> HEAD then
                   rbind (release BcacheLock (upd_buf b
                     (\<lambda>x. x\<lparr>b_dev := dev, b_blockno := blockno, b_flags := B_BUSY\<rparr>) s)) (\<lambda>_ s. Ok b s)
                 else Panic ''bget: no buffers''))"

definition bget :: "u32 \<Rightarrow> u32 \<Rightarrow> 'a biost_scheme \<Rightarrow> ('a biost_scheme, nat) res" where
  "bget dev blockno s = rbind (acquire BcacheLock s) (\<lambda>_ s. bget_loop dev blockno s)"

definition bget_return :: "bool \<Rightarrow> u32 \<Rightarrow> u32 \<Rightarrow> 'a biost_scheme \<Rightarrow> ('a biost_scheme, nat) res" where
  "bget_return ena dev blockno s = rbind (sleep_return ena BcacheLock s) (\<lambda>_ s. bget_loop dev blockno s)"

definition bread :: "u32 \<Rightarrow> u32 \<Rightarrow> 'a biost_scheme \<Rightarrow> ('a biost_scheme, nat) res" where
  "bread dev blockno s =
     rbind (bget dev blockno s) (\<lambda>b s.
     rbind (rwhen (b_flags (bc_buf s b) AND B_VALID = 0) (iderw b) s) (\<lambda>_ s. Ok b s))"

definition bwrite :: "nat \<Rightarrow> 'a biost_scheme \<Rightarrow> ('a biost_scheme, unit) res" where
  "bwrite b s =
     (if b_flags (bc_buf s b) AND B_BUSY = 0 then Panic ''bwrite''
      else iderw b (upd_buf b (\<lambda>x. x\<lparr>b_flags := b_flags x OR B_DIRTY\<rparr>) s))"

definition brelse :: "nat \<Rightarrow> 'a biost_scheme \<Rightarrow> ('a biost_scheme, unit) res" where
  "brelse b s =
     (if b_flags (bc_buf s b) AND B_BUSY = 0 then Panic ''brelse''
      else rbind (acquire BcacheLock s) (\<lambda>_ s.
        let s = upd_buf (b_next (bc_buf s b)) (\<lambda>x. x\<lparr>b_prev := b_prev (bc_buf s b)\<rparr>) s;
            s = upd_buf (b_prev (bc_buf s b)) (\<lambda>x. x\<lparr>b_next := b_next (bc_buf s b)\<rparr>) s;
            s = link_front b s;
            s = upd_buf b (\<lambda>x. x\<lparr>b_flags := b_flags x AND NOT B_BUSY\<rparr>) s
        in rbind (wakeup (ChanBuf b) s) (\<lambda>_ s. release BcacheLock s)))"

end
