(* ===== verification/Chain.thy ===== *)
theory Chain
  imports Xv6_Prelude
begin

text \<open>
  Linked lists: \<open>nchain n x xs y\<close> says that following the link \<open>n\<close> from \<open>x\<close> passes the nodes \<open>xs\<close> and ends at \<open>y\<close>.  The list of the buffer
  cache and the free list of the user's allocator are such chains that end where they start.
\<close>

fun nchain :: "('a \<Rightarrow> 'a) \<Rightarrow> 'a \<Rightarrow> 'a list \<Rightarrow> 'a \<Rightarrow> bool" where
  "nchain n x [] y \<longleftrightarrow> n x = y"
| "nchain n x (z # zs) y \<longleftrightarrow> n x = z \<and> nchain n z zs y"

lemma nchain_append [simp]: "nchain n x (xs @ z # ys) y \<longleftrightarrow> nchain n x xs z \<and> nchain n z ys y"
  by (induction xs arbitrary: x) auto

lemma nchain_cong: "(\<And>z. z \<in> insert x (set xs) \<Longrightarrow> n z = n' z) \<Longrightarrow> nchain n x xs y = nchain n' x xs y"
  by (induction xs arbitrary: x) auto

lemma nchain_fst: "nchain n x xs y \<Longrightarrow> n x = hd (xs @ [y])"
  by (cases xs) auto

lemma nchain_upd [simp]: "z \<notin> insert x (set xs) \<Longrightarrow> nchain (n(z := w)) x xs y = nchain n x xs y"
  by (rule nchain_cong) auto

lemma nchain_remove:
  assumes "nchain n x (xs @ b # ys) y" "distinct (x # xs @ b # ys)"
  shows "nchain (n(last (x # xs) := n b)) x (xs @ ys) y"
  using assms
proof (induction xs arbitrary: x)
  case Nil
  then show ?case by (cases ys) (simp_all del: fun_upd_apply, simp_all)
next
  case (Cons a xs)
  have "nchain (n(last (a # xs) := n b)) a (xs @ ys) y" by (rule Cons.IH) (use Cons.prems in auto)
  moreover have "last (a # xs) \<noteq> x" using Cons.prems(2) by (cases xs rule: rev_cases) auto
  ultimately show ?case using Cons.prems by (auto simp del: fun_upd_apply simp add: fun_upd_other)
qed

lemma nchain_push:
  "nchain n h zs h \<Longrightarrow> b \<notin> insert h (set zs) \<Longrightarrow> h \<notin> set zs \<Longrightarrow> nchain (n(b := n h, h := b)) h (b # zs) h"
  by (cases zs) auto

text \<open>The other direction: \<open>z\<close>, the node that was reached last, now leads to \<open>b\<close>.\<close>

lemma nchain_push_back:
  assumes "nchain p h zs h" "b \<notin> insert h (set zs)" "distinct (h # zs)" "z = last (h # zs)"
  shows "nchain (p(b := h, z := b)) h (zs @ [b]) h"
  using assms by (cases zs rule: rev_cases) auto

end
