(* ===== verification/Bio_Laws.thy ===== *)
theory Bio_Laws
  imports Bio Chain
begin

text \<open>
  The buffer list as a list: the cache's two link directions are two chains, of a list and of its reverse.
\<close>

section \<open>Searching\<close>

lemma find_SomeD: "find P xs = Some x \<Longrightarrow> x \<in> set xs \<and> P x"
  by (auto simp: find_Some_iff)

lemma bfind_chain:
  "nchain n x bs HEAD \<Longrightarrow> HEAD \<notin> set bs \<Longrightarrow> length bs \<le> N \<Longrightarrow>
   bfind N n P (n x) = Some (case find P bs of None \<Rightarrow> HEAD | Some b \<Rightarrow> b)"
proof (induction bs arbitrary: x N)
  case Nil
  then show ?case by (simp add: bfind.simps)
next
  case (Cons b bs)
  then obtain M where "N = Suc M" by (cases N) auto
  with Cons.IH [of b M] Cons.prems show ?case
    by (subst bfind.simps) auto
qed

section \<open>The list of buffers\<close>

abbreviation (input) nx :: "'a biost_scheme \<Rightarrow> nat \<Rightarrow> nat" where "nx s \<equiv> \<lambda>b. b_next (bc_buf s b)"
abbreviation (input) pv :: "'a biost_scheme \<Rightarrow> nat \<Rightarrow> nat" where "pv s \<equiv> \<lambda>b. b_prev (bc_buf s b)"

definition lru :: "'a biost_scheme \<Rightarrow> nat list \<Rightarrow> bool" where
  "lru s bs \<longleftrightarrow> nchain (nx s) HEAD bs HEAD \<and> nchain (pv s) HEAD (rev bs) HEAD \<and> distinct bs \<and> set bs = {0..<HEAD}"

text \<open>The same for a list of some of the buffers, as while \<open>binit\<close> builds it.\<close>

definition ring :: "'a biost_scheme \<Rightarrow> nat list \<Rightarrow> bool" where
  "ring s bs \<longleftrightarrow> nchain (nx s) HEAD bs HEAD \<and> nchain (pv s) HEAD (rev bs) HEAD \<and> distinct (HEAD # bs)"

lemma lru_ring: "lru s bs \<longleftrightarrow> ring s bs \<and> set bs = {0..<NBUF}"
  by (auto simp: lru_def ring_def)

lemma lruD: "lru s bs \<Longrightarrow> distinct (HEAD # bs)" "lru s bs \<Longrightarrow> length bs = NBUF"
proof -
  assume l: "lru s bs"
  then show "distinct (HEAD # bs)" by (auto simp: lru_def)
  have "length bs = card (set bs)" using l distinct_card [of bs] by (simp add: lru_def)
  also have "set bs = {0..<NBUF}" using l by (simp add: lru_def)
  finally show "length bs = NBUF" by simp
qed

lemma upd_buf_simps [simp]:
  "bc_buf (upd_buf b f s) = (bc_buf s)(b := f (bc_buf s b))" "k_cpu (upd_buf b f s) = k_cpu s"
  "k_locks (upd_buf b f s) = k_locks s" "memdisk (upd_buf b f s) = memdisk s" "disksize (upd_buf b f s) = disksize s"
  "disk_writes (upd_buf b f s) = disk_writes s"
  "pt_proc (upd_buf b f s) = pt_proc s" "cur (upd_buf b f s) = cur s"
  by (simp_all add: upd_buf_def)

lemma lru_cong: "(\<And>b. b_next (bc_buf t b) = b_next (bc_buf s b)) \<Longrightarrow> (\<And>b. b_prev (bc_buf t b) = b_prev (bc_buf s b))
    \<Longrightarrow> lru t bs = lru s bs"
  by (simp add: lru_def)

lemma ring_cong: "(\<And>b. b_next (bc_buf t b) = b_next (bc_buf s b)) \<Longrightarrow> (\<And>b. b_prev (bc_buf t b) = b_prev (bc_buf s b))
    \<Longrightarrow> ring t bs = ring s bs"
  by (simp add: ring_def)

lemma ring_link_front:
  assumes r: "ring s xs" and b: "b \<notin> set (HEAD # xs)"
  shows "ring (link_front b s) (b # xs)"
proof -
  have "last (HEAD # rev zs) = hd (zs @ [HEAD])" for zs by (cases zs) auto
  then have z: "nx s HEAD = last (HEAD # rev xs)" using r nchain_fst [of "nx s" HEAD xs HEAD] unfolding ring_def by metis
  have "last (HEAD # rev xs) \<in> set (HEAD # rev xs)" by (rule last_in_set) simp
  then have nb: "b \<noteq> nx s HEAD" "b \<noteq> HEAD" unfolding z using b by auto
  have nl: "nx (link_front b s) = (nx s)(b := nx s HEAD, HEAD := b)"
    and pl: "pv (link_front b s) = (pv s)(b := HEAD, nx s HEAD := b)"
    using nb unfolding link_front_def Let_def by (auto simp: fun_eq_iff)
  have "nchain ((nx s)(b := nx s HEAD, HEAD := b)) HEAD (b # xs) HEAD"
    by (rule nchain_push) (use r b in \<open>auto simp: ring_def\<close>)
  moreover have "nchain ((pv s)(b := HEAD, nx s HEAD := b)) HEAD (rev xs @ [b]) HEAD"
    by (rule nchain_push_back) (use r b z in \<open>auto simp: ring_def\<close>)
  ultimately show ?thesis using r b by (simp add: ring_def nl pl)
qed

lemma lru_split:
  assumes "lru s bs" "b \<in> set bs"
  obtains xs ys where "bs = xs @ b # ys" "pv s b = last (HEAD # xs)" "nx s b = hd (ys @ [HEAD])"
    "remove1 b bs = xs @ ys"
proof -
  obtain xs ys where bs: "bs = xs @ b # ys" using assms(2) by (meson split_list)
  have "nchain (pv s) b (rev xs) HEAD" "nchain (nx s) b ys HEAD" using assms(1) by (auto simp: lru_def bs)
  then have "pv s b = hd (rev xs @ [HEAD])" "nx s b = hd (ys @ [HEAD])" by (auto dest: nchain_fst)
  moreover have "hd (rev xs @ [HEAD]) = last (HEAD # xs)" by (cases xs rule: rev_cases) auto
  moreover have "b \<notin> set xs" using assms(1) by (auto simp: lru_def bs)
  then have "remove1 b bs = xs @ ys" by (simp add: bs remove1_append)
  ultimately show thesis using bs that by simp
qed

text \<open>The six stores of \<open>brelse\<close> move the buffer to the front.\<close>

definition unlink :: "nat \<Rightarrow> 'a biost_scheme \<Rightarrow> 'a biost_scheme" where
  "unlink b s =
     (let s = upd_buf (b_next (bc_buf s b)) (\<lambda>x. x\<lparr>b_prev := b_prev (bc_buf s b)\<rparr>) s
      in upd_buf (b_prev (bc_buf s b)) (\<lambda>x. x\<lparr>b_next := b_next (bc_buf s b)\<rparr>) s)"

lemma lru_move_front:
  assumes l: "lru s bs" and b: "b \<in> set bs"
  shows "lru (link_front b (unlink b s)) (b # remove1 b bs)"
proof -
  obtain xs ys where bs: "bs = xs @ b # ys" "pv s b = last (HEAD # xs)" "nx s b = hd (ys @ [HEAD])"
    "remove1 b bs = xs @ ys" using lru_split [OF l b] .
  let ?u = "last (HEAD # xs)" and ?v = "hd (ys @ [HEAD])"
  have d: "distinct (HEAD # xs @ b # ys)" using lruD(1) [OF l] by (simp add: bs)
  then have ne: "?v \<noteq> b" "?u \<noteq> b" by (cases ys; cases xs rule: rev_cases; auto)+
  have "nchain ((nx s)(?u := nx s b)) HEAD (xs @ ys) HEAD"
    by (rule nchain_remove) (use l d in \<open>simp_all add: lru_def bs(1)\<close>)
  then have N: "nchain ((nx s)(?u := ?v)) HEAD (xs @ ys) HEAD" using bs by simp
  have "nchain ((pv s)(last (HEAD # rev ys) := pv s b)) HEAD (rev ys @ rev xs) HEAD"
    by (rule nchain_remove) (use l d in \<open>auto simp: lru_def bs(1)\<close>)
  moreover have "last (HEAD # rev ys) = ?v" by (cases ys) auto
  ultimately have P: "nchain ((pv s)(?v := ?u)) HEAD (rev (xs @ ys)) HEAD" using bs by simp
  let ?n = "(nx s)(?u := ?v)" and ?p = "(pv s)(?v := ?u)"
  have nxu: "nx (unlink b s) = ?n" and pvu: "pv (unlink b s) = ?p"
    using bs ne by (auto simp: unlink_def Let_def fun_eq_iff)
  have "ring (unlink b s) (xs @ ys)" using N P d unfolding ring_def nxu pvu by auto
  then have "ring (link_front b (unlink b s)) (b # xs @ ys)" by (rule ring_link_front) (use d in auto)
  moreover have "set (b # xs @ ys) = set bs" by (auto simp: bs(1))
  ultimately show ?thesis using l by (simp add: lru_ring bs(4))
qed

lemma binit_loop_ring:
  "ring s xs \<Longrightarrow> set xs = {0..<b} \<Longrightarrow> b + n = NBUF \<Longrightarrow> lru (binit_loop n b s) (rev [b..<NBUF] @ xs)"
proof (induction n arbitrary: b s xs)
  case 0
  then show ?case by (simp add: lru_ring)
next
  case (Suc n)
  let ?s = "upd_buf b (\<lambda>x. x\<lparr>b_dev := - 1\<rparr>) s"
  have "ring ?s xs" using Suc.prems(1) ring_cong [of ?s s] by simp
  then have "ring (link_front b ?s) (b # xs)" by (rule ring_link_front) (use Suc.prems in auto)
  then have "lru (binit_loop n (Suc b) (link_front b ?s)) (rev [Suc b..<NBUF] @ b # xs)"
    by (rule Suc.IH) (use Suc.prems in auto)
  moreover have "[b..<NBUF] = b # [Suc b..<NBUF]" using Suc.prems(3) by (simp add: upt_conv_Cons)
  ultimately show ?case by simp
qed

lemma binit_lru: "\<exists>t. binit s = Ok () t \<and> lru t (rev [0..<NBUF])"
proof -
  let ?s = "upd_buf HEAD (\<lambda>x. x\<lparr>b_prev := HEAD, b_next := HEAD\<rparr>) (initlock BcacheLock s)"
  have "ring ?s []" by (simp add: ring_def)
  then have "lru (binit_loop NBUF 0 ?s) (rev [0..<NBUF] @ [])" by (rule binit_loop_ring) auto
  then show ?thesis by (simp only: binit_def Let_def append_Nil2) blast
qed

section \<open>Flags\<close>

lemma flag_zero:
  "f AND 1 = 0 \<longleftrightarrow> \<not> bit f 0" "f AND 2 = 0 \<longleftrightarrow> \<not> bit f 1" "f AND 4 = 0 \<longleftrightarrow> \<not> bit f 2"
  "f AND 6 = 2 \<longleftrightarrow> bit f 1 \<and> \<not> bit f 2" for f :: u32
proof -
  show "f AND 1 = 0 \<longleftrightarrow> \<not> bit f 0" "f AND 2 = 0 \<longleftrightarrow> \<not> bit f 1" "f AND 4 = 0 \<longleftrightarrow> \<not> bit f 2"
    using and_exp_eq_0_iff_not_bit [of f 0] and_exp_eq_0_iff_not_bit [of f 1] and_exp_eq_0_iff_not_bit [of f 2] by simp_all
  have b: "bit (6 :: u32) n \<longleftrightarrow> n = 1 \<or> n = 2" "bit (2 :: u32) n \<longleftrightarrow> n = 1" for n
    using bit_exp_iff [of 1 n, where ?'a = "32 word"] bit_exp_iff [of 2 n, where ?'a = "32 word"]
      bit_or_iff [of "2 :: u32" 4 n] by auto
  show "f AND 6 = 2 \<longleftrightarrow> bit f 1 \<and> \<not> bit f 2"
  proof
    assume "f AND 6 = 2"
    then have "bit (f AND 6) n \<longleftrightarrow> bit (2 :: u32) n" for n by simp
    from this [of 1] this [of 2] show "bit f 1 \<and> \<not> bit f 2" by (simp add: bit_and_iff b)
  next
    assume "bit f 1 \<and> \<not> bit f 2"
    then have "bit (f AND 6) n \<longleftrightarrow> bit (2 :: u32) n" for n unfolding bit_and_iff b by auto
    then show "f AND 6 = 2" by (simp add: bit_word_eqI)
  qed
qed

lemma flag_bits [simp]:
  "bit (f OR 1) 0" "bit (f OR 1) (Suc 0) = bit f 1" "bit (f OR 1) 2 = bit f 2"
  "bit (f OR 2) 0 = bit f 0" "bit (f OR 2) (Suc 0)" "bit (f OR 2) 2 = bit f 2"
  "bit (f OR 4) 0 = bit f 0" "bit (f OR 4) (Suc 0) = bit f 1" "bit (f OR 4) 2"
  "bit (f AND - 5) 0 = bit f 0" "bit (f AND - 5) (Suc 0) = bit f 1" "\<not> bit (f AND - 5) 2"
  "\<not> bit (f AND - 2) 0" "bit (f AND - 2) (Suc 0) = bit f 1" "bit (f AND - 2) 2 = bit f 2" for f :: u32
proof -
  have "- 5 = (NOT 4 :: u32)" "- 2 = (NOT 1 :: u32)" by simp_all
  note * = this
  show "bit (f AND - 5) 0 = bit f 0" "bit (f AND - 5) (Suc 0) = bit f 1" "\<not> bit (f AND - 5) 2"
    "\<not> bit (f AND - 2) 0" "bit (f AND - 2) (Suc 0) = bit f 1" "bit (f AND - 2) 2 = bit f 2"
    unfolding * by (simp_all only: bit_and_iff bit_not_iff) (simp_all add: bit_simps)
qed (simp_all add: bit_simps)

section \<open>The contents of a block through the cache\<close>

abbreviation (input) busy :: "'a biost_scheme \<Rightarrow> nat \<Rightarrow> bool" where "busy s b \<equiv> bit (b_flags (bc_buf s b)) 0"
abbreviation (input) valid :: "'a biost_scheme \<Rightarrow> nat \<Rightarrow> bool" where "valid s b \<equiv> bit (b_flags (bc_buf s b)) 1"
abbreviation (input) dirty :: "'a biost_scheme \<Rightarrow> nat \<Rightarrow> bool" where "dirty s b \<equiv> bit (b_flags (bc_buf s b)) 2"

definition view :: "'a biost_scheme \<Rightarrow> u32 \<Rightarrow> u8 list" where
  "view s n = (case find (\<lambda>b. cached_as 1 n s b \<and> valid s b) [0..<NBUF] of
                 Some b \<Rightarrow> b_data (bc_buf s b) | None \<Rightarrow> memdisk s (unat n))"

text \<open>
  What the cache keeps: a block of the disk has one buffer at most, a buffer that must still be written holds
  data, and one that need not be written agrees with the disk.
\<close>

definition cache_ok :: "'a biost_scheme \<Rightarrow> bool" where
  "cache_ok s \<longleftrightarrow>
     (\<forall>b < NBUF. \<forall>c < NBUF. b_dev (bc_buf s b) = 1 \<and> cached_as 1 (b_blockno (bc_buf s b)) s c \<longrightarrow> b = c) \<and>
     (\<forall>b < NBUF. dirty s b \<longrightarrow> valid s b) \<and>
     (\<forall>b < NBUF. b_dev (bc_buf s b) = 1 \<and> valid s b \<and> \<not> dirty s b \<and> \<not> busy s b \<longrightarrow>
        b_data (bc_buf s b) = memdisk s (unat (b_blockno (bc_buf s b))))"

lemma cache_ok_unique: "cache_ok s \<Longrightarrow> b < NBUF \<Longrightarrow> c < NBUF \<Longrightarrow> cached_as 1 n s b \<Longrightarrow> cached_as 1 n s c \<Longrightarrow> b = c"
  by (auto simp: cache_ok_def cached_as_def)

lemma view_cached:
  assumes "cache_ok s" "b < NBUF" "cached_as 1 n s b"
  shows "view s n = (if valid s b then b_data (bc_buf s b) else memdisk s (unat n))"
proof (cases "find (\<lambda>c. cached_as 1 n s c \<and> valid s c) [0..<NBUF]")
  case None
  then have "\<not> valid s b" using assms by (auto simp: find_None_iff)
  then show ?thesis using None by (simp add: view_def)
next
  case (Some c)
  then have "c < NBUF" "cached_as 1 n s c" "valid s c" by (auto simp: find_Some_iff)
  then have "c = b" using assms cache_ok_unique by blast
  then show ?thesis using Some \<open>valid s c\<close> by (simp add: view_def)
qed

lemma view_uncached: "(\<And>b. b < NBUF \<Longrightarrow> cached_as 1 n s b \<Longrightarrow> \<not> valid s b) \<Longrightarrow> view s n = memdisk s (unat n)"
  by (auto simp: view_def find_Some_iff split: option.split)

text \<open>A clean buffer may be given to another block.\<close>

lemma view_clean:
  assumes "cache_ok s" "b < NBUF" "\<not> dirty s b" "\<not> busy s b" "cached_as 1 n s b" shows "view s n = memdisk s (unat n)"
  using assms view_cached [OF assms(1,2,5)] by (auto simp: cache_ok_def cached_as_def)

lemma view_load:
  assumes ok: "cache_ok s" and b: "b < NBUF" "\<not> busy s b" and bf: "b_dev bf = 1" "b_blockno bf = n" "bit (b_flags bf) 1"
    "b_data bf = view s n" "bit (b_flags bf) 2 = dirty s b"
    and old: "cached_as 1 n s b \<or> \<not> dirty s b \<and> (\<forall>c < NBUF. \<not> cached_as 1 n s c)"
  shows "cache_ok (upd_buf b (\<lambda>_. bf) s)" "view (upd_buf b (\<lambda>_. bf) s) m = view s m"
proof -
  let ?t = "upd_buf b (\<lambda>_. bf) s"
  have other: "cached_as 1 m ?t c = cached_as 1 m s c" if "c \<noteq> b" for c m using that by (simp add: cached_as_def)
  have self: "cached_as 1 m ?t b \<longleftrightarrow> m = n" for m using bf by (auto simp: cached_as_def)
  have no: "\<not> cached_as 1 n s c" if "c < NBUF" "c \<noteq> b" for c using old cache_ok_unique [OF ok b(1) that(1)] that by blast
  have mem: "view s n = memdisk s (unat n)" if "\<not> dirty s b"
    using old view_clean [OF ok b(1) that b(2), of n] view_uncached [of n s] by blast
  show ok': "cache_ok ?t"
    unfolding cache_ok_def
  proof (intro conjI allI impI)
    fix c d assume c: "c < NBUF" "d < NBUF" "b_dev (bc_buf ?t c) = 1 \<and> cached_as 1 (b_blockno (bc_buf ?t c)) ?t d"
    then show "c = d" using no [of c] no [of d] ok bf by (cases "c = b"; cases "d = b") (auto simp: cached_as_def cache_ok_def)
  next
    fix c assume "c < NBUF" "dirty ?t c" then show "valid ?t c" using ok bf by (auto simp: cache_ok_def split: if_splits)
  next
    fix c assume "c < NBUF" "b_dev (bc_buf ?t c) = 1 \<and> valid ?t c \<and> \<not> dirty ?t c \<and> \<not> busy ?t c"
    then show "b_data (bc_buf ?t c) = memdisk ?t (unat (b_blockno (bc_buf ?t c)))"
      using ok bf mem by (cases "c = b") (auto simp: cache_ok_def)
  qed
  show "view ?t m = view s m"
  proof (cases "\<exists>c < NBUF. cached_as 1 m ?t c")
    case True
    then obtain c where c: "c < NBUF" "cached_as 1 m ?t c" by auto
    show ?thesis
    proof (cases "c = b")
      case True
      then show ?thesis using view_cached [OF ok' c] c self bf by simp
    next
      case False
      then have "cached_as 1 m s c" using other c by simp
      then show ?thesis using view_cached [OF ok' c] view_cached [OF ok c(1)] False by simp
    qed
  next
    case False
    then have "view ?t m = memdisk s (unat m)" using view_uncached [of m ?t] by simp
    moreover have "c = b" if "c < NBUF" "cached_as 1 m s c" for c using False that other by metis
    then have "view s m = memdisk s (unat m)"
      using False old view_clean [OF ok b(1) _ b(2), of m] view_uncached [of m s] self b by (metis cached_as_def)
    ultimately show ?thesis by simp
  qed
qed

section \<open>The operations\<close>

text \<open>\<open>bget\<close> finds a buffer for the block at once: it is cached and free, or it is not cached and some buffer can be reused.\<close>

definition obtainable :: "'a biost_scheme \<Rightarrow> u32 \<Rightarrow> bool" where
  "obtainable s n \<longleftrightarrow>
     (\<forall>b < NBUF. cached_as 1 n s b \<longrightarrow> \<not> busy s b) \<and> (\<exists>b < NBUF. cached_as 1 n s b \<or> recyclable s b)"

definition taken :: "nat \<Rightarrow> u32 \<Rightarrow> 'a biost_scheme \<Rightarrow> buf" where
  "taken b n s = (if cached_as 1 n s b then (bc_buf s b)\<lparr>b_flags := b_flags (bc_buf s b) OR 1\<rparr>
                  else (bc_buf s b)\<lparr>b_dev := 1, b_blockno := n, b_flags := 1\<rparr>)"

lemma bc_buf_held [simp]: "bc_buf (held l s) = bc_buf s" "cached_as d n (held l s) = cached_as d n s"
  "recyclable (held l s) = recyclable s"
  by (simp_all add: held_def cached_as_def recyclable_def fun_eq_iff)

lemma link_fields [simp]:
  "b_flags (bc_buf (link_front b s) c) = b_flags (bc_buf s c)" "b_flags (bc_buf (unlink b s) c) = b_flags (bc_buf s c)"
  "b_dev (bc_buf (link_front b s) c) = b_dev (bc_buf s c)" "b_dev (bc_buf (unlink b s) c) = b_dev (bc_buf s c)"
  "b_blockno (bc_buf (link_front b s) c) = b_blockno (bc_buf s c)" "b_blockno (bc_buf (unlink b s) c) = b_blockno (bc_buf s c)"
  "b_data (bc_buf (link_front b s) c) = b_data (bc_buf s c)" "b_data (bc_buf (unlink b s) c) = b_data (bc_buf s c)"
  by (simp_all add: link_front_def unlink_def Let_def)

lemma link_frame [simp]:
  "memdisk (link_front b s) = memdisk s" "memdisk (unlink b s) = memdisk s"
  "disk_writes (link_front b s) = disk_writes s" "disk_writes (unlink b s) = disk_writes s"
  by (simp_all add: link_front_def unlink_def Let_def)

lemma upd_buf_held: "upd_buf b f (held l s) = held l (upd_buf b f s)"
  by (simp add: held_def upd_buf_def)

lemma link_held: "link_front b (held l s) = held l (link_front b s)" "unlink b (held l s) = held l (unlink b s)"
  by (simp_all add: link_front_def unlink_def Let_def upd_buf_held)

lemma bget_ok:
  assumes l: "lru s bs" and r: "lock_ready BcacheLock s" and ob: "obtainable s n"
  obtains b where "bget 1 n s = Ok b (upd_buf b (\<lambda>_. taken b n s) s)" "b < NBUF"
    "cached_as 1 n s b \<and> \<not> busy s b \<or> (\<forall>c < NBUF. \<not> cached_as 1 n s c) \<and> recyclable s b"
proof -
  let ?h = "held BcacheLock s"
  have d: "HEAD \<notin> set bs" "length bs \<le> NBUF" "set bs = {0..<NBUF}" using lruD [OF l] l by (auto simp: lru_def)
  have rel: "release BcacheLock (upd_buf b f ?h) = Ok () (upd_buf b f s)" for b f
    using release_restores [OF r, of "upd_buf b f ?h"] by (simp add: upd_buf_def held_def)
  have F: "bfind NBUF (nx s) P (nx s HEAD) = Some (case find P bs of None \<Rightarrow> HEAD | Some b \<Rightarrow> b)" for P
    by (rule bfind_chain) (use l d in \<open>auto simp: lru_def\<close>)
  have B: "bfind NBUF (pv s) P (pv s HEAD) = Some (case find P (rev bs) of None \<Rightarrow> HEAD | Some b \<Rightarrow> b)" for P
    by (rule bfind_chain) (use l d in \<open>auto simp: lru_def\<close>)
  show thesis
  proof (cases "find (cached_as 1 n s) bs")
    case (Some b)
    then have b: "b < NBUF" "cached_as 1 n s b" using d by (auto dest!: find_SomeD)
    then have "\<not> busy s b" using ob by (auto simp: obtainable_def)
    moreover have "upd_buf b (\<lambda>x. x\<lparr>b_flags := b_flags x OR B_BUSY\<rparr>) s = upd_buf b (\<lambda>_. taken b n s) s"
      using b by (simp add: upd_buf_def taken_def)
    ultimately have "bget 1 n s = Ok b (upd_buf b (\<lambda>_. taken b n s) s)"
      using F [of "cached_as 1 n s"] Some b r rel by (simp add: bget_def bget_loop_def acquire_ready flag_zero)
    then show thesis using that b \<open>\<not> busy s b\<close> by blast
  next
    case None
    then have no: "\<forall>c < NBUF. \<not> cached_as 1 n s c" using d by (auto simp: find_None_iff)
    then have "\<exists>b \<in> set (rev bs). recyclable s b" using ob d by (auto simp: obtainable_def)
    then obtain b where f: "find (recyclable s) (rev bs) = Some b" by (metis find_None_iff not_Some_eq)
    then have b: "b < NBUF" "recyclable s b" using d by (auto dest!: find_SomeD)
    moreover have "upd_buf b (\<lambda>x. x\<lparr>b_dev := 1, b_blockno := n, b_flags := B_BUSY\<rparr>) s = upd_buf b (\<lambda>_. taken b n s) s"
      using b no by (simp add: upd_buf_def taken_def)
    ultimately have "bget 1 n s = Ok b (upd_buf b (\<lambda>_. taken b n s) s)"
      using F [of "cached_as 1 n s"] B [of "recyclable s"] None f r rel
      by (simp add: bget_def bget_loop_def acquire_ready)
    then show thesis using that b no by blast
  qed
qed

definition loaded :: "nat \<Rightarrow> u32 \<Rightarrow> 'a biost_scheme \<Rightarrow> buf" where
  "loaded b n s = (taken b n s)\<lparr>b_data := view s n, b_flags := b_flags (taken b n s) OR 2\<rparr>"

text \<open>\<open>bread\<close> returns a buffer that holds what the block reads as, and changes nothing else.\<close>

lemma bread_ok:
  assumes l: "lru s bs" and r: "lock_ready BcacheLock s" and ok: "cache_ok s" and ob: "obtainable s n"
    and n: "n < disksize s"
  obtains b bf where "bread 1 n s = Ok b (upd_buf b (\<lambda>_. bf) s)" "b < NBUF" "\<not> busy s b" "bit (b_flags bf) 0"
    "bit (b_flags bf) 1" "bit (b_flags bf) 2 = dirty s b" "b_dev bf = 1" "b_blockno bf = n" "b_data bf = view s n"
    "b_next bf = b_next (bc_buf s b)" "b_prev bf = b_prev (bc_buf s b)"
    "cached_as 1 n s b \<or> \<not> dirty s b \<and> (\<forall>c < NBUF. \<not> cached_as 1 n s c)"
proof -
  obtain b where b: "bget 1 n s = Ok b (upd_buf b (\<lambda>_. taken b n s) s)" "b < NBUF"
    and c: "cached_as 1 n s b \<and> \<not> busy s b \<or> (\<forall>c < NBUF. \<not> cached_as 1 n s c) \<and> recyclable s b"
    using bget_ok [OF l r ob] .
  have tk: "b_dev (taken b n s) = 1" "b_blockno (taken b n s) = n" "bit (b_flags (taken b n s)) 0"
    "b_next (taken b n s) = b_next (bc_buf s b)" "b_prev (taken b n s) = b_prev (bc_buf s b)"
    by (auto simp: taken_def cached_as_def)
  have tf: "bit (b_flags (taken b n s)) 2 = dirty s b" using c by (auto simp: taken_def recyclable_def flag_zero)
  have tv: "bit (b_flags (taken b n s)) 1 \<longleftrightarrow> cached_as 1 n s b \<and> valid s b" by (auto simp: taken_def)
  have nb: "\<not> busy s b" "cached_as 1 n s b \<or> \<not> dirty s b \<and> (\<forall>c < NBUF. \<not> cached_as 1 n s c)"
    using c by (auto simp: recyclable_def flag_zero)
  show thesis
  proof (cases "bit (b_flags (taken b n s)) 1")
    case True
    then have "bread 1 n s = Ok b (upd_buf b (\<lambda>_. taken b n s) s)" using b by (simp add: bread_def flag_zero)
    moreover have "b_data (taken b n s) = view s n"
      using view_cached [OF ok b(2), of n] True tv by (auto simp: taken_def)
    ultimately show thesis using that [of b "taken b n s"] b(2) tk tf nb True by blast
  next
    case False
    then have nd: "\<not> dirty s b" using c tv ok b(2) by (auto simp: cache_ok_def recyclable_def flag_zero)
    have m: "view s n = memdisk s (unat n)"
      using view_clean [OF ok b(2) nd nb(1), of n] view_uncached [of n s] nb by blast
    have "bread 1 n s = Ok b (upd_buf b (\<lambda>_. loaded b n s) s)"
      using b False nd tf tk n m by (simp add: bread_def flag_zero iderw_def Let_def loaded_def upd_buf_def not_le)
    then show thesis using that [of b "loaded b n s"] b(2) tk tf nb by (simp add: loaded_def)
  qed
qed

lemma busy_index_neq: "busy s b \<Longrightarrow> \<not> busy s c \<Longrightarrow> b \<noteq> c" by auto

text \<open>\<open>bwrite\<close> puts the buffer's contents on the disk.\<close>

lemma bwrite_ok:
  assumes "busy s b" "b_dev (bc_buf s b) = 1" "b_blockno (bc_buf s b) < disksize s"
  shows "bwrite b s = Ok () ((upd_buf b (\<lambda>x. x\<lparr>b_flags := (b_flags x OR B_DIRTY) AND NOT B_DIRTY OR B_VALID\<rparr>) s)
           \<lparr>memdisk := (memdisk s)(unat (b_blockno (bc_buf s b)) := b_data (bc_buf s b)),
            disk_writes := disk_writes s @ [(b_blockno (bc_buf s b), b_data (bc_buf s b))]\<rparr>)"
  using assms by (simp add: bwrite_def iderw_def Let_def flag_zero upd_buf_def not_le)

text \<open>\<open>brelse\<close> makes the buffer free and the most recently used, and wakes those who wait for it.\<close>

definition released :: "nat \<Rightarrow> 'a biost_scheme \<Rightarrow> 'a biost_scheme" where
  "released b s = wakeup1 (ChanBuf b)
     (upd_buf b (\<lambda>x. x\<lparr>b_flags := b_flags x AND NOT B_BUSY\<rparr>) (link_front b (unlink b s)))"

lemma brelse_ok:
  assumes r: "lock_ready BcacheLock s" "lock_ready PtableLock s" and "busy s b"
  shows "brelse b s = Ok () (released b s)"
proof -
  let ?f = "\<lambda>s. upd_buf b (\<lambda>x. x\<lparr>b_flags := b_flags x AND NOT B_BUSY\<rparr>) (link_front b (unlink b s))"
  have "brelse b s = rbind (wakeup (ChanBuf b) (?f (held BcacheLock s))) (\<lambda>_ s. release BcacheLock s)"
    using assms by (simp add: brelse_def flag_zero acquire_ready unlink_def Let_def)
  also have "?f (held BcacheLock s) = held BcacheLock (?f s)"
    by (simp add: upd_buf_held link_held)
  also have "wakeup (ChanBuf b) (held BcacheLock (?f s)) = Ok () (held BcacheLock (released b s))"
  proof -
    have "k_cpu (?f s) = k_cpu s" "k_locks (?f s) = k_locks s" by (simp_all add: link_front_def unlink_def Let_def)
    then have "lock_ready PtableLock (held BcacheLock (?f s))" using r by (simp add: lock_ready_def)
    then show ?thesis by (simp add: wakeup_eq released_def wakeup1_def held_def)
  qed
  also have "rbind (Ok () (held BcacheLock (released b s))) (\<lambda>_. release BcacheLock) = Ok () (released b s)"
  proof -
    have "k_cpu (released b s) = k_cpu s" "k_locks (released b s) = k_locks s"
      by (simp_all add: released_def wakeup1_def link_front_def unlink_def Let_def)
    then show ?thesis using r release_restores [of BcacheLock "released b s" "held BcacheLock (released b s)"]
      by (simp add: lock_ready_def held_def)
  qed
  finally show ?thesis .
qed

lemma released_simps:
  assumes "lru s bs" "b \<in> set bs"
  shows "lru (released b s) (b # remove1 b bs)"
proof -
  have "lru (released b s) bs' = lru (link_front b (unlink b s)) bs'" for bs'
    by (rule lru_cong) (auto simp: released_def wakeup1_def)
  then show ?thesis using lru_move_front [OF assms] by simp
qed

end
