(* ===== verification/Block_Store.thy ===== *)
theory Block_Store
  imports Bio_Laws
begin

text \<open>
  What the buffer cache promises the code above it, as a locale: a store of blocks, of which a caller holds some by
  their buffers.  \<open>blk\<close> is what a block reads as, \<open>disk\<close> what the disk has, \<open>own\<close> the block of each held buffer,
  \<open>mark\<close> the buffers that wait to be written, \<open>hist\<close> the writes that reached the disk.  The lemmas of the
  locale are the patterns of use of \<^verbatim>\<open>log.c\<close> and \<^verbatim>\<open>fs.c\<close>: read a block, rewrite a block, copy one block over another.
  The interpretation proves the promises for \<open>bread\<close>, \<open>bwrite\<close> and \<open>brelse\<close>.
\<close>

section \<open>The interface\<close>

locale block_store =
  fixes inv :: "'s \<Rightarrow> bool" and size :: "'s \<Rightarrow> u32" and blk disk :: "'s \<Rightarrow> u32 \<Rightarrow> u8 list"
    and hist :: "'s \<Rightarrow> (u32 \<times> u8 list) list" and own :: "'s \<Rightarrow> nat \<Rightarrow> u32 option" and mark :: "'s \<Rightarrow> nat set"
    and look :: "'s \<Rightarrow> nat \<Rightarrow> u8 list" and put :: "nat \<Rightarrow> u8 list \<Rightarrow> 's \<Rightarrow> 's"
    and rd :: "u32 \<Rightarrow> 's \<Rightarrow> ('s, nat) res" and wr rel :: "nat \<Rightarrow> 's \<Rightarrow> ('s, unit) res"
    and frame :: "'s \<Rightarrow> 's \<Rightarrow> bool"
  assumes frame_trans: "frame s t \<Longrightarrow> frame t u \<Longrightarrow> frame s u"
    and frame_size: "frame s t \<Longrightarrow> size t = size s"
    and bufs: "inv s \<Longrightarrow> dom (own s) \<union> mark s \<subseteq> {..<NBUF}"
    and own_size: "inv s \<Longrightarrow> own s b = Some n \<Longrightarrow> n < size s"
    and own_blk: "inv s \<Longrightarrow> own s b = Some n \<Longrightarrow> blk s n = look s b"
    and rd_ok: "inv s \<Longrightarrow> n \<notin> ran (own s) \<Longrightarrow> card (dom (own s) \<union> mark s) < NBUF \<Longrightarrow> n < size s \<Longrightarrow>
      \<exists>b t. rd n s = Ok b t \<and> inv t \<and> b \<notin> dom (own s) \<and> own t = (own s)(b \<mapsto> n) \<and> mark t = mark s \<and>
        blk t = blk s \<and> disk t = disk s \<and> hist t = hist s \<and> (\<forall>c \<in> dom (own s). look t c = look s c) \<and>
        (b \<in> mark t \<or> blk s n = disk s n) \<and> frame s t"
    and put_ok: "inv s \<Longrightarrow> own s b = Some n \<Longrightarrow>
      inv (put b d s) \<and> own (put b d s) = own s \<and> mark (put b d s) = mark s \<and> blk (put b d s) = (blk s)(n := d) \<and>
      disk (put b d s) = disk s \<and> hist (put b d s) = hist s \<and> look (put b d s) = (look s)(b := d) \<and> frame s (put b d s)"
    and wr_ok: "inv s \<Longrightarrow> own s b = Some n \<Longrightarrow>
      \<exists>t. wr b s = Ok () t \<and> inv t \<and> own t = own s \<and> mark t = mark s - {b} \<and> blk t = blk s \<and>
        disk t = (disk s)(n := blk s n) \<and> hist t = hist s @ [(n, blk s n)] \<and> look t = look s \<and> frame s t"
    and rel_ok: "inv s \<Longrightarrow> own s b = Some n \<Longrightarrow> b \<in> mark s \<or> blk s n = disk s n \<Longrightarrow>
      \<exists>t. rel b s = Ok () t \<and> inv t \<and> own t = (own s)(b := None) \<and> mark t = mark s \<and> blk t = blk s \<and>
        disk t = disk s \<and> hist t = hist s \<and> look t = look s \<and> frame s t"
begin

lemma finite_bufs: "inv s \<Longrightarrow> finite (dom (own s) \<union> mark s)"
  using bufs finite_subset by blast

lemma upd_None: "own s b = None \<Longrightarrow> (own s)(b \<mapsto> n, b := None) = own s"
  by (auto simp: fun_eq_iff)

text \<open>Read a block and give its buffer back.\<close>

lemma read_block:
  assumes "inv s" "n \<notin> ran (own s)" "card (dom (own s) \<union> mark s) < NBUF" "n < size s"
  obtains b s1 t where "rd n s = Ok b s1" "look s1 b = blk s n" "rel b s1 = Ok () t" "inv t" "own t = own s"
    "mark t = mark s" "blk t = blk s" "disk t = disk s" "hist t = hist s" "frame s s1" "frame s t"
proof -
  obtain b s1 where r: "rd n s = Ok b s1" "inv s1" "b \<notin> dom (own s)" "own s1 = (own s)(b \<mapsto> n)" "mark s1 = mark s"
    "blk s1 = blk s" "disk s1 = disk s" "hist s1 = hist s" "b \<in> mark s1 \<or> blk s n = disk s n" "frame s s1"
    using rd_ok [OF assms] by blast
  then obtain t where "rel b s1 = Ok () t" "inv t" "own t = (own s1)(b := None)" "mark t = mark s1" "blk t = blk s1"
    "disk t = disk s1" "hist t = hist s1" "frame s1 t"
    using rel_ok [of s1 b n] by auto
  with r show thesis using that [of b s1 t] own_blk [of s1 b n] frame_trans by (auto simp: upd_None domIff)
qed

text \<open>Replace a block's contents, on the disk at once.\<close>

lemma write_block:
  assumes "inv s" "n \<notin> ran (own s)" "card (dom (own s) \<union> mark s) < NBUF" "n < size s"
  obtains b s1 s2 t where "rd n s = Ok b s1" "look s1 b = blk s n" "wr b (put b d s1) = Ok () s2" "rel b s2 = Ok () t"
    "inv t" "own t = own s" "mark t = mark s - {b}" "blk t = (blk s)(n := d)" "disk t = (disk s)(n := d)"
    "hist t = hist s @ [(n, d)]" "frame s s1" "frame s s2" "frame s t"
proof -
  obtain b s1 where r: "rd n s = Ok b s1" "inv s1" "b \<notin> dom (own s)" "own s1 = (own s)(b \<mapsto> n)" "mark s1 = mark s"
    "blk s1 = blk s" "disk s1 = disk s" "hist s1 = hist s" "frame s s1"
    using rd_ok [OF assms] by blast
  then have p: "inv (put b d s1)" "own (put b d s1) b = Some n" "blk (put b d s1) n = d" "frame s (put b d s1)"
    using put_ok [of s1 b n d] frame_trans by auto
  obtain s2 where w: "wr b (put b d s1) = Ok () s2" "inv s2" "own s2 = own (put b d s1)" "mark s2 = mark (put b d s1) - {b}"
    "blk s2 = blk (put b d s1)" "disk s2 = (disk (put b d s1))(n := d)" "hist s2 = hist (put b d s1) @ [(n, d)]"
    "frame (put b d s1) s2"
    using wr_ok [OF p(1,2)] p(3) by auto
  then obtain t where t: "rel b s2 = Ok () t" "inv t" "own t = (own s2)(b := None)" "mark t = mark s2" "blk t = blk s2"
    "disk t = disk s2" "hist t = hist s2" "frame s2 t"
    using rel_ok [of s2 b n] p by auto
  note f = frame_trans [OF p(4) w(8)]
  show thesis
    by (rule that [OF r(1) _ w(1) t(1,2)])
       (use r p w t f frame_trans [OF f t(8)] own_blk [of s1 b n] put_ok [of s1 b n d] in \<open>auto simp: upd_None domIff\<close>)
qed

text \<open>Copy block \<open>a\<close> over block \<open>n\<close>: the body of \<open>install_trans\<close>, which releases \<open>a\<close> first, and of \<open>write_log\<close>, which reads \<open>n\<close> first.\<close>

lemma two_bufs:
  assumes "inv s" "ran (own s) \<inter> {a, n} = {}" "a \<noteq> n" "card (dom (own s) \<union> mark s) + 1 < NBUF" "a < size s" "n < size s"
  obtains b c s1 s2 where "rd a s = Ok b s1" "rd n s1 = Ok c s2" "inv s2" "own s2 = (own s)(b \<mapsto> a, c \<mapsto> n)" "b \<noteq> c"
    "own s b = None" "own s c = None" "mark s2 = mark s" "blk s2 = blk s" "disk s2 = disk s" "hist s2 = hist s"
    "look s2 b = blk s a" "look s2 c = blk s n" "b \<in> mark s \<or> blk s a = disk s a" "c \<in> mark s \<or> blk s n = disk s n"
    "frame s s1" "frame s s2"
proof -
  obtain b s1 where r: "rd a s = Ok b s1" "inv s1" "b \<notin> dom (own s)" "own s1 = (own s)(b \<mapsto> a)" "mark s1 = mark s"
    "blk s1 = blk s" "disk s1 = disk s" "hist s1 = hist s" "b \<in> mark s \<or> blk s a = disk s a" "frame s s1"
    using rd_ok [of s a] assms by force
  have "card (insert b (dom (own s) \<union> mark s)) \<le> Suc (card (dom (own s) \<union> mark s))" by (rule card_insert_le_m1) auto
  then have "card (dom (own s1) \<union> mark s1) < NBUF" using assms(4) r by simp
  moreover have "n \<notin> ran (own s1)" "n < size s1" using assms r frame_size [OF r(10)] by (auto simp: ran_def split: if_splits)
  ultimately obtain c s2 where q: "rd n s1 = Ok c s2" "inv s2" "c \<notin> dom (own s1)" "own s2 = (own s1)(c \<mapsto> n)"
    "mark s2 = mark s1" "blk s2 = blk s1" "disk s2 = disk s1" "hist s2 = hist s1" "c \<in> mark s2 \<or> blk s1 n = disk s1 n" "frame s1 s2"
    using rd_ok [OF r(2), of n] by blast
  show thesis
    by (rule that [OF r(1) q(1) q(2)])
       (use r q own_blk [OF q(2), of b a] own_blk [OF q(2), of c n] frame_trans [OF r(10) q(10)] in \<open>auto split: if_splits\<close>)
qed

lemma copy_tail:
  assumes "inv s" "own s x = Some m" "own s y = Some n" "x \<noteq> y" "m \<noteq> n" "y \<in> mark s \<or> blk s n = disk s n"
  obtains s1 s2 t where "wr x (put x d s) = Ok () s1" "rel y s1 = Ok () s2" "rel x s2 = Ok () t"
    "inv t" "own t = (own s)(y := None, x := None)" "mark t = mark s - {x}" "blk t = (blk s)(m := d)"
    "disk t = (disk s)(m := d)" "hist t = hist s @ [(m, d)]" "frame s s1" "frame s s2" "frame s t"
proof -
  have p: "inv (put x d s)" "own (put x d s) = own s" "blk (put x d s) = (blk s)(m := d)" "disk (put x d s) = disk s"
    "mark (put x d s) = mark s" "hist (put x d s) = hist s" "frame s (put x d s)"
    using put_ok [OF assms(1,2), of d] by auto
  obtain s1 where w: "wr x (put x d s) = Ok () s1" "inv s1" "own s1 = own s" "mark s1 = mark s - {x}"
    "blk s1 = (blk s)(m := d)" "disk s1 = (disk s)(m := d)" "hist s1 = hist s @ [(m, d)]" "frame (put x d s) s1"
    using wr_ok [OF p(1), of x m] p assms(2) by auto
  obtain s2 where q: "rel y s1 = Ok () s2" "inv s2" "own s2 = (own s)(y := None)" "mark s2 = mark s - {x}"
    "blk s2 = (blk s)(m := d)" "disk s2 = (disk s)(m := d)" "hist s2 = hist s @ [(m, d)]" "frame s1 s2"
    using rel_ok [OF w(2), of y n] w assms by auto
  obtain t where r: "rel x s2 = Ok () t" "inv t" "own t = (own s2)(x := None)" "mark t = mark s2"
    "blk t = blk s2" "disk t = disk s2" "hist t = hist s2" "frame s2 t"
    using rel_ok [OF q(2), of x m] q assms by auto
  note f1 = frame_trans [OF p(7) w(8)] note f2 = frame_trans [OF f1 q(8)]
  show thesis by (rule that [OF w(1) q(1) r(1,2)]) (use q r f1 f2 frame_trans [OF f2 r(8)] in auto)
qed

end

section \<open>The buffer cache\<close>

definition bio_frame :: "'a biost_scheme \<Rightarrow> 'a biost_scheme \<Rightarrow> bool" where
  "bio_frame s t \<longleftrightarrow> t = s\<lparr>pt_proc := pt_proc t, bc_buf := bc_buf t, memdisk := memdisk t, disk_writes := disk_writes t\<rparr>"

definition dsk :: "'a biost_scheme \<Rightarrow> u32 \<Rightarrow> u8 list" where
  "dsk s = (\<lambda>n. memdisk s (unat n))"

definition bcache_inv :: "'a biost_scheme \<Rightarrow> bool" where
  "bcache_inv s \<longleftrightarrow> (\<exists>bs. lru s bs) \<and> cache_ok s \<and> lock_ready BcacheLock s \<and> lock_ready PtableLock s \<and>
     (\<forall>b < NBUF. busy s b \<longrightarrow> b_dev (bc_buf s b) = 1 \<and> valid s b \<and> b_blockno (bc_buf s b) < disksize s)"

definition owned :: "'a biost_scheme \<Rightarrow> nat \<Rightarrow> u32 option" where
  "owned s b = (if b < NBUF \<and> busy s b then Some (b_blockno (bc_buf s b)) else None)"

definition marked :: "'a biost_scheme \<Rightarrow> nat set" where
  "marked s = {b. b < NBUF \<and> dirty s b}"

definition put_data :: "nat \<Rightarrow> u8 list \<Rightarrow> 'a biost_scheme \<Rightarrow> 'a biost_scheme" where
  "put_data b d s = upd_buf b (\<lambda>x. x\<lparr>b_data := d\<rparr>) s"

lemma bio_frame_upd_buf: "bio_frame s (upd_buf b f s)"
  by (simp add: bio_frame_def upd_buf_def)

lemma bio_frame_fields:
  assumes "bio_frame s t"
  shows "disksize t = disksize s" "k_cpu t = k_cpu s" "k_locks t = k_locks s" "biost.more t = biost.more s" "cur t = cur s"
proof -
  have t: "t = s\<lparr>pt_proc := pt_proc t, bc_buf := bc_buf t, memdisk := memdisk t, disk_writes := disk_writes t\<rparr>"
    using assms by (simp add: bio_frame_def)
  show "disksize t = disksize s" "k_cpu t = k_cpu s" "k_locks t = k_locks s" "biost.more t = biost.more s" "cur t = cur s"
    by (subst t, simp)+
qed

lemma bio_frame_trans: "bio_frame s t \<Longrightarrow> bio_frame t u \<Longrightarrow> bio_frame s u"
proof -
  assume "bio_frame s t" "bio_frame t u"
  then have "t = s\<lparr>pt_proc := pt_proc t, bc_buf := bc_buf t, memdisk := memdisk t, disk_writes := disk_writes t\<rparr>"
    and u: "u = t\<lparr>pt_proc := pt_proc u, bc_buf := bc_buf u, memdisk := memdisk u, disk_writes := disk_writes u\<rparr>"
    by (simp_all add: bio_frame_def)
  then have "u = s\<lparr>pt_proc := pt_proc t, bc_buf := bc_buf t, memdisk := memdisk t, disk_writes := disk_writes t\<rparr>
      \<lparr>pt_proc := pt_proc u, bc_buf := bc_buf u, memdisk := memdisk u, disk_writes := disk_writes u\<rparr>" by simp
  then show "bio_frame s u" by (simp add: bio_frame_def)
qed

lemma owned_dom: "dom (owned s) \<union> marked s = {b. b < NBUF \<and> (busy s b \<or> dirty s b)}"
  by (auto simp: owned_def marked_def dom_def)

text \<open>Some buffer can be reused unless every one is held or waits to be written.\<close>

lemma room_recyclable:
  assumes "card (dom (owned s) \<union> marked s) < NBUF" shows "\<exists>b < NBUF. recyclable s b"
proof (rule ccontr)
  assume "\<not> ?thesis"
  then have "dom (owned s) \<union> marked s = {..<NBUF}" unfolding owned_dom by (auto simp: recyclable_def flag_zero)
  then show False using assms by simp
qed

lemma bcache_inv_obtainable:
  assumes "bcache_inv s" "n \<notin> ran (owned s)" "card (dom (owned s) \<union> marked s) < NBUF" shows "obtainable s n"
proof -
  have "\<not> busy s b" if "b < NBUF" "cached_as 1 n s b" for b
    using assms(2) that ranI [of "owned s" b n] by (auto simp: owned_def cached_as_def)
  then show ?thesis using room_recyclable [OF assms(3)] by (auto simp: obtainable_def)
qed

lemma unat_eq_unat [simp]: "unat x = unat y \<longleftrightarrow> x = y" for x y :: "'a::len word"
  by (simp add: word_unat_eq_iff)

lemma bread_law:
  assumes inv: "bcache_inv s" and n: "n \<notin> ran (owned s)" "card (dom (owned s) \<union> marked s) < NBUF" "n < disksize s"
  shows "\<exists>b t. bread 1 n s = Ok b t \<and> bcache_inv t \<and> b \<notin> dom (owned s) \<and> owned t = (owned s)(b \<mapsto> n) \<and> marked t = marked s \<and>
    view t = view s \<and> dsk t = dsk s \<and> disk_writes t = disk_writes s \<and>
    (\<forall>c \<in> dom (owned s). b_data (bc_buf t c) = b_data (bc_buf s c)) \<and>
    (b \<in> marked t \<or> view s n = dsk s n) \<and> bio_frame s t"
proof -
  obtain bs where bs: "lru s bs" and ok: "cache_ok s" and r: "lock_ready BcacheLock s" using inv by (auto simp: bcache_inv_def)
  obtain b bf where b: "bread 1 n s = Ok b (upd_buf b (\<lambda>_. bf) s)" "b < NBUF" "\<not> busy s b"
    and bf: "bit (b_flags bf) 0" "bit (b_flags bf) 1" "bit (b_flags bf) 2 = dirty s b" "b_dev bf = 1" "b_blockno bf = n"
      "b_data bf = view s n" "b_next bf = b_next (bc_buf s b)" "b_prev bf = b_prev (bc_buf s b)"
    and old: "cached_as 1 n s b \<or> \<not> dirty s b \<and> (\<forall>c < NBUF. \<not> cached_as 1 n s c)"
    using bread_ok [OF bs r ok bcache_inv_obtainable [OF inv n(1,2)] n(3)] .
  let ?t = "upd_buf b (\<lambda>_. bf) s"
  have ok': "cache_ok ?t" and v: "view ?t = view s"
    using view_load [OF ok b(2,3) bf(4,5,2,6,3) old] by auto
  have "lru ?t bs = lru s bs" by (rule lru_cong) (use bf in auto)
  then have i: "bcache_inv ?t" using inv ok' bs b bf n(3) by (auto simp: bcache_inv_def lock_ready_def)
  have m: "b \<in> marked ?t \<or> view s n = dsk s n"
    using bf b old view_clean [OF ok b(2) _ b(3), of n] view_uncached [of n s] by (auto simp: marked_def dsk_def)
  have o: "owned ?t = (owned s)(b \<mapsto> n)" "marked ?t = marked s" "b \<notin> dom (owned s)"
    using b bf by (auto simp: owned_def marked_def fun_eq_iff)
  have d: "\<forall>c \<in> dom (owned s). b_data (bc_buf ?t c) = b_data (bc_buf s c)" using o(3) by auto
  have "dsk ?t = dsk s" "disk_writes ?t = disk_writes s" by (simp_all add: dsk_def)
  then show ?thesis using b(1) i o v d m bio_frame_upd_buf [of s b "\<lambda>_. bf"] by (intro exI [of _ b] exI [of _ ?t]) simp
qed

text \<open>Changing a buffer that holds block \<open>n\<close>, and at most that block of the disk, changes what \<open>n\<close> reads as.\<close>

definition buf_same :: "buf \<Rightarrow> buf \<Rightarrow> bool" where
  "buf_same x y \<longleftrightarrow> b_flags x = b_flags y \<and> b_dev x = b_dev y \<and> b_blockno x = b_blockno y \<and> b_data x = b_data y"

lemma view_modify:
  assumes ok: "cache_ok s" and b: "b < NBUF" "cached_as 1 n s b" "cached_as 1 n t b" "valid t b"
    and c: "\<And>c. c \<noteq> b \<Longrightarrow> buf_same (bc_buf t c) (bc_buf s c)"
    and m: "\<And>m. m \<noteq> n \<Longrightarrow> memdisk t (unat m) = memdisk s (unat m)"
    and d: "\<not> dirty t b \<Longrightarrow> \<not> busy t b \<Longrightarrow> b_data (bc_buf t b) = memdisk t (unat n)"
  shows "cache_ok t" "view t = (view s)(n := b_data (bc_buf t b))"
proof -
  have cs: "cached_as 1 m t c = cached_as 1 m s c" for m c
    using c [of c] b by (cases "c = b") (auto simp: cached_as_def buf_same_def)
  have dev: "b_dev (bc_buf t c) = b_dev (bc_buf s c)" "b_blockno (bc_buf t c) = b_blockno (bc_buf s c)" for c
    using c [of c] b by (cases "c = b"; auto simp: cached_as_def buf_same_def)+
  have un: "b_blockno (bc_buf s c) \<noteq> n" if "c < NBUF" "c \<noteq> b" "b_dev (bc_buf s c) = 1" for c
    using cache_ok_unique [OF ok b(1) that(1) b(2)] that by (auto simp: cached_as_def)
  show ok': "cache_ok t"
    unfolding cache_ok_def
  proof (intro conjI allI impI)
    fix x y assume "x < NBUF" "y < NBUF" "b_dev (bc_buf t x) = 1 \<and> cached_as 1 (b_blockno (bc_buf t x)) t y"
    then show "x = y" using ok by (simp add: cs dev cache_ok_def)
  next
    fix x assume "x < NBUF" "dirty t x"
    then show "valid t x" using ok c [of x] b by (cases "x = b") (auto simp: cache_ok_def buf_same_def)
  next
    fix x assume x: "x < NBUF" "b_dev (bc_buf t x) = 1 \<and> valid t x \<and> \<not> dirty t x \<and> \<not> busy t x"
    show "b_data (bc_buf t x) = memdisk t (unat (b_blockno (bc_buf t x)))"
    proof (cases "x = b")
      case True
      then show ?thesis using x d b by (simp add: cached_as_def)
    next
      case False
      then show ?thesis using x ok c [OF False] m [OF un [OF x(1) False]] by (simp add: cache_ok_def buf_same_def)
    qed
  qed
  have "view t m = view s m" if m': "m \<noteq> n" for m
  proof (cases "\<exists>x < NBUF. cached_as 1 m s x")
    case True
    then obtain x where x: "x < NBUF" "cached_as 1 m s x" by auto
    then have "x \<noteq> b" using b m' by (auto simp: cached_as_def)
    then show ?thesis using c [of x] view_cached [OF ok' x(1)] view_cached [OF ok x] cs x m m' by (auto simp: buf_same_def)
  next
    case False
    then show ?thesis using view_uncached [of m t] view_uncached [of m s] cs m m' by auto
  qed
  then show "view t = (view s)(n := b_data (bc_buf t b))"
    using view_cached [OF ok' b(1,3)] b(4) by (auto simp: fun_eq_iff)
qed

lemma ownedD:
  assumes "bcache_inv s" "owned s b = Some n"
  shows "b < NBUF" "busy s b" "cached_as 1 n s b" "valid s b" "n < disksize s" "view s n = b_data (bc_buf s b)"
proof -
  show b: "b < NBUF" "busy s b" using assms(2) by (auto simp: owned_def split: if_splits)
  then show c: "cached_as 1 n s b" and v: "valid s b" and "n < disksize s"
    using assms by (auto simp: owned_def bcache_inv_def cached_as_def)
  show "view s n = b_data (bc_buf s b)" using assms view_cached [OF _ b(1) c] v by (simp add: bcache_inv_def)
qed

lemma put_law:
  assumes inv: "bcache_inv s" and o: "owned s b = Some n"
  shows "bcache_inv (put_data b d s) \<and> owned (put_data b d s) = owned s \<and> marked (put_data b d s) = marked s \<and>
    view (put_data b d s) = (view s)(n := d) \<and> dsk (put_data b d s) = dsk s \<and>
    disk_writes (put_data b d s) = disk_writes s \<and>
    (\<lambda>c. b_data (bc_buf (put_data b d s) c)) = (\<lambda>c. b_data (bc_buf s c))(b := d) \<and> bio_frame s (put_data b d s)"
proof -
  let ?t = "put_data b d s"
  note D = ownedD [OF inv o]
  have ok: "cache_ok s" using inv by (simp add: bcache_inv_def)
  have t: "bc_buf ?t = (bc_buf s)(b := (bc_buf s b)\<lparr>b_data := d\<rparr>)" by (simp add: put_data_def)
  have v: "cache_ok ?t \<and> view ?t = (view s)(n := b_data (bc_buf ?t b))"
    by (intro conjI; rule view_modify [OF ok D(1,3)])
       (use D in \<open>auto simp: put_data_def buf_same_def cached_as_def\<close>)
  have "lru ?t bs = lru s bs" for bs by (rule lru_cong) (auto simp: t)
  then have "bcache_inv ?t" using inv v by (auto simp: bcache_inv_def lock_ready_def put_data_def)
  moreover have "owned ?t = owned s" "marked ?t = marked s" by (auto simp: owned_def marked_def t fun_eq_iff)
  ultimately show ?thesis using v bio_frame_upd_buf by (auto simp: put_data_def dsk_def)
qed

lemma bwrite_law:
  assumes inv: "bcache_inv s" and o: "owned s b = Some n"
  shows "\<exists>t. bwrite b s = Ok () t \<and> bcache_inv t \<and> owned t = owned s \<and> marked t = marked s - {b} \<and> view t = view s \<and>
    dsk t = (dsk s)(n := view s n) \<and>
    disk_writes t = disk_writes s @ [(n, view s n)] \<and>
    (\<lambda>c. b_data (bc_buf t c)) = (\<lambda>c. b_data (bc_buf s c)) \<and> bio_frame s t"
proof -
  note D = ownedD [OF inv o]
  let ?f = "(b_flags (bc_buf s b) OR B_DIRTY) AND NOT B_DIRTY OR B_VALID"
  define t where "t = s\<lparr>bc_buf := (bc_buf s)(b := (bc_buf s b)\<lparr>b_flags := ?f\<rparr>),
     memdisk := (memdisk s)(unat n := b_data (bc_buf s b)), disk_writes := disk_writes s @ [(n, b_data (bc_buf s b))]\<rparr>"
  have n: "b_dev (bc_buf s b) = 1" "b_blockno (bc_buf s b) = n" using D by (auto simp: cached_as_def)
  then have w: "bwrite b s = Ok () t" using bwrite_ok [OF D(2)] D(5) by (simp add: t_def upd_buf_def)
  have ok: "cache_ok s" using inv by (simp add: bcache_inv_def)
  have v: "cache_ok t \<and> view t = (view s)(n := b_data (bc_buf t b))"
    by (intro conjI; rule view_modify [OF ok D(1,3)])
       (use D in \<open>auto simp: t_def buf_same_def cached_as_def\<close>)
  have "lru t bs = lru s bs" for bs by (rule lru_cong) (auto simp: t_def)
  then have "bcache_inv t" using inv v D n by (auto simp: bcache_inv_def lock_ready_def t_def)
  moreover have "owned t = owned s" "marked t = marked s - {b}"
    using D by (auto simp: owned_def marked_def t_def fun_eq_iff split: if_splits)
  moreover have "view t = view s" using v D by (auto simp: t_def)
  moreover have "dsk t = (dsk s)(n := view s n)" using D by (auto simp: t_def dsk_def fun_eq_iff)
  moreover have "disk_writes t = disk_writes s @ [(n, view s n)]" using D by (simp add: t_def)
  moreover have "(\<lambda>c. b_data (bc_buf t c)) = (\<lambda>c. b_data (bc_buf s c))" by (auto simp: t_def fun_eq_iff)
  moreover have "bio_frame s t" by (simp add: bio_frame_def t_def)
  ultimately show ?thesis using w by blast
qed

lemma released_frame:
  "memdisk (released b s) = memdisk s" "disk_writes (released b s) = disk_writes s" "bio_frame s (released b s)"
  "b_flags (bc_buf (released b s) c) = (if c = b then b_flags (bc_buf s b) AND NOT B_BUSY else b_flags (bc_buf s c))"
  "b_dev (bc_buf (released b s) c) = b_dev (bc_buf s c)" "b_blockno (bc_buf (released b s) c) = b_blockno (bc_buf s c)"
  "b_data (bc_buf (released b s) c) = b_data (bc_buf s c)"
proof -
  have f: "bio_frame s (unlink b s)" "bio_frame s (link_front b s)" for s :: "'a biost_scheme"
    unfolding link_front_def unlink_def Let_def by (intro bio_frame_upd_buf bio_frame_trans [OF _ bio_frame_upd_buf])+
  have "bio_frame t (wakeup1 ch t)" for t :: "'a biost_scheme" and ch by (simp add: bio_frame_def wakeup1_def)
  from bio_frame_trans [OF bio_frame_trans [OF bio_frame_trans [OF f(1) f(2)] bio_frame_upd_buf] this]
  show "bio_frame s (released b s)" by (simp add: released_def)
qed (simp_all add: released_def wakeup1_def)

lemma brelse_law:
  assumes inv: "bcache_inv s" and o: "owned s b = Some n" and sync: "b \<in> marked s \<or> view s n = dsk s n"
  shows "\<exists>t. brelse b s = Ok () t \<and> bcache_inv t \<and> owned t = (owned s)(b := None) \<and> marked t = marked s \<and> view t = view s \<and>
    dsk t = dsk s \<and> disk_writes t = disk_writes s \<and>
    (\<lambda>c. b_data (bc_buf t c)) = (\<lambda>c. b_data (bc_buf s c)) \<and> bio_frame s t"
proof -
  note D = ownedD [OF inv o]
  let ?t = "released b s"
  have w: "brelse b s = Ok () ?t" using brelse_ok inv D by (auto simp: bcache_inv_def)
  have ok: "cache_ok s" using inv by (simp add: bcache_inv_def)
  have v: "cache_ok ?t \<and> view ?t = (view s)(n := b_data (bc_buf ?t b))"
    by (intro conjI; rule view_modify [OF ok D(1,3)])
       (use D sync in \<open>auto simp: released_frame buf_same_def cached_as_def marked_def dsk_def\<close>)
  obtain bs where bs: "lru s bs" using inv by (auto simp: bcache_inv_def)
  then have "b \<in> set bs" using D(1) by (auto simp: lru_def)
  then have "\<exists>bs. lru ?t bs" using released_simps [OF bs] by blast
  then have "bcache_inv ?t"
    using inv v bio_frame_fields [OF released_frame(3), of b s] D
    by (auto simp: bcache_inv_def lock_ready_def released_frame)
  moreover have "owned ?t = (owned s)(b := None)" "marked ?t = marked s"
    by (auto simp: owned_def marked_def released_frame fun_eq_iff)
  moreover have "view ?t = view s" using v D by (auto simp: released_frame)
  ultimately show ?thesis using w by (intro exI [of _ ?t]) (simp add: released_frame dsk_def)
qed

interpretation bcache: block_store bcache_inv disksize view dsk disk_writes owned marked
  "\<lambda>s b. b_data (bc_buf s b)" put_data "bread 1" bwrite brelse bio_frame
proof unfold_locales
  fix s t u :: "'a biost_scheme" and b d and n :: u32
  show "bio_frame s t \<Longrightarrow> bio_frame t u \<Longrightarrow> bio_frame s u" by (rule bio_frame_trans)
  show "bio_frame s t \<Longrightarrow> disksize t = disksize s" by (rule bio_frame_fields)
  show "dom (owned s) \<union> marked s \<subseteq> {..<NBUF}" by (auto simp: owned_dom)
  show "bcache_inv s \<Longrightarrow> owned s b = Some n \<Longrightarrow> n < disksize s" by (rule ownedD)
  show "bcache_inv s \<Longrightarrow> owned s b = Some n \<Longrightarrow> view s n = b_data (bc_buf s b)" by (rule ownedD)
qed (fact bread_law put_law bwrite_law brelse_law)+

end
