(* ===== verification/Bytes.thy ===== *)
theory Bytes
  imports Xv6_Prelude
begin

text \<open>
  C objects inside a buffer of bytes: the little-endian accesses the compiler emits for a \<^verbatim>\<open>ushort\<close> or \<^verbatim>\<open>uint\<close>
  field at an offset of a block, \<open>memmove\<close> into a range of it, and what a read sees after a write.
\<close>

definition ld16 :: "u8 list \<Rightarrow> nat \<Rightarrow> u16" where
  "ld16 d i = ucast (d ! i) OR push_bit 8 (ucast (d ! (i + 1)))"

definition st16 :: "u8 list \<Rightarrow> nat \<Rightarrow> u16 \<Rightarrow> u8 list" where
  "st16 d i v = d[i := ucast v, i + 1 := ucast (drop_bit 8 v)]"

definition ld32 :: "u8 list \<Rightarrow> nat \<Rightarrow> u32" where
  "ld32 d i = ucast (d ! i) OR push_bit 8 (ucast (d ! (i + 1))) OR push_bit 16 (ucast (d ! (i + 2)))
     OR push_bit 24 (ucast (d ! (i + 3)))"

definition st32 :: "u8 list \<Rightarrow> nat \<Rightarrow> u32 \<Rightarrow> u8 list" where
  "st32 d i v = d[i := ucast v, i + 1 := ucast (drop_bit 8 v), i + 2 := ucast (drop_bit 16 v),
     i + 3 := ucast (drop_bit 24 v)]"

definition splice :: "u8 list \<Rightarrow> nat \<Rightarrow> u8 list \<Rightarrow> u8 list" where
  "splice d i bs = take i d @ bs @ drop (i + length bs) d"

section \<open>Reading what was written\<close>

lemma st_length [simp]: "length (st16 d i v) = length d" "length (st32 d i w) = length d"
  by (simp_all add: st16_def st32_def)

lemma ld16_st16 [simp]: "i + 1 < length d \<Longrightarrow> ld16 (st16 d i v) i = v"
proof (rule bit_word_eqI)
  fix n assume i: "i + 1 < length d" and n: "n < LENGTH(16)"
  then consider "n < 8" | "8 \<le> n" "n < 16" by fastforce
  then show "bit (ld16 (st16 d i v) i) n = bit v n" using i by cases (auto simp: ld16_def st16_def bit_simps)
qed

lemma ld32_st32 [simp]: "i + 3 < length d \<Longrightarrow> ld32 (st32 d i v) i = v"
proof (rule bit_word_eqI)
  fix n assume i: "i + 3 < length d" and n: "n < LENGTH(32)"
  then consider "n < 8" | "8 \<le> n" "n < 16" | "16 \<le> n" "n < 24" | "24 \<le> n" "n < 32" by fastforce
  then show "bit (ld32 (st32 d i v) i) n = bit v n" using i by cases (auto simp: ld32_def st32_def bit_simps)
qed

lemma st_other [simp]:
  "k < i \<or> i + 2 \<le> k \<Longrightarrow> st16 d i v ! k = d ! k" "k < i \<or> i + 4 \<le> k \<Longrightarrow> st32 d i w ! k = d ! k"
  by (auto simp: st16_def st32_def)

lemma ld_st_other [simp]:
  "k + 2 \<le> i \<or> i + 2 \<le> k \<Longrightarrow> ld16 (st16 d i v) k = ld16 d k"
  "k + 2 \<le> i \<or> i + 4 \<le> k \<Longrightarrow> ld16 (st32 d i w) k = ld16 d k"
  "k + 4 \<le> i \<or> i + 2 \<le> k \<Longrightarrow> ld32 (st16 d i v) k = ld32 d k"
  "k + 4 \<le> i \<or> i + 4 \<le> k \<Longrightarrow> ld32 (st32 d i w) k = ld32 d k"
  by (auto simp: ld16_def ld32_def)

lemma splice_length [simp]: "i + length bs \<le> length d \<Longrightarrow> length (splice d i bs) = length d"
  by (simp add: splice_def)

lemma splice_nth:
  "i + length bs \<le> length d \<Longrightarrow> k < length d \<Longrightarrow>
   splice d i bs ! k = (if i \<le> k \<and> k < i + length bs then bs ! (k - i) else d ! k)"
  by (auto simp: splice_def nth_append min_def)

lemma splice_all [simp]: "length bs = length d \<Longrightarrow> splice d 0 bs = bs"
  by (simp add: splice_def)

end
