(* ===== verification/Log.thy ===== *)
theory Log
  imports Block_Store Bytes
begin

text \<open>
  The redo log, \<^verbatim>\<open>log.c\<close>, and \<open>readsb\<close> of \<^verbatim>\<open>fs.c\<close>, which it calls.  \<open>lg_n\<close> and \<open>lg_block\<close> are the header \<^verbatim>\<open>log.lh\<close> in memory;
  an access to \<^verbatim>\<open>log.lh.block\<close> past its 30 entries is a \<open>Fault\<close>.  The loops run over the count the code compares
  their index with, which their bodies do not change.
\<close>

section \<open>The super block\<close>

record superblock =
  sb_size :: u32
  sb_nblocks :: u32
  sb_ninodes :: u32
  sb_nlog :: u32
  sb_logstart :: u32
  sb_inodestart :: u32
  sb_bmapstart :: u32

definition sb_of :: "u8 list \<Rightarrow> superblock" where
  "sb_of d = \<lparr>sb_size = ld32 d 0, sb_nblocks = ld32 d 4, sb_ninodes = ld32 d 8, sb_nlog = ld32 d 12,
     sb_logstart = ld32 d 16, sb_inodestart = ld32 d 20, sb_bmapstart = ld32 d 24\<rparr>"

definition readsb :: "u32 \<Rightarrow> 'a biost_scheme \<Rightarrow> ('a biost_scheme, superblock) res" where
  "readsb dev s =
     rbind (bread dev 1 s) (\<lambda>bp s.
     let sb = sb_of (b_data (bc_buf s bp)) in
     rbind (brelse bp s) (\<lambda>_ s. Ok sb s))"

section \<open>State\<close>

record logst = biost +
  lg_start :: i32
  lg_size :: i32
  lg_outstanding :: i32
  lg_committing :: i32
  lg_dev :: i32
  lg_n :: i32
  lg_block :: "i32 list"

abbreviation (input) lg_count :: "'a logst_scheme \<Rightarrow> nat" where
  "lg_count s \<equiv> nat (sint (lg_n s))"

section \<open>The header\<close>

fun head_in :: "u8 list \<Rightarrow> nat \<Rightarrow> nat \<Rightarrow> 'a logst_scheme \<Rightarrow> ('a logst_scheme, unit) res" where
  "head_in d 0 i s = Ok () s"
| "head_in d (Suc k) i s =
     (if i \<ge> LOGSIZE then Fault ''log.lh.block''
      else head_in d k (Suc i) (s\<lparr>lg_block := (lg_block s)[i := ld32 d (4 + 4 * i)]\<rparr>))"

definition read_head :: "'a logst_scheme \<Rightarrow> ('a logst_scheme, unit) res" where
  "read_head s =
     rbind (bread (lg_dev s) (lg_start s) s) (\<lambda>b s.
     let lh = b_data (bc_buf s b); s = s\<lparr>lg_n := ld32 lh 0\<rparr> in
     rbind (head_in lh (lg_count s) 0 s) (\<lambda>_ s. brelse b s))"

fun head_out :: "u8 list \<Rightarrow> nat \<Rightarrow> nat \<Rightarrow> 'a logst_scheme \<Rightarrow> ('a logst_scheme, u8 list) res" where
  "head_out d 0 i s = Ok d s"
| "head_out d (Suc k) i s =
     (if i \<ge> LOGSIZE then Fault ''log.lh.block''
      else head_out (st32 d (4 + 4 * i) (lg_block s ! i)) k (Suc i) s)"

definition write_head :: "'a logst_scheme \<Rightarrow> ('a logst_scheme, unit) res" where
  "write_head s =
     rbind (bread (lg_dev s) (lg_start s) s) (\<lambda>b s.
     rbind (head_out (st32 (b_data (bc_buf s b)) 0 (lg_n s)) (lg_count s) 0 s) (\<lambda>hb s.
     rbind (bwrite b (put_data b hb s)) (\<lambda>_ s. brelse b s)))"

section \<open>Copying between the log and the home blocks\<close>

fun install_loop :: "nat \<Rightarrow> nat \<Rightarrow> 'a logst_scheme \<Rightarrow> ('a logst_scheme, unit) res" where
  "install_loop 0 tail s = Ok () s"
| "install_loop (Suc k) tail s =
     rbind (bread (lg_dev s) (lg_start s + of_nat tail + 1) s) (\<lambda>lbuf s.
     if tail \<ge> LOGSIZE then Fault ''log.lh.block''
     else rbind (bread (lg_dev s) (lg_block s ! tail) s) (\<lambda>dbuf s.
     rbind (bwrite dbuf (put_data dbuf (b_data (bc_buf s lbuf)) s)) (\<lambda>_ s.
     rbind (brelse lbuf s) (\<lambda>_ s.
     rbind (brelse dbuf s) (\<lambda>_ s.
     install_loop k (Suc tail) s)))))"

definition install_trans :: "'a logst_scheme \<Rightarrow> ('a logst_scheme, unit) res" where
  "install_trans s = install_loop (lg_count s) 0 s"

fun write_log_loop :: "nat \<Rightarrow> nat \<Rightarrow> 'a logst_scheme \<Rightarrow> ('a logst_scheme, unit) res" where
  "write_log_loop 0 tail s = Ok () s"
| "write_log_loop (Suc k) tail s =
     rbind (bread (lg_dev s) (lg_start s + of_nat tail + 1) s) (\<lambda>to s.
     if tail \<ge> LOGSIZE then Fault ''log.lh.block''
     else rbind (bread (lg_dev s) (lg_block s ! tail) s) (\<lambda>from s.
     rbind (bwrite to (put_data to (b_data (bc_buf s from)) s)) (\<lambda>_ s.
     rbind (brelse from s) (\<lambda>_ s.
     rbind (brelse to s) (\<lambda>_ s.
     write_log_loop k (Suc tail) s)))))"

definition write_log :: "'a logst_scheme \<Rightarrow> ('a logst_scheme, unit) res" where
  "write_log s = write_log_loop (lg_count s) 0 s"

section \<open>Recovery and commit\<close>

definition recover_from_log :: "'a logst_scheme \<Rightarrow> ('a logst_scheme, unit) res" where
  "recover_from_log s =
     rbind (read_head s) (\<lambda>_ s.
     rbind (install_trans s) (\<lambda>_ s.
     write_head (s\<lparr>lg_n := 0\<rparr>)))"

definition initlog :: "i32 \<Rightarrow> 'a logst_scheme \<Rightarrow> ('a logst_scheme, unit) res" where
  "initlog dev s =
     (let s = initlock LogLock s in
      rbind (readsb dev s) (\<lambda>sb s.
      recover_from_log (s\<lparr>lg_start := sb_logstart sb, lg_size := sb_nlog sb, lg_dev := dev\<rparr>)))"

definition commit :: "'a logst_scheme \<Rightarrow> ('a logst_scheme, unit) res" where
  "commit s =
     (if sint (lg_n s) > 0 then
        rbind (write_log s) (\<lambda>_ s.
        rbind (write_head s) (\<lambda>_ s.
        rbind (install_trans s) (\<lambda>_ s.
        write_head (s\<lparr>lg_n := 0\<rparr>))))
      else Ok () s)"

section \<open>Operations\<close>

text \<open>\<open>begin_op_loop\<close> is one pass of the \<^verbatim>\<open>while(1)\<close>, which a process that slept in it makes again.\<close>

definition begin_op_loop :: "'a logst_scheme \<Rightarrow> ('a logst_scheme, unit) res" where
  "begin_op_loop s =
     (if lg_committing s \<noteq> 0 then sleep ChanLog (Some LogLock) s
      else if sint (lg_n s + (lg_outstanding s + 1) * of_nat MAXOPBLOCKS) > int LOGSIZE then sleep ChanLog (Some LogLock) s
      else release LogLock (s\<lparr>lg_outstanding := lg_outstanding s + 1\<rparr>))"

definition begin_op :: "'a logst_scheme \<Rightarrow> ('a logst_scheme, unit) res" where
  "begin_op s = rbind (acquire LogLock s) (\<lambda>_ s. begin_op_loop s)"

definition begin_op_return :: "bool \<Rightarrow> 'a logst_scheme \<Rightarrow> ('a logst_scheme, unit) res" where
  "begin_op_return ena s = rbind (sleep_return ena LogLock s) (\<lambda>_ s. begin_op_loop s)"

definition end_op :: "'a logst_scheme \<Rightarrow> ('a logst_scheme, unit) res" where
  "end_op s =
     rbind (acquire LogLock s) (\<lambda>_ s.
     let s = s\<lparr>lg_outstanding := lg_outstanding s - 1\<rparr> in
     if lg_committing s \<noteq> 0 then Panic ''log.committing''
     else if lg_outstanding s = 0 then
       rbind (release LogLock (s\<lparr>lg_committing := 1\<rparr>)) (\<lambda>_ s.
       rbind (commit s) (\<lambda>_ s.
       rbind (acquire LogLock s) (\<lambda>_ s.
       rbind (wakeup ChanLog (s\<lparr>lg_committing := 0\<rparr>)) (\<lambda>_ s.
       release LogLock s))))
     else rbind (wakeup ChanLog s) (\<lambda>_ s. release LogLock s))"

fun log_find :: "i32 list \<Rightarrow> nat \<Rightarrow> nat \<Rightarrow> i32 \<Rightarrow> nat" where
  "log_find bl 0 i b = i"
| "log_find bl (Suc k) i b = (if bl ! i = b then i else log_find bl k (Suc i) b)"

definition log_write :: "nat \<Rightarrow> 'a logst_scheme \<Rightarrow> ('a logst_scheme, unit) res" where
  "log_write b s =
     (if sint (lg_n s) \<ge> int LOGSIZE \<or> sint (lg_n s) \<ge> sint (lg_size s - 1) then Panic ''too big a transaction''
      else if sint (lg_outstanding s) < 1 then Panic ''log_write outside of trans''
      else rbind (acquire LogLock s) (\<lambda>_ s.
        let bno = b_blockno (bc_buf s b); i = log_find (lg_block s) (lg_count s) 0 bno;
            s = s\<lparr>lg_block := (lg_block s)[i := bno]\<rparr>;
            s = (if int i = sint (lg_n s) then s\<lparr>lg_n := lg_n s + 1\<rparr> else s);
            s = upd_buf b (\<lambda>x. x\<lparr>b_flags := b_flags x OR B_DIRTY\<rparr>) s
        in release LogLock s))"

end
