(* ===== verification/Log_Laws.thy ===== *)
theory Log_Laws
  imports Log
begin

text \<open>
  Facts about the log: every one of its procedures writes a known list of blocks to the disk (\<open>log_step\<close>), the
  header block decodes to what \<open>write_head\<close> put in it, and recovery from the disk as it is after any number of
  the writes of a commit gives the contents before or after the transaction.
\<close>

section \<open>Writes\<close>

type_synonym image = "u32 \<Rightarrow> u8 list"

definition apply_writes :: "(u32 \<times> u8 list) list \<Rightarrow> image \<Rightarrow> image" where
  "apply_writes ws d = foldl (\<lambda>d (n, x). d(n := x)) d ws"

lemma apply_writes_simps [simp]:
  "apply_writes [] d = d" "apply_writes ((n, x) # ws) d = apply_writes ws (d(n := x))"
  "apply_writes (ws @ vs) d = apply_writes vs (apply_writes ws d)"
  by (simp_all add: apply_writes_def)

lemma apply_writes_other: "n \<notin> fst ` set ws \<Longrightarrow> apply_writes ws d n = d n"
  by (induction ws arbitrary: d) auto

text \<open>When a block is always written with the same contents, the order does not matter.\<close>

lemma apply_writes_map:
  "(\<And>i. i \<in> set is \<Longrightarrow> f i = g (b i)) \<Longrightarrow>
   apply_writes (map (\<lambda>i. (b i, f i)) is) d n = (if n \<in> b ` set is then g n else d n)"
proof (induction "is" arbitrary: d)
  case (Cons i js)
  then show ?case by (auto simp: image_iff)
qed simp

definition log_step :: "'a biost_scheme \<Rightarrow> (u32 \<times> u8 list) list \<Rightarrow> 'a biost_scheme \<Rightarrow> bool" where
  "log_step s ws t \<longleftrightarrow> bcache_inv t \<and> owned t = Map.empty \<and> marked t \<subseteq> marked s \<and> view t = apply_writes ws (view s) \<and>
     dsk t = apply_writes ws (dsk s) \<and> disk_writes t = disk_writes s @ ws \<and> bio_frame s t"

lemma log_step_trans: "log_step s ws t \<Longrightarrow> log_step t vs u \<Longrightarrow> log_step s (ws @ vs) u"
  unfolding log_step_def using bio_frame_trans by fastforce

lemma bio_frame_refl [simp]: "bio_frame s s"
  by (simp add: bio_frame_def)

lemma log_step_refl: "bcache_inv s \<Longrightarrow> owned s = Map.empty \<Longrightarrow> log_step s [] s"
  by (simp add: log_step_def)

lemma bio_frame_log:
  assumes "bio_frame s t"
  shows "lg_n t = lg_n s" "lg_block t = lg_block s" "lg_start t = lg_start s" "lg_dev t = lg_dev s" "lg_size t = lg_size s"
    "lg_outstanding t = lg_outstanding s" "lg_committing t = lg_committing s" "logst.more t = logst.more s"
proof -
  have t: "t = s\<lparr>pt_proc := pt_proc t, bc_buf := bc_buf t, memdisk := memdisk t, disk_writes := disk_writes t\<rparr>"
    using assms by (simp add: bio_frame_def)
  show "lg_n t = lg_n s" "lg_block t = lg_block s" "lg_start t = lg_start s" "lg_dev t = lg_dev s" "lg_size t = lg_size s"
    "lg_outstanding t = lg_outstanding s" "lg_committing t = lg_committing s" "logst.more t = logst.more s"
    by (subst t, simp)+
qed

section \<open>One block\<close>

definition log_ready :: "'a biost_scheme \<Rightarrow> bool" where
  "log_ready s \<longleftrightarrow> bcache_inv s \<and> owned s = Map.empty \<and> card (marked s) + 1 < NBUF"

lemma finite_marked [simp]: "finite (marked s)"
  by (simp add: marked_def)

lemma log_step_ready: "log_ready s \<Longrightarrow> log_step s ws t \<Longrightarrow> log_ready t"
  unfolding log_ready_def log_step_def using card_mono [OF finite_marked, of "marked t" s] by auto

lemma write_back:
  assumes r: "log_ready s" and n: "n < disksize s"
  obtains b s1 s2 t where "bread 1 n s = Ok b s1" "b_data (bc_buf s1 b) = view s n" "bio_frame s s1"
    "bwrite b (put_data b d s1) = Ok () s2" "brelse b s2 = Ok () t" "log_step s [(n, d)] t"
proof -
  have a: "bcache_inv s" "n \<notin> ran (owned s)" "card (dom (owned s) \<union> marked s) < NBUF"
    using r by (auto simp: log_ready_def)
  show thesis
    by (rule bcache.write_block [OF a n, of d])
       (rule that, assumption+, use r in \<open>auto simp: log_step_def log_ready_def\<close>)
qed

lemma copy_block:
  assumes r: "log_ready s" and n: "a < disksize s" "n < disksize s" "a \<noteq> n"
  obtains x y s1 s2 where "bread 1 a s = Ok x s1" "bread 1 n s1 = Ok y s2" "bio_frame s s1"
    "\<exists>s3 s4 t. bwrite y (put_data y (b_data (bc_buf s2 x)) s2) = Ok () s3 \<and> brelse x s3 = Ok () s4 \<and> brelse y s4 = Ok () t \<and>
       log_step s [(n, view s a)] t"
    "\<exists>s3 s4 t. bwrite x (put_data x (b_data (bc_buf s2 y)) s2) = Ok () s3 \<and> brelse y s3 = Ok () s4 \<and> brelse x s4 = Ok () t \<and>
       log_step s [(a, view s n)] t"
proof -
  have a: "bcache_inv s" "ran (owned s) \<inter> {a, n} = {}" "a \<noteq> n" "card (dom (owned s) \<union> marked s) + 1 < NBUF"
    using r n by (auto simp: log_ready_def)
  have e: "owned s = Map.empty" using r by (simp add: log_ready_def)
  obtain x y s1 s2 where b: "bread 1 a s = Ok x s1" "bread 1 n s1 = Ok y s2" "bcache_inv s2"
    "owned s2 = (owned s)(x \<mapsto> a, y \<mapsto> n)" "x \<noteq> y" "owned s x = None" "owned s y = None" "marked s2 = marked s" "view s2 = view s"
    "dsk s2 = dsk s" "disk_writes s2 = disk_writes s"
    "b_data (bc_buf s2 x) = view s a" "b_data (bc_buf s2 y) = view s n"
    "x \<in> marked s \<or> view s a = dsk s a" "y \<in> marked s \<or> view s n = dsk s n"
    "bio_frame s s1" "bio_frame s s2"
    by (rule bcache.two_bufs [OF a n(1,2)])
  have m: "dsk s2 k = dsk s k" for k using b(10) by (auto dest: fun_cong)
  have o: "owned s2 x = Some a" "owned s2 y = Some n" using b(4,5) e by auto
  have sync: "x \<in> marked s2 \<or> view s2 a = dsk s2 a" "y \<in> marked s2 \<or> view s2 n = dsk s2 n"
    using b m by simp_all
  have step: "log_step s [(k, d)] t"
    if "bcache_inv t" "owned t = (owned s2)(u := None, v := None)" "{u, v} = {x, y}" "marked t = marked s2 - {v}"
      "view t = (view s2)(k := d)" "dsk t = (dsk s2)(k := d)"
      "disk_writes t = disk_writes s2 @ [(k, d)]" "bio_frame s2 t" for k d t u v
  proof -
    have "owned t = Map.empty" using that(2,3) b(4) e by (auto simp: fun_eq_iff doubleton_eq_iff)
    then show ?thesis using that b(8-11) bio_frame_trans [OF b(17) that(8)] by (auto simp: log_step_def)
  qed
  have A: "\<exists>s3 s4 t. bwrite y (put_data y (b_data (bc_buf s2 x)) s2) = Ok () s3 \<and> brelse x s3 = Ok () s4 \<and> brelse y s4 = Ok () t \<and>
       log_step s [(n, view s a)] t"
  proof -
    obtain s3 s4 t where c: "bwrite y (put_data y (view s a) s2) = Ok () s3" "brelse x s3 = Ok () s4" "brelse y s4 = Ok () t"
      and d: "bcache_inv t" "owned t = (owned s2)(x := None, y := None)" "marked t = marked s2 - {y}" "view t = (view s2)(n := view s a)"
      "dsk t = (dsk s2)(n := view s a)" "disk_writes t = disk_writes s2 @ [(n, view s a)]"
      and f: "bio_frame s2 s3" "bio_frame s2 s4" "bio_frame s2 t"
      by (rule bcache.copy_tail [OF b(3) o(2,1) b(5) [symmetric] n(3) [symmetric] sync(1), of "view s a"])
    show ?thesis unfolding b(12) by (intro exI conjI) (rule c, rule c, rule c, rule step [OF d(1,2) _ d(3-6) f(3)], simp)
  qed
  have B: "\<exists>s3 s4 t. bwrite x (put_data x (b_data (bc_buf s2 y)) s2) = Ok () s3 \<and> brelse y s3 = Ok () s4 \<and> brelse x s4 = Ok () t \<and>
       log_step s [(a, view s n)] t"
  proof -
    obtain s3 s4 t where c: "bwrite x (put_data x (view s n) s2) = Ok () s3" "brelse y s3 = Ok () s4" "brelse x s4 = Ok () t"
      and d: "bcache_inv t" "owned t = (owned s2)(y := None, x := None)" "marked t = marked s2 - {x}" "view t = (view s2)(a := view s n)"
      "dsk t = (dsk s2)(a := view s n)" "disk_writes t = disk_writes s2 @ [(a, view s n)]"
      and f: "bio_frame s2 s3" "bio_frame s2 s4" "bio_frame s2 t"
      by (rule bcache.copy_tail [OF b(3) o b(5) n(3) sync(2), of "view s n"])
    show ?thesis unfolding b(13) by (intro exI conjI) (rule c, rule c, rule c, rule step [OF d(1,2) _ d(3-6) f(3)], auto)
  qed
  show thesis using that [OF b(1,2,16) A B] .
qed

section \<open>The header block\<close>

fun head_bytes :: "u8 list \<Rightarrow> nat \<Rightarrow> nat \<Rightarrow> i32 list \<Rightarrow> u8 list" where
  "head_bytes d 0 i bl = d"
| "head_bytes d (Suc k) i bl = head_bytes (st32 d (4 + 4 * i) (bl ! i)) k (Suc i) bl"

definition head_n :: "u8 list \<Rightarrow> nat" where "head_n h = nat (sint (ld32 h 0))"
definition head_blk :: "u8 list \<Rightarrow> nat \<Rightarrow> u32" where "head_blk h i = ld32 h (4 + 4 * i)"

lemma head_out_eq: "i + k \<le> LOGSIZE \<Longrightarrow> head_out d k i s = Ok (head_bytes d k i (lg_block s)) s"
  by (induction k arbitrary: d i) auto

lemma head_bytes_spec:
  "length d = 512 \<Longrightarrow> i + k \<le> LOGSIZE \<Longrightarrow>
   length (head_bytes d k i bl) = 512 \<and> ld32 (head_bytes d k i bl) 0 = ld32 d 0 \<and>
   (\<forall>j. j < i \<longrightarrow> head_blk (head_bytes d k i bl) j = head_blk d j) \<and>
   (\<forall>j. i \<le> j \<and> j < i + k \<longrightarrow> head_blk (head_bytes d k i bl) j = bl ! j)"
proof (induction k arbitrary: d i)
  case (Suc k)
  let ?d = "st32 d (4 + 4 * i) (bl ! i)"
  have IH: "length (head_bytes ?d k (Suc i) bl) = 512 \<and> ld32 (head_bytes ?d k (Suc i) bl) 0 = ld32 ?d 0 \<and>
   (\<forall>j. j < Suc i \<longrightarrow> head_blk (head_bytes ?d k (Suc i) bl) j = head_blk ?d j) \<and>
   (\<forall>j. Suc i \<le> j \<and> j < Suc i + k \<longrightarrow> head_blk (head_bytes ?d k (Suc i) bl) j = bl ! j)"
    by (rule Suc.IH) (use Suc.prems in auto)
  have o: "head_blk ?d j = head_blk d j" if "j < i" for j using that by (simp add: head_blk_def)
  have s: "head_blk ?d i = bl ! i" "ld32 ?d 0 = ld32 d 0" using Suc.prems by (simp_all add: head_blk_def)
  show ?case
  proof (intro conjI allI impI)
    fix j assume "i \<le> j \<and> j < i + Suc k"
    then show "head_blk (head_bytes d (Suc k) i bl) j = bl ! j" using IH s by (cases "j = i") auto
  qed (use IH s o in auto)
qed auto

lemma head_in_spec:
  "i + k \<le> LOGSIZE \<Longrightarrow> length (lg_block s) = LOGSIZE \<Longrightarrow>
   \<exists>bl. head_in d k i s = Ok () (s\<lparr>lg_block := bl\<rparr>) \<and> length bl = LOGSIZE \<and> (\<forall>j < i. bl ! j = lg_block s ! j) \<and>
     (\<forall>j. i \<le> j \<and> j < i + k \<longrightarrow> bl ! j = head_blk d j)"
proof (induction k arbitrary: i s)
  case 0
  then show ?case by (intro exI [of _ "lg_block s"]) auto
next
  case (Suc k)
  let ?s = "s\<lparr>lg_block := (lg_block s)[i := ld32 d (4 + 4 * i)]\<rparr>"
  obtain bl where "head_in d k (Suc i) ?s = Ok () (?s\<lparr>lg_block := bl\<rparr>)" "length bl = LOGSIZE"
    "\<forall>j < Suc i. bl ! j = lg_block ?s ! j" "\<forall>j. Suc i \<le> j \<and> j < Suc i + k \<longrightarrow> bl ! j = head_blk d j"
    using Suc.IH [of "Suc i" ?s] Suc.prems by auto
  note bl = this
  have "bl ! j = head_blk d j" if "i \<le> j" "j < i + Suc k" for j
    using bl(3,4) that Suc.prems by (cases "j = i") (auto simp: head_blk_def)
  then show ?case using Suc.prems bl by (intro exI [of _ bl]) auto
qed

section \<open>The procedures\<close>

lemma bio_lg_update [simp]:
  "bcache_inv (s\<lparr>lg_n := x\<rparr>) = bcache_inv s" "owned (s\<lparr>lg_n := x\<rparr>) = owned s" "marked (s\<lparr>lg_n := x\<rparr>) = marked s"
  "view (s\<lparr>lg_n := x\<rparr>) = view s" "dsk (s\<lparr>lg_n := x\<rparr>) = dsk s"
  "bcache_inv (s\<lparr>lg_block := y\<rparr>) = bcache_inv s" "owned (s\<lparr>lg_block := y\<rparr>) = owned s"
  "marked (s\<lparr>lg_block := y\<rparr>) = marked s" "view (s\<lparr>lg_block := y\<rparr>) = view s" "dsk (s\<lparr>lg_block := y\<rparr>) = dsk s"
  by (simp_all add: bcache_inv_def owned_def marked_def view_def dsk_def lru_def cache_ok_def cached_as_def lock_ready_def fun_eq_iff
      cong: option.case_cong)

lemma log_ready_update [simp]: "log_ready (s\<lparr>lg_n := x\<rparr>) = log_ready s" "log_ready (s\<lparr>lg_block := y\<rparr>) = log_ready s"
  by (simp_all add: log_ready_def)

lemma write_head_step:
  assumes r: "log_ready s" and l: "lg_dev s = 1" "lg_start s < disksize s" "lg_count s \<le> LOGSIZE"
  obtains t where "write_head s = Ok () t"
    "log_step s [(lg_start s, head_bytes (st32 (view s (lg_start s)) 0 (lg_n s)) (lg_count s) 0 (lg_block s))] t"
proof -
  let ?h = "head_bytes (st32 (view s (lg_start s)) 0 (lg_n s)) (lg_count s) 0 (lg_block s)"
  obtain b s1 s2 t where b: "bread 1 (lg_start s) s = Ok b s1" "b_data (bc_buf s1 b) = view s (lg_start s)" "bio_frame s s1"
    "bwrite b (put_data b ?h s1) = Ok () s2" "brelse b s2 = Ok () t" "log_step s [(lg_start s, ?h)] t"
    by (rule write_back [OF r l(2), of ?h])
  have "lg_n s1 = lg_n s" "lg_block s1 = lg_block s" using bio_frame_log [OF b(3)] by auto
  then have "write_head s = Ok () t" using b l by (simp add: write_head_def head_out_eq)
  with b(6) show thesis using that by blast
qed

abbreviation (input) log_at :: "'a logst_scheme \<Rightarrow> nat \<Rightarrow> u32" where "log_at s i \<equiv> lg_start s + of_nat i + 1"

text \<open>The blocks \<open>tail\<close> and up of the log can be copied: both ends are on the disk, and no home block is a log block.\<close>

definition copyable :: "'a logst_scheme \<Rightarrow> nat \<Rightarrow> nat \<Rightarrow> bool" where
  "copyable s tail n \<longleftrightarrow> lg_dev s = 1 \<and> n \<le> LOGSIZE \<and>
     (\<forall>i. tail \<le> i \<and> i < n \<longrightarrow> log_at s i < disksize s \<and> lg_block s ! i < disksize s) \<and>
     (\<forall>i j. tail \<le> i \<and> i < n \<and> tail \<le> j \<and> j < n \<longrightarrow> log_at s i \<noteq> lg_block s ! j)"

lemma copyable_step: "bio_frame s t \<Longrightarrow> copyable s tail n \<Longrightarrow> tail \<le> tail' \<Longrightarrow> copyable t tail' n"
  using bio_frame_log [of s t] bio_frame_fields(1) [of s t] by (auto simp: copyable_def)

lemma copyableD:
  assumes "copyable s tail n" "tail < n"
  shows "lg_dev s = 1" "tail < LOGSIZE" "log_at s tail < disksize s" "lg_block s ! tail < disksize s"
    "log_at s tail \<noteq> lg_block s ! tail" "Suc tail \<le> i \<Longrightarrow> i < n \<Longrightarrow> log_at s i \<noteq> lg_block s ! tail"
    "Suc tail \<le> i \<Longrightarrow> i < n \<Longrightarrow> log_at s tail \<noteq> lg_block s ! i"
  using assms unfolding copyable_def by auto

lemma install_loop_step:
  assumes "log_ready s" "copyable s tail (tail + k)"
  obtains t where "install_loop k tail s = Ok () t"
    "log_step s (map (\<lambda>i. (lg_block s ! i, view s (log_at s i))) [tail..<tail + k]) t"
  using assms
proof (induction k arbitrary: tail s thesis)
  case 0
  then show ?case by (auto simp: log_ready_def intro: log_step_refl)
next
  case (Suc k)
  note D = copyableD [OF Suc.prems(3)]
  obtain x y s1 s2 where b: "bread 1 (log_at s tail) s = Ok x s1" "bread 1 (lg_block s ! tail) s1 = Ok y s2" "bio_frame s s1"
    and e: "\<exists>s3 s4 t. bwrite y (put_data y (b_data (bc_buf s2 x)) s2) = Ok () s3 \<and> brelse x s3 = Ok () s4 \<and> brelse y s4 = Ok () t \<and>
       log_step s [(lg_block s ! tail, view s (log_at s tail))] t"
    by (rule copy_block [OF Suc.prems(2) D(3,4,5)]) auto
  from e obtain s3 s4 t where c: "bwrite y (put_data y (b_data (bc_buf s2 x)) s2) = Ok () s3" "brelse x s3 = Ok () s4"
    "brelse y s4 = Ok () t" and st: "log_step s [(lg_block s ! tail, view s (log_at s tail))] t" by blast
  have f: "bio_frame s t" using st by (simp add: log_step_def)
  obtain u where u: "install_loop k (Suc tail) t = Ok () u"
    "log_step t (map (\<lambda>i. (lg_block t ! i, view t (log_at t i))) [Suc tail..<Suc tail + k]) u"
    using Suc.IH [of "Suc tail" t] log_step_ready [OF Suc.prems(2) st] copyable_step [OF f Suc.prems(3)] by auto
  have "map (\<lambda>i. (lg_block t ! i, view t (log_at t i))) [Suc tail..<Suc tail + k]
      = map (\<lambda>i. (lg_block s ! i, view s (log_at s i))) [Suc tail..<Suc tail + k]"
  proof (rule map_cong [OF refl])
    fix i assume "i \<in> set [Suc tail..<Suc tail + k]"
    then have "log_at s i \<noteq> lg_block s ! tail" using D(6) [of i] by auto
    then show "(lg_block t ! i, view t (log_at t i)) = (lg_block s ! i, view s (log_at s i))"
      using st bio_frame_log [OF f] by (simp add: log_step_def)
  qed
  note m = this
  have "[tail..<tail + Suc k] = tail # [Suc tail..<Suc tail + k]" by (subst upt_conv_Cons) auto
  then have "log_step s (map (\<lambda>i. (lg_block s ! i, view s (log_at s i))) [tail..<tail + Suc k]) u"
    using log_step_trans [OF st u(2)] unfolding m by (simp del: upt_Suc)
  moreover have "install_loop (Suc k) tail s = Ok () u"
    using b c u(1) D bio_frame_log [OF b(3)] by simp
  ultimately show ?case using Suc.prems(1) by blast
qed

lemma write_log_loop_step:
  assumes "log_ready s" "copyable s tail (tail + k)"
  obtains t where "write_log_loop k tail s = Ok () t"
    "log_step s (map (\<lambda>i. (log_at s i, view s (lg_block s ! i))) [tail..<tail + k]) t"
  using assms
proof (induction k arbitrary: tail s thesis)
  case 0
  then show ?case by (auto simp: log_ready_def intro: log_step_refl)
next
  case (Suc k)
  note D = copyableD [OF Suc.prems(3)]
  obtain x y s1 s2 where b: "bread 1 (log_at s tail) s = Ok x s1" "bread 1 (lg_block s ! tail) s1 = Ok y s2" "bio_frame s s1"
    and e: "\<exists>s3 s4 t. bwrite x (put_data x (b_data (bc_buf s2 y)) s2) = Ok () s3 \<and> brelse y s3 = Ok () s4 \<and> brelse x s4 = Ok () t \<and>
       log_step s [(log_at s tail, view s (lg_block s ! tail))] t"
    by (rule copy_block [OF Suc.prems(2) D(3,4,5)]) auto
  from e obtain s3 s4 t where c: "bwrite x (put_data x (b_data (bc_buf s2 y)) s2) = Ok () s3" "brelse y s3 = Ok () s4"
    "brelse x s4 = Ok () t" and st: "log_step s [(log_at s tail, view s (lg_block s ! tail))] t" by blast
  have f: "bio_frame s t" using st by (simp add: log_step_def)
  obtain u where u: "write_log_loop k (Suc tail) t = Ok () u"
    "log_step t (map (\<lambda>i. (log_at t i, view t (lg_block t ! i))) [Suc tail..<Suc tail + k]) u"
    using Suc.IH [of "Suc tail" t] log_step_ready [OF Suc.prems(2) st] copyable_step [OF f Suc.prems(3)] by auto
  have "map (\<lambda>i. (log_at t i, view t (lg_block t ! i))) [Suc tail..<Suc tail + k]
      = map (\<lambda>i. (log_at s i, view s (lg_block s ! i))) [Suc tail..<Suc tail + k]"
  proof (rule map_cong [OF refl])
    fix i assume "i \<in> set [Suc tail..<Suc tail + k]"
    then have "log_at s tail \<noteq> lg_block s ! i" using D(7) [of i] by auto
    then show "(log_at t i, view t (lg_block t ! i)) = (log_at s i, view s (lg_block s ! i))"
      using st bio_frame_log [OF f] by (simp add: log_step_def)
  qed
  note m = this
  have "[tail..<tail + Suc k] = tail # [Suc tail..<Suc tail + k]" by (subst upt_conv_Cons) auto
  then have "log_step s (map (\<lambda>i. (log_at s i, view s (lg_block s ! i))) [tail..<tail + Suc k]) u"
    using log_step_trans [OF st u(2)] unfolding m by (simp del: upt_Suc)
  moreover have "write_log_loop (Suc k) tail s = Ok () u"
    using b c u(1) D bio_frame_log [OF b(3)] by simp
  ultimately show ?case using Suc.prems(1) by blast
qed

section \<open>Commit\<close>

definition in_log :: "'a logst_scheme \<Rightarrow> u32 \<Rightarrow> bool" where
  "in_log s n \<longleftrightarrow> unat (lg_start s) \<le> unat n \<and> unat n < unat (lg_start s) + unat (lg_size s)"

definition log_wf :: "'a logst_scheme \<Rightarrow> bool" where
  "log_wf s \<longleftrightarrow> lg_dev s = 1 \<and> length (lg_block s) = LOGSIZE \<and> lg_count s < unat (lg_size s) \<and> lg_count s \<le> LOGSIZE \<and>
     unat (lg_start s) + unat (lg_size s) \<le> unat (disksize s) \<and> length (view s (lg_start s)) = 512 \<and>
     (\<forall>i < lg_count s. lg_block s ! i < disksize s \<and> \<not> in_log s (lg_block s ! i))"

lemma unat_log_at:
  assumes "i + 1 < unat (sz :: u32)" "unat st + unat sz \<le> unat (m :: u32)"
  shows "unat (st + of_nat i + 1 :: u32) = unat st + i + 1"
proof -
  have l: "unat st + Suc i < 2 ^ 32" using assms unsigned_less [of m, where ?'a = nat] by simp
  have "unat (st + of_nat (Suc i)) = unat st + Suc i" by (rule unat_add_of_nat [OF l])
  moreover have "st + of_nat (Suc i) = st + of_nat i + 1" by (simp add: ac_simps)
  ultimately show ?thesis by (simp del: of_nat_Suc)
qed

lemma log_wf_at:
  assumes "log_wf s" "i < lg_count s"
  shows "unat (log_at s i) = unat (lg_start s) + i + 1" "in_log s (log_at s i)" "log_at s i < disksize s"
    "log_at s i \<noteq> lg_start s"
proof -
  have i: "i + 1 < unat (lg_size s)" "unat (lg_start s) + unat (lg_size s) \<le> unat (disksize s)"
    using assms by (auto simp: log_wf_def)
  show u: "unat (log_at s i) = unat (lg_start s) + i + 1" by (rule unat_log_at [OF i])
  then show "in_log s (log_at s i)" "log_at s i < disksize s" using i by (simp_all add: in_log_def word_less_nat_alt)
  show "log_at s i \<noteq> lg_start s" using u by (metis add.assoc add_eq_self_zero add_is_0 one_neq_zero)
qed

lemma log_at_inj: "log_wf s \<Longrightarrow> i < lg_count s \<Longrightarrow> j < lg_count s \<Longrightarrow> log_at s i = log_at s j \<longleftrightarrow> i = j"
  using log_wf_at(1) by (metis add_right_cancel add_left_cancel)

lemma log_wf_start: "log_wf s \<Longrightarrow> lg_start s < disksize s" "log_wf s \<Longrightarrow> in_log s (lg_start s)"
  by (auto simp: log_wf_def in_log_def word_less_nat_alt)

lemma log_wf_copyable: "log_wf s \<Longrightarrow> copyable s 0 (lg_count s)"
  using log_wf_at(2,3) unfolding copyable_def log_wf_def by (metis le0)

definition head_of :: "'a logst_scheme \<Rightarrow> u8 list" where
  "head_of s = head_bytes (st32 (view s (lg_start s)) 0 (lg_n s)) (lg_count s) 0 (lg_block s)"

definition commit_writes :: "'a logst_scheme \<Rightarrow> (u32 \<times> u8 list) list" where
  "commit_writes s =
     map (\<lambda>i. (log_at s i, view s (lg_block s ! i))) [0..<lg_count s] @
     [(lg_start s, head_of s)] @
     map (\<lambda>i. (lg_block s ! i, view s (lg_block s ! i))) [0..<lg_count s] @
     [(lg_start s, st32 (head_of s) 0 0)]"

lemma head_of_spec:
  assumes "log_wf s"
  shows "length (head_of s) = 512" "head_n (head_of s) = lg_count s" "i < lg_count s \<Longrightarrow> head_blk (head_of s) i = lg_block s ! i"
  using assms head_bytes_spec [of "st32 (view s (lg_start s)) 0 (lg_n s)" 0 "lg_count s" "lg_block s"]
  by (auto simp: log_wf_def head_of_def head_n_def)

lemma log_step_lg_n: "log_step s ws t \<Longrightarrow> log_step (s\<lparr>lg_n := x\<rparr>) ws (t\<lparr>lg_n := x\<rparr>)"
proof -
  assume a: "log_step s ws t"
  then have t: "t = s\<lparr>pt_proc := pt_proc t, bc_buf := bc_buf t, memdisk := memdisk t, disk_writes := disk_writes t\<rparr>"
    unfolding log_step_def bio_frame_def by blast
  have "bio_frame (s\<lparr>lg_n := x\<rparr>) (t\<lparr>lg_n := x\<rparr>)" unfolding bio_frame_def by (subst t) simp
  with a show ?thesis by (simp add: log_step_def)
qed

text \<open>After the log blocks are written, each of them reads as its home block.\<close>

lemma log_written:
  assumes "log_wf s" "i < lg_count s"
  shows "apply_writes (map (\<lambda>i. (log_at s i, view s (lg_block s ! i))) [0..<lg_count s]) d (log_at s i) = view s (lg_block s ! i)"
proof -
  let ?g = "\<lambda>n. view s (lg_block s ! (unat n - unat (lg_start s) - 1))"
  have g: "view s (lg_block s ! j) = ?g (log_at s j)" if "j \<in> set [0..<lg_count s]" for j
    using log_wf_at(1) [OF assms(1), of j] that by simp
  show ?thesis using assms g [of i] by (subst apply_writes_map [where g = ?g, OF g]) auto
qed

lemma log_not_written:
  assumes "log_wf s" "n \<notin> log_at s ` {..<lg_count s}"
  shows "apply_writes (map (\<lambda>i. (log_at s i, view s (lg_block s ! i))) [0..<lg_count s]) d n = d n"
  using assms by (intro apply_writes_other) auto

lemma commit_step:
  assumes r: "log_ready s" and w: "log_wf s" and n: "sint (lg_n s) > 0"
  obtains t where "commit s = Ok () t" "log_step (s\<lparr>lg_n := 0\<rparr>) (commit_writes s) t"
proof -
  let ?n = "lg_count s"
  have ldev: "lg_dev s = 1" "?n \<le> LOGSIZE" using w by (auto simp: log_wf_def)
  obtain t1 where t1: "write_log s = Ok () t1" "log_step s (map (\<lambda>i. (log_at s i, view s (lg_block s ! i))) [0..<?n]) t1"
    using write_log_loop_step [OF r, of 0 ?n] log_wf_copyable [OF w] by (auto simp: write_log_def)
  have f1: "bio_frame s t1" using t1(2) by (simp add: log_step_def)
  note F1 = bio_frame_log [OF f1] bio_frame_fields(1) [OF f1]
  have v1: "view t1 (lg_start s) = view s (lg_start s)"
    using t1(2) log_not_written [OF w] log_wf_at(4) [OF w] by (auto simp: log_step_def image_iff)
  obtain t2 where t2: "write_head t1 = Ok () t2" "log_step t1 [(lg_start s, head_of s)] t2"
    using write_head_step [OF log_step_ready [OF r t1(2)]] ldev log_wf_start(1) [OF w] F1 v1 by (auto simp: head_of_def)
  have s2: "log_step s (map (\<lambda>i. (log_at s i, view s (lg_block s ! i))) [0..<?n] @ [(lg_start s, head_of s)]) t2"
    by (rule log_step_trans [OF t1(2) t2(2)])
  have f2: "bio_frame s t2" using s2 by (simp add: log_step_def)
  note F2 = bio_frame_log [OF f2]
  have v2: "view t2 (log_at s i) = view s (lg_block s ! i)" if "i < ?n" for i
    using s2 log_written [OF w that] log_wf_at(4) [OF w that] by (simp add: log_step_def)
  obtain t3 where t3: "install_trans t2 = Ok () t3" "log_step t2 (map (\<lambda>i. (lg_block s ! i, view t2 (log_at s i))) [0..<?n]) t3"
    using install_loop_step [OF log_step_ready [OF r s2], of 0 ?n] copyable_step [OF f2 log_wf_copyable [OF w], of 0] F2
    by (auto simp: install_trans_def)
  have m: "map (\<lambda>i. (lg_block s ! i, view t2 (log_at s i))) [0..<?n] = map (\<lambda>i. (lg_block s ! i, view s (lg_block s ! i))) [0..<?n]"
    using v2 by simp
  have s3: "log_step s ((map (\<lambda>i. (log_at s i, view s (lg_block s ! i))) [0..<?n] @ [(lg_start s, head_of s)]) @
      map (\<lambda>i. (lg_block s ! i, view s (lg_block s ! i))) [0..<?n]) t3"
    using log_step_trans [OF s2 t3(2)] unfolding m .
  have f3: "bio_frame s t3" using s3 by (simp add: log_step_def)
  note F3 = bio_frame_log [OF f3] bio_frame_fields(1) [OF f3]
  have "lg_start s \<notin> (!) (lg_block s) ` {..<?n}" using w log_wf_start(2) [OF w] by (auto simp: log_wf_def)
  then have "lg_start s \<notin> fst ` set (map (\<lambda>i. (lg_block s ! i, view s (lg_block s ! i))) [0..<?n])" by (auto simp: image_iff)
  then have v3: "view t3 (lg_start s) = head_of s" using s3 by (simp add: log_step_def apply_writes_other)
  obtain t where t: "write_head (t3\<lparr>lg_n := 0\<rparr>) = Ok () t" "log_step (t3\<lparr>lg_n := 0\<rparr>) [(lg_start s, st32 (head_of s) 0 0)] t"
    using write_head_step [of "t3\<lparr>lg_n := 0\<rparr>"] log_step_ready [OF r s3] ldev log_wf_start(1) [OF w] F3 v3 by auto
  have "log_step (s\<lparr>lg_n := 0\<rparr>) (commit_writes s) t"
    using log_step_trans [OF log_step_lg_n [OF s3, of 0] t(2)] by (simp add: commit_writes_def)
  moreover have "commit s = Ok () t" using t1 t2 t3 t n by (simp add: commit_def)
  ultimately show thesis using that by blast
qed

section \<open>Recovery\<close>

text \<open>What recovery is to do with an image whose log starts at \<open>st\<close>.\<close>

definition redo_writes :: "u32 \<Rightarrow> image \<Rightarrow> (u32 \<times> u8 list) list" where
  "redo_writes st d = map (\<lambda>i. (head_blk (d st) i, d (st + of_nat i + 1))) [0..<head_n (d st)] @ [(st, st32 (d st) 0 0)]"

definition head_ok :: "u32 \<Rightarrow> u32 \<Rightarrow> u32 \<Rightarrow> u8 list \<Rightarrow> bool" where
  "head_ok st sz dsz h \<longleftrightarrow> length h = 512 \<and> head_n h < unat sz \<and> head_n h \<le> LOGSIZE \<and> unat st + unat sz \<le> unat dsz \<and>
     (\<forall>i < head_n h. head_blk h i < dsz \<and> (unat (head_blk h i) < unat st \<or> unat st + unat sz \<le> unat (head_blk h i)))"

lemma read_head_step:
  assumes r: "log_ready s" and l: "lg_dev s = 1" "length (lg_block s) = LOGSIZE"
    and h: "head_ok (lg_start s) (lg_size s) (disksize s) (view s (lg_start s))"
  obtains bl t where "read_head s = Ok () t" "length bl = LOGSIZE" "\<And>i. i < head_n (view s (lg_start s)) \<Longrightarrow> bl ! i = head_blk (view s (lg_start s)) i"
    "log_step (s\<lparr>lg_n := ld32 (view s (lg_start s)) 0, lg_block := bl\<rparr>) [] t"
proof -
  let ?h = "view s (lg_start s)"
  have st: "lg_start s < disksize s" and n: "nat (sint (ld32 ?h 0)) \<le> LOGSIZE"
    using h by (auto simp: head_ok_def word_less_nat_alt head_n_def)
  have a: "bcache_inv s" "lg_start s \<notin> ran (owned s)" "card (dom (owned s) \<union> marked s) < NBUF" and e: "owned s = Map.empty"
    using r by (auto simp: log_ready_def)
  obtain b s1 where b: "bread 1 (lg_start s) s = Ok b s1" "bcache_inv s1" "owned s1 = (owned s)(b \<mapsto> lg_start s)" "marked s1 = marked s"
    "view s1 = view s" "dsk s1 = dsk s" "disk_writes s1 = disk_writes s" "b \<in> marked s1 \<or> view s (lg_start s) = dsk s (lg_start s)"
    "bio_frame s s1"
    using bread_law [OF a st] by blast
  note F = bio_frame_log [OF b(9)]
  have d: "b_data (bc_buf s1 b) = ?h" using ownedD(6) [OF b(2), of b "lg_start s"] b(3,5) by simp
  obtain bl where bl: "head_in ?h (nat (sint (ld32 ?h 0))) 0 (s1\<lparr>lg_n := ld32 ?h 0\<rparr>) = Ok () (s1\<lparr>lg_n := ld32 ?h 0, lg_block := bl\<rparr>)"
    "length bl = LOGSIZE" "\<forall>j. 0 \<le> j \<and> j < 0 + nat (sint (ld32 ?h 0)) \<longrightarrow> bl ! j = head_blk ?h j"
    using head_in_spec [of 0 "nat (sint (ld32 ?h 0))" "s1\<lparr>lg_n := ld32 ?h 0\<rparr>" ?h] n l F by auto
  let ?s2 = "s1\<lparr>lg_n := ld32 ?h 0, lg_block := bl\<rparr>"
  have "bcache_inv ?s2" "owned ?s2 b = Some (lg_start s)" "b \<in> marked ?s2 \<or> view ?s2 (lg_start s) = dsk ?s2 (lg_start s)"
    using b by simp_all
  from brelse_law [OF this] obtain t where t: "brelse b ?s2 = Ok () t" "bcache_inv t" "owned t = (owned ?s2)(b := None)"
    "marked t = marked ?s2" "view t = view ?s2" "dsk t = dsk ?s2" "disk_writes t = disk_writes ?s2" "bio_frame ?s2 t" by blast
  have s1: "s1 = s\<lparr>pt_proc := pt_proc s1, bc_buf := bc_buf s1, memdisk := memdisk s1, disk_writes := disk_writes s1\<rparr>"
    using b(9) by (simp add: bio_frame_def)
  have "bio_frame (s\<lparr>lg_n := ld32 ?h 0, lg_block := bl\<rparr>) ?s2" unfolding bio_frame_def by (subst s1) simp
  then have "log_step (s\<lparr>lg_n := ld32 ?h 0, lg_block := bl\<rparr>) [] t"
    using t b e bio_frame_trans [OF _ t(8)] by (auto simp: log_step_def)
  moreover have "read_head s = Ok () t" using b(1) d bl(1) t(1) l by (simp add: read_head_def)
  ultimately show thesis using that bl(2,3) by (simp add: head_n_def)
qed

lemma recover_step:
  assumes r: "log_ready s" and l: "lg_dev s = 1" "length (lg_block s) = LOGSIZE" and v: "view s = dsk s"
    and h: "head_ok (lg_start s) (lg_size s) (disksize s) (dsk s (lg_start s))"
  obtains t where "recover_from_log s = Ok () t" "dsk t = apply_writes (redo_writes (lg_start s) (dsk s)) (dsk s)"
    "view t = dsk t" "log_ready t" "lg_n t = 0"
proof -
  let ?h = "dsk s (lg_start s)" and ?st = "lg_start s"
  obtain bl t1 where t1: "read_head s = Ok () t1" "length bl = LOGSIZE" "\<And>i. i < head_n ?h \<Longrightarrow> bl ! i = head_blk ?h i"
    "log_step (s\<lparr>lg_n := ld32 ?h 0, lg_block := bl\<rparr>) [] t1"
    using read_head_step [OF r l] h v by metis
  let ?s1 = "s\<lparr>lg_n := ld32 ?h 0, lg_block := bl\<rparr>"
  have f: "bio_frame ?s1 t1" and v1: "view t1 = dsk s" "dsk t1 = dsk s" using t1(4) v by (simp_all add: log_step_def)
  note F = bio_frame_log [OF f] bio_frame_fields(1) [OF f]
  have n: "lg_count t1 = head_n ?h" using F by (simp add: head_n_def)
  have hd: "head_n ?h < unat (lg_size s)" "head_n ?h \<le> LOGSIZE" "unat ?st + unat (lg_size s) \<le> unat (disksize s)"
    "\<And>i. i < head_n ?h \<Longrightarrow> head_blk ?h i < disksize s \<and> (unat (head_blk ?h i) < unat ?st \<or> unat ?st + unat (lg_size s) \<le> unat (head_blk ?h i))"
    using h unfolding head_ok_def by auto
  have at: "unat (?st + of_nat i + 1) = unat ?st + i + 1" if "i < head_n ?h" for i
    by (rule unat_log_at [OF _ hd(3)]) (use that hd in simp)
  have "copyable t1 0 (head_n ?h)"
    unfolding copyable_def
  proof (intro conjI allI impI)
    fix i assume "0 \<le> i \<and> i < head_n ?h"
    then show "log_at t1 i < disksize t1" "lg_block t1 ! i < disksize t1"
      using at [of i] hd t1(3) [of i] F by (auto simp: word_less_nat_alt)
  next
    fix i j assume "0 \<le> i \<and> i < head_n ?h \<and> 0 \<le> j \<and> j < head_n ?h"
    then show "log_at t1 i \<noteq> lg_block t1 ! j" using at [of i] hd(1) hd(4) [of j] t1(3) [of j] F by auto
  qed (use F l hd in auto)
  moreover have r1: "log_ready t1" using log_step_ready [OF _ t1(4)] r by simp
  ultimately obtain t2 where t2: "install_trans t1 = Ok () t2"
    "log_step t1 (map (\<lambda>i. (lg_block t1 ! i, view t1 (log_at t1 i))) [0..<head_n ?h]) t2"
    using install_loop_step [of t1 0 "head_n ?h"] n by (auto simp: install_trans_def)
  have m: "map (\<lambda>i. (lg_block t1 ! i, view t1 (log_at t1 i))) [0..<head_n ?h]
      = map (\<lambda>i. (head_blk ?h i, dsk s (?st + of_nat i + 1))) [0..<head_n ?h]"
    using t1(3) F v1 by auto
  have f2: "bio_frame t1 t2" using t2(2) by (simp add: log_step_def)
  note F2 = bio_frame_log [OF f2] bio_frame_fields(1) [OF f2]
  have "?st \<notin> fst ` set (map (\<lambda>i. (head_blk ?h i, dsk s (?st + of_nat i + 1))) [0..<head_n ?h])"
    using hd(1,4) by fastforce
  then have v2: "view t2 ?st = ?h" "view t2 = dsk t2" using t2(2) v1 unfolding m by (simp_all add: log_step_def apply_writes_other)
  obtain t where t: "write_head (t2\<lparr>lg_n := 0\<rparr>) = Ok () t" "log_step (t2\<lparr>lg_n := 0\<rparr>) [(?st, st32 ?h 0 0)] t"
    using write_head_step [of "t2\<lparr>lg_n := 0\<rparr>"] log_step_ready [OF r1 t2(2)] l F F2 v2 hd by (auto simp: word_less_nat_alt)
  have f3: "bio_frame (t2\<lparr>lg_n := 0\<rparr>) t" using t(2) by (simp add: log_step_def)
  have "recover_from_log s = Ok () t" using t1(1) t2(1) t(1) by (simp add: recover_from_log_def)
  moreover have "dsk t = apply_writes (redo_writes ?st (dsk s)) (dsk s)"
    using t(2) t2(2) v1 unfolding m by (simp add: log_step_def redo_writes_def)
  moreover have "view t = dsk t" using t(2) v2 by (simp add: log_step_def)
  moreover have "log_ready t" using log_step_ready [OF _ t(2)] log_step_ready [OF r1 t2(2)] by simp
  moreover have "lg_n t = 0" using bio_frame_log [OF f3] by simp
  ultimately show thesis using that by blast
qed

section \<open>Crashes\<close>

text \<open>The contents a block has once the transaction is committed.\<close>

definition after_commit :: "'a logst_scheme \<Rightarrow> image" where
  "after_commit s n = (if n \<in> set (take (lg_count s) (lg_block s)) then view s n else dsk s n)"

lemma log_blocks: "log_wf s \<Longrightarrow> set (take (lg_count s) (lg_block s)) = (!) (lg_block s) ` {..<lg_count s}"
  using nth_image [of "lg_count s" "lg_block s"] by (simp add: log_wf_def atLeast0LessThan)

lemma head_n_cleared: "length h = 512 \<Longrightarrow> head_n (st32 h 0 0) = 0"
  by (simp add: head_n_def)

lemma redo_idle: "head_n (d st) = 0 \<Longrightarrow> n \<noteq> st \<Longrightarrow> apply_writes (redo_writes st d) d n = d n"
  by (simp add: redo_writes_def)

text \<open>Once the header is on the disk, recovery completes the transaction, however many home blocks are already written.\<close>

lemma redo_committed:
  assumes w: "log_wf s" and h: "d (lg_start s) = head_of s" and n: "\<not> in_log s n"
    and lb: "\<And>i. i < lg_count s \<Longrightarrow> d (log_at s i) = view s (lg_block s ! i)"
    and o: "d n = dsk s n \<or> d n = after_commit s n"
  shows "apply_writes (redo_writes (lg_start s) d) d n = after_commit s n"
proof -
  have m: "map (\<lambda>i. (head_blk (head_of s) i, d (log_at s i))) [0..<lg_count s]
      = map (\<lambda>i. (lg_block s ! i, view s (lg_block s ! i))) [0..<lg_count s]"
    using head_of_spec(3) [OF w] lb by auto
  have "n \<noteq> lg_start s" using n log_wf_start(2) [OF w] by auto
  then have "apply_writes (redo_writes (lg_start s) d) d n
      = apply_writes (map (\<lambda>i. (lg_block s ! i, view s (lg_block s ! i))) [0..<lg_count s]) d n"
    unfolding redo_writes_def h head_of_spec(2) [OF w] m by simp
  also have "\<dots> = (if n \<in> (!) (lg_block s) ` set [0..<lg_count s] then view s n else d n)"
    by (rule apply_writes_map [where g = "view s"]) simp
  also have "\<dots> = after_commit s n" using o by (auto simp: after_commit_def log_blocks [OF w] atLeast0LessThan)
  finally show ?thesis .
qed

lemma crash_cases:
  assumes "length xs = n"
  obtains "j \<le> n" "take j (xs @ [h] @ ys @ [e]) = take j xs"
  | k where "take j (xs @ [h] @ ys @ [e]) = xs @ h # take k ys"
  | "take j (xs @ [h] @ ys @ [e]) = xs @ h # ys @ [e]"
proof -
  consider "j \<le> n" | "n < j" "j \<le> n + 1 + length ys" | "n + 1 + length ys < j" by linarith
  then show thesis
  proof cases
    case 1
    then show ?thesis using that assms by simp
  next
    case 2
    from less_imp_Suc_add [OF 2(1)] obtain i where i: "j = Suc (n + i)" by blast
    with 2(2) assms have "take j (xs @ [h] @ ys @ [e]) = xs @ h # take i ys" by simp
    then show ?thesis using that(2) by blast
  next
    case 3
    from less_imp_Suc_add [OF 3] obtain i where i: "j = Suc (n + 1 + length ys + i)" by blast
    with assms have "take j (xs @ [h] @ ys @ [e]) = xs @ h # ys @ [e]" by simp
    then show ?thesis using that(3) by blast
  qed
qed

lemma fst_take: "x \<notin> fst ` set ws \<Longrightarrow> x \<notin> fst ` set (take k ws)"
  using set_take_subset [of k ws] by blast

lemma crash_atomic:
  assumes w: "log_wf s" and idle: "head_n (dsk s (lg_start s)) = 0" and l: "length (dsk s (lg_start s)) = 512"
    and d: "d = apply_writes (take j (commit_writes s)) (dsk s)"
  shows "(\<forall>n. \<not> in_log s n \<longrightarrow> apply_writes (redo_writes (lg_start s) d) d n = dsk s n) \<or>
         (\<forall>n. \<not> in_log s n \<longrightarrow> apply_writes (redo_writes (lg_start s) d) d n = after_commit s n)"
    and "d (lg_start s) = dsk s (lg_start s) \<or> d (lg_start s) = head_of s \<or> d (lg_start s) = st32 (head_of s) 0 0"
proof -
  let ?n = "lg_count s" and ?st = "lg_start s"
  let ?X = "map (\<lambda>i. (log_at s i, view s (lg_block s ! i))) [0..<?n]"
  let ?Y = "map (\<lambda>i. (lg_block s ! i, view s (lg_block s ! i))) [0..<?n]"
  have out: "n \<noteq> ?st" "n \<notin> fst ` set ?X" if "\<not> in_log s n" for n
    using that log_wf_start(2) [OF w] log_wf_at(2) [OF w] by auto
  have stX: "?st \<notin> fst ` set ?X" using log_wf_at(4) [OF w] by (auto simp: image_iff)
  have home: "\<not> in_log s (lg_block s ! i)" if "i < ?n" for i using w that by (simp add: log_wf_def)
  have stY: "?st \<notin> fst ` set ?Y" using home log_wf_start(2) [OF w] by (auto simp: image_iff)
  have Y: "apply_writes (take k ?Y) e n = (if n \<in> fst ` set (take k ?Y) then view s n else e n)" for k e n
  proof -
    have "take k ?Y = map (\<lambda>i. (lg_block s ! i, view s (lg_block s ! i))) (take k [0..<?n])" by (simp add: take_map)
    then show ?thesis using apply_writes_map [of "take k [0..<?n]" "\<lambda>i. view s (lg_block s ! i)" "view s" "\<lambda>i. lg_block s ! i" e n]
      by (auto simp: image_image)
  qed
  have "(\<forall>n. \<not> in_log s n \<longrightarrow> apply_writes (redo_writes ?st d) d n = dsk s n) \<and> d ?st = dsk s ?st
    \<or> (\<forall>n. \<not> in_log s n \<longrightarrow> apply_writes (redo_writes ?st d) d n = after_commit s n) \<and> (d ?st = head_of s \<or> d ?st = st32 (head_of s) 0 0)"
  proof (rule crash_cases [of ?X ?n j "(?st, head_of s)" ?Y "(?st, st32 (head_of s) 0 0)"])
    assume "take j (?X @ [(?st, head_of s)] @ ?Y @ [(?st, st32 (head_of s) 0 0)]) = take j ?X"
    then have d': "d = apply_writes (take j ?X) (dsk s)" by (simp add: d commit_writes_def)
    have same: "d n = dsk s n" if "n \<notin> fst ` set ?X" for n
      unfolding d' by (intro apply_writes_other fst_take that)
    show ?thesis using redo_idle [of d ?st] same [OF stX] idle same out by auto
  next
    fix k assume "take j (?X @ [(?st, head_of s)] @ ?Y @ [(?st, st32 (head_of s) 0 0)]) = ?X @ (?st, head_of s) # take k ?Y"
    then have d': "d = apply_writes (take k ?Y) ((apply_writes ?X (dsk s))(?st := head_of s))" by (simp add: d commit_writes_def)
    have st: "d ?st = head_of s" using fst_take [OF stY] unfolding d' Y by simp
    have lb: "d (log_at s i) = view s (lg_block s ! i)" if "i < ?n" for i
    proof -
      have "log_at s i \<notin> fst ` set ?Y" using home log_wf_at(2) [OF w that] by (auto simp: image_iff)
      note fst_take [OF this, of k]
      then show ?thesis using log_wf_at(4) [OF w that] log_written [OF w that] unfolding d' Y by simp
    qed
    have "d n = dsk s n \<or> d n = after_commit s n" if "\<not> in_log s n" for n
    proof (cases "n \<in> fst ` set (take k ?Y)")
      case True
      then have "n \<in> fst ` set ?Y" using fst_take [of n ?Y k] by (rule contrapos_pp)
      then have "n \<in> set (take ?n (lg_block s))" unfolding log_blocks [OF w] by (auto simp: image_iff)
      then show ?thesis using True unfolding d' Y by (simp add: after_commit_def)
    next
      case False
      then show ?thesis using out [OF that] unfolding d' Y by (simp add: apply_writes_other)
    qed
    then show ?thesis using redo_committed [OF w st _ lb] st by blast
  next
    assume "take j (?X @ [(?st, head_of s)] @ ?Y @ [(?st, st32 (head_of s) 0 0)]) = ?X @ (?st, head_of s) # ?Y @ [(?st, st32 (head_of s) 0 0)]"
    then have d': "d = (apply_writes (take ?n ?Y) ((apply_writes ?X (dsk s))(?st := head_of s)))(?st := st32 (head_of s) 0 0)"
      by (simp add: d commit_writes_def)
    have n0: "head_n (d ?st) = 0" unfolding d' using head_n_cleared head_of_spec(1) [OF w] by simp
    have "d n = after_commit s n" if "\<not> in_log s n" for n
      using out [OF that] unfolding d' Y by (auto simp: after_commit_def log_blocks [OF w] apply_writes_other image_iff)
    then show ?thesis using redo_idle [of d ?st] n0 out(1) d' by auto
  qed simp
  then show "(\<forall>n. \<not> in_log s n \<longrightarrow> apply_writes (redo_writes ?st d) d n = dsk s n) \<or>
         (\<forall>n. \<not> in_log s n \<longrightarrow> apply_writes (redo_writes ?st d) d n = after_commit s n)"
    and "d ?st = dsk s ?st \<or> d ?st = head_of s \<or> d ?st = st32 (head_of s) 0 0" by auto
qed

lemma commit_disk:
  assumes w: "log_wf s" and n: "\<not> in_log s n"
  shows "apply_writes (commit_writes s) (dsk s) n = after_commit s n"
proof -
  have "n \<noteq> lg_start s" "n \<notin> log_at s ` {..<lg_count s}" using n log_wf_start(2) [OF w] log_wf_at(2) [OF w] by auto
  then show ?thesis
    using log_not_written [OF w] apply_writes_map [of "[0..<lg_count s]" "\<lambda>i. view s (lg_block s ! i)" "view s" "(!) (lg_block s)"]
    by (simp add: commit_writes_def after_commit_def log_blocks [OF w] atLeast0LessThan)
qed

end
