(* ===== verification/Log_Props.thy ===== *)
theory Log_Props
  imports Log_Laws Sched_Props
begin

text \<open>
  Properties of the buffer cache and of the log, with a concrete kernel state to apply them to: \<open>demo_bio\<close> has one
  buffer that waits to be written, for block 50, and \<open>demo_log\<close> a transaction that consists of that block.
\<close>

definition demo_buf :: "nat \<Rightarrow> buf" where
  "demo_buf b = \<lparr>b_flags = (if b = 0 then 6 else 0), b_dev = (if b = 0 then 1 else - 1), b_blockno = (if b = 0 then 50 else 0),
     b_prev = (if b = HEAD then 0 else b + 1), b_next = (if b = 0 then HEAD else b - 1), b_qnext = None,
     b_data = replicate 512 (if b = 0 then 1 else 0)\<rparr>"

definition demo_bio :: biost where
  "demo_bio = procst.extend demo_ps \<lparr>bc_buf = demo_buf, memdisk = (\<lambda>_. replicate 512 0), disksize = 1000, disk_writes = []\<rparr>"

lemma demo_bio_fields [simp]:
  "bc_buf demo_bio = demo_buf" "memdisk demo_bio = (\<lambda>_. replicate 512 0)" "disksize demo_bio = 1000" "disk_writes demo_bio = []"
  "k_cpu demo_bio = k_cpu boot_core" "k_locks demo_bio = k_locks boot_core" "pt_proc demo_bio = demo_procs" "cur demo_bio = Some 0"
  by (simp_all add: demo_bio_def procst.defs demo_ps_def vmst.defs kmem.defs demo_vm2_def demo_vm_def boot_kmem_def kcore.defs)

lemma demo_lru: "lru demo_bio (rev [0..<NBUF])"
proof -
  have n: "nchain (\<lambda>b. b_next (demo_buf b)) k (rev [0..<k]) HEAD" if "k \<le> HEAD" for k
    using that
  proof (induction k)
    case (Suc k)
    then show ?case by (simp add: demo_buf_def)
  qed (simp add: demo_buf_def)
  have p: "nchain (\<lambda>b. b_prev (demo_buf b)) k [Suc k..<HEAD] HEAD" if "k < HEAD" for k
    using that
  proof (induction "HEAD - k" arbitrary: k)
    case (Suc d)
    then show ?case by (cases "Suc k = HEAD") (auto simp: demo_buf_def upt_conv_Cons)
  qed simp
  have "nchain (\<lambda>b. b_prev (demo_buf b)) HEAD [0..<HEAD] HEAD"
    using p [of 0] by (simp add: demo_buf_def upt_conv_Cons)
  then show ?thesis using n [of HEAD] by (auto simp: lru_def)
qed

lemma demo_bits [simp]: "\<not> bit (6 :: u32) 0" "bit (6 :: u32) (Suc 0)" "bit (6 :: u32) 2"
  by (simp_all add: bit_simps)

lemma demo_bcache: "bcache_inv demo_bio" "owned demo_bio = Map.empty" "marked demo_bio = {0}"
proof -
  have "\<forall>b. owned demo_bio b = None" by (simp add: owned_def demo_buf_def)
  then show "owned demo_bio = Map.empty" by auto
  show "marked demo_bio = {0}" by (auto simp: marked_def demo_buf_def)
  have "cache_ok demo_bio" by (auto simp: cache_ok_def demo_buf_def cached_as_def)
  moreover have "lock_ready l demo_bio" for l using demo_ps_ready(1) [of l] by (simp add: lock_ready_def)
  ultimately show "bcache_inv demo_bio" using demo_lru by (auto simp: bcache_inv_def demo_buf_def)
qed

lemma demo_view: "view demo_bio n = replicate 512 (if n = 50 then 1 else 0)"
proof (cases "n = 50")
  case True
  then show ?thesis using demo_bcache(1) view_cached [of demo_bio 0 50]
    by (simp add: bcache_inv_def cached_as_def demo_buf_def)
next
  case False
  then show ?thesis by (subst view_uncached) (auto simp: cached_as_def demo_buf_def split: if_splits)
qed

section \<open>The buffer cache\<close>

text \<open>
  C13: the pointers of the cache are a list of all buffers: releasing a buffer moves it to the front of
  that list, keeps the order of the others, and makes the buffer free.
\<close>

theorem brelse_moves_to_front:
  assumes "lru s bs" "b < NBUF" "b_flags (bc_buf s b) AND B_BUSY \<noteq> 0"
    and "lock_ready BcacheLock s" "lock_ready PtableLock s"
  shows "\<exists>t. brelse b s = Ok () t \<and> lru t (b # remove1 b bs) \<and> b_flags (bc_buf t b) AND B_BUSY = 0
    \<and> (\<forall>c. b_data (bc_buf t c) = b_data (bc_buf s c))"
proof -
  have "b \<in> set bs" using assms(1,2) by (auto simp: lru_def)
  then show ?thesis
    using assms brelse_ok [of s b] released_simps [of s bs b] by (auto simp: flag_zero released_frame)
qed

theorem brelse_moves_to_front_witness:
  "\<exists>t. brelse 3 (upd_buf 3 (\<lambda>x. x\<lparr>b_flags := 1\<rparr>) demo_bio) = Ok () t \<and> lru t (3 # remove1 3 (rev [0..<NBUF]))"
proof -
  let ?s = "upd_buf 3 (\<lambda>x. x\<lparr>b_flags := 1\<rparr>) demo_bio"
  have "lru ?s (rev [0..<NBUF])" using demo_lru by (subst lru_cong [of _ demo_bio]) auto
  moreover have "lock_ready l ?s" for l using demo_ps_ready(1) [of l] by (simp add: lock_ready_def)
  ultimately have "\<exists>t. brelse 3 ?s = Ok () t \<and> lru t (3 # remove1 3 (rev [0..<NBUF]))
      \<and> b_flags (bc_buf t 3) AND B_BUSY = 0 \<and> (\<forall>c. b_data (bc_buf t c) = b_data (bc_buf ?s c))"
    by (intro brelse_moves_to_front) simp_all
  then show ?thesis by blast
qed

text \<open>
  C6: what is written to a block is what is read from it: after a caller has read a block,
  replaced its contents, written and released it, the disk has the new contents, the next \<open>bread\<close> of
  the block returns them, and every other block reads as before.
\<close>

theorem block_write_then_read:
  assumes "bcache_inv s" "owned s = Map.empty" "card (marked s) < NBUF" "n < disksize s"
  shows "\<exists>b s1 s2 s3 c t. bread 1 n s = Ok b s1 \<and> b_data (bc_buf s1 b) = view s n \<and> bwrite b (put_data b d s1) = Ok () s2 \<and>
    brelse b s2 = Ok () s3 \<and> memdisk s3 (unat n) = d \<and> bread 1 n s3 = Ok c t \<and> b_data (bc_buf t c) = d \<and>
    (\<forall>m. m \<noteq> n \<longrightarrow> view t m = view s m)"
proof -
  have a: "bcache_inv s" "n \<notin> ran (owned s)" "card (dom (owned s) \<union> marked s) < NBUF" using assms by simp_all
  obtain b s1 s2 s3 where w: "bread 1 n s = Ok b s1" "b_data (bc_buf s1 b) = view s n" "bwrite b (put_data b d s1) = Ok () s2"
    "brelse b s2 = Ok () s3" "bcache_inv s3" "owned s3 = owned s" "marked s3 = marked s - {b}" "view s3 = (view s)(n := d)"
    "dsk s3 = (dsk s)(n := d)" "disk_writes s3 = disk_writes s @ [(n, d)]" "bio_frame s s1" "bio_frame s s2" "bio_frame s s3"
    by (rule bcache.write_block [OF a assms(4), of d])
  have "card (marked s - {b}) \<le> card (marked s)" by (rule card_mono) auto
  then obtain c t where r: "bread 1 n s3 = Ok c t" "bcache_inv t" "owned t = (owned s3)(c \<mapsto> n)" "view t = view s3"
    using bread_law [OF w(5), of n] w assms bio_frame_fields(1) [OF w(13)] by auto
  have "b_data (bc_buf t c) = d" using ownedD(6) [OF r(2), of c n] r w by simp
  moreover have "memdisk s3 (unat n) = d" using fun_cong [OF w(9), of n] by (simp add: dsk_def)
  moreover have "\<forall>m. m \<noteq> n \<longrightarrow> view t m = view s m" using r w by simp
  ultimately show ?thesis using w r by blast
qed

theorem block_write_then_read_witness:
  "\<exists>b s1 s2 s3 c t. bread 1 7 demo_bio = Ok b s1 \<and> bwrite b (put_data b (replicate 512 9) s1) = Ok () s2 \<and>
    brelse b s2 = Ok () s3 \<and> bread 1 7 s3 = Ok c t \<and> b_data (bc_buf t c) = replicate 512 9 \<and> view t 50 = replicate 512 1"
proof -
  have "\<exists>b s1 s2 s3 c t. bread 1 7 demo_bio = Ok b s1 \<and> b_data (bc_buf s1 b) = view demo_bio 7 \<and>
    bwrite b (put_data b (replicate 512 9) s1) = Ok () s2 \<and> brelse b s2 = Ok () s3 \<and> memdisk s3 (unat (7 :: u32)) = replicate 512 9 \<and>
    bread 1 7 s3 = Ok c t \<and> b_data (bc_buf t c) = replicate 512 9 \<and> (\<forall>m. m \<noteq> 7 \<longrightarrow> view t m = view demo_bio m)"
    by (rule block_write_then_read) (simp_all add: demo_bcache)
  then obtain b s1 s2 s3 c t where e: "bread 1 7 demo_bio = Ok b s1" "bwrite b (put_data b (replicate 512 9) s1) = Ok () s2"
    "brelse b s2 = Ok () s3" "bread 1 7 s3 = Ok c t" "b_data (bc_buf t c) = replicate 512 9" "\<forall>m. m \<noteq> 7 \<longrightarrow> view t m = view demo_bio m"
    by blast
  from e(6) have "view t 50 = replicate 512 1" by (simp add: demo_view)
  with e show ?thesis by blast
qed

section \<open>The log\<close>

text \<open>The machine \<open>r\<close> after a crash: its cache is fresh, and its disk has the first \<open>j\<close> block writes between \<open>s\<close> and \<open>t\<close>.\<close>

definition restarted :: "'a logst_scheme \<Rightarrow> 'a logst_scheme \<Rightarrow> nat \<Rightarrow> 'a logst_scheme \<Rightarrow> bool" where
  "restarted s t j r \<longleftrightarrow> log_ready r \<and> view r = dsk r \<and> lg_dev r = 1 \<and> lg_start r = lg_start s \<and> lg_size r = lg_size s \<and>
     disksize r = disksize s \<and> length (lg_block r) = LOGSIZE \<and>
     dsk r = apply_writes (take j (drop (length (disk_writes s)) (disk_writes t))) (dsk s)"

lemma restarted_head:
  assumes w: "log_wf s" and i: "head_n (dsk s (lg_start s)) = 0" "length (dsk s (lg_start s)) = 512"
    and r: "lg_start r = lg_start s" "lg_size r = lg_size s" "disksize r = disksize s"
    and h: "h = dsk s (lg_start s) \<or> h = head_of s \<or> h = st32 (head_of s) 0 0"
  shows "head_ok (lg_start r) (lg_size r) (disksize r) h"
proof -
  note H = head_of_spec [OF w]
  have "head_n (st32 (head_of s) 0 0) = 0" using head_n_cleared H(1) by simp
  moreover have "unat (lg_size s) > 0" "unat (lg_start s) + unat (lg_size s) \<le> unat (disksize s)"
    "lg_count s < unat (lg_size s)" "lg_count s \<le> LOGSIZE" using w by (auto simp: log_wf_def)
  moreover have "lg_block s ! k < disksize s" "unat (lg_block s ! k) < unat (lg_start s) \<or> unat (lg_start s) + unat (lg_size s) \<le> unat (lg_block s ! k)"
    if "k < lg_count s" for k using w that by (auto simp: log_wf_def in_log_def not_less)
  ultimately show ?thesis using h i H r unfolding head_ok_def by (elim disjE) simp_all
qed

text \<open>
  C1: a transaction is atomic: \<open>commit\<close> puts every logged block on the disk, and if the machine stops
  after any number of its block writes, recovery at the next start gives the disk of before the transaction
  or the one with all of it, for every block outside the log.
\<close>

theorem commit_is_atomic:
  assumes r: "log_ready s" and w: "log_wf s" and n: "sint (lg_n s) > 0"
    and i: "head_n (dsk s (lg_start s)) = 0" "length (dsk s (lg_start s)) = 512"
  shows "\<exists>t. commit s = Ok () t \<and> (\<forall>n. \<not> in_log s n \<longrightarrow> dsk t n = after_commit s n) \<and>
    (\<forall>j q. restarted s t j q \<longrightarrow> (\<exists>u. recover_from_log q = Ok () u \<and> view u = dsk u \<and>
       ((\<forall>n. \<not> in_log s n \<longrightarrow> dsk u n = dsk s n) \<or> (\<forall>n. \<not> in_log s n \<longrightarrow> dsk u n = after_commit s n))))"
proof -
  obtain t where c: "commit s = Ok () t" "log_step (s\<lparr>lg_n := 0\<rparr>) (commit_writes s) t" by (rule commit_step [OF r w n])
  have h: "disk_writes t = disk_writes s @ commit_writes s" "dsk t = apply_writes (commit_writes s) (dsk s)"
    using c(2) by (simp_all add: log_step_def)
  have "\<exists>u. recover_from_log q = Ok () u \<and> view u = dsk u \<and>
     ((\<forall>n. \<not> in_log s n \<longrightarrow> dsk u n = dsk s n) \<or> (\<forall>n. \<not> in_log s n \<longrightarrow> dsk u n = after_commit s n))" if q: "restarted s t j q" for j q
  proof -
    have d: "dsk q = apply_writes (take j (commit_writes s)) (dsk s)" using q h by (simp add: restarted_def)
    note A = crash_atomic [OF w i d]
    have q': "log_ready q" "lg_dev q = 1" "length (lg_block q) = LOGSIZE" "view q = dsk q" "lg_start q = lg_start s"
      "lg_size q = lg_size s" "disksize q = disksize s" using q by (simp_all add: restarted_def)
    have "head_ok (lg_start q) (lg_size q) (disksize q) (dsk q (lg_start q))"
      using restarted_head [OF w i q'(5-7)] A(2) q'(5) by simp
    from recover_step [OF q'(1-4) this] obtain u where "recover_from_log q = Ok () u"
      "dsk u = apply_writes (redo_writes (lg_start q) (dsk q)) (dsk q)" "view u = dsk u" by blast
    then show ?thesis using A(1) q'(5) by auto
  qed
  moreover have "\<forall>n. \<not> in_log s n \<longrightarrow> dsk t n = after_commit s n" unfolding h(2) using commit_disk [OF w] by blast
  ultimately show ?thesis using c(1) by blast
qed

definition demo_log :: logst where
  "demo_log = biost.extend demo_bio \<lparr>lg_start = 2, lg_size = 30, lg_outstanding = 0, lg_committing = 0, lg_dev = 1, lg_n = 1,
     lg_block = 50 # replicate 29 0\<rparr>"

lemma demo_log_fields [simp]:
  "lg_start demo_log = 2" "lg_size demo_log = 30" "lg_outstanding demo_log = 0" "lg_committing demo_log = 0" "lg_dev demo_log = 1"
  "lg_n demo_log = 1" "lg_block demo_log = 50 # replicate 29 0" "bc_buf demo_log = demo_buf" "memdisk demo_log = memdisk demo_bio"
  "disksize demo_log = 1000" "disk_writes demo_log = []" "k_cpu demo_log = k_cpu boot_core" "k_locks demo_log = k_locks boot_core"
  "pt_proc demo_log = demo_procs" "cur demo_log = Some 0"
  by (simp_all add: demo_log_def biost.defs demo_bio_def procst.defs demo_ps_def vmst.defs kmem.defs demo_vm2_def demo_vm_def boot_kmem_def kcore.defs)

lemma demo_log_bio:
  "bcache_inv demo_log" "owned demo_log = Map.empty" "marked demo_log = {0}" "view demo_log n = view demo_bio n" "dsk demo_log n = replicate 512 0"
proof -
  have "lru demo_log = lru demo_bio" "cached_as d n demo_log = cached_as d n demo_bio" for d n
    by (simp_all add: lru_def cached_as_def fun_eq_iff)
  then show "bcache_inv demo_log" "view demo_log n = view demo_bio n"
    using demo_bcache(1) by (simp_all add: bcache_inv_def cache_ok_def lock_ready_def view_def cong: option.case_cong)
  show "owned demo_log = Map.empty" "marked demo_log = {0}" "dsk demo_log n = replicate 512 0"
    using demo_bcache(3) by (auto simp: owned_def marked_def dsk_def fun_eq_iff demo_buf_def)
qed

lemma demo_log_wf: "log_wf demo_log" "log_ready demo_log" "head_n (replicate 512 0) = 0"
proof -
  show "log_wf demo_log" by (simp add: log_wf_def demo_log_bio demo_view in_log_def)
  show "log_ready demo_log" by (simp add: log_ready_def demo_log_bio)
  show "head_n (replicate 512 0) = 0" by (simp add: head_n_def ld32_def)
qed

theorem commit_is_atomic_witness:
  "\<exists>t. commit demo_log = Ok () t \<and> dsk t 50 = replicate 512 1 \<and> dsk t 51 = replicate 512 0"
proof -
  have "\<exists>t. commit demo_log = Ok () t \<and> (\<forall>n. \<not> in_log demo_log n \<longrightarrow> dsk t n = after_commit demo_log n) \<and>
    (\<forall>j q. restarted demo_log t j q \<longrightarrow> (\<exists>u. recover_from_log q = Ok () u \<and> view u = dsk u \<and>
       ((\<forall>n. \<not> in_log demo_log n \<longrightarrow> dsk u n = dsk demo_log n) \<or> (\<forall>n. \<not> in_log demo_log n \<longrightarrow> dsk u n = after_commit demo_log n))))"
    by (rule commit_is_atomic) (simp_all add: demo_log_wf demo_log_bio)
  then obtain t where t: "commit demo_log = Ok () t" "\<And>n. \<not> in_log demo_log n \<Longrightarrow> dsk t n = after_commit demo_log n" by blast
  have "dsk t 50 = replicate 512 1" "dsk t 51 = replicate 512 0"
    using t(2) [of 50] t(2) [of 51] by (simp_all add: in_log_def after_commit_def demo_log_bio demo_view)
  with t(1) show ?thesis by blast
qed

text \<open>
  C14: \<open>begin_op\<close> admits operations against \<open>LOGSIZE\<close>, but a log of \<open>LOGSIZE\<close> blocks, which is what \<^verbatim>\<open>mkfs\<close> makes, has one block less for
  data: it lets a third operation of up to ten blocks in, and the thirtieth block any of the three logs stops the kernel.
\<close>

theorem log_reservation_exceeds_log:
  assumes "lock_ready LogLock s" "lg_committing s = 0" "lg_n s = 0" "lg_outstanding s = 2" "lg_size s = of_nat LOGSIZE"
  shows "begin_op s = Ok () (s\<lparr>lg_outstanding := 3\<rparr>) \<and>
    (\<forall>(t :: 'a logst_scheme) b. lg_size t = lg_size s \<and> lg_n t = of_nat (3 * MAXOPBLOCKS - 1)
       \<longrightarrow> log_write b t = Panic ''too big a transaction'')"
proof -
  have "release LogLock (held LogLock s\<lparr>lg_outstanding := 3\<rparr>) = Ok () (s\<lparr>lg_outstanding := 3\<rparr>)"
    using release_restores [OF assms(1), of "held LogLock s\<lparr>lg_outstanding := 3\<rparr>"] by (simp add: held_def)
  moreover have "lg_committing (held LogLock s) = 0" "lg_n (held LogLock s) = 0" "lg_outstanding (held LogLock s) = 2"
    using assms by (simp_all add: held_def)
  ultimately have "begin_op s = Ok () (s\<lparr>lg_outstanding := 3\<rparr>)"
    using assms(1) by (simp add: begin_op_def begin_op_loop_def acquire_ready)
  then show ?thesis using assms(5) by (simp add: log_write_def)
qed

theorem log_reservation_exceeds_log_witness:
  "begin_op (demo_log\<lparr>lg_n := 0, lg_outstanding := 2\<rparr>) = Ok () (demo_log\<lparr>lg_n := 0, lg_outstanding := 3\<rparr>) \<and>
   log_write 0 (demo_log\<lparr>lg_n := 29, lg_outstanding := 3\<rparr>) = Panic ''too big a transaction''"
proof -
  let ?s = "demo_log\<lparr>lg_n := 0, lg_outstanding := 2\<rparr>"
  have "lock_ready LogLock ?s" "lg_committing ?s = 0" "lg_n ?s = 0" "lg_outstanding ?s = 2" "lg_size ?s = of_nat LOGSIZE"
    using demo_ps_ready(1) [of LogLock] by (simp_all add: lock_ready_def)
  note a = log_reservation_exceeds_log [OF this]
  have "begin_op ?s = Ok () (demo_log\<lparr>lg_n := 0, lg_outstanding := 3\<rparr>)" using conjunct1 [OF a] by simp
  moreover have "log_write 0 (demo_log\<lparr>lg_n := 29, lg_outstanding := 3\<rparr>) = Panic ''too big a transaction''"
    using spec [OF conjunct2 [OF a], of "demo_log\<lparr>lg_n := 29, lg_outstanding := 3\<rparr>"] by simp
  ultimately show ?thesis by (rule conjI)
qed

end
