(* ===== verification/Inode.thy ===== *)
theory Inode
  imports Log
begin

text \<open>
  Blocks and inodes, the first half of \<^verbatim>\<open>fs.c\<close>: the free map, the inode cache and the map from file blocks to disk
  blocks.  An in-memory inode is named by its index in \<^verbatim>\<open>icache.inode\<close>; \<open>None\<close> is a null pointer.  A \<^verbatim>\<open>struct dinode\<close>
  is 64 bytes of its block, read and written with the accessors of \<open>Bytes\<close>.  The \<^verbatim>\<open>short\<close> fields are 16-bit words, read with \<open>sint\<close>.
\<close>

section \<open>State\<close>

abbreviation (input) T_DIR :: u16 where "T_DIR \<equiv> 1"
abbreviation (input) T_FILE :: u16 where "T_FILE \<equiv> 2"
abbreviation (input) T_DEV :: u16 where "T_DEV \<equiv> 3"
abbreviation (input) I_BUSY :: i32 where "I_BUSY \<equiv> 1"
abbreviation (input) I_VALID :: i32 where "I_VALID \<equiv> 2"
abbreviation (input) NDIRECT :: nat where "NDIRECT \<equiv> 12"
abbreviation (input) NINDIRECT :: nat where "NINDIRECT \<equiv> 128"
abbreviation (input) MAXFILE :: nat where "MAXFILE \<equiv> 140"
abbreviation (input) IPB :: u32 where "IPB \<equiv> 8"
abbreviation (input) BPB :: nat where "BPB \<equiv> 4096"
abbreviation (input) ROOTINO :: u32 where "ROOTINO \<equiv> 1"

record inode =
  i_dev :: u32
  i_inum :: u32
  i_ref :: i32
  i_flags :: i32
  i_type :: u16
  i_major :: u16
  i_minor :: u16
  i_nlink :: u16
  i_size :: u32
  i_addrs :: "u32 list"

record icst = logst +
  sb :: superblock
  ic_inode :: "inode list"

definition inode_at :: "nat \<Rightarrow> 'a icst_scheme \<Rightarrow> inode" where
  "inode_at ip s = ic_inode s ! ip"

definition upd_inode :: "nat \<Rightarrow> (inode \<Rightarrow> inode) \<Rightarrow> 'a icst_scheme \<Rightarrow> 'a icst_scheme" where
  "upd_inode ip f s = s\<lparr>ic_inode := (ic_inode s)[ip := f (ic_inode s ! ip)]\<rparr>"

definition IBLOCK :: "u32 \<Rightarrow> superblock \<Rightarrow> u32" where
  "IBLOCK i b = i div IPB + sb_inodestart b"

definition BBLOCK :: "u32 \<Rightarrow> superblock \<Rightarrow> u32" where
  "BBLOCK b x = b div of_nat BPB + sb_bmapstart x"

section \<open>Blocks\<close>

definition bzero :: "u32 \<Rightarrow> u32 \<Rightarrow> 'a icst_scheme \<Rightarrow> ('a icst_scheme, unit) res" where
  "bzero dev bno s =
     rbind (bread dev bno s) (\<lambda>bp s.
     rbind (log_write bp (put_data bp (replicate BSIZE 0) s)) (\<lambda>_ s.
     brelse bp s))"

definition bm_test :: "u8 list \<Rightarrow> nat \<Rightarrow> bool" where
  "bm_test d bi \<longleftrightarrow> d ! (bi div 8) AND push_bit (bi mod 8) 1 \<noteq> 0"

definition bm_set :: "u8 list \<Rightarrow> nat \<Rightarrow> u8 list" where
  "bm_set d bi = d[bi div 8 := d ! (bi div 8) OR push_bit (bi mod 8) 1]"

definition bm_clear :: "u8 list \<Rightarrow> nat \<Rightarrow> u8 list" where
  "bm_clear d bi = d[bi div 8 := d ! (bi div 8) AND NOT (push_bit (bi mod 8) 1)]"

text \<open>The inner loop of \<open>balloc\<close>: \<open>n\<close> bits of the block that holds the bits from block \<open>b\<close> on are left.\<close>

fun bm_find :: "nat \<Rightarrow> nat \<Rightarrow> nat \<Rightarrow> nat \<Rightarrow> u8 list \<Rightarrow> nat option" where
  "bm_find 0 bi b sz d = None"
| "bm_find (Suc n) bi b sz d =
     (if \<not> b + bi < sz then None
      else if \<not> bm_test d bi then Some bi
      else bm_find n (Suc bi) b sz d)"

fun balloc_loop :: "nat \<Rightarrow> u32 \<Rightarrow> nat \<Rightarrow> 'a icst_scheme \<Rightarrow> ('a icst_scheme, u32) res" where
  "balloc_loop 0 dev b s = Diverge"
| "balloc_loop (Suc n) dev b s =
     (if b < unat (sb_size (sb s)) then
        rbind (bread dev (BBLOCK (of_nat b) (sb s)) s) (\<lambda>bp s.
        case bm_find BPB 0 b (unat (sb_size (sb s))) (b_data (bc_buf s bp)) of
          Some bi \<Rightarrow>
            rbind (log_write bp (put_data bp (bm_set (b_data (bc_buf s bp)) bi) s)) (\<lambda>_ s.
            rbind (brelse bp s) (\<lambda>_ s.
            rbind (bzero dev (of_nat (b + bi)) s) (\<lambda>_ s.
            Ok (of_nat (b + bi)) s)))
        | None \<Rightarrow> rbind (brelse bp s) (\<lambda>_ s. balloc_loop n dev (b + BPB) s))
      else Panic ''balloc: out of blocks'')"

definition balloc :: "u32 \<Rightarrow> 'a icst_scheme \<Rightarrow> ('a icst_scheme, u32) res" where
  "balloc dev s = balloc_loop (Suc (Suc (unat (sb_size (sb s)) div BPB))) dev 0 s"

definition bfree :: "u32 \<Rightarrow> u32 \<Rightarrow> 'a icst_scheme \<Rightarrow> ('a icst_scheme, unit) res" where
  "bfree dev b s =
     rbind (readsb dev s) (\<lambda>x s. let s = s\<lparr>sb := x\<rparr> in
     rbind (bread dev (BBLOCK b (sb s)) s) (\<lambda>bp s.
     let bi = unat b mod BPB; d = b_data (bc_buf s bp) in
     if \<not> bm_test d bi then Panic ''freeing free block''
     else rbind (log_write bp (put_data bp (bm_clear d bi) s)) (\<lambda>_ s. brelse bp s)))"

section \<open>The inode cache\<close>

definition iinit :: "u32 \<Rightarrow> 'a icst_scheme \<Rightarrow> ('a icst_scheme, unit) res" where
  "iinit dev s =
     (let s = initlock IcacheLock s in
      rbind (readsb dev s) (\<lambda>x s. Ok () (s\<lparr>sb := x\<rparr>)))"

fun icache_find :: "inode list \<Rightarrow> nat \<Rightarrow> nat option \<Rightarrow> u32 \<Rightarrow> u32 \<Rightarrow> (nat + nat option)" where
  "icache_find [] i emp dev inum = Inr emp"
| "icache_find (x # xs) i emp dev inum =
     (if sint (i_ref x) > 0 \<and> i_dev x = dev \<and> i_inum x = inum then Inl i
      else icache_find xs (Suc i) (if emp = None \<and> i_ref x = 0 then Some i else emp) dev inum)"

definition iget :: "u32 \<Rightarrow> u32 \<Rightarrow> 'a icst_scheme \<Rightarrow> ('a icst_scheme, nat) res" where
  "iget dev inum s =
     rbind (acquire IcacheLock s) (\<lambda>_ s.
     case icache_find (ic_inode s) 0 None dev inum of
       Inl ip \<Rightarrow>
         rbind (release IcacheLock (upd_inode ip (\<lambda>x. x\<lparr>i_ref := i_ref x + 1\<rparr>) s)) (\<lambda>_ s. Ok ip s)
     | Inr None \<Rightarrow> Panic ''iget: no inodes''
     | Inr (Some ip) \<Rightarrow>
         rbind (release IcacheLock (upd_inode ip (\<lambda>x. x\<lparr>i_dev := dev, i_inum := inum, i_ref := 1, i_flags := 0\<rparr>) s))
           (\<lambda>_ s. Ok ip s))"

definition idup :: "nat \<Rightarrow> 'a icst_scheme \<Rightarrow> ('a icst_scheme, nat) res" where
  "idup ip s =
     rbind (acquire IcacheLock s) (\<lambda>_ s.
     rbind (release IcacheLock (upd_inode ip (\<lambda>x. x\<lparr>i_ref := i_ref x + 1\<rparr>) s)) (\<lambda>_ s. Ok ip s))"

text \<open>The offset of a \<^verbatim>\<open>struct dinode\<close> in its block, and its fields.\<close>

definition dino_off :: "u32 \<Rightarrow> nat" where
  "dino_off inum = 64 * (unat inum mod 8)"

definition dino_addrs :: "u8 list \<Rightarrow> nat \<Rightarrow> u32 list" where
  "dino_addrs d off = map (\<lambda>i. ld32 d (off + 12 + 4 * i)) [0..<NDIRECT + 1]"

fun put_addrs :: "u8 list \<Rightarrow> nat \<Rightarrow> u32 list \<Rightarrow> u8 list" where
  "put_addrs d off [] = d"
| "put_addrs d off (a # as) = put_addrs (st32 d off a) (off + 4) as"

fun ialloc_loop :: "nat \<Rightarrow> nat \<Rightarrow> u32 \<Rightarrow> u16 \<Rightarrow> 'a icst_scheme \<Rightarrow> ('a icst_scheme, nat) res" where
  "ialloc_loop 0 inum dev type s = Panic ''ialloc: no inodes''"
| "ialloc_loop (Suc n) inum dev type s =
     rbind (bread dev (IBLOCK (of_nat inum) (sb s)) s) (\<lambda>bp s.
     let d = b_data (bc_buf s bp); off = dino_off (of_nat inum) in
     if ld16 d off = 0 then
       rbind (log_write bp (put_data bp (st16 (splice d off (replicate 64 0)) off type) s)) (\<lambda>_ s.
       rbind (brelse bp s) (\<lambda>_ s.
       iget dev (of_nat inum) s))
     else rbind (brelse bp s) (\<lambda>_ s. ialloc_loop n (Suc inum) dev type s))"

definition ialloc :: "u32 \<Rightarrow> u16 \<Rightarrow> 'a icst_scheme \<Rightarrow> ('a icst_scheme, nat) res" where
  "ialloc dev type s = ialloc_loop (unat (sb_ninodes (sb s)) - 1) 1 dev type s"

definition dino_put :: "inode \<Rightarrow> u8 list \<Rightarrow> u8 list" where
  "dino_put ip d =
     (let off = dino_off (i_inum ip);
          d = st16 d off (i_type ip);
          d = st16 d (off + 2) (i_major ip);
          d = st16 d (off + 4) (i_minor ip);
          d = st16 d (off + 6) (i_nlink ip);
          d = st32 d (off + 8) (i_size ip)
      in put_addrs d (off + 12) (i_addrs ip))"

definition iupdate :: "nat \<Rightarrow> 'a icst_scheme \<Rightarrow> ('a icst_scheme, unit) res" where
  "iupdate ip s =
     rbind (bread (i_dev (inode_at ip s)) (IBLOCK (i_inum (inode_at ip s)) (sb s)) s) (\<lambda>bp s.
     rbind (log_write bp (put_data bp (dino_put (inode_at ip s) (b_data (bc_buf s bp))) s)) (\<lambda>_ s.
     brelse bp s))"

definition dino_get :: "u8 list \<Rightarrow> inode \<Rightarrow> inode" where
  "dino_get d ip =
     (let off = dino_off (i_inum ip) in
      ip\<lparr>i_type := ld16 d off, i_major := ld16 d (off + 2), i_minor := ld16 d (off + 4), i_nlink := ld16 d (off + 6),
         i_size := ld32 d (off + 8), i_addrs := dino_addrs d off\<rparr>)"

text \<open>\<open>ilock_body\<close> is \<open>ilock\<close> from the test of the \<^verbatim>\<open>while\<close> loop on, which a process that slept there makes again.\<close>

definition ilock_body :: "nat \<Rightarrow> 'a icst_scheme \<Rightarrow> ('a icst_scheme, unit) res" where
  "ilock_body ip s =
     (if i_flags (inode_at ip s) AND I_BUSY \<noteq> 0 then sleep (ChanInode ip) (Some IcacheLock) s
      else rbind (release IcacheLock (upd_inode ip (\<lambda>x. x\<lparr>i_flags := i_flags x OR I_BUSY\<rparr>) s)) (\<lambda>_ s.
        if i_flags (inode_at ip s) AND I_VALID = 0 then
          rbind (bread (i_dev (inode_at ip s)) (IBLOCK (i_inum (inode_at ip s)) (sb s)) s) (\<lambda>bp s.
          let s = upd_inode ip (dino_get (b_data (bc_buf s bp))) s in
          rbind (brelse bp s) (\<lambda>_ s.
          let s = upd_inode ip (\<lambda>x. x\<lparr>i_flags := i_flags x OR I_VALID\<rparr>) s in
          if i_type (inode_at ip s) = 0 then Panic ''ilock: no type'' else Ok () s))
        else Ok () s))"

definition ilock :: "nat option \<Rightarrow> 'a icst_scheme \<Rightarrow> ('a icst_scheme, unit) res" where
  "ilock p s =
     (case p of
        None \<Rightarrow> Panic ''ilock''
      | Some ip \<Rightarrow>
          if sint (i_ref (inode_at ip s)) < 1 then Panic ''ilock''
          else rbind (acquire IcacheLock s) (\<lambda>_ s. ilock_body ip s))"

definition ilock_return :: "bool \<Rightarrow> nat \<Rightarrow> 'a icst_scheme \<Rightarrow> ('a icst_scheme, unit) res" where
  "ilock_return ena ip s = rbind (sleep_return ena IcacheLock s) (\<lambda>_ s. ilock_body ip s)"

definition iunlock :: "nat option \<Rightarrow> 'a icst_scheme \<Rightarrow> ('a icst_scheme, unit) res" where
  "iunlock p s =
     (case p of
        None \<Rightarrow> Panic ''iunlock''
      | Some ip \<Rightarrow>
          if i_flags (inode_at ip s) AND I_BUSY = 0 \<or> sint (i_ref (inode_at ip s)) < 1 then Panic ''iunlock''
          else rbind (acquire IcacheLock s) (\<lambda>_ s.
               rbind (wakeup (ChanInode ip) (upd_inode ip (\<lambda>x. x\<lparr>i_flags := i_flags x AND NOT I_BUSY\<rparr>) s)) (\<lambda>_ s.
               release IcacheLock s)))"

section \<open>File blocks\<close>

definition bmap :: "nat \<Rightarrow> u32 \<Rightarrow> 'a icst_scheme \<Rightarrow> ('a icst_scheme, u32) res" where
  "bmap ip bn s =
     (let dev = i_dev (inode_at ip s) in
      if unat bn < NDIRECT then
        (let addr = i_addrs (inode_at ip s) ! unat bn in
         if addr = 0 then
           rbind (balloc dev s) (\<lambda>addr s. Ok addr (upd_inode ip (\<lambda>x. x\<lparr>i_addrs := (i_addrs x)[unat bn := addr]\<rparr>) s))
         else Ok addr s)
      else if unat bn - NDIRECT < NINDIRECT then
        (let j = unat bn - NDIRECT; addr = i_addrs (inode_at ip s) ! NDIRECT in
         rbind (if addr = 0 then
                  rbind (balloc dev s) (\<lambda>addr s. Ok addr (upd_inode ip (\<lambda>x. x\<lparr>i_addrs := (i_addrs x)[NDIRECT := addr]\<rparr>) s))
                else Ok addr s) (\<lambda>addr s.
         rbind (bread dev addr s) (\<lambda>bp s.
         let addr = ld32 (b_data (bc_buf s bp)) (4 * j) in
         rbind (if addr = 0 then
                  rbind (balloc dev s) (\<lambda>addr s.
                  rbind (log_write bp (put_data bp (st32 (b_data (bc_buf s bp)) (4 * j) addr) s)) (\<lambda>_ s. Ok addr s))
                else Ok addr s) (\<lambda>addr s.
         rbind (brelse bp s) (\<lambda>_ s. Ok addr s)))))
      else Panic ''bmap: out of range'')"

fun itrunc_direct :: "nat \<Rightarrow> nat \<Rightarrow> nat \<Rightarrow> 'a icst_scheme \<Rightarrow> ('a icst_scheme, unit) res" where
  "itrunc_direct 0 i ip s = Ok () s"
| "itrunc_direct (Suc n) i ip s =
     (if i_addrs (inode_at ip s) ! i \<noteq> 0 then
        rbind (bfree (i_dev (inode_at ip s)) (i_addrs (inode_at ip s) ! i) s) (\<lambda>_ s.
        itrunc_direct n (Suc i) ip (upd_inode ip (\<lambda>x. x\<lparr>i_addrs := (i_addrs x)[i := 0]\<rparr>) s))
      else itrunc_direct n (Suc i) ip s)"

fun itrunc_indirect :: "nat \<Rightarrow> nat \<Rightarrow> nat \<Rightarrow> nat \<Rightarrow> 'a icst_scheme \<Rightarrow> ('a icst_scheme, unit) res" where
  "itrunc_indirect 0 j bp ip s = Ok () s"
| "itrunc_indirect (Suc n) j bp ip s =
     (let a = ld32 (b_data (bc_buf s bp)) (4 * j) in
      if a \<noteq> 0 then rbind (bfree (i_dev (inode_at ip s)) a s) (\<lambda>_ s. itrunc_indirect n (Suc j) bp ip s)
      else itrunc_indirect n (Suc j) bp ip s)"

definition itrunc :: "nat \<Rightarrow> 'a icst_scheme \<Rightarrow> ('a icst_scheme, unit) res" where
  "itrunc ip s =
     rbind (itrunc_direct NDIRECT 0 ip s) (\<lambda>_ s.
     rbind (rwhen (i_addrs (inode_at ip s) ! NDIRECT \<noteq> 0) (\<lambda>s.
       rbind (bread (i_dev (inode_at ip s)) (i_addrs (inode_at ip s) ! NDIRECT) s) (\<lambda>bp s.
       rbind (itrunc_indirect NINDIRECT 0 bp ip s) (\<lambda>_ s.
       rbind (brelse bp s) (\<lambda>_ s.
       rbind (bfree (i_dev (inode_at ip s)) (i_addrs (inode_at ip s) ! NDIRECT) s) (\<lambda>_ s.
       Ok () (upd_inode ip (\<lambda>x. x\<lparr>i_addrs := (i_addrs x)[NDIRECT := 0]\<rparr>) s)))))) s) (\<lambda>_ s.
     iupdate ip (upd_inode ip (\<lambda>x. x\<lparr>i_size := 0\<rparr>) s)))"

definition iput :: "nat \<Rightarrow> 'a icst_scheme \<Rightarrow> ('a icst_scheme, unit) res" where
  "iput ip s =
     rbind (acquire IcacheLock s) (\<lambda>_ s.
     rbind
       (if i_ref (inode_at ip s) = 1 \<and> i_flags (inode_at ip s) AND I_VALID \<noteq> 0 \<and> i_nlink (inode_at ip s) = 0 then
          (if i_flags (inode_at ip s) AND I_BUSY \<noteq> 0 then Panic ''iput busy''
           else rbind (release IcacheLock (upd_inode ip (\<lambda>x. x\<lparr>i_flags := i_flags x OR I_BUSY\<rparr>) s)) (\<lambda>_ s.
                rbind (itrunc ip s) (\<lambda>_ s.
                rbind (iupdate ip (upd_inode ip (\<lambda>x. x\<lparr>i_type := 0\<rparr>) s)) (\<lambda>_ s.
                rbind (acquire IcacheLock s) (\<lambda>_ s.
                wakeup (ChanInode ip) (upd_inode ip (\<lambda>x. x\<lparr>i_flags := 0\<rparr>) s))))))
        else Ok () s) (\<lambda>_ s.
     release IcacheLock (upd_inode ip (\<lambda>x. x\<lparr>i_ref := i_ref x - 1\<rparr>) s)))"

definition iunlockput :: "nat \<Rightarrow> 'a icst_scheme \<Rightarrow> ('a icst_scheme, unit) res" where
  "iunlockput ip s = rbind (iunlock (Some ip) s) (\<lambda>_ s. iput ip s)"

record stat =
  st_type :: u16
  st_dev :: i32
  st_ino :: u32
  st_nlink :: u16
  st_size :: u32

definition stati :: "nat \<Rightarrow> 'a icst_scheme \<Rightarrow> stat" where
  "stati ip s = \<lparr>st_type = i_type (inode_at ip s), st_dev = i_dev (inode_at ip s), st_ino = i_inum (inode_at ip s),
     st_nlink = i_nlink (inode_at ip s), st_size = i_size (inode_at ip s)\<rparr>"

end
