(* ===== verification/Console.thy ===== *)
theory Console
  imports Inode
begin

text \<open>
  The console, \<^verbatim>\<open>console.c\<close>: formatted output, the screen and the line-edited input buffer; the keyboard decoder of
  \<^verbatim>\<open>kbd.c\<close> and \<^verbatim>\<open>kbd.h\<close>; and \<open>procdump\<close> of \<^verbatim>\<open>proc.c\<close>, which prints through it.  The screen is a function from cells
  to 16-bit characters, the CRT controller's cursor register a field, and the serial port the list of
  bytes sent to it.  A variable argument of \<open>cprintf\<close> is a number or a string.
\<close>

section \<open>State\<close>

datatype devfn = Consoleread | Consolewrite

record const = icst +
  cons_locking :: i32
  panicked :: i32
  crt :: "nat \<Rightarrow> u16"
  cursor :: u16
  uart :: i32
  uart_out :: "u8 list"
  in_buf :: "u8 list"
  in_r :: u32
  in_w :: u32
  in_e :: u32
  devsw_read :: "nat \<Rightarrow> devfn option"
  devsw_write :: "nat \<Rightarrow> devfn option"

abbreviation (input) INPUT_BUF :: u32 where "INPUT_BUF \<equiv> 128"
abbreviation (input) BACKSPACE :: i32 where "BACKSPACE \<equiv> 0x100"

definition bytes :: "string \<Rightarrow> u8 list" where
  "bytes = map of_char"

section \<open>Characters\<close>

definition uartputc :: "i32 \<Rightarrow> 'a const_scheme \<Rightarrow> 'a const_scheme" where
  "uartputc c s = (if uart s = 0 then s else s\<lparr>uart_out := uart_out s @ [ucast c]\<rparr>)"

definition cgaputc :: "i32 \<Rightarrow> 'a const_scheme \<Rightarrow> ('a const_scheme, unit) res" where
  "cgaputc c s =
     (let pos = uint (cursor s);
          (pos, s) = (if c = 10 then (pos + 80 - pos mod 80, s)
                      else if c = BACKSPACE then (if pos > 0 then pos - 1 else pos, s)
                      else (pos + 1, s\<lparr>crt := (crt s)(nat pos := ucast (c AND 0xff) OR 0x0700)\<rparr>))
      in if pos < 0 \<or> pos > 25 * 80 then Panic ''pos under/overflow''
         else let (pos, s) =
               (if pos div 80 \<ge> 24 then
                  let old = crt s; scr = (\<lambda>i. if i < 23 * 80 then old (i + 80) else old i); pos = pos - 80
                  in (pos, s\<lparr>crt := (\<lambda>i. if nat pos \<le> i \<and> i < 24 * 80 then 0 else scr i)\<rparr>)
                else (pos, s));
               s = s\<lparr>cursor := word_of_int pos\<rparr>
             in Ok () (s\<lparr>crt := (crt s)(nat pos := 0x20 OR 0x0700)\<rparr>))"

definition consputc :: "i32 \<Rightarrow> 'a const_scheme \<Rightarrow> ('a const_scheme, unit) res" where
  "consputc c s =
     (if panicked s \<noteq> 0 then Diverge
      else if c = BACKSPACE then cgaputc c (uartputc 8 (uartputc 0x20 (uartputc 8 s)))
      else cgaputc c (uartputc c s))"

fun consputs :: "u8 list \<Rightarrow> 'a const_scheme \<Rightarrow> ('a const_scheme, unit) res" where
  "consputs [] s = Ok () s"
| "consputs (c # cs) s = rbind (consputc (ucast c) s) (\<lambda>_ s. consputs cs s)"

section \<open>Formatted output\<close>

definition digit :: "nat \<Rightarrow> u8" where
  "digit k = bytes ''0123456789abcdef'' ! k"

text \<open>The \<^verbatim>\<open>do\<close> loop of \<open>printint\<close>: the digits, least significant first.\<close>

fun digits_rev :: "nat \<Rightarrow> nat \<Rightarrow> u8 list" where
  "digits_rev base x = (if base < 2 \<or> x < base then [digit (x mod base)] else digit (x mod base) # digits_rev base (x div base))"

declare digits_rev.simps [simp del]

definition printint_buf :: "i32 \<Rightarrow> nat \<Rightarrow> bool \<Rightarrow> u8 list" where
  "printint_buf xx base sign =
     (let neg = sign \<and> sint xx < 0; x = (if neg then - xx else xx)
      in digits_rev base (unat x) @ (if neg then bytes ''-'' else []))"

definition printint :: "i32 \<Rightarrow> nat \<Rightarrow> bool \<Rightarrow> 'a const_scheme \<Rightarrow> ('a const_scheme, unit) res" where
  "printint xx base sign s = consputs (rev (printint_buf xx base sign)) s"

datatype carg = Num u32 | Str "u8 list option"

definition arg_num :: "carg list \<Rightarrow> (u32 \<times> carg list) option" where
  "arg_num as = (case as of Num x # as \<Rightarrow> Some (x, as) | _ \<Rightarrow> None)"

definition arg_str :: "carg list \<Rightarrow> (u8 list \<times> carg list) option" where
  "arg_str as = (case as of Str None # as \<Rightarrow> Some (bytes ''(null)'', as) | Str (Some x) # as \<Rightarrow> Some (x, as) | _ \<Rightarrow> None)"

fun cprintf_loop :: "u8 list \<Rightarrow> carg list \<Rightarrow> 'a const_scheme \<Rightarrow> ('a const_scheme, unit) res" where
  "cprintf_loop [] as s = Ok () s"
| "cprintf_loop (c # fmt) as s =
     (if c \<noteq> 0x25 then rbind (consputc (ucast c) s) (\<lambda>_ s. cprintf_loop fmt as s)
      else (case fmt of
              [] \<Rightarrow> Ok () s
            | d # fmt \<Rightarrow>
                if d = 0x64 then
                  (case arg_num as of None \<Rightarrow> Fault ''argp''
                   | Some (x, as) \<Rightarrow> rbind (printint x 10 True s) (\<lambda>_ s. cprintf_loop fmt as s))
                else if d = 0x78 \<or> d = 0x70 then
                  (case arg_num as of None \<Rightarrow> Fault ''argp''
                   | Some (x, as) \<Rightarrow> rbind (printint x 16 False s) (\<lambda>_ s. cprintf_loop fmt as s))
                else if d = 0x73 then
                  (case arg_str as of None \<Rightarrow> Fault ''argp''
                   | Some (x, as) \<Rightarrow> rbind (consputs x s) (\<lambda>_ s. cprintf_loop fmt as s))
                else if d = 0x25 then rbind (consputc 0x25 s) (\<lambda>_ s. cprintf_loop fmt as s)
                else rbind (consputc 0x25 s) (\<lambda>_ s. rbind (consputc (ucast d) s) (\<lambda>_ s. cprintf_loop fmt as s))))"

definition cprintf :: "u8 list option \<Rightarrow> carg list \<Rightarrow> 'a const_scheme \<Rightarrow> ('a const_scheme, unit) res" where
  "cprintf fmt as s =
     (let locking = cons_locking s \<noteq> 0 in
      rbind (rwhen locking (acquire ConsLock) s) (\<lambda>_ s.
      case fmt of
        None \<Rightarrow> Panic ''null fmt''
      | Some f \<Rightarrow> rbind (cprintf_loop f as s) (\<lambda>_ s. rwhen locking (release ConsLock) s)))"

section \<open>Process listing\<close>

fun callerpcs :: "nat \<Rightarrow> memory \<Rightarrow> u32 \<Rightarrow> u32 list" where
  "callerpcs 0 m ebp = []"
| "callerpcs (Suc n) m ebp =
     (if ebp = 0 \<or> ebp < KERNBASE \<or> ebp = 0xffffffff then replicate (Suc n) 0
      else load32 m (ebp + 4) # callerpcs n m (load32 m ebp))"

definition getcallerpcs :: "u32 \<Rightarrow> memory \<Rightarrow> u32 list" where
  "getcallerpcs v m = callerpcs 10 m (v - 8)"

fun state_name :: "procstate \<Rightarrow> string" where
  "state_name UNUSED = ''unused''"
| "state_name EMBRYO = ''embryo''"
| "state_name SLEEPING = ''sleep ''"
| "state_name RUNNABLE = ''runble''"
| "state_name RUNNING = ''run   ''"
| "state_name ZOMBIE = ''zombie''"

fun print_pcs :: "u32 list \<Rightarrow> 'a const_scheme \<Rightarrow> ('a const_scheme, unit) res" where
  "print_pcs [] s = Ok () s"
| "print_pcs (pc # pcs) s =
     (if pc = 0 then Ok () s
      else rbind (cprintf (Some (bytes '' %p'')) [Num pc] s) (\<lambda>_ s. print_pcs pcs s))"

abbreviation (input) CTX_EBP :: u32 where "CTX_EBP \<equiv> 12"

fun procdump_loop :: "proc list \<Rightarrow> 'a const_scheme \<Rightarrow> ('a const_scheme, unit) res" where
  "procdump_loop [] s = Ok () s"
| "procdump_loop (p # ps) s =
     (if p_state p = UNUSED then procdump_loop ps s
      else rbind (cprintf (Some (bytes ''%d %s %s'')) [Num (p_pid p), Str (Some (bytes (state_name (p_state p)))),
             Str (Some (cstr (p_name p)))] s) (\<lambda>_ s.
        rbind (rwhen (p_state p = SLEEPING)
                 (\<lambda>s. print_pcs (getcallerpcs (load32 (mem s) (p_context p + CTX_EBP) + 8) (mem s)) s) s) (\<lambda>_ s.
        rbind (cprintf (Some (bytes ''\<newline>'')) [] s) (\<lambda>_ s.
        procdump_loop ps s))))"

definition procdump :: "'a const_scheme \<Rightarrow> ('a const_scheme, unit) res" where
  "procdump s = procdump_loop (pt_proc s) s"

section \<open>Input\<close>

definition in_at :: "u32 \<Rightarrow> 'a const_scheme \<Rightarrow> u8" where
  "in_at k s = in_buf s ! unat (k mod INPUT_BUF)"

text \<open>\<open>kill_line\<close> is the loop for Control-U; it stops after 128 characters at the latest, since no more are in the buffer.\<close>

fun kill_line :: "nat \<Rightarrow> 'a const_scheme \<Rightarrow> ('a const_scheme, unit) res" where
  "kill_line n s =
     (if in_e s \<noteq> in_w s \<and> in_at (in_e s - 1) s \<noteq> 10 then
        (case n of 0 \<Rightarrow> Diverge
         | Suc n \<Rightarrow> rbind (consputc BACKSPACE (s\<lparr>in_e := in_e s - 1\<rparr>)) (\<lambda>_ s. kill_line n s))
      else Ok () s)"

declare kill_line.simps [simp del]

definition input_char :: "i32 \<Rightarrow> 'a const_scheme \<Rightarrow> ('a const_scheme, unit) res" where
  "input_char c s =
     (if c = 21 then kill_line 128 s
      else if c = 8 \<or> c = 0x7f then
        (if in_e s \<noteq> in_w s then consputc BACKSPACE (s\<lparr>in_e := in_e s - 1\<rparr>) else Ok () s)
      else if c \<noteq> 0 \<and> in_e s - in_r s < INPUT_BUF then
        (let c = (if c = 13 then 10 else c);
             s = s\<lparr>in_buf := (in_buf s)[unat (in_e s mod INPUT_BUF) := ucast c], in_e := in_e s + 1\<rparr>
         in rbind (consputc c s) (\<lambda>_ s.
            if c = 10 \<or> c = 4 \<or> in_e s = in_r s + INPUT_BUF then wakeup ChanInput (s\<lparr>in_w := in_e s\<rparr>)
            else Ok () s))
      else Ok () s)"

text \<open>\<open>cs\<close> are the characters \<^verbatim>\<open>getc\<close> returns before it returns a negative number.\<close>

fun consoleintr_loop :: "i32 list \<Rightarrow> bool \<Rightarrow> 'a const_scheme \<Rightarrow> ('a const_scheme, bool) res" where
  "consoleintr_loop [] dump s = Ok dump s"
| "consoleintr_loop (c # cs) dump s =
     (if c = 16 then consoleintr_loop cs True s
      else rbind (input_char c s) (\<lambda>_ s. consoleintr_loop cs dump s))"

definition consoleintr :: "i32 list \<Rightarrow> 'a const_scheme \<Rightarrow> ('a const_scheme, unit) res" where
  "consoleintr cs s =
     rbind (acquire ConsLock s) (\<lambda>_ s.
     rbind (consoleintr_loop cs False s) (\<lambda>dump s.
     rbind (release ConsLock s) (\<lambda>_ s. rwhen dump procdump s)))"

section \<open>The console device\<close>

text \<open>
  \<open>consoleread_loop k n target\<close> is the loop with \<open>n\<close> bytes to go, at most \<open>k\<close> of them; it returns the value
  of \<^verbatim>\<open>n\<close> at its end and the bytes stored, or \<open>None\<close> after the early return of a killed process.
\<close>

fun consoleread_loop :: "nat \<Rightarrow> int \<Rightarrow> u32 \<Rightarrow> nat option \<Rightarrow> 'a const_scheme \<Rightarrow> ('a const_scheme, (int \<times> u8 list) option) res" where
  "consoleread_loop 0 n target ip s = Ok (Some (n, [])) s"
| "consoleread_loop (Suc k) n target ip s =
     (if in_r s = in_w s then
        with_cur (\<lambda>c s.
          if p_killed (proc_at c s) \<noteq> 0 then
            rbind (release ConsLock s) (\<lambda>_ s. rbind (ilock ip s) (\<lambda>_ s. Ok None s))
          else rbind (sleep ChanInput (Some ConsLock) s) (\<lambda>_ s. Ok None s)) s
      else
        (let c = in_at (in_r s) s; s = s\<lparr>in_r := in_r s + 1\<rparr> in
         if c = 4 then Ok (Some (n, [])) (if word_of_int n < target then s\<lparr>in_r := in_r s - 1\<rparr> else s)
         else if c = 10 then Ok (Some (n - 1, [c])) s
         else rbind (consoleread_loop k (n - 1) target ip s) (\<lambda>r s.
              Ok (map_option (\<lambda>(n, bs). (n, c # bs)) r) s)))"

text \<open>A process that slept in the loop goes on with what it had left to read.\<close>

definition consoleread_return :: "bool \<Rightarrow> nat \<Rightarrow> int \<Rightarrow> u32 \<Rightarrow> nat option \<Rightarrow> 'a const_scheme \<Rightarrow> ('a const_scheme, (int \<times> u8 list) option) res" where
  "consoleread_return ena k n target ip s = rbind (sleep_return ena ConsLock s) (\<lambda>_ s. consoleread_loop k n target ip s)"

definition consoleread :: "nat option \<Rightarrow> i32 \<Rightarrow> 'a const_scheme \<Rightarrow> ('a const_scheme, int \<times> u8 list) res" where
  "consoleread ip n s =
     rbind (iunlock ip s) (\<lambda>_ s.
     rbind (acquire ConsLock s) (\<lambda>_ s.
     rbind (consoleread_loop (nat (sint n)) (sint n) n ip s) (\<lambda>r s.
     case r of
       None \<Rightarrow> Ok (- 1, []) s
     | Some (m, bs) \<Rightarrow>
         rbind (release ConsLock s) (\<lambda>_ s.
         rbind (ilock ip s) (\<lambda>_ s. Ok (sint n - m, bs) s)))))"

definition consolewrite :: "nat option \<Rightarrow> u8 list \<Rightarrow> i32 \<Rightarrow> 'a const_scheme \<Rightarrow> ('a const_scheme, int) res" where
  "consolewrite ip buf n s =
     rbind (iunlock ip s) (\<lambda>_ s.
     rbind (acquire ConsLock s) (\<lambda>_ s.
     rbind (consputs (take (nat (sint n)) buf) s) (\<lambda>_ s.
     rbind (release ConsLock s) (\<lambda>_ s.
     rbind (ilock ip s) (\<lambda>_ s. Ok (sint n) s)))))"

definition consoleinit :: "'a const_scheme \<Rightarrow> ('a const_scheme, unit) res" where
  "consoleinit s =
     (let s = initlock ConsLock s
      in Ok () (s\<lparr>devsw_write := (devsw_write s)(1 := Some Consolewrite), devsw_read := (devsw_read s)(1 := Some Consoleread),
                  cons_locking := 1\<rparr>))"

section \<open>The keyboard\<close>

abbreviation (input) E0ESC :: u32 where "E0ESC \<equiv> 0x40"

definition shiftcode :: "nat \<Rightarrow> u32" where
  "shiftcode k = (if k = 0x1D then 2 else if k = 0x2A then 1 else if k = 0x36 then 1 else if k = 0x38 then 4
     else if k = 0x9D then 2 else if k = 0xB8 then 4 else 0)"

definition togglecode :: "nat \<Rightarrow> u32" where
  "togglecode k = (if k = 0x3A then 8 else if k = 0x45 then 16 else if k = 0x46 then 32 else 0)"

definition NO :: "u8 list" where "NO = [0]"

definition low_map :: "u8 list \<Rightarrow> nat \<Rightarrow> u8" where
  "low_map m k = (if k < length m then m ! k else 0)"

definition ext_map :: "u8 \<Rightarrow> u8 \<Rightarrow> nat \<Rightarrow> u8 option" where
  "ext_map enter slash k =
     (if k = 0x9C then Some enter else if k = 0xB5 then Some slash
      else if k = 0xC8 then Some 0xE2 else if k = 0xD0 then Some 0xE3
      else if k = 0xC9 then Some 0xE6 else if k = 0xD1 then Some 0xE7
      else if k = 0xCB then Some 0xE4 else if k = 0xCD then Some 0xE5
      else if k = 0x97 then Some 0xE0 else if k = 0xCF then Some 0xE1
      else if k = 0xD2 then Some 0xE8 else if k = 0xD3 then Some 0xE9 else None)"

definition normal_low :: "u8 list" where
  "normal_low = NO @ [0x1B] @ bytes ''1234567890-='' @ [8, 9] @ bytes ''qwertyuiop[]'' @ [10] @ NO @ bytes ''asdfghjkl;''
     @ [0x27] @ bytes ''`'' @ NO @ [0x5C] @ bytes ''zxcvbnm,./'' @ NO @ bytes ''*'' @ NO @ bytes '' ''
     @ replicate 13 0 @ bytes ''789-456+1230.'' @ replicate 4 0"

definition normalmap :: "nat \<Rightarrow> u8" where
  "normalmap k = (case ext_map 10 0x2F k of Some c \<Rightarrow> c | None \<Rightarrow> low_map normal_low k)"

definition shift_low :: "u8 list" where
  "shift_low = NO @ [0x1B] @ bytes ''!@#$%^&*()_+'' @ [8, 9] @ bytes ''QWERTYUIOP{}'' @ [10] @ NO @ bytes ''ASDFGHJKL:''
     @ [0x22] @ bytes ''~'' @ NO @ bytes ''|'' @ bytes ''ZXCVBNM<>?'' @ NO @ bytes ''*'' @ NO @ bytes '' ''
     @ replicate 13 0 @ bytes ''789-456+1230.'' @ replicate 4 0"

definition shiftmap :: "nat \<Rightarrow> u8" where
  "shiftmap k = (case ext_map 10 0x2F k of Some c \<Rightarrow> c | None \<Rightarrow> low_map shift_low k)"

definition ctl :: "string \<Rightarrow> u8 list" where
  "ctl s = map (\<lambda>c. c - 0x40) (bytes s)"

definition ctl_low :: "u8 list" where
  "ctl_low = replicate 16 0 @ ctl ''QWERTYUIOP'' @ replicate 2 0 @ [13] @ NO @ ctl ''ASDFGHJKL'' @ replicate 4 0
     @ [0x5C - 0x40] @ ctl ''ZXCVBNM'' @ replicate 1 0 @ NO @ ctl ''/'' @ replicate 2 0"

definition ctlmap :: "nat \<Rightarrow> u8" where
  "ctlmap k = (case ext_map 13 (0x2F - 0x40) k of Some c \<Rightarrow> c | None \<Rightarrow> low_map ctl_low k)"

definition charcode :: "u32 \<Rightarrow> nat \<Rightarrow> u8" where
  "charcode m k = (if m = 0 then normalmap k else if m = 1 then shiftmap k else ctlmap k)"

text \<open>\<open>kbdgetc st data shift\<close>: \<open>st\<close> and \<open>data\<close> are what the two ports read as, \<open>shift\<close> the static variable, returned updated.\<close>

definition kbdgetc :: "u32 \<Rightarrow> u32 \<Rightarrow> u32 \<Rightarrow> i32 \<times> u32" where
  "kbdgetc st data shift =
     (if st AND 1 = 0 then (- 1, shift)
      else if data = 0xE0 then (0, shift OR E0ESC)
      else if data AND 0x80 \<noteq> 0 then
        (let data = (if shift AND E0ESC \<noteq> 0 then data else data AND 0x7F)
         in (0, shift AND NOT (shiftcode (unat data) OR E0ESC)))
      else
        (let (data, shift) = (if shift AND E0ESC \<noteq> 0 then (data OR 0x80, shift AND NOT E0ESC) else (data, shift));
             shift = shift OR shiftcode (unat data);
             shift = shift XOR togglecode (unat data);
             c = (ucast (charcode (shift AND 3) (unat data)) :: u32);
             c = (if shift AND 8 \<noteq> 0 then
                    (if 0x61 \<le> c \<and> c \<le> 0x7A then c + 0x41 - 0x61
                     else if 0x41 \<le> c \<and> c \<le> 0x5A then c + 0x61 - 0x41 else c)
                  else c)
         in (c, shift)))"

end
