(* ===== verification/Fs.thy ===== *)
theory Fs
  imports Console
begin

text \<open>
  The second half of \<^verbatim>\<open>fs.c\<close>: reading and writing the contents of an inode, directories and path names.  A buffer
  passed by pointer is the list of its bytes, and a routine that fills one returns the bytes.  A path is its C string
  without the terminating zero; a name buffer is a list of \<open>DIRSIZ\<close> bytes.
\<close>

section \<open>Inode contents\<close>

definition dev_of :: "nat \<Rightarrow> 'a const_scheme \<Rightarrow> u32" where
  "dev_of ip s = i_dev (inode_at ip s)"

text \<open>The bytes of a transfer of \<open>n\<close> bytes at \<open>off\<close> that lie in the block of \<open>off\<close>.\<close>

definition chunk :: "nat \<Rightarrow> nat \<Rightarrow> nat" where
  "chunk off n = min n (BSIZE - off mod BSIZE)"

lemma chunk_pos [simp]: "0 < n \<Longrightarrow> 0 < chunk off n" "chunk off n \<le> n"
  by (simp_all add: chunk_def)

function readi_loop :: "nat \<Rightarrow> nat \<Rightarrow> nat \<Rightarrow> 'a const_scheme \<Rightarrow> ('a const_scheme, u8 list) res" where
  "readi_loop ip off n s =
     (if n = 0 then Ok [] s
      else rbind (bmap ip (of_nat (off div BSIZE)) s) (\<lambda>a s.
           rbind (bread (dev_of ip s) a s) (\<lambda>bp s.
           let m = chunk off n; bs = take m (drop (off mod BSIZE) (b_data (bc_buf s bp))) in
           rbind (brelse bp s) (\<lambda>_ s.
           rbind (readi_loop ip (off + m) (n - m) s) (\<lambda>r s. Ok (bs @ r) s)))))"
  by pat_completeness auto
termination by (relation "measure (\<lambda>(ip, off, n, s). n)") (auto simp: chunk_def)

declare readi_loop.simps [simp del]

definition dev_read :: "nat \<Rightarrow> u32 \<Rightarrow> 'a const_scheme \<Rightarrow> ('a const_scheme, int \<times> u8 list) res" where
  "dev_read ip n s =
     (let major = sint (i_major (inode_at ip s)) in
      if major < 0 \<or> major \<ge> int NDEV then Ok (- 1, []) s
      else case devsw_read s (nat major) of
             None \<Rightarrow> Ok (- 1, []) s
           | Some Consoleread \<Rightarrow> consoleread (Some ip) n s
           | Some Consolewrite \<Rightarrow> Fault ''devsw'')"

definition readi :: "nat \<Rightarrow> u32 \<Rightarrow> u32 \<Rightarrow> 'a const_scheme \<Rightarrow> ('a const_scheme, int \<times> u8 list) res" where
  "readi ip off n s =
     (if i_type (inode_at ip s) = T_DEV then dev_read ip n s
      else if off > i_size (inode_at ip s) \<or> off + n < off then Ok (- 1, []) s
      else let n = (if off + n > i_size (inode_at ip s) then i_size (inode_at ip s) - off else n)
           in rbind (readi_loop ip (unat off) (unat n) s) (\<lambda>bs s. Ok (sint n, bs) s))"

function writei_loop :: "nat \<Rightarrow> u8 list \<Rightarrow> nat \<Rightarrow> nat \<Rightarrow> 'a const_scheme \<Rightarrow> ('a const_scheme, unit) res" where
  "writei_loop ip src off n s =
     (if n = 0 then Ok () s
      else rbind (bmap ip (of_nat (off div BSIZE)) s) (\<lambda>a s.
           rbind (bread (dev_of ip s) a s) (\<lambda>bp s.
           let m = chunk off n in
           rbind (log_write bp (put_data bp (splice (b_data (bc_buf s bp)) (off mod BSIZE) (take m src)) s)) (\<lambda>_ s.
           rbind (brelse bp s) (\<lambda>_ s.
           writei_loop ip (drop m src) (off + m) (n - m) s)))))"
  by pat_completeness auto
termination by (relation "measure (\<lambda>(ip, src, off, n, s). n)") (auto simp: chunk_def)

declare writei_loop.simps [simp del]

definition dev_write :: "nat \<Rightarrow> u8 list \<Rightarrow> u32 \<Rightarrow> 'a const_scheme \<Rightarrow> ('a const_scheme, int) res" where
  "dev_write ip src n s =
     (let major = sint (i_major (inode_at ip s)) in
      if major < 0 \<or> major \<ge> int NDEV then Ok (- 1) s
      else case devsw_write s (nat major) of
             None \<Rightarrow> Ok (- 1) s
           | Some Consolewrite \<Rightarrow> consolewrite (Some ip) src n s
           | Some Consoleread \<Rightarrow> Fault ''devsw'')"

definition writei :: "nat \<Rightarrow> u8 list \<Rightarrow> u32 \<Rightarrow> u32 \<Rightarrow> 'a const_scheme \<Rightarrow> ('a const_scheme, int) res" where
  "writei ip src off n s =
     (if i_type (inode_at ip s) = T_DEV then dev_write ip src n s
      else if off > i_size (inode_at ip s) \<or> off + n < off then Ok (- 1) s
      else if off + n > of_nat (MAXFILE * BSIZE) then Ok (- 1) s
      else rbind (writei_loop ip src (unat off) (unat n) s) (\<lambda>_ s.
           let off = off + n in
           rbind (rwhen (n > 0 \<and> off > i_size (inode_at ip s))
                    (\<lambda>s. iupdate ip (upd_inode ip (\<lambda>x. x\<lparr>i_size := off\<rparr>) s)) s) (\<lambda>_ s.
           Ok (sint n) s)))"

section \<open>Directories\<close>

abbreviation (input) DIRSIZ :: nat where "DIRSIZ \<equiv> 14"
abbreviation (input) DIRENT :: nat where "DIRENT \<equiv> 16"

definition de_inum :: "u8 list \<Rightarrow> u16" where "de_inum de = ld16 de 0"
definition de_name :: "u8 list \<Rightarrow> u8 list" where "de_name de = take DIRSIZ (drop 2 de)"

definition namecmp :: "u8 list \<Rightarrow> u8 list \<Rightarrow> int option" where
  "namecmp a b = strncmp a b DIRSIZ"

text \<open>One directory entry; both loops that read one stop the kernel when it is not there.\<close>

definition read_dirent :: "nat \<Rightarrow> nat \<Rightarrow> string \<Rightarrow> 'a const_scheme \<Rightarrow> ('a const_scheme, u8 list) res" where
  "read_dirent dp off msg s =
     rbind (readi dp (of_nat off) (of_nat DIRENT) s) (\<lambda>(r, de) s. if r \<noteq> int DIRENT then Panic msg else Ok de s)"

fun dirlookup_loop :: "nat \<Rightarrow> nat \<Rightarrow> nat \<Rightarrow> u8 list \<Rightarrow> 'a const_scheme \<Rightarrow> ('a const_scheme, (nat \<times> nat) option) res" where
  "dirlookup_loop k off dp name s =
     (if off < unat (i_size (inode_at dp s)) then
        (case k of 0 \<Rightarrow> Diverge
         | Suc k \<Rightarrow>
             rbind (read_dirent dp off ''dirlink read'' s) (\<lambda>de s.
             if de_inum de = 0 then dirlookup_loop k (off + DIRENT) dp name s
             else case namecmp name (de_name de) of
                    None \<Rightarrow> Fault ''namecmp''
                  | Some c \<Rightarrow>
                      if c = 0 then rbind (iget (dev_of dp s) (ucast (de_inum de)) s) (\<lambda>ip s. Ok (Some (ip, off)) s)
                      else dirlookup_loop k (off + DIRENT) dp name s))
      else Ok None s)"

declare dirlookup_loop.simps [simp del]

definition dirlookup :: "nat \<Rightarrow> u8 list \<Rightarrow> 'a const_scheme \<Rightarrow> ('a const_scheme, (nat \<times> nat) option) res" where
  "dirlookup dp name s =
     (if i_type (inode_at dp s) \<noteq> T_DIR then Panic ''dirlookup not DIR''
      else dirlookup_loop (unat (i_size (inode_at dp s)) div DIRENT + 1) 0 dp name s)"

fun dirlink_slot :: "nat \<Rightarrow> nat \<Rightarrow> nat \<Rightarrow> 'a const_scheme \<Rightarrow> ('a const_scheme, nat) res" where
  "dirlink_slot k off dp s =
     (if off < unat (i_size (inode_at dp s)) then
        (case k of 0 \<Rightarrow> Diverge
         | Suc k \<Rightarrow>
             rbind (read_dirent dp off ''dirlink read'' s) (\<lambda>de s.
             if de_inum de = 0 then Ok off s else dirlink_slot k (off + DIRENT) dp s))
      else Ok off s)"

declare dirlink_slot.simps [simp del]

definition mk_dirent :: "u32 \<Rightarrow> u8 list \<Rightarrow> u8 list" where
  "mk_dirent inum name = st16 (replicate 2 0 @ name) 0 (ucast inum)"

definition dirlink :: "nat \<Rightarrow> u8 list \<Rightarrow> u32 \<Rightarrow> 'a const_scheme \<Rightarrow> ('a const_scheme, int) res" where
  "dirlink dp name inum s =
     rbind (dirlookup dp name s) (\<lambda>r s.
     case r of
       Some (ip, off) \<Rightarrow> rbind (iput ip s) (\<lambda>_ s. Ok (- 1) s)
     | None \<Rightarrow>
         rbind (dirlink_slot (unat (i_size (inode_at dp s)) div DIRENT + 1) 0 dp s) (\<lambda>off s.
         case strncpy name DIRSIZ of
           None \<Rightarrow> Fault ''strncpy''
         | Some nm \<Rightarrow>
             rbind (writei dp (mk_dirent inum nm) (of_nat off) (of_nat DIRENT) s) (\<lambda>r s.
             if r \<noteq> int DIRENT then Panic ''dirlink'' else Ok 0 s)))"

section \<open>Paths\<close>

abbreviation (input) slash :: u8 where "slash \<equiv> 0x2F"

definition skip_slashes :: "u8 list \<Rightarrow> u8 list" where
  "skip_slashes p = dropWhile (\<lambda>c. c = slash) p"

definition skipelem :: "u8 list \<Rightarrow> u8 list \<Rightarrow> (u8 list \<times> u8 list) option" where
  "skipelem path name =
     (let path = skip_slashes path in
      if path = [] then None
      else let el = takeWhile (\<lambda>c. c \<noteq> slash) path; path = dropWhile (\<lambda>c. c \<noteq> slash) path;
               name = (if length el \<ge> DIRSIZ then poke name (take DIRSIZ el) else poke name (el @ [0]))
           in Some (skip_slashes path, name))"

lemma skipelem_shorter: "skipelem path name = Some (rest, nm) \<Longrightarrow> length rest < length path"
proof -
  assume a: "skipelem path name = Some (rest, nm)"
  let ?p = "skip_slashes path"
  have ne: "?p \<noteq> []" and r: "rest = skip_slashes (dropWhile (\<lambda>c. c \<noteq> slash) ?p)"
    using a by (auto simp: skipelem_def Let_def split: if_splits)
  from ne have "hd ?p \<noteq> slash" unfolding skip_slashes_def by (rule hd_dropWhile)
  then have "length (dropWhile (\<lambda>c. c \<noteq> slash) ?p) < length ?p"
    using ne by (cases ?p) (auto simp: le_imp_less_Suc length_dropWhile_le)
  moreover have "length ?p \<le> length path" "length rest \<le> length (dropWhile (\<lambda>c. c \<noteq> slash) ?p)"
    by (simp_all add: skip_slashes_def r length_dropWhile_le)
  ultimately show ?thesis by simp
qed

function namex_loop :: "u8 list \<Rightarrow> bool \<Rightarrow> u8 list \<Rightarrow> nat \<Rightarrow> 'a const_scheme \<Rightarrow> ('a const_scheme, nat option \<times> u8 list) res" where
  "namex_loop path parent name ip s =
     (case skipelem path name of
        None \<Rightarrow>
          if parent then rbind (iput ip s) (\<lambda>_ s. Ok (None, name) s)
          else Ok (Some ip, name) s
      | Some (path', name) \<Rightarrow>
          rbind (ilock (Some ip) s) (\<lambda>_ s.
          if i_type (inode_at ip s) \<noteq> T_DIR then rbind (iunlockput ip s) (\<lambda>_ s. Ok (None, name) s)
          else if parent \<and> path' = [] then rbind (iunlock (Some ip) s) (\<lambda>_ s. Ok (Some ip, name) s)
          else rbind (dirlookup ip name s) (\<lambda>r s.
            case r of
              None \<Rightarrow> rbind (iunlockput ip s) (\<lambda>_ s. Ok (None, name) s)
            | Some (next, _) \<Rightarrow> rbind (iunlockput ip s) (\<lambda>_ s. namex_loop path' parent name next s))))"
  by pat_completeness auto
termination by (relation "measure (\<lambda>(path, parent, name, ip, s). length path)") (auto dest: skipelem_shorter)

declare namex_loop.simps [simp del]

definition namex :: "u8 list \<Rightarrow> bool \<Rightarrow> u8 list \<Rightarrow> 'a const_scheme \<Rightarrow> ('a const_scheme, nat option \<times> u8 list) res" where
  "namex path parent name s =
     rbind (if path \<noteq> [] \<and> hd path = slash then iget ROOTDEV ROOTINO s
            else with_cur (\<lambda>c s. case p_cwd (proc_at c s) of None \<Rightarrow> Fault ''proc->cwd'' | Some d \<Rightarrow> idup d s) s) (\<lambda>ip s.
     namex_loop path parent name ip s)"

definition namei :: "u8 list \<Rightarrow> 'a const_scheme \<Rightarrow> ('a const_scheme, nat option) res" where
  "namei path s = rbind (namex path False (replicate DIRSIZ 0) s) (\<lambda>(ip, _) s. Ok ip s)"

definition nameiparent :: "u8 list \<Rightarrow> u8 list \<Rightarrow> 'a const_scheme \<Rightarrow> ('a const_scheme, nat option \<times> u8 list) res" where
  "nameiparent path name s = namex path True name s"

end
