(* ===== verification/File.thy ===== *)
theory File
  imports Fs
begin

text \<open>
  Pipes, \<^verbatim>\<open>pipe.c\<close>, and the open file table, \<^verbatim>\<open>file.c\<close>.  A file is named by its index in \<^verbatim>\<open>ftable.file\<close>, a pipe by the address of the
  page that holds its \<^verbatim>\<open>struct pipe\<close>; \<open>pipes\<close> gives the contents of such a page.  The bytes a caller passes or
  receives through a pointer are lists.
\<close>

section \<open>State\<close>

abbreviation (input) PIPESIZE :: u32 where "PIPESIZE \<equiv> 512"

record pipe =
  pp_data :: "u8 list"
  pp_nread :: u32
  pp_nwrite :: u32
  pp_readopen :: i32
  pp_writeopen :: i32

datatype fdtype = FD_NONE | FD_PIPE | FD_INODE

record file_t =
  f_type :: fdtype
  f_ref :: i32
  f_readable :: u8
  f_writable :: u8
  f_pipe :: u32
  f_ip :: "nat option"
  f_off :: u32

record filest = const +
  ft_file :: "file_t list"
  pipes :: "u32 \<Rightarrow> pipe"

definition file_at :: "nat \<Rightarrow> 'a filest_scheme \<Rightarrow> file_t" where
  "file_at f s = ft_file s ! f"

definition upd_file :: "nat \<Rightarrow> (file_t \<Rightarrow> file_t) \<Rightarrow> 'a filest_scheme \<Rightarrow> 'a filest_scheme" where
  "upd_file f g s = s\<lparr>ft_file := (ft_file s)[f := g (ft_file s ! f)]\<rparr>"

definition upd_pipe :: "u32 \<Rightarrow> (pipe \<Rightarrow> pipe) \<Rightarrow> 'a filest_scheme \<Rightarrow> 'a filest_scheme" where
  "upd_pipe p g s = s\<lparr>pipes := (pipes s)(p := g (pipes s p))\<rparr>"

section \<open>Pipes\<close>

definition pipeclose :: "u32 \<Rightarrow> bool \<Rightarrow> 'a filest_scheme \<Rightarrow> ('a filest_scheme, unit) res" where
  "pipeclose p writable s =
     rbind (acquire (PipeLock p) s) (\<lambda>_ s.
     rbind (if writable then wakeup (ChanNread p) (upd_pipe p (\<lambda>x. x\<lparr>pp_writeopen := 0\<rparr>) s)
            else wakeup (ChanNwrite p) (upd_pipe p (\<lambda>x. x\<lparr>pp_readopen := 0\<rparr>) s)) (\<lambda>_ s.
     if pp_readopen (pipes s p) = 0 \<and> pp_writeopen (pipes s p) = 0 then
       rbind (release (PipeLock p) s) (\<lambda>_ s. kfree p s)
     else release (PipeLock p) s))"

definition pipe_put :: "u8 \<Rightarrow> pipe \<Rightarrow> pipe" where
  "pipe_put c x = x\<lparr>pp_data := (pp_data x)[unat (pp_nwrite x mod PIPESIZE) := c], pp_nwrite := pp_nwrite x + 1\<rparr>"

definition pipe_full :: "pipe \<Rightarrow> bool" where
  "pipe_full x \<longleftrightarrow> pp_nwrite x = pp_nread x + PIPESIZE"

text \<open>The \<^verbatim>\<open>for\<close> loop of \<open>pipewrite\<close>; the result says whether it ran to its end.\<close>

fun pipewrite_loop :: "u32 \<Rightarrow> u8 list \<Rightarrow> 'a filest_scheme \<Rightarrow> ('a filest_scheme, bool) res" where
  "pipewrite_loop p [] s = Ok True s"
| "pipewrite_loop p (c # cs) s =
     (if pipe_full (pipes s p) then
        with_cur (\<lambda>me s.
          if pp_readopen (pipes s p) = 0 \<or> p_killed (proc_at me s) \<noteq> 0 then
            rbind (release (PipeLock p) s) (\<lambda>_ s. Ok False s)
          else rbind (wakeup (ChanNread p) s) (\<lambda>_ s.
               rbind (sleep (ChanNwrite p) (Some (PipeLock p)) s) (\<lambda>_ s. Ok False s))) s
      else pipewrite_loop p cs (upd_pipe p (pipe_put c) s))"

definition pipewrite_end :: "u32 \<Rightarrow> int \<Rightarrow> bool \<Rightarrow> 'a filest_scheme \<Rightarrow> ('a filest_scheme, int) res" where
  "pipewrite_end p n ok s =
     (if ok then rbind (wakeup (ChanNread p) s) (\<lambda>_ s. rbind (release (PipeLock p) s) (\<lambda>_ s. Ok n s))
      else Ok (- 1) s)"

definition pipewrite :: "u32 \<Rightarrow> u8 list \<Rightarrow> i32 \<Rightarrow> 'a filest_scheme \<Rightarrow> ('a filest_scheme, int) res" where
  "pipewrite p addr n s =
     rbind (acquire (PipeLock p) s) (\<lambda>_ s.
     rbind (pipewrite_loop p (take (nat (sint n)) addr) s) (\<lambda>ok s. pipewrite_end p (sint n) ok s))"

text \<open>A writer that slept goes on with the bytes it had left.\<close>

definition pipewrite_return :: "bool \<Rightarrow> u32 \<Rightarrow> u8 list \<Rightarrow> int \<Rightarrow> 'a filest_scheme \<Rightarrow> ('a filest_scheme, int) res" where
  "pipewrite_return ena p rest n s =
     rbind (sleep_return ena (PipeLock p) s) (\<lambda>_ s.
     rbind (pipewrite_loop p rest s) (\<lambda>ok s. pipewrite_end p n ok s))"

fun piperead_copy :: "nat \<Rightarrow> pipe \<Rightarrow> u8 list \<times> pipe" where
  "piperead_copy 0 x = ([], x)"
| "piperead_copy (Suc n) x =
     (if pp_nread x = pp_nwrite x then ([], x)
      else let c = pp_data x ! unat (pp_nread x mod PIPESIZE);
               (cs, x) = piperead_copy n (x\<lparr>pp_nread := pp_nread x + 1\<rparr>)
           in (c # cs, x))"

text \<open>\<open>piperead_body\<close> is \<open>piperead\<close> from the test of its \<^verbatim>\<open>while\<close> loop on.\<close>

definition piperead_body :: "u32 \<Rightarrow> i32 \<Rightarrow> 'a filest_scheme \<Rightarrow> ('a filest_scheme, int \<times> u8 list) res" where
  "piperead_body p n s =
     (if pp_nread (pipes s p) = pp_nwrite (pipes s p) \<and> pp_writeopen (pipes s p) \<noteq> 0 then
        with_cur (\<lambda>me s.
          if p_killed (proc_at me s) \<noteq> 0 then rbind (release (PipeLock p) s) (\<lambda>_ s. Ok (- 1, []) s)
          else rbind (sleep (ChanNread p) (Some (PipeLock p)) s) (\<lambda>_ s. Ok (- 1, []) s)) s
      else
        (let (bs, x) = piperead_copy (nat (sint n)) (pipes s p) in
         rbind (wakeup (ChanNwrite p) (upd_pipe p (\<lambda>_. x) s)) (\<lambda>_ s.
         rbind (release (PipeLock p) s) (\<lambda>_ s. Ok (int (length bs), bs) s))))"

definition piperead :: "u32 \<Rightarrow> i32 \<Rightarrow> 'a filest_scheme \<Rightarrow> ('a filest_scheme, int \<times> u8 list) res" where
  "piperead p n s = rbind (acquire (PipeLock p) s) (\<lambda>_ s. piperead_body p n s)"

definition piperead_return :: "bool \<Rightarrow> u32 \<Rightarrow> i32 \<Rightarrow> 'a filest_scheme \<Rightarrow> ('a filest_scheme, int \<times> u8 list) res" where
  "piperead_return ena p n s = rbind (sleep_return ena (PipeLock p) s) (\<lambda>_ s. piperead_body p n s)"

section \<open>The file table\<close>

definition fileinit :: "'a filest_scheme \<Rightarrow> ('a filest_scheme, unit) res" where
  "fileinit s = Ok () (initlock FtableLock s)"

fun scan_files :: "file_t list \<Rightarrow> nat \<Rightarrow> nat option" where
  "scan_files [] i = None"
| "scan_files (f # fs) i = (if f_ref f = 0 then Some i else scan_files fs (Suc i))"

definition filealloc :: "'a filest_scheme \<Rightarrow> ('a filest_scheme, nat option) res" where
  "filealloc s =
     rbind (acquire FtableLock s) (\<lambda>_ s.
     case scan_files (ft_file s) 0 of
       Some f \<Rightarrow> rbind (release FtableLock (upd_file f (\<lambda>x. x\<lparr>f_ref := 1\<rparr>) s)) (\<lambda>_ s. Ok (Some f) s)
     | None \<Rightarrow> rbind (release FtableLock s) (\<lambda>_ s. Ok None s))"

definition filedup :: "nat \<Rightarrow> 'a filest_scheme \<Rightarrow> ('a filest_scheme, nat) res" where
  "filedup f s =
     rbind (acquire FtableLock s) (\<lambda>_ s.
     if sint (f_ref (file_at f s)) < 1 then Panic ''filedup''
     else rbind (release FtableLock (upd_file f (\<lambda>x. x\<lparr>f_ref := f_ref x + 1\<rparr>) s)) (\<lambda>_ s. Ok f s))"

definition deref_ip :: "nat \<Rightarrow> 'a filest_scheme \<Rightarrow> (nat \<Rightarrow> 'a filest_scheme \<Rightarrow> ('a filest_scheme, 'b) res) \<Rightarrow> ('a filest_scheme, 'b) res" where
  "deref_ip f s k = (case f_ip (file_at f s) of None \<Rightarrow> Fault ''f->ip'' | Some ip \<Rightarrow> k ip s)"

definition fileclose :: "nat \<Rightarrow> 'a filest_scheme \<Rightarrow> ('a filest_scheme, unit) res" where
  "fileclose f s =
     rbind (acquire FtableLock s) (\<lambda>_ s.
     if sint (f_ref (file_at f s)) < 1 then Panic ''fileclose''
     else let s = upd_file f (\<lambda>x. x\<lparr>f_ref := f_ref x - 1\<rparr>) s in
       if sint (f_ref (file_at f s)) > 0 then release FtableLock s
       else let ff = file_at f s in
         rbind (release FtableLock (upd_file f (\<lambda>x. x\<lparr>f_ref := 0, f_type := FD_NONE\<rparr>) s)) (\<lambda>_ s.
         if f_type ff = FD_PIPE then pipeclose (f_pipe ff) (f_writable ff \<noteq> 0) s
         else if f_type ff = FD_INODE then
           rbind (begin_op s) (\<lambda>_ s.
           rbind (case f_ip ff of None \<Rightarrow> Fault ''ff.ip'' | Some ip \<Rightarrow> iput ip s) (\<lambda>_ s.
           end_op s))
         else Ok () s))"

definition pipealloc :: "'a filest_scheme \<Rightarrow> ('a filest_scheme, int \<times> nat option \<times> nat option) res" where
  "pipealloc s =
     (let bad = (\<lambda>p f0 f1 s.
        rbind (rwhen (p \<noteq> 0) (kfree p) s) (\<lambda>_ s.
        rbind (case f0 of None \<Rightarrow> Ok () s | Some f \<Rightarrow> fileclose f s) (\<lambda>_ s.
        rbind (case f1 of None \<Rightarrow> Ok () s | Some f \<Rightarrow> fileclose f s) (\<lambda>_ s. Ok (- 1, f0, f1) s))))
      in rbind (filealloc s) (\<lambda>f0 s.
         case f0 of
           None \<Rightarrow> bad 0 None None s
         | Some a \<Rightarrow>
             rbind (filealloc s) (\<lambda>f1 s.
             case f1 of
               None \<Rightarrow> bad 0 f0 None s
             | Some b \<Rightarrow>
                 rbind (kalloc s) (\<lambda>p s.
                 if p = 0 then bad 0 f0 f1 s
                 else let s = upd_pipe p (\<lambda>x. x\<lparr>pp_readopen := 1, pp_writeopen := 1, pp_nwrite := 0, pp_nread := 0\<rparr>) s;
                          s = initlock (PipeLock p) s;
                          s = upd_file a (\<lambda>x. x\<lparr>f_type := FD_PIPE, f_readable := 1, f_writable := 0, f_pipe := p\<rparr>) s;
                          s = upd_file b (\<lambda>x. x\<lparr>f_type := FD_PIPE, f_readable := 0, f_writable := 1, f_pipe := p\<rparr>) s
                      in Ok (0, f0, f1) s))))"

definition filestat :: "nat \<Rightarrow> 'a filest_scheme \<Rightarrow> ('a filest_scheme, int \<times> stat option) res" where
  "filestat f s =
     (if f_type (file_at f s) = FD_INODE then
        deref_ip f s (\<lambda>ip s.
        rbind (ilock (Some ip) s) (\<lambda>_ s.
        let st = stati ip s in
        rbind (iunlock (Some ip) s) (\<lambda>_ s. Ok (0, Some st) s)))
      else Ok (- 1, None) s)"

definition fileread :: "nat \<Rightarrow> i32 \<Rightarrow> 'a filest_scheme \<Rightarrow> ('a filest_scheme, int \<times> u8 list) res" where
  "fileread f n s =
     (if f_readable (file_at f s) = 0 then Ok (- 1, []) s
      else if f_type (file_at f s) = FD_PIPE then piperead (f_pipe (file_at f s)) n s
      else if f_type (file_at f s) = FD_INODE then
        deref_ip f s (\<lambda>ip s.
        rbind (ilock (Some ip) s) (\<lambda>_ s.
        rbind (readi ip (f_off (file_at f s)) n s) (\<lambda>(r, bs) s.
        let s = (if r > 0 then upd_file f (\<lambda>x. x\<lparr>f_off := f_off x + word_of_int r\<rparr>) s else s) in
        rbind (iunlock (Some ip) s) (\<lambda>_ s. Ok (r, bs) s))))
      else Panic ''fileread'')"

abbreviation (input) filewrite_max :: int where "filewrite_max \<equiv> (int LOGSIZE - 1 - 1 - 2) div 2 * 512"

text \<open>
  The loop of \<open>filewrite\<close>, which returns the value of \<open>i\<close> at its end.  Every round but the last one that fails moves \<open>i\<close> forward, so
  \<open>n\<close> rounds are enough.
\<close>

fun filewrite_loop :: "nat \<Rightarrow> nat \<Rightarrow> nat \<Rightarrow> u8 list \<Rightarrow> int \<Rightarrow> int \<Rightarrow> 'a filest_scheme \<Rightarrow> ('a filest_scheme, int) res" where
  "filewrite_loop k f ip addr n i s =
     (if i < n then
        (case k of 0 \<Rightarrow> Diverge
         | Suc k \<Rightarrow>
             let n1 = (if n - i > filewrite_max then filewrite_max else n - i) in
             rbind (begin_op s) (\<lambda>_ s.
             rbind (ilock (Some ip) s) (\<lambda>_ s.
             rbind (writei ip (drop (nat i) addr) (f_off (file_at f s)) (word_of_int n1) s) (\<lambda>r s.
             let s = (if r > 0 then upd_file f (\<lambda>x. x\<lparr>f_off := f_off x + word_of_int r\<rparr>) s else s) in
             rbind (iunlock (Some ip) s) (\<lambda>_ s.
             rbind (end_op s) (\<lambda>_ s.
             if r < 0 then Ok i s
             else if r \<noteq> n1 then Panic ''short filewrite''
             else filewrite_loop k f ip addr n (i + r) s))))))
      else Ok i s)"

declare filewrite_loop.simps [simp del]

definition filewrite :: "nat \<Rightarrow> u8 list \<Rightarrow> i32 \<Rightarrow> 'a filest_scheme \<Rightarrow> ('a filest_scheme, int) res" where
  "filewrite f addr n s =
     (if f_writable (file_at f s) = 0 then Ok (- 1) s
      else if f_type (file_at f s) = FD_PIPE then pipewrite (f_pipe (file_at f s)) addr n s
      else if f_type (file_at f s) = FD_INODE then
        deref_ip f s (\<lambda>ip s.
        rbind (filewrite_loop (nat (sint n)) f ip addr (sint n) 0 s) (\<lambda>i s.
        Ok (if i = sint n then sint n else - 1) s))
      else Panic ''filewrite'')"

end
