(* ===== verification/Ring.thy ===== *)
theory Ring
  imports Xv6_Prelude
begin

text \<open>
  A ring buffer with free-running 32-bit indices, as \<^verbatim>\<open>pipe.c\<close> and \<^verbatim>\<open>console.c\<close> keep one: \<open>rd\<close> and \<open>wr\<close> count the bytes taken and stored,
  wrap around, and are reduced modulo the capacity only to address a cell.  The locale states what the two operations
  do to the fields; its lemmas show that they implement a bounded queue.
\<close>

lemma unat_nat: "n < 2 ^ 32 \<Longrightarrow> unat (of_nat n :: u32) = n"
  by (simp add: unat_of_nat)

locale ring_buffer =
  fixes cap :: nat and ok :: "'r \<Rightarrow> bool" and rd wr :: "'r \<Rightarrow> u32" and cell :: "'r \<Rightarrow> nat \<Rightarrow> u8"
    and push :: "u8 \<Rightarrow> 'r \<Rightarrow> 'r" and pop :: "'r \<Rightarrow> 'r"
  assumes cap_pos: "0 < cap" and cap_small: "cap < 2 ^ 31" and cap_dvd: "cap dvd 2 ^ 32"
    and push_ok: "ok x \<Longrightarrow> ok (push c x)" and push_rd: "rd (push c x) = rd x" and push_wr: "wr (push c x) = wr x + 1"
    and push_cell: "ok x \<Longrightarrow> i < cap \<Longrightarrow> cell (push c x) i = (if i = unat (wr x) mod cap then c else cell x i)"
    and pop_ok: "ok x \<Longrightarrow> ok (pop x)" and pop_rd: "rd (pop x) = rd x + 1" and pop_wr: "wr (pop x) = wr x"
    and pop_cell: "cell (pop x) = cell x"
begin

definition count :: "'r \<Rightarrow> nat" where "count x = unat (wr x - rd x)"

definition wf :: "'r \<Rightarrow> bool" where "wf x \<longleftrightarrow> ok x \<and> count x \<le> cap"

definition queue :: "'r \<Rightarrow> u8 list" where
  "queue x = map (\<lambda>i. cell x ((unat (rd x) + i) mod cap)) [0..<count x]"

lemma length_queue [simp]: "length (queue x) = count x"
  by (simp add: queue_def)

lemma queue_Nil: "queue x = [] \<longleftrightarrow> count x = 0"
  by (simp add: queue_def)

lemma index_wrap: "unat (a + of_nat i) mod cap = (unat a + i) mod cap" for a :: u32
proof -
  have "unat (a + of_nat i) = (unat a + i) mod 2 ^ 32"
    by (simp add: unat_word_ariths unat_of_nat mod_add_right_eq)
  then show ?thesis using cap_dvd by (simp add: mod_mod_cancel)
qed

lemma wr_count: "wr x = rd x + of_nat (count x)"
  by (simp add: count_def)

lemma full_iff: "wf x \<Longrightarrow> wr x = rd x + of_nat cap \<longleftrightarrow> count x = cap"
proof -
  assume "wf x"
  have c: "cap < 2 ^ 32" using cap_small by simp
  have "wr x = rd x + of_nat cap \<longleftrightarrow> wr x - rd x = of_nat cap" by (auto simp: algebra_simps)
  also have "\<dots> \<longleftrightarrow> count x = cap"
    unfolding count_def word_unat_eq_iff unat_nat [OF c] by simp
  finally show ?thesis .
qed

lemma empty_iff: "wr x = rd x \<longleftrightarrow> count x = 0"
  by (simp add: count_def unat_eq_0)

lemma count_push: "wf x \<Longrightarrow> count x < cap \<Longrightarrow> count (push c x) = Suc (count x)"
proof -
  assume "count x < cap"
  then have "Suc (count x) < 2 ^ 32" using cap_small by simp
  moreover have "wr (push c x) - rd (push c x) = of_nat (Suc (count x))" by (simp add: push_wr push_rd count_def)
  ultimately show ?thesis using unat_nat [of "Suc (count x)"] by (simp only: count_def)
qed

lemma push_queue:
  assumes w: "wf x" and c: "count x < cap"
  shows "wf (push b x)" "queue (push b x) = queue x @ [b]"
proof -
  have ok: "ok x" using w by (simp add: wf_def)
  show "wf (push b x)" using w c by (simp add: wf_def count_push push_ok)
  have pos: "unat (wr x) mod cap = (unat (rd x) + count x) mod cap" unfolding wr_count [of x] by (rule index_wrap)
  have ne: "(unat (rd x) + i) mod cap \<noteq> (unat (rd x) + count x) mod cap" if "i < count x" for i
  proof
    assume "(unat (rd x) + i) mod cap = (unat (rd x) + count x) mod cap"
    then have "cap dvd count x - i" using that by (metis add_diff_cancel_left mod_eq_dvd_iff_nat add_le_cancel_left less_imp_le)
    then show False using that c by (auto dest: dvd_imp_le)
  qed
  have "cell (push b x) ((unat (rd x) + i) mod cap) = (if i = count x then b else cell x ((unat (rd x) + i) mod cap))"
    if "i \<le> count x" for i
    using that push_cell [OF ok, of "(unat (rd x) + i) mod cap" b] pos ne [of i] cap_pos by (auto simp: le_less)
  then show "queue (push b x) = queue x @ [b]" using w c by (simp add: queue_def count_push push_rd)
qed

lemma pop_queue:
  assumes w: "wf x" and c: "0 < count x"
  shows "wf (pop x)" "queue x = cell x (unat (rd x) mod cap) # queue (pop x)"
proof -
  have n: "count (pop x) = count x - 1"
  proof -
    have "wr x - rd x \<noteq> 0" using c by (auto simp: count_def)
    then have "unat (wr x - rd x - 1) = unat (wr x - rd x) - 1" by (rule unat_minus_one)
    then show ?thesis by (simp add: count_def pop_wr pop_rd diff_diff_eq)
  qed
  show "wf (pop x)" using w by (auto simp: wf_def n pop_ok)
  have "(unat (rd x + 1) + i) mod cap = (unat (rd x) + Suc i) mod cap" for i
  proof -
    have "unat (rd x + 1) mod cap = (unat (rd x) + 1) mod cap" using index_wrap [of "rd x" 1] by simp
    then have "(unat (rd x + 1) + i) mod cap = (unat (rd x) + 1 + i) mod cap" by (rule mod_add_cong) simp
    then show ?thesis by simp
  qed
  then have "queue (pop x) = map (\<lambda>i. cell x ((unat (rd x) + i) mod cap)) (map Suc [0..<count x - 1])"
    by (simp add: queue_def n pop_rd pop_cell)
  moreover have "[0..<count x] = 0 # map Suc [0..<count x - 1]" using c by (simp add: upt_conv_Cons map_Suc_upt)
  ultimately show "queue x = cell x (unat (rd x) mod cap) # queue (pop x)" by (simp add: queue_def)
qed

end

end
