(* ===== verification/File_Laws.thy ===== *)
theory File_Laws
  imports File Ring Sched_Laws
begin

text \<open>
  Pipes are queues: the interpretation of the ring buffer on \<^verbatim>\<open>struct pipe\<close>, and what \<open>pipewrite\<close> and \<open>piperead\<close> do to the queue.
\<close>

interpretation pq: ring_buffer 512 "\<lambda>x. length (pp_data x) = 512" pp_nread pp_nwrite "\<lambda>x i. pp_data x ! i" pipe_put
  "\<lambda>x. x\<lparr>pp_nread := pp_nread x + 1\<rparr>"
  by unfold_locales (auto simp: pipe_put_def nth_list_update unat_mod)

lemma pipe_put_fields [simp]: "pp_readopen (pipe_put c x) = pp_readopen x" "pp_writeopen (pipe_put c x) = pp_writeopen x"
  by (simp_all add: pipe_put_def)

lemma pipe_full_iff: "pq.wf x \<Longrightarrow> pipe_full x \<longleftrightarrow> pq.count x = 512"
  using pq.full_iff [of x] by (simp add: pipe_full_def)

lemma upd_pipe_simps [simp]:
  "pipes (upd_pipe p f s) = (pipes s)(p := f (pipes s p))" "k_cpu (upd_pipe p f s) = k_cpu s"
  "k_locks (upd_pipe p f s) = k_locks s" "pt_proc (upd_pipe p f s) = pt_proc s"
  "upd_pipe p f (upd_pipe p g s) = upd_pipe p (\<lambda>x. f (g x)) s"
  by (simp_all add: upd_pipe_def)

lemma pipewrite_loop_room:
  "pq.wf (pipes s p) \<Longrightarrow> pq.count (pipes s p) + length cs \<le> 512 \<Longrightarrow>
   \<exists>y. pipewrite_loop p cs s = Ok True (upd_pipe p (\<lambda>_. y) s) \<and> pq.wf y \<and> pq.queue y = pq.queue (pipes s p) @ cs \<and>
     pp_readopen y = pp_readopen (pipes s p) \<and> pp_writeopen y = pp_writeopen (pipes s p)"
proof (induction cs arbitrary: s)
  case Nil
  then show ?case by (intro exI [of _ "pipes s p"]) (simp add: upd_pipe_def)
next
  case (Cons c cs)
  let ?x = "pipes s p" and ?s = "upd_pipe p (pipe_put c) s"
  have lt: "pq.count ?x < 512" using Cons.prems(2) by simp
  note P = pq.push_queue [OF Cons.prems(1) lt, of c]
  have "pq.wf (pipes ?s p)" "pq.count (pipes ?s p) + length cs \<le> 512"
    using P pq.count_push [OF Cons.prems(1) lt, of c] Cons.prems(2) by simp_all
  from Cons.IH [OF this] obtain y where "pipewrite_loop p cs ?s = Ok True (upd_pipe p (\<lambda>_. y) ?s)" "pq.wf y"
    "pq.queue y = pq.queue (pipe_put c ?x) @ cs" "pp_readopen y = pp_readopen ?x" "pp_writeopen y = pp_writeopen ?x" by auto
  moreover have "\<not> pipe_full ?x" using lt pipe_full_iff [OF Cons.prems(1)] by simp
  ultimately show ?case using P(2) by (intro exI [of _ y]) simp
qed

lemma piperead_copy_queue:
  "pq.wf x \<Longrightarrow> \<exists>y. piperead_copy n x = (take n (pq.queue x), y) \<and> pq.wf y \<and> pq.queue y = drop n (pq.queue x) \<and>
     pp_readopen y = pp_readopen x \<and> pp_writeopen y = pp_writeopen x"
proof (induction n arbitrary: x)
  case (Suc n)
  let ?y = "x\<lparr>pp_nread := pp_nread x + 1\<rparr>"
  show ?case
  proof (cases "pq.count x = 0")
    case True
    then have "pp_nread x = pp_nwrite x" "pq.queue x = []" using pq.empty_iff [of x] pq.queue_Nil [of x] by auto
    with Suc.prems show ?thesis by simp
  next
    case False
    note P = pq.pop_queue [OF Suc.prems, OF False [THEN neq0_conv [THEN iffD1]]]
    obtain y where "piperead_copy n ?y = (take n (pq.queue ?y), y)" "pq.wf y" "pq.queue y = drop n (pq.queue ?y)"
      "pp_readopen y = pp_readopen x" "pp_writeopen y = pp_writeopen x" using Suc.IH [OF P(1)] by auto
    moreover have "pp_nread x \<noteq> pp_nwrite x" using pq.empty_iff [of x] False by auto
    ultimately show ?thesis using P(2) by (auto simp: unat_mod)
  qed
qed simp

text \<open>The end of both calls: wake the other side, release the pipe's lock.\<close>

lemma wake_release:
  assumes r: "lock_ready (PipeLock p) s" "lock_ready PtableLock s" and t: "k_cpu t = k_cpu s" "k_locks t = k_locks s"
  shows "rbind (wakeup ch (held (PipeLock p) t)) (\<lambda>_ s. rbind (release (PipeLock p) s) (\<lambda>_ s. Ok v s)) = Ok v (wakeup1 ch t)"
proof -
  have r': "lock_ready (PipeLock p) t" "lock_ready PtableLock t" using r t by (simp_all add: lock_ready_def)
  then have "wakeup ch (held (PipeLock p) t) = Ok () (wakeup1 ch (held (PipeLock p) t))" by (intro wakeup_eq) simp
  then have "wakeup ch (held (PipeLock p) t) = Ok () (held (PipeLock p) (wakeup1 ch t))" by (simp add: wakeup1_def held_def)
  moreover have "release (PipeLock p) (held (PipeLock p) (wakeup1 ch t)) = Ok () (wakeup1 ch t)"
    using release_restores [of "PipeLock p" "wakeup1 ch t" "held (PipeLock p) (wakeup1 ch t)"] r' by (simp add: lock_ready_def held_def wakeup1_def)
  ultimately show ?thesis by simp
qed

lemma upd_pipe_held: "upd_pipe p f (held l s) = held l (upd_pipe p f s)" "pipes (held l s) = pipes s"
  by (simp_all add: upd_pipe_def held_def)

lemma pipewrite_room:
  assumes r: "lock_ready (PipeLock p) s" "lock_ready PtableLock s" and w: "pq.wf (pipes s p)"
    and n: "pq.count (pipes s p) + length bs \<le> 512" "sint n = int (length bs)"
  obtains y where "pipewrite p bs n s = Ok (sint n) (wakeup1 (ChanNread p) (upd_pipe p (\<lambda>_. y) s))" "pq.wf y"
    "pq.queue y = pq.queue (pipes s p) @ bs" "pp_readopen y = pp_readopen (pipes s p)" "pp_writeopen y = pp_writeopen (pipes s p)"
proof -
  obtain y where y: "pipewrite_loop p bs (held (PipeLock p) s) = Ok True (upd_pipe p (\<lambda>_. y) (held (PipeLock p) s))" "pq.wf y"
    "pq.queue y = pq.queue (pipes s p) @ bs" "pp_readopen y = pp_readopen (pipes s p)" "pp_writeopen y = pp_writeopen (pipes s p)"
    using pipewrite_loop_room [of "held (PipeLock p) s" p bs] w n by (auto simp: upd_pipe_held)
  have "pipewrite p bs n s = Ok (sint n) (wakeup1 (ChanNread p) (upd_pipe p (\<lambda>_. y) s))"
    using y(1) n(2) acquire_ready [OF r(1)] wake_release [OF r, of "upd_pipe p (\<lambda>_. y) s" "ChanNread p" "sint n"]
    by (simp add: pipewrite_def pipewrite_end_def upd_pipe_held)
  with y show thesis using that by blast
qed

lemma piperead_avail:
  assumes r: "lock_ready (PipeLock p) s" "lock_ready PtableLock s" and w: "pq.wf (pipes s p)"
    and n: "pq.queue (pipes s p) \<noteq> [] \<or> pp_writeopen (pipes s p) = 0"
  obtains y where "piperead p n s = Ok (int (length (take (nat (sint n)) (pq.queue (pipes s p)))), take (nat (sint n)) (pq.queue (pipes s p)))
      (wakeup1 (ChanNwrite p) (upd_pipe p (\<lambda>_. y) s))"
    "pq.wf y" "pq.queue y = drop (nat (sint n)) (pq.queue (pipes s p))"
proof -
  let ?q = "pq.queue (pipes s p)"
  obtain y where y: "piperead_copy (nat (sint n)) (pipes s p) = (take (nat (sint n)) ?q, y)" "pq.wf y" "pq.queue y = drop (nat (sint n)) ?q"
    using piperead_copy_queue [OF w] by blast
  have c: "(pp_nread (pipes s p) = pp_nwrite (pipes s p) \<and> pp_writeopen (pipes s p) \<noteq> 0) = False"
    using n pq.empty_iff [of "pipes s p"] pq.queue_Nil [of "pipes s p"] by auto
  have "piperead_body p n (held (PipeLock p) s) =
      rbind (wakeup (ChanNwrite p) (held (PipeLock p) (upd_pipe p (\<lambda>_. y) s))) (\<lambda>_ s. rbind (release (PipeLock p) s)
        (\<lambda>_ s. Ok (int (length (take (nat (sint n)) ?q)), take (nat (sint n)) ?q) s))"
    unfolding piperead_body_def upd_pipe_held c if_False y(1) by simp
  then have "piperead p n s = Ok (int (length (take (nat (sint n)) ?q)), take (nat (sint n)) ?q) (wakeup1 (ChanNwrite p) (upd_pipe p (\<lambda>_. y) s))"
    using wake_release [OF r, of "upd_pipe p (\<lambda>_. y) s" "ChanNwrite p" "(int (length (take (nat (sint n)) ?q)), take (nat (sint n)) ?q)"]
    by (simp add: piperead_def acquire_ready [OF r(1)] del: length_take)
  with y show thesis using that by blast
qed

section \<open>Calls that sleep or fail\<close>

text \<open>The state in which a call leaves the system when it returns or switches to another process.\<close>

definition reached :: "('s, 'a) res \<Rightarrow> 's option" where
  "reached m = (case m of Ok x s \<Rightarrow> Some s | Swtch s \<Rightarrow> Some s | _ \<Rightarrow> None)"

lemma reached_simps [simp]:
  "reached (Ok x s) = Some s" "reached (Swtch s) = Some s" "reached (Panic m) = None" "reached (Fault m) = None" "reached (Spin l) = None" "reached Diverge = None"
  by (simp_all add: reached_def)

lemma reached_rbind: "reached (rbind m f) = Some t \<longleftrightarrow> (\<exists>x s. m = Ok x s \<and> reached (f x s) = Some t) \<or> m = Swtch t"
  by (cases m) auto

text \<open>Locks, wake-ups and sleeping leave the pipes as they are.\<close>

definition keeps_pipes :: "('a filest_scheme \<Rightarrow> ('a filest_scheme, 'b) res) \<Rightarrow> bool" where
  "keeps_pipes f \<longleftrightarrow> (\<forall>s t. reached (f s) = Some t \<longrightarrow> pipes t = pipes s)"

lemma keeps_pipesD: "keeps_pipes f \<Longrightarrow> reached (f s) = Some t \<Longrightarrow> pipes t = pipes s"
  by (simp add: keeps_pipes_def)

lemma keeps_bind: "keeps_pipes f \<Longrightarrow> (\<And>x. keeps_pipes (g x)) \<Longrightarrow> keeps_pipes (\<lambda>s. rbind (f s) g)"
  unfolding keeps_pipes_def reached_rbind by (metis reached_simps(1,2))

lemma keeps_if: "keeps_pipes f \<Longrightarrow> keeps_pipes g \<Longrightarrow> keeps_pipes (\<lambda>s. if b s then f s else g s)"
  by (simp add: keeps_pipes_def)

lemma keeps_cur: "(\<And>c. keeps_pipes (f c)) \<Longrightarrow> keeps_pipes (\<lambda>s. with_cur f s)"
  by (simp add: keeps_pipes_def with_cur_def split: option.splits)

lemma keeps_ret: "keeps_pipes (\<lambda>s. Ok x s)"
  by (simp add: keeps_pipes_def)

lemma keeps_panic: "keeps_pipes (\<lambda>s. Panic m)"
  by (simp add: keeps_pipes_def)

lemma keeps_locks: "keeps_pipes (\<lambda>s. acquire l s)" "keeps_pipes (\<lambda>s. release l s)"
  by (auto simp: keeps_pipes_def acquire_def release_def pushcli_def popcli_def Let_def)

lemma no_switch: "acquire l s \<noteq> Swtch t" "release l s \<noteq> Swtch t"
  by (auto simp: acquire_def release_def pushcli_eq popcli_def Let_def)

lemma wakeup_no_switch: "wakeup ch s \<noteq> Swtch t"
  by (cases "acquire PtableLock s") (auto simp: wakeup_def no_switch)

lemma keeps_after: "keeps_pipes f \<Longrightarrow> (\<And>s. pipes (g s) = pipes s) \<Longrightarrow> keeps_pipes (\<lambda>s. f (g s))"
  unfolding keeps_pipes_def by metis

lemma keeps_wakeup: "keeps_pipes (\<lambda>s. wakeup ch s)"
proof -
  have "keeps_pipes (\<lambda>s. release PtableLock (wakeup1 ch s))"
    by (rule keeps_after [OF keeps_locks(2)]) (simp add: wakeup1_def)
  with keeps_locks(1) show ?thesis unfolding wakeup_def by (rule keeps_bind)
qed

lemma keeps_sched: "keeps_pipes (\<lambda>s. sched (upd_proc c f s))"
  by (auto simp: keeps_pipes_def sched_def with_cur_def upd_proc_def split: option.splits)

lemma keeps_sleep: "l \<noteq> PtableLock \<Longrightarrow> keeps_pipes (\<lambda>s. sleep ch (Some l) s)"
proof -
  assume "l \<noteq> PtableLock"
  moreover have "keeps_pipes (\<lambda>s. rbind (rbind (acquire PtableLock s) (\<lambda>_ s. release l s)) (\<lambda>_ s. sched (upd_proc c (\<lambda>p. p\<lparr>p_chan := Some ch, p_state := SLEEPING\<rparr>) s)))" for c
    by (intro keeps_bind keeps_locks keeps_sched)
  ultimately show ?thesis unfolding keeps_pipes_def sleep_def by (auto split: option.splits)
qed

lemma keeps_sleep_return: "l \<noteq> PtableLock \<Longrightarrow> keeps_pipes (\<lambda>s. sleep_return ena l s)"
proof -
  assume l: "l \<noteq> PtableLock"
  have r: "keeps_pipes (\<lambda>s. release PtableLock (upd_proc c f s))" for c f by (rule keeps_after [OF keeps_locks(2)]) (simp add: upd_proc_def)
  have "keeps_pipes (\<lambda>s. sched_return ena s)" by (simp add: keeps_pipes_def sched_return_def)
  then show ?thesis using l unfolding sleep_return_def by (simp add: Let_def) (intro keeps_bind keeps_cur keeps_locks(1) r)
qed

lemmas keeps_intros = keeps_bind keeps_if keeps_cur keeps_ret keeps_panic keeps_locks keeps_wakeup keeps_sleep

text \<open>\<open>stores p cs k s t\<close>: the first \<open>k\<close> bytes of \<open>cs\<close> went into the pipe between \<open>s\<close> and \<open>t\<close>.\<close>

definition stores :: "u32 \<Rightarrow> u8 list \<Rightarrow> nat \<Rightarrow> 'a filest_scheme \<Rightarrow> 'a filest_scheme \<Rightarrow> bool" where
  "stores p cs k s t \<longleftrightarrow> k \<le> length cs \<and> k \<le> 512 \<and> pq.wf (pipes t p) \<and> pq.queue (pipes t p) = pq.queue (pipes s p) @ take k cs \<and>
     pp_nwrite (pipes t p) = pp_nwrite (pipes s p) + of_nat k"

lemma stores_none: "pq.wf (pipes s p) \<Longrightarrow> pipes t = pipes s \<Longrightarrow> stores p cs 0 s t"
  by (simp add: stores_def)

lemma pipewrite_full_keeps:
  "keeps_pipes (\<lambda>s. with_cur (\<lambda>me s.
     if pp_readopen (pipes s p) = 0 \<or> p_killed (proc_at me s) \<noteq> 0 then rbind (release (PipeLock p) s) (\<lambda>_ s. Ok False s)
     else rbind (wakeup (ChanNread p) s) (\<lambda>_ s. rbind (sleep (ChanNwrite p) (Some (PipeLock p)) s) (\<lambda>_ s. Ok False s))) s)"
  by (intro keeps_intros) simp

lemma pipewrite_loop_stores:
  "reached (pipewrite_loop p cs s) = Some t \<Longrightarrow> pq.wf (pipes s p) \<Longrightarrow>
   \<exists>k. stores p cs k s t \<and> (pipewrite_loop p cs s = Ok True t \<longrightarrow> k = length cs) \<and> pq.count (pipes s p) + k \<le> 512"
proof (induction cs arbitrary: s)
  case Nil
  then show ?case using stores_none [of s p s "[]"] by (auto simp: pq.wf_def)
next
  case (Cons c cs)
  show ?case
  proof (cases "pipe_full (pipes s p)")
    case True
    then have "pipes t = pipes s" using keeps_pipesD [OF pipewrite_full_keeps] Cons.prems(1) by simp
    moreover have "pipewrite_loop p (c # cs) s \<noteq> Ok True t" using True by (auto simp: with_cur_def split: option.splits)
    ultimately show ?thesis using stores_none [OF Cons.prems(2), of t "c # cs"] Cons.prems(2) by (intro exI [of _ 0]) (simp add: pq.wf_def)
  next
    case False
    let ?s = "upd_pipe p (pipe_put c) s"
    have lt: "pq.count (pipes s p) < 512" using False pipe_full_iff [OF Cons.prems(2)] Cons.prems(2) by (simp add: pq.wf_def)
    note P = pq.push_queue [OF Cons.prems(2) lt, of c] pq.count_push [OF Cons.prems(2) lt, of c]
    have "reached (pipewrite_loop p cs ?s) = Some t" "pq.wf (pipes ?s p)" using Cons.prems(1) False P by simp_all
    then obtain k where k: "stores p cs k ?s t" "pipewrite_loop p cs ?s = Ok True t \<longrightarrow> k = length cs" "pq.count (pipes ?s p) + k \<le> 512" using Cons.IH by blast
    have "stores p (c # cs) (Suc k) s t" using k(1,3) P by (simp add: stores_def pipe_put_def)
    then show ?thesis using k P(3) False by (intro exI [of _ "Suc k"]) simp
  qed
qed

text \<open>The part of a write between two switches.\<close>

lemma write_part:
  assumes e: "reached (rbind (pipewrite_loop p cs s) (\<lambda>ok s. pipewrite_end p n ok s)) = Some t" and w: "pq.wf (pipes s p)"
  shows "\<exists>k. stores p cs k s t \<and> (\<forall>v. rbind (pipewrite_loop p cs s) (\<lambda>ok s. pipewrite_end p n ok s) = Ok v t \<longrightarrow> v = n \<and> k = length cs \<or> v = - 1)"
proof -
  have en: "keeps_pipes (\<lambda>s. pipewrite_end p n ok s)" for ok unfolding pipewrite_end_def by (intro keeps_intros)
  consider b u where "pipewrite_loop p cs s = Ok b u" "reached (pipewrite_end p n b u) = Some t" | "pipewrite_loop p cs s = Swtch t"
    using e unfolding reached_rbind by blast
  then show ?thesis
  proof cases
    case 1
    then obtain k where k: "stores p cs k s u" "pipewrite_loop p cs s = Ok True u \<longrightarrow> k = length cs"
      using pipewrite_loop_stores [of p cs s u] w by auto
    have "pipes t = pipes u" by (rule keeps_pipesD [OF en 1(2)])
    then show ?thesis using k 1 by (intro exI [of _ k]) (auto simp: stores_def pipewrite_end_def split: if_splits)
  next
    case 2
    then show ?thesis using pipewrite_loop_stores [of p cs s t] w by auto
  qed
qed

lemma pipewrite_part:
  assumes e: "reached (pipewrite p addr n s) = Some t" and w: "pq.wf (pipes s p)"
  shows "\<exists>k. stores p (take (nat (sint n)) addr) k s t \<and> (\<forall>v. pipewrite p addr n s = Ok v t \<longrightarrow> v = sint n \<and> k = length (take (nat (sint n)) addr) \<or> v = - 1)"
proof -
  obtain u where u: "acquire (PipeLock p) s = Ok () u"
    "reached (rbind (pipewrite_loop p (take (nat (sint n)) addr) u) (\<lambda>ok s. pipewrite_end p (sint n) ok s)) = Some t"
    using e no_switch(1) unfolding pipewrite_def reached_rbind [of "acquire (PipeLock p) s"] by auto
  have "pipes u = pipes s" using keeps_pipesD [OF keeps_locks(1)] u(1) by (metis reached_simps(1))
  then show ?thesis using write_part [OF u(2)] w u(1) by (auto simp: stores_def pipewrite_def)
qed

lemma pipewrite_return_part:
  assumes e: "reached (pipewrite_return ena p cs n s) = Some t" and w: "pq.wf (pipes s p)"
  shows "\<exists>k. stores p cs k s t \<and> (\<forall>v. pipewrite_return ena p cs n s = Ok v t \<longrightarrow> v = n \<and> k = length cs \<or> v = - 1)"
proof -
  have k: "keeps_pipes (\<lambda>s. sleep_return ena (PipeLock p) s)" by (rule keeps_sleep_return) simp
  consider u where "sleep_return ena (PipeLock p) s = Ok () u" "reached (rbind (pipewrite_loop p cs u) (\<lambda>ok s. pipewrite_end p n ok s)) = Some t"
    | "sleep_return ena (PipeLock p) s = Swtch t"
    using e unfolding pipewrite_return_def reached_rbind [of "sleep_return ena (PipeLock p) s"] by auto
  then show ?thesis
  proof cases
    case 1
    have "pipes u = pipes s" using keeps_pipesD [OF k] 1(1) by (metis reached_simps(1))
    then show ?thesis using write_part [OF 1(2)] w 1(1) by (auto simp: stores_def pipewrite_return_def)
  next
    case 2
    then have "pipes t = pipes s" using keeps_pipesD [OF k] by (metis reached_simps(2))
    then show ?thesis using stores_none [OF w] 2 by (auto simp: pipewrite_return_def intro!: exI [of _ 0])
  qed
qed

text \<open>The bytes a read delivers.\<close>

definition delivered :: "('s, int \<times> u8 list) res \<Rightarrow> u8 list" where
  "delivered m = (case m of Ok x s \<Rightarrow> snd x | _ \<Rightarrow> [])"

lemma read_part:
  assumes e: "reached (piperead_body p n s) = Some t" and w: "pq.wf (pipes s p)"
  shows "pq.wf (pipes t p) \<and> pq.queue (pipes s p) = delivered (piperead_body p n s) @ pq.queue (pipes t p)"
proof (cases "pp_nread (pipes s p) = pp_nwrite (pipes s p) \<and> pp_writeopen (pipes s p) \<noteq> 0")
  case True
  have "keeps_pipes (\<lambda>s. with_cur (\<lambda>me s. if p_killed (proc_at me s) \<noteq> 0 then rbind (release (PipeLock p) s) (\<lambda>_ s. Ok (- 1, []) s)
    else rbind (sleep (ChanNread p) (Some (PipeLock p)) s) (\<lambda>_ s. Ok (- 1 :: int, [] :: u8 list) s)) s)" by (intro keeps_intros) simp
  then have "pipes t = pipes s" using e True by (auto simp: piperead_body_def dest: keeps_pipesD)
  moreover have "delivered (piperead_body p n s) = []" using e True
    by (auto simp: piperead_body_def with_cur_def delivered_def reached_rbind split: option.splits if_splits res.splits)
  ultimately show ?thesis using w by simp
next
  case False
  obtain y where y: "piperead_copy (nat (sint n)) (pipes s p) = (take (nat (sint n)) (pq.queue (pipes s p)), y)" "pq.wf y" "pq.queue y = drop (nat (sint n)) (pq.queue (pipes s p))"
    using piperead_copy_queue [OF w] by blast
  let ?bs = "take (nat (sint n)) (pq.queue (pipes s p))"
  let ?f = "\<lambda>s. rbind (wakeup (ChanNwrite p) s) (\<lambda>_ s. rbind (release (PipeLock p) s) (\<lambda>_ s. Ok (int (length ?bs), ?bs) s))"
  have b: "piperead_body p n s = ?f (upd_pipe p (\<lambda>_. y) s)" unfolding piperead_body_def if_not_P [OF False] y(1) by simp
  have "keeps_pipes ?f" by (intro keeps_intros)
  then have "pipes t = pipes (upd_pipe p (\<lambda>_. y) s)" using e unfolding b by (rule keeps_pipesD)
  moreover have "delivered (?f (upd_pipe p (\<lambda>_. y) s)) = ?bs"
    using e unfolding b reached_rbind by (auto simp: delivered_def no_switch wakeup_no_switch)
  ultimately show ?thesis using y(2,3) unfolding b by simp
qed

end
