(* ===== verification/Process.thy ===== *)
theory Process
  imports File
begin

text \<open>
  The part of \<^verbatim>\<open>proc.c\<close> that uses the file system: the first process, \<open>fork\<close>, \<open>exit\<close> and the first return of a new
  process.  \<open>ticks\<close> of \<^verbatim>\<open>trap.c\<close> and the static variable \<^verbatim>\<open>first\<close> of \<open>forkret\<close> complete the kernel's state.
\<close>

record sysst = filest +
  ticks :: u32
  fk_first :: i32

section \<open>The first process\<close>

abbreviation (input) UCODE_SEL :: u32 where "UCODE_SEL \<equiv> 0x23"   \<comment> \<open>\<^verbatim>\<open>(SEG_UCODE << 3) | DPL_USER\<close>\<close>
abbreviation (input) UDATA_SEL :: u32 where "UDATA_SEL \<equiv> 0x2B"   \<comment> \<open>\<^verbatim>\<open>(SEG_UDATA << 3) | DPL_USER\<close>\<close>
abbreviation (input) FL_IF :: u32 where "FL_IF \<equiv> 0x200"

definition store16 :: "memory \<Rightarrow> u32 \<Rightarrow> u16 \<Rightarrow> memory" where
  "store16 m a v = m(a := ucast v, a + 1 := ucast (drop_bit 8 v))"

definition userinit_tf :: "u32 \<Rightarrow> memory \<Rightarrow> memory" where
  "userinit_tf tf m =
     (let m = memset m tf 0 TF_SIZE;
          m = store16 m (tf + TF_CS) (ucast UCODE_SEL);
          m = store16 m (tf + TF_DS) (ucast UDATA_SEL);
          m = store16 m (tf + TF_ES) (ucast UDATA_SEL);
          m = store16 m (tf + TF_SS) (ucast UDATA_SEL);
          m = store32 m (tf + TF_EFLAGS) FL_IF;
          m = store32 m (tf + TF_ESP) PGSIZE
      in store32 m (tf + TF_EIP) 0)"

definition set_name :: "nat \<Rightarrow> u8 list \<Rightarrow> 'a sysst_scheme \<Rightarrow> ('a sysst_scheme, unit) res" where
  "set_name p name s =
     (case safestrcpy name 16 of
        None \<Rightarrow> Fault ''safestrcpy''
      | Some bs \<Rightarrow> Ok () (upd_proc p (\<lambda>x. x\<lparr>p_name := poke (p_name x) bs\<rparr>) s))"

text \<open>\<open>initcode\<close> is the program linked into the kernel as \<^verbatim>\<open>_binary_initcode_start\<close>.\<close>

definition userinit :: "u8 list \<Rightarrow> 'a sysst_scheme \<Rightarrow> ('a sysst_scheme, unit) res" where
  "userinit initcode s =
     rbind (allocproc s) (\<lambda>r s.
     let s = s\<lparr>initproc := r\<rparr> in
     rbind (setupkvm s) (\<lambda>pgdir s.
     case r of
       None \<Rightarrow> Fault ''userinit: null proc''
     | Some p \<Rightarrow>
         let s = upd_proc p (\<lambda>x. x\<lparr>p_pgdir := pgdir\<rparr>) s in
         if pgdir = 0 then Panic ''userinit: out of memory?''
         else rbind (inituvm pgdir initcode s) (\<lambda>_ s.
              let s = upd_proc p (\<lambda>x. x\<lparr>p_sz := PGSIZE\<rparr>) s;
                  s = s\<lparr>mem := userinit_tf (p_tf (proc_at p s)) (mem s)\<rparr>
              in rbind (set_name p (bytes ''initcode'' @ [0]) s) (\<lambda>_ s.
                 rbind (namei (bytes ''/'') s) (\<lambda>ip s.
                 Ok () (upd_proc p (\<lambda>x. x\<lparr>p_cwd := ip, p_state := RUNNABLE\<rparr>) s))))))"

section \<open>Fork\<close>

fun fork_files :: "nat \<Rightarrow> nat \<Rightarrow> nat \<Rightarrow> nat \<Rightarrow> 'a sysst_scheme \<Rightarrow> ('a sysst_scheme, unit) res" where
  "fork_files 0 i c np s = Ok () s"
| "fork_files (Suc n) i c np s =
     (case p_ofile (proc_at c s) ! i of
        None \<Rightarrow> fork_files n (Suc i) c np s
      | Some f \<Rightarrow>
          rbind (filedup f s) (\<lambda>f s.
          fork_files n (Suc i) c np (upd_proc np (\<lambda>x. x\<lparr>p_ofile := (p_ofile x)[i := Some f]\<rparr>) s)))"

definition fork :: "'a sysst_scheme \<Rightarrow> ('a sysst_scheme, i32) res" where
  "fork s =
     rbind (allocproc s) (\<lambda>r s.
     case r of
       None \<Rightarrow> Ok (- 1) s
     | Some np \<Rightarrow>
         with_cur (\<lambda>c s.
         rbind (copyuvm (p_pgdir (proc_at c s)) (p_sz (proc_at c s)) s) (\<lambda>pgdir s.
         let s = upd_proc np (\<lambda>x. x\<lparr>p_pgdir := pgdir\<rparr>) s in
         if pgdir = 0 then
           rbind (kfree (p_kstack (proc_at np s)) s) (\<lambda>_ s.
           Ok (- 1) (upd_proc np (\<lambda>x. x\<lparr>p_kstack := 0, p_state := UNUSED\<rparr>) s))
         else
           let s = upd_proc np (\<lambda>x. x\<lparr>p_sz := p_sz (proc_at c s), p_parent := Some c\<rparr>) s;
               s = s\<lparr>mem := memmove (mem s) (p_tf (proc_at np s)) (p_tf (proc_at c s)) TF_SIZE\<rparr>;
               s = s\<lparr>mem := store32 (mem s) (p_tf (proc_at np s) + TF_EAX) 0\<rparr>
           in rbind (fork_files NOFILE 0 c np s) (\<lambda>_ s.
              rbind (case p_cwd (proc_at c s) of None \<Rightarrow> Fault ''proc->cwd'' | Some d \<Rightarrow> idup d s) (\<lambda>d s.
              let s = upd_proc np (\<lambda>x. x\<lparr>p_cwd := Some d\<rparr>) s in
              rbind (set_name np (p_name (proc_at c s)) s) (\<lambda>_ s.
              let pid = p_pid (proc_at np s) in
              rbind (acquire PtableLock s) (\<lambda>_ s.
              rbind (release PtableLock (upd_proc np (\<lambda>x. x\<lparr>p_state := RUNNABLE\<rparr>) s)) (\<lambda>_ s.
              Ok pid s))))))) s)"

section \<open>Exit\<close>

fun exit_files :: "nat \<Rightarrow> nat \<Rightarrow> nat \<Rightarrow> 'a sysst_scheme \<Rightarrow> ('a sysst_scheme, unit) res" where
  "exit_files 0 fd c s = Ok () s"
| "exit_files (Suc n) fd c s =
     (case p_ofile (proc_at c s) ! fd of
        None \<Rightarrow> exit_files n (Suc fd) c s
      | Some f \<Rightarrow>
          rbind (fileclose f s) (\<lambda>_ s.
          exit_files n (Suc fd) c (upd_proc c (\<lambda>x. x\<lparr>p_ofile := (p_ofile x)[fd := None]\<rparr>) s)))"

text \<open>\<open>wakeup1\<close> on a process pointer that may be null.\<close>

definition wakeup1_proc :: "nat option \<Rightarrow> 'a procst_scheme \<Rightarrow> 'a procst_scheme" where
  "wakeup1_proc q s =
     (case q of
        Some p \<Rightarrow> wakeup1 (ChanProc p) s
      | None \<Rightarrow> s\<lparr>pt_proc := map (\<lambda>x. if p_state x = SLEEPING \<and> p_chan x = None then x\<lparr>p_state := RUNNABLE\<rparr> else x) (pt_proc s)\<rparr>)"

fun reparent :: "nat \<Rightarrow> nat \<Rightarrow> nat \<Rightarrow> 'a procst_scheme \<Rightarrow> 'a procst_scheme" where
  "reparent 0 i c s = s"
| "reparent (Suc n) i c s =
     (if p_parent (proc_at i s) = Some c then
        (let s = upd_proc i (\<lambda>x. x\<lparr>p_parent := initproc s\<rparr>) s;
             s = (if p_state (proc_at i s) = ZOMBIE then wakeup1_proc (initproc s) s else s)
         in reparent n (Suc i) c s)
      else reparent n (Suc i) c s)"

definition exit :: "'a sysst_scheme \<Rightarrow> ('a sysst_scheme, unit) res" where
  "exit s = with_cur (\<lambda>c s.
     if initproc s = Some c then Panic ''init exiting''
     else rbind (exit_files NOFILE 0 c s) (\<lambda>_ s.
          rbind (begin_op s) (\<lambda>_ s.
          rbind (case p_cwd (proc_at c s) of None \<Rightarrow> Fault ''proc->cwd'' | Some d \<Rightarrow> iput d s) (\<lambda>_ s.
          rbind (end_op s) (\<lambda>_ s.
          let s = upd_proc c (\<lambda>x. x\<lparr>p_cwd := None\<rparr>) s in
          rbind (acquire PtableLock s) (\<lambda>_ s.
          let s = wakeup1_proc (p_parent (proc_at c s)) s;
              s = reparent (length (pt_proc s)) 0 c s;
              s = upd_proc c (\<lambda>x. x\<lparr>p_state := ZOMBIE\<rparr>) s
          in rbind (sched s) (\<lambda>_ s. Panic ''zombie exit''))))))) s"

section \<open>The first return of a process\<close>

definition forkret :: "'a sysst_scheme \<Rightarrow> ('a sysst_scheme, unit) res" where
  "forkret s =
     rbind (release PtableLock s) (\<lambda>_ s.
     if fk_first s \<noteq> 0 then
       rbind (iinit ROOTDEV (s\<lparr>fk_first := 0\<rparr>)) (\<lambda>_ s. initlog ROOTDEV s)
     else Ok () s)"

end
