(* ===== verification/Demo.thy ===== *)
theory Demo
  imports Log_Props Process
begin

text \<open>
  A kernel state in which every subsystem is initialised, to apply the theorems about the upper layers to: \<open>demo_sys\<close>
  extends \<open>demo_log\<close> with a file system of 1000 blocks, empty inode and file tables, an idle console and an empty pipe.
\<close>

definition demo_sb :: superblock where
  "demo_sb = \<lparr>sb_size = 1000, sb_nblocks = 941, sb_ninodes = 200, sb_nlog = 30, sb_logstart = 2, sb_inodestart = 32, sb_bmapstart = 58\<rparr>"

definition demo_inode :: inode where
  "demo_inode = \<lparr>i_dev = 0, i_inum = 0, i_ref = 0, i_flags = 0, i_type = 0, i_major = 0, i_minor = 0, i_nlink = 0, i_size = 0,
     i_addrs = replicate 13 0\<rparr>"

definition demo_file :: file_t where
  "demo_file = \<lparr>f_type = FD_NONE, f_ref = 0, f_readable = 0, f_writable = 0, f_pipe = 0, f_ip = None, f_off = 0\<rparr>"

definition demo_pipe :: pipe where
  "demo_pipe = \<lparr>pp_data = replicate 512 0, pp_nread = 0, pp_nwrite = 0, pp_readopen = 1, pp_writeopen = 1\<rparr>"

definition demo_sys :: sysst where
  "demo_sys = filest.extend (const.extend (icst.extend (logst.extend (demo_log\<lparr>lg_n := 0\<rparr>)
       \<lparr>sb = demo_sb, ic_inode = replicate 50 demo_inode\<rparr>)
       \<lparr>cons_locking = 1, panicked = 0, crt = (\<lambda>_. 0x0720), cursor = 0, uart = 0, uart_out = [], in_buf = replicate 128 0, in_r = 0,
         in_w = 0, in_e = 0, devsw_read = Map.empty(1 \<mapsto> Consoleread), devsw_write = Map.empty(1 \<mapsto> Consolewrite)\<rparr>)
       \<lparr>ft_file = replicate 100 demo_file, pipes = (\<lambda>_. demo_pipe)\<rparr>)
     \<lparr>ticks = 0, fk_first = 0\<rparr>"

lemmas demo_sys_defs = demo_sys_def filest.defs const.defs icst.defs logst.defs demo_log_def biost.defs demo_bio_def procst.defs
  demo_ps_def vmst.defs kmem.defs demo_vm2_def demo_vm_def boot_kmem_def kcore.defs

lemma demo_sys_fields [simp]:
  "lg_start demo_sys = 2" "lg_size demo_sys = 30" "lg_outstanding demo_sys = 0" "lg_committing demo_sys = 0" "lg_dev demo_sys = 1"
  "lg_n demo_sys = 0" "lg_block demo_sys = 50 # replicate 29 0" "bc_buf demo_sys = demo_buf" "memdisk demo_sys = memdisk demo_bio"
  "disksize demo_sys = 1000" "disk_writes demo_sys = []" "k_cpu demo_sys = k_cpu boot_core" "k_locks demo_sys = k_locks boot_core"
  "pt_proc demo_sys = demo_procs" "cur demo_sys = Some 0" "sb demo_sys = demo_sb" "ic_inode demo_sys = replicate 50 demo_inode"
  "cons_locking demo_sys = 1" "panicked demo_sys = 0" "in_buf demo_sys = replicate 128 0" "in_r demo_sys = 0" "in_w demo_sys = 0"
  "in_e demo_sys = 0" "ft_file demo_sys = replicate 100 demo_file" "pipes demo_sys = (\<lambda>_. demo_pipe)"
  "crt demo_sys = (\<lambda>_. 0x0720)" "cursor demo_sys = 0" "uart demo_sys = 0" "uart_out demo_sys = []"
  by (simp_all add: demo_sys_defs)

lemma demo_sys_ready [simp]: "lock_ready l demo_sys"
  using demo_ps_ready(1) [of l] by (simp add: lock_ready_def)

lemma demo_sys_bio:
  "bcache_inv demo_sys" "owned demo_sys = Map.empty" "marked demo_sys = {0}" "view demo_sys n = view demo_bio n" "dsk demo_sys n = replicate 512 0"
proof -
  have "lru demo_sys = lru demo_bio" "cached_as d n demo_sys = cached_as d n demo_bio" for d n
    by (simp_all add: lru_def cached_as_def fun_eq_iff)
  then show "bcache_inv demo_sys" "view demo_sys n = view demo_bio n"
    using demo_bcache(1) by (simp_all add: bcache_inv_def cache_ok_def lock_ready_def view_def cong: option.case_cong)
  show "owned demo_sys = Map.empty" "marked demo_sys = {0}" "dsk demo_sys n = replicate 512 0"
    using demo_bcache(3) by (auto simp: owned_def marked_def dsk_def fun_eq_iff demo_buf_def)
qed

end
