(* ===== verification/File_Props.thy ===== *)
theory File_Props
  imports File_Laws Demo
begin

text \<open>
  Properties of pipes: they are first-in first-out queues of at most 512 bytes.
\<close>

text \<open>What a pipe holds, from the oldest byte to the newest, and when its fields make sense.\<close>

definition pipe_queue :: "pipe \<Rightarrow> u8 list" where
  "pipe_queue x = map (\<lambda>i. pp_data x ! ((unat (pp_nread x) + i) mod 512)) [0..<unat (pp_nwrite x - pp_nread x)]"

definition pipe_ok :: "pipe \<Rightarrow> bool" where
  "pipe_ok x \<longleftrightarrow> length (pp_data x) = 512 \<and> unat (pp_nwrite x - pp_nread x) \<le> 512"

lemma pipe_queue_pq: "pq.queue x = pipe_queue x" "pq.wf x = pipe_ok x" "pq.count x = length (pipe_queue x)"
  by (simp_all add: pipe_queue_def pq.queue_def pq.count_def pipe_ok_def pq.wf_def)

text \<open>
  What happens to one pipe.  A call of \<open>pipewrite\<close> or \<open>piperead\<close> that has to wait is cut at the switch to another process, and goes on when it is resumed.  In \<open>pipe_run p s W h r t\<close>
  the calls of \<open>pipewrite\<close> between \<open>s\<close> and \<open>t\<close> have numbers; \<open>W\<close> has for each of them the bytes passed, those not stored, the number of bytes
  asked for and the value returned, \<open>None\<close> as long as it sleeps.  The history \<open>h\<close> lists the bytes that the calls put into the pipe, and \<open>r\<close> is what the readers received.
  Between these parts of calls anything may happen that leaves the bytes and the two indices of the pipe alone: other processes run, descriptors of the pipe are closed, processes are killed.
\<close>

type_synonym wcalls = "nat \<Rightarrow> (u8 list \<times> u8 list \<times> int \<times> int option) option"

definition put_count :: "u32 \<Rightarrow> 'a filest_scheme \<Rightarrow> 'a filest_scheme \<Rightarrow> nat" where
  "put_count p s t = unat (pp_nwrite (pipes t p) - pp_nwrite (pipes s p))"

inductive pipe_run :: "u32 \<Rightarrow> 'a filest_scheme \<Rightarrow> wcalls \<Rightarrow> (nat \<times> u8 list) list \<Rightarrow> u8 list \<Rightarrow> 'a filest_scheme \<Rightarrow> bool" for p s where
  start: "pipe_run p s (\<lambda>_. None) [] [] s"
| other: "pipe_run p s W h r t \<Longrightarrow> pp_data (pipes u p) = pp_data (pipes t p) \<Longrightarrow> pp_nread (pipes u p) = pp_nread (pipes t p) \<Longrightarrow>
    pp_nwrite (pipes u p) = pp_nwrite (pipes t p) \<Longrightarrow> pipe_run p s W h r u"
| writes: "pipe_run p s W h r t \<Longrightarrow> W i = None \<Longrightarrow> pipewrite p addr n t = Ok v u \<Longrightarrow> cs = take (nat (sint n)) addr \<Longrightarrow> k = put_count p t u \<Longrightarrow>
    pipe_run p s (W(i \<mapsto> (cs, drop k cs, sint n, Some v))) (h @ [(i, take k cs)]) r u"
| write_sleeps: "pipe_run p s W h r t \<Longrightarrow> W i = None \<Longrightarrow> pipewrite p addr n t = Swtch u \<Longrightarrow> cs = take (nat (sint n)) addr \<Longrightarrow> k = put_count p t u \<Longrightarrow>
    pipe_run p s (W(i \<mapsto> (cs, drop k cs, sint n, None))) (h @ [(i, take k cs)]) r u"
| write_resumes: "pipe_run p s W h r t \<Longrightarrow> W i = Some (cs, rest, m, None) \<Longrightarrow> pipewrite_return ena p rest m t = Ok v u \<Longrightarrow> k = put_count p t u \<Longrightarrow>
    pipe_run p s (W(i \<mapsto> (cs, drop k rest, m, Some v))) (h @ [(i, take k rest)]) r u"
| write_sleeps_again: "pipe_run p s W h r t \<Longrightarrow> W i = Some (cs, rest, m, None) \<Longrightarrow> pipewrite_return ena p rest m t = Swtch u \<Longrightarrow> k = put_count p t u \<Longrightarrow>
    pipe_run p s (W(i \<mapsto> (cs, drop k rest, m, None))) (h @ [(i, take k rest)]) r u"
| reads: "pipe_run p s W h r t \<Longrightarrow> piperead p n t = Ok (v, bs) u \<Longrightarrow> pipe_run p s W h (r @ bs) u"
| read_sleeps: "pipe_run p s W h r t \<Longrightarrow> piperead p n t = Swtch u \<Longrightarrow> pipe_run p s W h r u"
| read_resumes: "pipe_run p s W h r t \<Longrightarrow> piperead_return ena p n t = Ok (v, bs) u \<Longrightarrow> pipe_run p s W h (r @ bs) u"
| read_sleeps_again: "pipe_run p s W h r t \<Longrightarrow> piperead_return ena p n t = Swtch u \<Longrightarrow> pipe_run p s W h r u"

definition stored_by :: "nat \<Rightarrow> (nat \<times> u8 list) list \<Rightarrow> u8 list" where
  "stored_by i h = concat (map snd (filter (\<lambda>e. fst e = i) h))"

text \<open>What the calls of \<open>pipewrite\<close> have stored of their bytes, and when they return.\<close>

definition calls_ok :: "wcalls \<Rightarrow> (nat \<times> u8 list) list \<Rightarrow> bool" where
  "calls_ok W h \<longleftrightarrow> (\<forall>i. case W i of None \<Rightarrow> stored_by i h = []
     | Some (cs, rest, m, res) \<Rightarrow> stored_by i h @ rest = cs \<and> (\<forall>v. res = Some v \<longrightarrow> v = m \<and> rest = [] \<or> v = - 1))"

lemma calls_ok_add:
  assumes "calls_ok W h" "stored_by i h @ x @ rest = cs" "\<forall>v. res = Some v \<longrightarrow> v = m \<and> rest = [] \<or> v = - 1"
  shows "calls_ok (W(i \<mapsto> (cs, rest, m, res))) (h @ [(i, x)])"
proof -
  have e: "stored_by j (h @ [(i, x)]) = (if j = i then stored_by i h @ x else stored_by j h)" for j by (simp add: stored_by_def)
  show ?thesis unfolding calls_ok_def e
  proof
    fix j
    show "case (W(i \<mapsto> (cs, rest, m, res))) j of None \<Rightarrow> (if j = i then stored_by i h @ x else stored_by j h) = []
      | Some (cs, rest, m, res) \<Rightarrow> (if j = i then stored_by i h @ x else stored_by j h) @ rest = cs \<and> (\<forall>v. res = Some v \<longrightarrow> v = m \<and> rest = [] \<or> v = - 1)"
      using assms(2,3) assms(1) [unfolded calls_ok_def, rule_format, of j] by (cases "j = i") simp_all
  qed
qed

lemma put_count_stores: "stores p cs k s t \<Longrightarrow> put_count p s t = k"
  by (simp add: stores_def put_count_def unsigned_of_nat take_bit_nat_eq_self)

definition fifo :: "u32 \<Rightarrow> 'a filest_scheme \<Rightarrow> wcalls \<Rightarrow> (nat \<times> u8 list) list \<Rightarrow> u8 list \<Rightarrow> 'a filest_scheme \<Rightarrow> bool" where
  "fifo p s W h r t \<longleftrightarrow> pq.wf (pipes t p) \<and> pq.queue (pipes s p) @ concat (map snd h) = r @ pq.queue (pipes t p) \<and> calls_ok W h"

lemma fifo_write:
  assumes f: "fifo p s W h r t" and i: "stored_by i h @ cs = all" and k: "stores p cs k t u" "j = put_count p t u"
    and v: "\<forall>v. res = Some v \<longrightarrow> v = m \<and> k = length cs \<or> v = - 1"
  shows "fifo p s (W(i \<mapsto> (all, drop j cs, m, res))) (h @ [(i, take j cs)]) r u"
proof -
  have j: "j = k" using put_count_stores [OF k(1)] k(2) by simp
  have "calls_ok (W(i \<mapsto> (all, drop j cs, m, res))) (h @ [(i, take j cs)])" by (rule calls_ok_add) (use f i v j in \<open>auto simp: fifo_def\<close>)
  moreover have "pq.queue (pipes s p) @ concat (map snd (h @ [(i, take j cs)])) = (pq.queue (pipes s p) @ concat (map snd h)) @ take k cs" using j by simp
  ultimately show ?thesis using f k(1) by (simp add: fifo_def stores_def)
qed

lemma fifo_read:
  assumes f: "fifo p s W h r t" and l: "keeps_pipes l" and e: "reached (rbind (l t) (\<lambda>_ s. piperead_body p n s)) = Some u"
  shows "fifo p s W h (r @ delivered (rbind (l t) (\<lambda>_ s. piperead_body p n s))) u"
proof -
  consider x y where "l t = Ok x y" "reached (piperead_body p n y) = Some u" | "l t = Swtch u" using e unfolding reached_rbind by blast
  then show ?thesis
  proof cases
    case 1
    have "pipes y = pipes t" by (rule keeps_pipesD [OF l]) (simp add: 1(1))
    then show ?thesis using read_part [OF 1(2)] f 1(1) by (simp add: fifo_def)
  next
    case 2
    have "pipes u = pipes t" by (rule keeps_pipesD [OF l]) (simp add: 2)
    then show ?thesis using f 2 by (simp add: fifo_def delivered_def)
  qed
qed

lemma fifo_piperead:
  assumes f: "fifo p s W h r t" shows "reached (piperead p n t) = Some u \<Longrightarrow> fifo p s W h (r @ delivered (piperead p n t)) u"
    and "reached (piperead_return ena p n t) = Some u \<Longrightarrow> fifo p s W h (r @ delivered (piperead_return ena p n t)) u"
  using fifo_read [OF f keeps_locks(1)] fifo_read [OF f keeps_sleep_return] by (simp_all add: piperead_def piperead_return_def)

lemma fifo_fresh: "fifo p s W h r t \<Longrightarrow> W i = None \<Longrightarrow> stored_by i h = []"
  unfolding fifo_def calls_ok_def by (auto dest: spec [of _ i])

lemma fifo_asleep: "fifo p s W h r t \<Longrightarrow> W i = Some (cs, rest, m, res) \<Longrightarrow> stored_by i h @ rest = cs"
  unfolding fifo_def calls_ok_def by (auto dest: spec [of _ i])

lemma pipe_run_fifo:
  assumes "pipe_run p s W h r t" "pq.wf (pipes s p)" shows "fifo p s W h r t"
  using assms
proof (induction rule: pipe_run.induct)
  case start
  then show ?case by (simp add: fifo_def calls_ok_def stored_by_def)
next
  case (other W h r t u)
  then show ?case by (simp add: fifo_def pq.wf_def pq.count_def pq.queue_def)
next
  case (writes W h r t i addr n v u cs k)
  note f = writes.IH [OF writes.prems]
  then obtain j where "stores p cs j t u" "\<forall>w. pipewrite p addr n t = Ok w u \<longrightarrow> w = sint n \<and> j = length cs \<or> w = - 1"
    using pipewrite_part [of p addr n t u] writes.hyps by (auto simp: fifo_def)
  then show ?case using writes.hyps fifo_fresh [OF f writes.hyps(2)] by (intro fifo_write [OF f]) auto
next
  case (write_sleeps W h r t i addr n u cs k)
  note f = write_sleeps.IH [OF write_sleeps.prems]
  then obtain j where "stores p cs j t u" using pipewrite_part [of p addr n t u] write_sleeps.hyps by (auto simp: fifo_def)
  then show ?case using write_sleeps.hyps fifo_fresh [OF f write_sleeps.hyps(2)] by (intro fifo_write [OF f]) auto
next
  case (write_resumes W h r t i cs rest m ena v u k)
  note f = write_resumes.IH [OF write_resumes.prems]
  then obtain j where "stores p rest j t u" "\<forall>w. pipewrite_return ena p rest m t = Ok w u \<longrightarrow> w = m \<and> j = length rest \<or> w = - 1"
    using pipewrite_return_part [of ena p rest m t u] write_resumes.hyps by (auto simp: fifo_def)
  then show ?case using write_resumes.hyps fifo_asleep [OF f write_resumes.hyps(2)] by (intro fifo_write [OF f]) auto
next
  case (write_sleeps_again W h r t i cs rest m ena u k)
  note f = write_sleeps_again.IH [OF write_sleeps_again.prems]
  then obtain j where "stores p rest j t u" using pipewrite_return_part [of ena p rest m t u] write_sleeps_again.hyps by (auto simp: fifo_def)
  then show ?case using write_sleeps_again.hyps fifo_asleep [OF f write_sleeps_again.hyps(2)] by (intro fifo_write [OF f]) auto
next
  case (reads W h r t n v bs u)
  then show ?case using fifo_piperead(1) [OF reads.IH, of n u] by (simp add: delivered_def)
next
  case (read_sleeps W h r t n u)
  then show ?case using fifo_piperead(1) [OF read_sleeps.IH, of n u] by (simp add: delivered_def)
next
  case (read_resumes W h r t ena n v bs u)
  then show ?case using fifo_piperead(2) [OF read_resumes.IH, of ena n u] by (simp add: delivered_def)
next
  case (read_sleeps_again W h r t ena n u)
  then show ?case using fifo_piperead(2) [OF read_sleeps_again.IH, of ena n u] by (simp add: delivered_def)
qed

text \<open>
  C11: a pipe loses, repeats and reorders nothing: whatever calls have returned, failed or gone to sleep, what the pipe held at the start followed by the bytes that the
  writers have stored since is what has been read since followed by what it holds now, and it never holds more than 512 bytes.  What a call of \<open>pipewrite\<close> has stored is a beginning of
  its bytes; it is all of them when the call returns their number, and the only other value a call returns is -1.
\<close>

theorem pipe_is_fifo:
  assumes "pipe_run p s W h r t" "pipe_ok (pipes s p)"
  shows "pipe_queue (pipes s p) @ concat (map snd h) = r @ pipe_queue (pipes t p) \<and> length (pipe_queue (pipes t p)) \<le> 512 \<and>
    (\<forall>i cs rest m res. W i = Some (cs, rest, m, res) \<longrightarrow> stored_by i h @ rest = cs \<and> (\<forall>v. res = Some v \<longrightarrow> v = m \<and> rest = [] \<or> v = - 1))"
proof -
  have f: "fifo p s W h r t" by (rule pipe_run_fifo [OF assms(1)]) (use assms(2) in \<open>simp add: pipe_queue_pq\<close>)
  have "stored_by i h @ rest = cs \<and> (\<forall>v. res = Some v \<longrightarrow> v = m \<and> rest = [] \<or> v = - 1)" if "W i = Some (cs, rest, m, res)" for i cs rest m res
    using f that unfolding fifo_def calls_ok_def by (auto dest!: spec [of _ i])
  with f show ?thesis by (simp add: fifo_def pipe_queue_pq pipe_ok_def pipe_queue_def)
qed

lemma pipe_after:
  "lock_ready l (wakeup1 ch (upd_pipe p f s)) = lock_ready l s" "pipes (wakeup1 ch (upd_pipe p f s)) p = f (pipes s p)"
  by (simp_all add: lock_ready_def wakeup1_def)

text \<open>
  A write of bytes for which a pipe has room returns at once with the number of bytes, and a read from a pipe that is not empty
  returns its oldest bytes, as many as asked for and there.
\<close>

theorem pipe_write_then_read:
  assumes "lock_ready (PipeLock p) s" "lock_ready PtableLock s" "pipe_ok (pipes s p)"
    and "length (pipe_queue (pipes s p)) + length bs \<le> 512" "sint n = int (length bs)" "pipe_queue (pipes s p) @ bs \<noteq> []"
  shows "\<exists>t u. pipewrite p bs n s = Ok (sint n) t \<and>
    piperead p m t = Ok (int (length (take (nat (sint m)) (pipe_queue (pipes s p) @ bs))), take (nat (sint m)) (pipe_queue (pipes s p) @ bs)) u \<and>
    pipe_queue (pipes u p) = drop (nat (sint m)) (pipe_queue (pipes s p) @ bs)"
proof -
  have w: "pq.wf (pipes s p)" "pq.count (pipes s p) + length bs \<le> 512" using assms by (simp_all add: pipe_queue_pq)
  obtain y where y: "pipewrite p bs n s = Ok (sint n) (wakeup1 (ChanNread p) (upd_pipe p (\<lambda>_. y) s))" "pq.wf y"
    "pq.queue y = pq.queue (pipes s p) @ bs" "pp_readopen y = pp_readopen (pipes s p)" "pp_writeopen y = pp_writeopen (pipes s p)"
    by (rule pipewrite_room [OF assms(1,2) w assms(5)])
  let ?t = "wakeup1 (ChanNread p) (upd_pipe p (\<lambda>_. y) s)"
  have t: "lock_ready (PipeLock p) ?t" "lock_ready PtableLock ?t" "pq.wf (pipes ?t p)"
    "pq.queue (pipes ?t p) \<noteq> [] \<or> pp_writeopen (pipes ?t p) = 0" "pq.queue (pipes ?t p) = pipe_queue (pipes s p) @ bs"
    using assms y by (simp_all add: pipe_after pipe_queue_pq)
  obtain z where z: "piperead p m ?t = Ok (int (length (take (nat (sint m)) (pq.queue (pipes ?t p)))), take (nat (sint m)) (pq.queue (pipes ?t p)))
      (wakeup1 (ChanNwrite p) (upd_pipe p (\<lambda>_. z) ?t))" "pq.wf z" "pq.queue z = drop (nat (sint m)) (pq.queue (pipes ?t p))"
    by (rule piperead_avail [OF t(1-4), of m])
  let ?u = "wakeup1 (ChanNwrite p) (upd_pipe p (\<lambda>_. z) ?t)"
  have "pipe_queue (pipes ?u p) = drop (nat (sint m)) (pipe_queue (pipes s p) @ bs)"
    using z(3) t(5) by (simp add: pipe_after pipe_queue_pq)
  with y(1) z(1) show ?thesis unfolding t(5) by blast
qed

lemma demo_pipe_ok: "pipe_ok demo_pipe" "pipe_queue demo_pipe = []"
  by (simp_all add: pipe_ok_def pipe_queue_def demo_pipe_def)

text \<open>Three bytes are written and two of them read.\<close>

theorem pipe_is_fifo_witness:
  "\<exists>t u. pipewrite 0x8000 [10, 20, 30] 3 demo_sys = Ok 3 t \<and> piperead 0x8000 2 t = Ok (2, [10, 20]) u \<and> pipe_queue (pipes u 0x8000) = [30]"
proof -
  obtain t u where t: "pipewrite 0x8000 [10, 20, 30] 3 demo_sys = Ok 3 t" and u: "piperead 0x8000 2 t = Ok (2, [10, 20]) u"
    using pipe_write_then_read [OF demo_sys_ready demo_sys_ready, of "0x8000" "[10, 20, 30]" 3 2] by (auto simp: demo_pipe_ok)
  obtain k where k: "k = put_count 0x8000 demo_sys t" by simp
  have "pipe_run 0x8000 demo_sys ((\<lambda>_. None)(1 \<mapsto> ([10, 20, 30], drop k [10, 20, 30], sint (3 :: i32), Some 3))) ([] @ [(1, take k [10, 20, 30])]) ([] @ [10, 20]) u"
    by (rule pipe_run.reads [OF pipe_run.writes [OF pipe_run.start _ t _ k] u]) simp_all
  note F = pipe_is_fifo [OF this]
  have ok: "pipe_ok (pipes demo_sys 0x8000)" by (simp add: demo_pipe_ok)
  have "drop k [10, 20, 30 :: u8] = []"
    using F [OF ok, THEN conjunct2, THEN conjunct2, rule_format, of 1 "[10, 20, 30]" "drop k [10, 20, 30]" 3 "Some 3"] by simp
  moreover have "take k [10, 20, 30] = [10, 20] @ pipe_queue (pipes u 0x8000)" using F [OF ok] by (simp add: demo_pipe_ok)
  ultimately have "pipe_queue (pipes u 0x8000) = [30]" by simp
  with t u show ?thesis by blast
qed

end
