(* ===== verification/Syscall.thy ===== *)
theory Syscall
  imports Process
begin

text \<open>
  The first part of \<^verbatim>\<open>syscall.c\<close>: fetching system call arguments from the user stack.  The kernel follows user
  pointers through the page table of the process; \<open>kva\<close> is that translation, and an address it does not map is
  a page fault in the kernel (\<open>Fault\<close>).  The result \<open>None\<close> of a fetch is the return value -1.
\<close>

section \<open>User memory\<close>

definition kva :: "memory \<Rightarrow> u32 \<Rightarrow> bool \<Rightarrow> u32 \<Rightarrow> u32 option" where
  "kva m pgdir wr va =
     (let pde = load32 m (pgdir + 4 * PDX va); pte = load32 m (p2v (PTE_ADDR pde) + 4 * PTX va) in
      if pde AND PTE_P = 0 \<or> pte AND PTE_P = 0 \<or> wr \<and> (pde AND PTE_W = 0 \<or> pte AND PTE_W = 0) then None
      else Some (p2v (PTE_ADDR pte) + (va AND 0xFFF)))"

fun uread :: "memory \<Rightarrow> u32 \<Rightarrow> u32 \<Rightarrow> nat \<Rightarrow> u8 list option" where
  "uread m pgdir va 0 = Some []"
| "uread m pgdir va (Suc n) =
     (case kva m pgdir False va of
        None \<Rightarrow> None
      | Some a \<Rightarrow> map_option (Cons (m a)) (uread m pgdir (va + 1) n))"

fun uwrite :: "memory \<Rightarrow> u32 \<Rightarrow> u32 \<Rightarrow> u8 list \<Rightarrow> memory option" where
  "uwrite m pgdir va [] = Some m"
| "uwrite m pgdir va (c # cs) =
     (case kva m pgdir True va of
        None \<Rightarrow> None
      | Some a \<Rightarrow> uwrite (m(a := c)) pgdir (va + 1) cs)"

definition load_user :: "u32 \<Rightarrow> nat \<Rightarrow> 'a sysst_scheme \<Rightarrow> ('a sysst_scheme, u8 list) res" where
  "load_user va n s = with_cur (\<lambda>c s.
     case uread (mem s) (p_pgdir (proc_at c s)) va n of None \<Rightarrow> Fault ''page fault'' | Some bs \<Rightarrow> Ok bs s) s"

definition store_user :: "u32 \<Rightarrow> u8 list \<Rightarrow> 'a sysst_scheme \<Rightarrow> ('a sysst_scheme, unit) res" where
  "store_user va bs s = with_cur (\<lambda>c s.
     case uwrite (mem s) (p_pgdir (proc_at c s)) va bs of None \<Rightarrow> Fault ''page fault'' | Some m \<Rightarrow> Ok () (s\<lparr>mem := m\<rparr>)) s"

section \<open>Fetching arguments\<close>

text \<open>\<open>ropt m f g\<close>: the early return \<open>f\<close> when \<open>m\<close> gives \<open>None\<close>.\<close>

definition ropt :: "('s, 'a option) res \<Rightarrow> ('s \<Rightarrow> ('s, 'b) res) \<Rightarrow> ('a \<Rightarrow> 's \<Rightarrow> ('s, 'b) res) \<Rightarrow> ('s, 'b) res" where
  "ropt m f g = rbind m (\<lambda>r s. case r of None \<Rightarrow> f s | Some x \<Rightarrow> g x s)"

lemma ropt_simps [simp]:
  "ropt (Ok None s) f g = f s" "ropt (Ok (Some x) s) f g = g x s" "ropt (Panic e) f g = Panic e" "ropt (Fault e) f g = Fault e"
  "ropt (Spin l) f g = Spin l" "ropt (Swtch s) f g = Swtch s" "ropt Diverge f g = Diverge"
  by (simp_all add: ropt_def)

definition psz :: "'a sysst_scheme \<Rightarrow> u32" where
  "psz s = (case cur s of None \<Rightarrow> 0 | Some c \<Rightarrow> p_sz (proc_at c s))"

definition fetchint :: "u32 \<Rightarrow> 'a sysst_scheme \<Rightarrow> ('a sysst_scheme, i32 option) res" where
  "fetchint addr s = with_cur (\<lambda>c s.
     if addr \<ge> p_sz (proc_at c s) \<or> addr + 4 > p_sz (proc_at c s) then Ok None s
     else rbind (load_user addr 4 s) (\<lambda>bs s. Ok (Some (ld32 bs 0)) s)) s"

text \<open>\<open>fetchstr_loop\<close> looks at \<open>n\<close> bytes; the outer option is a page fault, the inner one a missing terminator.\<close>

fun fetchstr_loop :: "memory \<Rightarrow> u32 \<Rightarrow> u32 \<Rightarrow> nat \<Rightarrow> u8 list option option" where
  "fetchstr_loop m pgdir va 0 = Some None"
| "fetchstr_loop m pgdir va (Suc n) =
     (case kva m pgdir False va of
        None \<Rightarrow> None
      | Some a \<Rightarrow>
          if m a = 0 then Some (Some [])
          else map_option (map_option (Cons (m a))) (fetchstr_loop m pgdir (va + 1) n))"

definition fetchstr :: "u32 \<Rightarrow> 'a sysst_scheme \<Rightarrow> ('a sysst_scheme, u8 list option) res" where
  "fetchstr addr s = with_cur (\<lambda>c s.
     if addr \<ge> p_sz (proc_at c s) then Ok None s
     else case fetchstr_loop (mem s) (p_pgdir (proc_at c s)) addr (unat (p_sz (proc_at c s) - addr)) of
            None \<Rightarrow> Fault ''page fault''
          | Some r \<Rightarrow> Ok r s) s"

definition argint :: "nat \<Rightarrow> 'a sysst_scheme \<Rightarrow> ('a sysst_scheme, i32 option) res" where
  "argint n s = with_cur (\<lambda>c s. fetchint (load32 (mem s) (p_tf (proc_at c s) + TF_ESP) + 4 + 4 * of_nat n) s) s"

definition argptr :: "nat \<Rightarrow> i32 \<Rightarrow> 'a sysst_scheme \<Rightarrow> ('a sysst_scheme, u32 option) res" where
  "argptr n sz s =
     ropt (argint n s) (\<lambda>s. Ok None s) (\<lambda>i s.
     with_cur (\<lambda>c s.
       if i \<ge> p_sz (proc_at c s) \<or> i + sz > p_sz (proc_at c s) then Ok None s
       else Ok (Some i) s) s)"

definition argstr :: "nat \<Rightarrow> 'a sysst_scheme \<Rightarrow> ('a sysst_scheme, u8 list option) res" where
  "argstr n s = ropt (argint n s) (\<lambda>s. Ok None s) (\<lambda>addr s. fetchstr addr s)"

end
