(* ===== verification/Sysfile.thy ===== *)
theory Sysfile
  imports Syscall
begin

text \<open>
  The file system calls, \<^verbatim>\<open>sysfile.c\<close>, and the swap file functions at the end of \<^verbatim>\<open>fs.c\<close>.  A call returns the 32-bit value that
  \<open>syscall\<close> puts into the user's \<^verbatim>\<open>eax\<close>.  Each label \<^verbatim>\<open>bad\<close> is a local continuation.
\<close>

section \<open>Descriptors\<close>

definition argfd :: "nat \<Rightarrow> 'a sysst_scheme \<Rightarrow> ('a sysst_scheme, (nat \<times> nat) option) res" where
  "argfd n s =
     ropt (argint n s) (\<lambda>s. Ok None s) (\<lambda>fd s.
     with_cur (\<lambda>c s.
       if sint fd < 0 \<or> sint fd \<ge> int NOFILE then Ok None s
       else case p_ofile (proc_at c s) ! unat fd of
              None \<Rightarrow> Ok None s
            | Some f \<Rightarrow> Ok (Some (unat fd, f)) s) s)"

fun fd_find :: "nat option list \<Rightarrow> nat \<Rightarrow> nat option" where
  "fd_find [] i = None"
| "fd_find (x # xs) i = (if x = None then Some i else fd_find xs (Suc i))"

definition fdalloc :: "nat \<Rightarrow> 'a sysst_scheme \<Rightarrow> ('a sysst_scheme, nat option) res" where
  "fdalloc f s = with_cur (\<lambda>c s.
     case fd_find (p_ofile (proc_at c s)) 0 of
       None \<Rightarrow> Ok None s
     | Some fd \<Rightarrow> Ok (Some fd) (upd_proc c (\<lambda>x. x\<lparr>p_ofile := (p_ofile x)[fd := Some f]\<rparr>) s)) s"

definition sys_dup :: "'a sysst_scheme \<Rightarrow> ('a sysst_scheme, i32) res" where
  "sys_dup s =
     ropt (argfd 0 s) (\<lambda>s. Ok (- 1) s) (\<lambda>(_, f) s.
     ropt (fdalloc f s) (\<lambda>s. Ok (- 1) s) (\<lambda>fd s.
     rbind (filedup f s) (\<lambda>_ s. Ok (of_nat fd) s)))"

definition sys_read :: "'a sysst_scheme \<Rightarrow> ('a sysst_scheme, i32) res" where
  "sys_read s =
     ropt (argfd 0 s) (\<lambda>s. Ok (- 1) s) (\<lambda>(_, f) s.
     ropt (argint 2 s) (\<lambda>s. Ok (- 1) s) (\<lambda>n s.
     ropt (argptr 1 n s) (\<lambda>s. Ok (- 1) s) (\<lambda>p s.
     rbind (fileread f n s) (\<lambda>(r, bs) s.
     rbind (store_user p bs s) (\<lambda>_ s. Ok (word_of_int r) s)))))"

definition sys_write :: "'a sysst_scheme \<Rightarrow> ('a sysst_scheme, i32) res" where
  "sys_write s =
     ropt (argfd 0 s) (\<lambda>s. Ok (- 1) s) (\<lambda>(_, f) s.
     ropt (argint 2 s) (\<lambda>s. Ok (- 1) s) (\<lambda>n s.
     ropt (argptr 1 n s) (\<lambda>s. Ok (- 1) s) (\<lambda>p s.
     rbind (load_user p (nat (sint n)) s) (\<lambda>bs s.
     rbind (filewrite f bs n s) (\<lambda>r s. Ok (word_of_int r) s)))))"

definition sys_close :: "'a sysst_scheme \<Rightarrow> ('a sysst_scheme, i32) res" where
  "sys_close s =
     ropt (argfd 0 s) (\<lambda>s. Ok (- 1) s) (\<lambda>(fd, f) s.
     with_cur (\<lambda>c s.
     rbind (fileclose f (upd_proc c (\<lambda>x. x\<lparr>p_ofile := (p_ofile x)[fd := None]\<rparr>) s)) (\<lambda>_ s. Ok 0 s)) s)"

text \<open>\<^verbatim>\<open>struct stat\<close> as the user sees it: type and two bytes of padding, dev, ino, nlink and two bytes of padding, size.\<close>

definition stat_put :: "stat \<Rightarrow> u8 list \<Rightarrow> u8 list" where
  "stat_put st d = st32 (st16 (st32 (st32 (st16 d 0 (st_type st)) 4 (st_dev st)) 8 (st_ino st)) 12 (st_nlink st)) 16 (st_size st)"

definition sys_fstat :: "'a sysst_scheme \<Rightarrow> ('a sysst_scheme, i32) res" where
  "sys_fstat s =
     ropt (argfd 0 s) (\<lambda>s. Ok (- 1) s) (\<lambda>(_, f) s.
     ropt (argptr 1 20 s) (\<lambda>s. Ok (- 1) s) (\<lambda>p s.
     rbind (filestat f s) (\<lambda>(r, st) s.
     case st of
       None \<Rightarrow> Ok (word_of_int r) s
     | Some st \<Rightarrow>
         rbind (load_user p 20 s) (\<lambda>d s.
         rbind (store_user p (stat_put st d) s) (\<lambda>_ s. Ok (word_of_int r) s)))))"

section \<open>Links\<close>

definition upd_nlink :: "nat \<Rightarrow> (u16 \<Rightarrow> u16) \<Rightarrow> 'a icst_scheme \<Rightarrow> ('a icst_scheme, unit) res" where
  "upd_nlink ip f s = iupdate ip (upd_inode ip (\<lambda>x. x\<lparr>i_nlink := f (i_nlink x)\<rparr>) s)"

definition sys_link :: "'a sysst_scheme \<Rightarrow> ('a sysst_scheme, i32) res" where
  "sys_link s =
     ropt (argstr 0 s) (\<lambda>s. Ok (- 1) s) (\<lambda>old s.
     ropt (argstr 1 s) (\<lambda>s. Ok (- 1) s) (\<lambda>new s.
     rbind (begin_op s) (\<lambda>_ s.
     ropt (namei old s) (\<lambda>s. rbind (end_op s) (\<lambda>_ s. Ok (- 1) s)) (\<lambda>ip s.
     rbind (ilock (Some ip) s) (\<lambda>_ s.
     if i_type (inode_at ip s) = T_DIR then
       rbind (iunlockput ip s) (\<lambda>_ s. rbind (end_op s) (\<lambda>_ s. Ok (- 1) s))
     else
       let bad = (\<lambda>s.
         rbind (ilock (Some ip) s) (\<lambda>_ s.
         rbind (upd_nlink ip (\<lambda>n. n - 1) s) (\<lambda>_ s.
         rbind (iunlockput ip s) (\<lambda>_ s.
         rbind (end_op s) (\<lambda>_ s. Ok (- 1) s)))))
       in rbind (upd_nlink ip (\<lambda>n. n + 1) s) (\<lambda>_ s.
          rbind (iunlock (Some ip) s) (\<lambda>_ s.
          rbind (nameiparent new (replicate DIRSIZ 0) s) (\<lambda>(dp, name) s.
          case dp of
            None \<Rightarrow> bad s
          | Some dp \<Rightarrow>
              rbind (ilock (Some dp) s) (\<lambda>_ s.
              rbind (if i_dev (inode_at dp s) \<noteq> i_dev (inode_at ip s) then Ok (- 1) s
                     else dirlink dp name (i_inum (inode_at ip s)) s) (\<lambda>r s.
              if r < 0 then rbind (iunlockput dp s) (\<lambda>_ s. bad s)
              else rbind (iunlockput dp s) (\<lambda>_ s.
                   rbind (iput ip s) (\<lambda>_ s.
                   rbind (end_op s) (\<lambda>_ s. Ok 0 s)))))))))))))"

fun isdirempty_loop :: "nat \<Rightarrow> nat \<Rightarrow> nat \<Rightarrow> 'a sysst_scheme \<Rightarrow> ('a sysst_scheme, bool) res" where
  "isdirempty_loop k off dp s =
     (if off < unat (i_size (inode_at dp s)) then
        (case k of 0 \<Rightarrow> Diverge
         | Suc k \<Rightarrow>
             rbind (read_dirent dp off ''isdirempty: readi'' s) (\<lambda>de s.
             if de_inum de \<noteq> 0 then Ok False s else isdirempty_loop k (off + DIRENT) dp s))
      else Ok True s)"

declare isdirempty_loop.simps [simp del]

definition isdirempty :: "nat \<Rightarrow> 'a sysst_scheme \<Rightarrow> ('a sysst_scheme, bool) res" where
  "isdirempty dp s = isdirempty_loop (unat (i_size (inode_at dp s)) div DIRENT + 1) (2 * DIRENT) dp s"

text \<open>
  The body that \<open>sys_unlink\<close> and \<open>removeSwapFile\<close> share word for word, from \<^verbatim>\<open>nameiparent\<close> to the end.  The name is
  compared with the string literals, which end in a zero byte.
\<close>

definition unlink_path :: "u8 list \<Rightarrow> 'a sysst_scheme \<Rightarrow> ('a sysst_scheme, i32) res" where
  "unlink_path path s =
     rbind (nameiparent path (replicate DIRSIZ 0) s) (\<lambda>(dp, name) s.
     case dp of
       None \<Rightarrow> rbind (end_op s) (\<lambda>_ s. Ok (- 1) s)
     | Some dp \<Rightarrow>
         rbind (ilock (Some dp) s) (\<lambda>_ s.
         let bad = (\<lambda>s. rbind (iunlockput dp s) (\<lambda>_ s. rbind (end_op s) (\<lambda>_ s. Ok (- 1) s))) in
         if namecmp name (bytes ''.'' @ [0]) = Some 0 \<or> namecmp name (bytes ''..'' @ [0]) = Some 0 then bad s
         else ropt (dirlookup dp name s) bad (\<lambda>(ip, off) s.
              rbind (ilock (Some ip) s) (\<lambda>_ s.
              if sint (i_nlink (inode_at ip s)) < 1 then Panic ''unlink: nlink < 1''
              else rbind (if i_type (inode_at ip s) = T_DIR then isdirempty ip s else Ok True s) (\<lambda>emp s.
              if \<not> emp then rbind (iunlockput ip s) (\<lambda>_ s. bad s)
              else rbind (writei dp (replicate DIRENT 0) (of_nat off) (of_nat DIRENT) s) (\<lambda>r s.
              if r \<noteq> int DIRENT then Panic ''unlink: writei''
              else rbind (rwhen (i_type (inode_at ip s) = T_DIR) (upd_nlink dp (\<lambda>n. n - 1)) s) (\<lambda>_ s.
                   rbind (iunlockput dp s) (\<lambda>_ s.
                   rbind (upd_nlink ip (\<lambda>n. n - 1) s) (\<lambda>_ s.
                   rbind (iunlockput ip s) (\<lambda>_ s.
                   rbind (end_op s) (\<lambda>_ s. Ok 0 s)))))))))))"

definition sys_unlink :: "'a sysst_scheme \<Rightarrow> ('a sysst_scheme, i32) res" where
  "sys_unlink s =
     ropt (argstr 0 s) (\<lambda>s. Ok (- 1) s) (\<lambda>path s.
     rbind (begin_op s) (\<lambda>_ s. unlink_path path s))"

section \<open>Creating and opening\<close>

definition create :: "u8 list \<Rightarrow> u16 \<Rightarrow> u16 \<Rightarrow> u16 \<Rightarrow> 'a sysst_scheme \<Rightarrow> ('a sysst_scheme, nat option) res" where
  "create path type major minor s =
     rbind (nameiparent path (replicate DIRSIZ 0) s) (\<lambda>(dp, name) s.
     case dp of
       None \<Rightarrow> Ok None s
     | Some dp \<Rightarrow>
         rbind (ilock (Some dp) s) (\<lambda>_ s.
         rbind (dirlookup dp name s) (\<lambda>r s.
         case r of
           Some (ip, off) \<Rightarrow>
             rbind (iunlockput dp s) (\<lambda>_ s.
             rbind (ilock (Some ip) s) (\<lambda>_ s.
             if type = T_FILE \<and> i_type (inode_at ip s) = T_FILE then Ok (Some ip) s
             else rbind (iunlockput ip s) (\<lambda>_ s. Ok None s)))
         | None \<Rightarrow>
             rbind (ialloc (i_dev (inode_at dp s)) type s) (\<lambda>ip s.
             rbind (ilock (Some ip) s) (\<lambda>_ s.
             rbind (iupdate ip (upd_inode ip (\<lambda>x. x\<lparr>i_major := major, i_minor := minor, i_nlink := 1\<rparr>) s)) (\<lambda>_ s.
             rbind (rwhen (type = T_DIR) (\<lambda>s.
               rbind (upd_nlink dp (\<lambda>n. n + 1) s) (\<lambda>_ s.
               rbind (dirlink ip (bytes ''.'' @ [0]) (i_inum (inode_at ip s)) s) (\<lambda>r s.
               if r < 0 then Panic ''create dots''
               else rbind (dirlink ip (bytes ''..'' @ [0]) (i_inum (inode_at dp s)) s) (\<lambda>r s.
                    if r < 0 then Panic ''create dots'' else Ok () s)))) s) (\<lambda>_ s.
             rbind (dirlink dp name (i_inum (inode_at ip s)) s) (\<lambda>r s.
             if r < 0 then Panic ''create: dirlink''
             else rbind (iunlockput dp s) (\<lambda>_ s. Ok (Some ip) s)))))))))"

abbreviation (input) O_WRONLY :: i32 where "O_WRONLY \<equiv> 1"
abbreviation (input) O_RDWR :: i32 where "O_RDWR \<equiv> 2"
abbreviation (input) O_CREATE :: i32 where "O_CREATE \<equiv> 0x200"

definition open_end :: "nat \<Rightarrow> i32 \<Rightarrow> 'a sysst_scheme \<Rightarrow> ('a sysst_scheme, i32) res" where
  "open_end ip omode s =
     (let bad = (\<lambda>s. rbind (iunlockput ip s) (\<lambda>_ s. rbind (end_op s) (\<lambda>_ s. Ok (- 1) s))) in
      ropt (filealloc s) bad (\<lambda>f s.
      ropt (fdalloc f s) (\<lambda>s. rbind (fileclose f s) (\<lambda>_ s. bad s)) (\<lambda>fd s.
      rbind (iunlock (Some ip) s) (\<lambda>_ s.
      rbind (end_op s) (\<lambda>_ s.
      Ok (of_nat fd) (upd_file f (\<lambda>x. x\<lparr>f_type := FD_INODE, f_ip := Some ip, f_off := 0,
        f_readable := (if omode AND O_WRONLY = 0 then 1 else 0),
        f_writable := (if omode AND O_WRONLY \<noteq> 0 \<or> omode AND O_RDWR \<noteq> 0 then 1 else 0)\<rparr>) s))))))"

definition sys_open :: "'a sysst_scheme \<Rightarrow> ('a sysst_scheme, i32) res" where
  "sys_open s =
     ropt (argstr 0 s) (\<lambda>s. Ok (- 1) s) (\<lambda>path s.
     ropt (argint 1 s) (\<lambda>s. Ok (- 1) s) (\<lambda>omode s.
     rbind (begin_op s) (\<lambda>_ s.
     if omode AND O_CREATE \<noteq> 0 then
       ropt (create path T_FILE 0 0 s) (\<lambda>s. rbind (end_op s) (\<lambda>_ s. Ok (- 1) s)) (\<lambda>ip s. open_end ip omode s)
     else
       ropt (namei path s) (\<lambda>s. rbind (end_op s) (\<lambda>_ s. Ok (- 1) s)) (\<lambda>ip s.
       rbind (ilock (Some ip) s) (\<lambda>_ s.
       if i_type (inode_at ip s) = T_DIR \<and> omode \<noteq> 0 then
         rbind (iunlockput ip s) (\<lambda>_ s. rbind (end_op s) (\<lambda>_ s. Ok (- 1) s))
       else open_end ip omode s)))))"

definition make_end :: "('a sysst_scheme, nat option) res \<Rightarrow> ('a sysst_scheme, i32) res" where
  "make_end m =
     ropt m (\<lambda>s. rbind (end_op s) (\<lambda>_ s. Ok (- 1) s)) (\<lambda>ip s.
     rbind (iunlockput ip s) (\<lambda>_ s. rbind (end_op s) (\<lambda>_ s. Ok 0 s)))"

definition sys_mkdir :: "'a sysst_scheme \<Rightarrow> ('a sysst_scheme, i32) res" where
  "sys_mkdir s =
     rbind (begin_op s) (\<lambda>_ s.
     make_end (ropt (argstr 0 s) (\<lambda>s. Ok None s) (\<lambda>path s. create path T_DIR 0 0 s)))"

definition sys_mknod :: "'a sysst_scheme \<Rightarrow> ('a sysst_scheme, i32) res" where
  "sys_mknod s =
     rbind (begin_op s) (\<lambda>_ s.
     make_end (ropt (argstr 0 s) (\<lambda>s. Ok None s) (\<lambda>path s.
       ropt (argint 1 s) (\<lambda>s. Ok None s) (\<lambda>major s.
       ropt (argint 2 s) (\<lambda>s. Ok None s) (\<lambda>minor s.
       create path T_DEV (ucast major) (ucast minor) s)))))"

definition sys_chdir :: "'a sysst_scheme \<Rightarrow> ('a sysst_scheme, i32) res" where
  "sys_chdir s =
     rbind (begin_op s) (\<lambda>_ s.
     ropt (ropt (argstr 0 s) (\<lambda>s. Ok None s) (\<lambda>path s. namei path s))
       (\<lambda>s. rbind (end_op s) (\<lambda>_ s. Ok (- 1) s)) (\<lambda>ip s.
     rbind (ilock (Some ip) s) (\<lambda>_ s.
     if i_type (inode_at ip s) \<noteq> T_DIR then
       rbind (iunlockput ip s) (\<lambda>_ s. rbind (end_op s) (\<lambda>_ s. Ok (- 1) s))
     else rbind (iunlock (Some ip) s) (\<lambda>_ s.
          with_cur (\<lambda>c s.
          rbind (case p_cwd (proc_at c s) of None \<Rightarrow> Fault ''proc->cwd'' | Some d \<Rightarrow> iput d s) (\<lambda>_ s.
          rbind (end_op s) (\<lambda>_ s.
          Ok 0 (upd_proc c (\<lambda>x. x\<lparr>p_cwd := Some ip\<rparr>) s)))) s))))"

definition sys_pipe :: "'a sysst_scheme \<Rightarrow> ('a sysst_scheme, i32) res" where
  "sys_pipe s =
     ropt (argptr 0 8 s) (\<lambda>s. Ok (- 1) s) (\<lambda>fd s.
     rbind (pipealloc s) (\<lambda>(r, f0, f1) s.
     case (f0, f1) of
       (Some rd, Some wr) \<Rightarrow>
         if r < 0 then Ok (- 1) s
         else let bad = (\<lambda>s. rbind (fileclose rd s) (\<lambda>_ s. rbind (fileclose wr s) (\<lambda>_ s. Ok (- 1) s))) in
           ropt (fdalloc rd s) bad (\<lambda>fd0 s.
           ropt (fdalloc wr s)
             (\<lambda>s. with_cur (\<lambda>c s. bad (upd_proc c (\<lambda>x. x\<lparr>p_ofile := (p_ofile x)[fd0 := None]\<rparr>) s)) s) (\<lambda>fd1 s.
           rbind (store_user fd (st32 (st32 (replicate 8 0) 0 (of_nat fd0)) 4 (of_nat fd1)) s) (\<lambda>_ s. Ok 0 s)))
     | _ \<Rightarrow> Ok (- 1) s))"

section \<open>Swap files\<close>

text \<open>
  \<open>itoa\<close> on a positive number writes the decimal digits and a zero byte; the buffer of the caller has \<open>DIGITS\<close> = 14
  bytes, of which \<^verbatim>\<open>/.swap\<close> takes six.  Writing past it is undefined.
\<close>

definition itoa :: "i32 \<Rightarrow> u8 list" where
  "itoa i =
     (let neg = sint i < 0; x = (if neg then - i else i)
      in (if neg then bytes ''-'' else []) @ rev (digits_rev 10 (nat (sint x))) @ [0])"

definition swap_path :: "i32 \<Rightarrow> u8 list option" where
  "swap_path pid =
     (if sint pid = - (2 ^ 31) then None
      else let p = bytes ''/.swap'' @ itoa pid in if length p > 14 then None else Some (cstr p))"

definition swap_file :: "nat \<Rightarrow> 'a sysst_scheme \<Rightarrow> nat option" where
  "swap_file p s = p_swapFile (proc_at p s)"

definition removeSwapFile :: "nat \<Rightarrow> 'a sysst_scheme \<Rightarrow> ('a sysst_scheme, i32) res" where
  "removeSwapFile p s =
     (case swap_path (p_pid (proc_at p s)) of
        None \<Rightarrow> Fault ''path overflow''
      | Some path \<Rightarrow>
          (case swap_file p s of
             None \<Rightarrow> Ok (- 1) s
           | Some f \<Rightarrow>
               rbind (fileclose f s) (\<lambda>_ s.
               rbind (begin_op s) (\<lambda>_ s. unlink_path path s))))"

definition createSwapFile :: "nat \<Rightarrow> 'a sysst_scheme \<Rightarrow> ('a sysst_scheme, i32) res" where
  "createSwapFile p s =
     (case swap_path (p_pid (proc_at p s)) of
        None \<Rightarrow> Fault ''path overflow''
      | Some path \<Rightarrow>
          rbind (begin_op s) (\<lambda>_ s.
          rbind (create path T_FILE 0 0 s) (\<lambda>ip s.
          rbind (iunlock ip s) (\<lambda>_ s.
          rbind (filealloc s) (\<lambda>f s.
          let s = upd_proc p (\<lambda>x. x\<lparr>p_swapFile := f\<rparr>) s in
          case f of
            None \<Rightarrow> Panic ''no slot for files on /store''
          | Some f \<Rightarrow>
              rbind (end_op (upd_file f (\<lambda>x. x\<lparr>f_ip := ip, f_type := FD_INODE, f_off := 0,
                f_readable := 1, f_writable := 2\<rparr>) s)) (\<lambda>_ s. Ok 0 s))))))"

definition writeToSwapFile :: "nat \<Rightarrow> u8 list \<Rightarrow> u32 \<Rightarrow> u32 \<Rightarrow> 'a sysst_scheme \<Rightarrow> ('a sysst_scheme, int) res" where
  "writeToSwapFile p buffer place sz s =
     (case swap_file p s of
        None \<Rightarrow> Fault ''p->swapFile''
      | Some f \<Rightarrow> filewrite f buffer sz (upd_file f (\<lambda>x. x\<lparr>f_off := place\<rparr>) s))"

definition readFromSwapFile :: "nat \<Rightarrow> u32 \<Rightarrow> u32 \<Rightarrow> 'a sysst_scheme \<Rightarrow> ('a sysst_scheme, int \<times> u8 list) res" where
  "readFromSwapFile p place sz s =
     (case swap_file p s of
        None \<Rightarrow> Fault ''p->swapFile''
      | Some f \<Rightarrow> fileread f sz (upd_file f (\<lambda>x. x\<lparr>f_off := place\<rparr>) s))"

end
