(* ===== verification/Exec.thy ===== *)
theory Exec
  imports Sysfile
begin

text \<open>
  Loading a program: \<open>loaduvm\<close> of \<^verbatim>\<open>vm.c\<close>, \<^verbatim>\<open>exec.c\<close>, \<open>sys_exec\<close>, and the remaining system calls of \<^verbatim>\<open>sysproc.c\<close>.  The ELF headers are
  read at their offsets in the file's bytes; a local variable that \<open>readi\<close> has not filled is uninitialised, and
  reading it is a \<open>Fault\<close>.
\<close>

section \<open>Loading a segment\<close>

fun loaduvm_loop :: "nat \<Rightarrow> u32 \<Rightarrow> u32 \<Rightarrow> nat \<Rightarrow> u32 \<Rightarrow> nat \<Rightarrow> nat \<Rightarrow> 'a sysst_scheme \<Rightarrow> ('a sysst_scheme, int) res" where
  "loaduvm_loop k pgdir addr ip offset sz i s =
     (if i < sz then
        (case k of 0 \<Rightarrow> Diverge
         | Suc k \<Rightarrow>
             rbind (walkpgdir pgdir (addr + of_nat i) False s) (\<lambda>pte s.
             if pte = 0 then Panic ''loaduvm: address should exist''
             else let pa = PTE_ADDR (load32 (mem s) pte); n = min (sz - i) 4096 in
               rbind (readi ip (offset + of_nat i) (of_nat n) s) (\<lambda>(r, bs) s.
               let s = s\<lparr>mem := write_bytes (mem s) (p2v pa) bs\<rparr> in
               if r \<noteq> int n then Ok (- 1) s
               else loaduvm_loop k pgdir addr ip offset sz (i + 4096) s)))
      else Ok 0 s)"

declare loaduvm_loop.simps [simp del]

definition loaduvm :: "u32 \<Rightarrow> u32 \<Rightarrow> nat \<Rightarrow> u32 \<Rightarrow> u32 \<Rightarrow> 'a sysst_scheme \<Rightarrow> ('a sysst_scheme, int) res" where
  "loaduvm pgdir addr ip offset sz s =
     (if addr mod PGSIZE \<noteq> 0 then Panic ''loaduvm: addr must be page aligned''
      else loaduvm_loop (unat sz div 4096 + 1) pgdir addr ip offset (unat sz) 0 s)"

section \<open>Exec\<close>

abbreviation (input) ELF_MAGIC :: u32 where "ELF_MAGIC \<equiv> 0x464C457F"
abbreviation (input) ELFHDR :: nat where "ELFHDR \<equiv> 52"
abbreviation (input) PROGHDR :: nat where "PROGHDR \<equiv> 32"

record proghdr =
  ph_type :: u32
  ph_off :: u32
  ph_vaddr :: u32
  ph_filesz :: u32
  ph_memsz :: u32

definition ph_of :: "u8 list \<Rightarrow> proghdr" where
  "ph_of d = \<lparr>ph_type = ld32 d 0, ph_off = ld32 d 4, ph_vaddr = ld32 d 8, ph_filesz = ld32 d 16, ph_memsz = ld32 d 20\<rparr>"

text \<open>The loop over the program headers; \<open>None\<close> is \<^verbatim>\<open>goto bad\<close>.\<close>

fun exec_load :: "nat \<Rightarrow> u32 \<Rightarrow> u32 \<Rightarrow> u32 \<Rightarrow> nat \<Rightarrow> 'a sysst_scheme \<Rightarrow> ('a sysst_scheme, u32 option) res" where
  "exec_load 0 off sz pgdir ip s = Ok (Some sz) s"
| "exec_load (Suc n) off sz pgdir ip s =
     rbind (readi ip off (of_nat PROGHDR) s) (\<lambda>(r, d) s.
     if r \<noteq> int PROGHDR then Ok None s
     else let ph = ph_of d in
       if ph_type ph \<noteq> 1 then exec_load n (off + of_nat PROGHDR) sz pgdir ip s
       else if ph_memsz ph < ph_filesz ph then Ok None s
       else rbind (allocuvm pgdir sz (ph_vaddr ph + ph_memsz ph) s) (\<lambda>sz s.
            if sz = 0 then Ok None s
            else rbind (loaduvm pgdir (ph_vaddr ph) ip (ph_off ph) (ph_filesz ph) s) (\<lambda>r s.
                 if r < 0 then Ok None s
                 else exec_load n (off + of_nat PROGHDR) sz pgdir ip s)))"

text \<open>
  Pushing the argument strings: the addresses of the strings pushed so far are \<open>us\<close>.  An argument string is given without
  its zero byte, which \<open>copyout\<close> copies too.
\<close>

fun exec_args :: "u8 list list \<Rightarrow> u32 list \<Rightarrow> u32 \<Rightarrow> u32 \<Rightarrow> 'a sysst_scheme \<Rightarrow> ('a sysst_scheme, (u32 list \<times> u32) option) res" where
  "exec_args [] us sp pgdir s = Ok (Some (us, sp)) s"
| "exec_args (a # as) us sp pgdir s =
     (if length us \<ge> MAXARG then Ok None s
      else let sp = (sp - (of_nat (length a) + 1)) AND NOT 3 in
        rbind (copyout pgdir sp (a @ [0]) s) (\<lambda>r s.
        if r < 0 then Ok None s else exec_args as (us @ [sp]) sp pgdir s))"

fun words_bytes :: "u32 list \<Rightarrow> u8 list" where
  "words_bytes [] = []"
| "words_bytes (w # ws) = st32 (replicate 4 0) 0 w @ words_bytes ws"

fun after_slash :: "u8 list \<Rightarrow> u8 list \<Rightarrow> u8 list" where
  "after_slash [] l = l"
| "after_slash (c # s) l = after_slash s (if c = slash then s else l)"

definition exec_bad :: "u32 \<Rightarrow> nat option \<Rightarrow> 'a sysst_scheme \<Rightarrow> ('a sysst_scheme, i32) res" where
  "exec_bad pgdir ip s =
     rbind (rwhen (pgdir \<noteq> 0) (freevm pgdir) s) (\<lambda>_ s.
     rbind (case ip of None \<Rightarrow> Ok () s | Some ip \<Rightarrow> rbind (iunlockput ip s) (\<lambda>_ s. end_op s)) (\<lambda>_ s.
     Ok (- 1) s))"

definition exec_commit :: "u8 list \<Rightarrow> u32 \<Rightarrow> u32 \<Rightarrow> u32 \<Rightarrow> u32 \<Rightarrow> 'a sysst_scheme \<Rightarrow> ('a sysst_scheme, i32) res" where
  "exec_commit path entry pgdir sz sp s = with_cur (\<lambda>c s.
     rbind (set_name c (after_slash path path @ [0]) s) (\<lambda>_ s.
     let oldpgdir = p_pgdir (proc_at c s);
         s = upd_proc c (\<lambda>x. x\<lparr>p_pgdir := pgdir, p_sz := sz\<rparr>) s;
         s = s\<lparr>mem := store32 (mem s) (p_tf (proc_at c s) + TF_EIP) entry\<rparr>;
         s = s\<lparr>mem := store32 (mem s) (p_tf (proc_at c s) + TF_ESP) sp\<rparr>
     in rbind (switchuvm c s) (\<lambda>_ s.
        rbind (freevm oldpgdir s) (\<lambda>_ s. Ok 0 s)))) s"

definition exec_stack :: "u8 list \<Rightarrow> u8 list list \<Rightarrow> u32 \<Rightarrow> u32 \<Rightarrow> u32 \<Rightarrow> 'a sysst_scheme \<Rightarrow> ('a sysst_scheme, i32) res" where
  "exec_stack path argv entry pgdir sz s =
     (let sz = PGROUNDUP sz in
      rbind (allocuvm pgdir sz (sz + 2 * PGSIZE) s) (\<lambda>sz s.
      if sz = 0 then exec_bad pgdir None s
      else rbind (clearpteu pgdir (sz - 2 * PGSIZE) s) (\<lambda>_ s.
        rbind (exec_args argv [] sz pgdir s) (\<lambda>r s.
        case r of
          None \<Rightarrow> exec_bad pgdir None s
        | Some (us, sp) \<Rightarrow>
            let argc = of_nat (length us) :: u32;
                ustack = [0xffffffff, argc, sp - (argc + 1) * 4] @ us @ [0];
                sp = sp - (3 + argc + 1) * 4
            in rbind (copyout pgdir sp (words_bytes ustack) s) (\<lambda>r s.
               if r < 0 then exec_bad pgdir None s else exec_commit path entry pgdir sz sp s)))))"

text \<open>The first test compares the \<^verbatim>\<open>int\<close> result of \<open>readi\<close> with an unsigned size, so a result of -1 passes it.\<close>

definition exec :: "u8 list \<Rightarrow> u8 list list \<Rightarrow> 'a sysst_scheme \<Rightarrow> ('a sysst_scheme, i32) res" where
  "exec path argv s =
     rbind (begin_op s) (\<lambda>_ s.
     ropt (namei path s) (\<lambda>s. rbind (end_op s) (\<lambda>_ s. Ok (- 1) s)) (\<lambda>ip s.
     rbind (ilock (Some ip) s) (\<lambda>_ s.
     rbind (readi ip 0 (of_nat ELFHDR) s) (\<lambda>(r, elf) s.
     if (word_of_int r :: u32) < of_nat ELFHDR then exec_bad 0 (Some ip) s
     else if length elf < ELFHDR then Fault ''elf is uninitialised''
     else if ld32 elf 0 \<noteq> ELF_MAGIC then exec_bad 0 (Some ip) s
     else rbind (setupkvm s) (\<lambda>pgdir s.
       if pgdir = 0 then exec_bad 0 (Some ip) s
       else rbind (exec_load (unat (ld16 elf 44)) (ld32 elf 28) 0 pgdir ip s) (\<lambda>r s.
         case r of
           None \<Rightarrow> exec_bad pgdir (Some ip) s
         | Some sz \<Rightarrow>
             rbind (iunlockput ip s) (\<lambda>_ s.
             rbind (end_op s) (\<lambda>_ s. exec_stack path argv (ld32 elf 24) pgdir sz s))))))))"

fun fetch_argv :: "nat \<Rightarrow> u32 \<Rightarrow> nat \<Rightarrow> 'a sysst_scheme \<Rightarrow> ('a sysst_scheme, u8 list list option) res" where
  "fetch_argv 0 uargv i s = Ok None s"
| "fetch_argv (Suc n) uargv i s =
     ropt (fetchint (uargv + 4 * of_nat i) s) (\<lambda>s. Ok None s) (\<lambda>uarg s.
     if uarg = 0 then Ok (Some []) s
     else ropt (fetchstr uarg s) (\<lambda>s. Ok None s) (\<lambda>a s.
          ropt (fetch_argv n uargv (Suc i) s) (\<lambda>s. Ok None s) (\<lambda>as s. Ok (Some (a # as)) s)))"

definition sys_exec :: "'a sysst_scheme \<Rightarrow> ('a sysst_scheme, i32) res" where
  "sys_exec s =
     ropt (argstr 0 s) (\<lambda>s. Ok (- 1) s) (\<lambda>path s.
     ropt (argint 1 s) (\<lambda>s. Ok (- 1) s) (\<lambda>uargv s.
     ropt (fetch_argv MAXARG uargv 0 s) (\<lambda>s. Ok (- 1) s) (\<lambda>argv s. exec path argv s)))"

section \<open>Process system calls\<close>

definition sys_fork :: "'a sysst_scheme \<Rightarrow> ('a sysst_scheme, i32) res" where
  "sys_fork s = fork s"

definition sys_exit :: "'a sysst_scheme \<Rightarrow> ('a sysst_scheme, i32) res" where
  "sys_exit s = rbind (exit s) (\<lambda>_ s. Ok 0 s)"

definition sys_wait :: "'a sysst_scheme \<Rightarrow> ('a sysst_scheme, i32) res" where
  "sys_wait s = wait s"

definition sys_kill :: "'a sysst_scheme \<Rightarrow> ('a sysst_scheme, i32) res" where
  "sys_kill s = ropt (argint 0 s) (\<lambda>s. Ok (- 1) s) (\<lambda>pid s. rbind (kill pid s) (\<lambda>r s. Ok (word_of_int r) s))"

definition sys_getpid :: "'a sysst_scheme \<Rightarrow> ('a sysst_scheme, i32) res" where
  "sys_getpid s = with_cur (\<lambda>c s. Ok (p_pid (proc_at c s)) s) s"

definition sys_sbrk :: "'a sysst_scheme \<Rightarrow> ('a sysst_scheme, i32) res" where
  "sys_sbrk s =
     ropt (argint 0 s) (\<lambda>s. Ok (- 1) s) (\<lambda>n s.
     with_cur (\<lambda>c s.
     let addr = p_sz (proc_at c s) in
     rbind (growproc n s) (\<lambda>r s. Ok (if r < 0 then - 1 else addr) s)) s)"

text \<open>\<open>sleep_ticks\<close> is the loop of \<open>sys_sleep\<close>, which a process that slept in it runs again; the comparison is unsigned.\<close>

definition sleep_ticks :: "i32 \<Rightarrow> u32 \<Rightarrow> 'a sysst_scheme \<Rightarrow> ('a sysst_scheme, i32) res" where
  "sleep_ticks n ticks0 s =
     (if ticks s - ticks0 < n then
        with_cur (\<lambda>c s.
          if p_killed (proc_at c s) \<noteq> 0 then rbind (release TicksLock s) (\<lambda>_ s. Ok (- 1) s)
          else rbind (sleep ChanTicks (Some TicksLock) s) (\<lambda>_ s. Ok (- 1) s)) s
      else rbind (release TicksLock s) (\<lambda>_ s. Ok 0 s))"

definition sys_sleep :: "'a sysst_scheme \<Rightarrow> ('a sysst_scheme, i32) res" where
  "sys_sleep s =
     ropt (argint 0 s) (\<lambda>s. Ok (- 1) s) (\<lambda>n s.
     rbind (acquire TicksLock s) (\<lambda>_ s. sleep_ticks n (ticks s) s))"

definition sys_sleep_return :: "bool \<Rightarrow> i32 \<Rightarrow> u32 \<Rightarrow> 'a sysst_scheme \<Rightarrow> ('a sysst_scheme, i32) res" where
  "sys_sleep_return ena n ticks0 s = rbind (sleep_return ena TicksLock s) (\<lambda>_ s. sleep_ticks n ticks0 s)"

definition sys_uptime :: "'a sysst_scheme \<Rightarrow> ('a sysst_scheme, i32) res" where
  "sys_uptime s =
     rbind (acquire TicksLock s) (\<lambda>_ s.
     let x = ticks s in rbind (release TicksLock s) (\<lambda>_ s. Ok x s))"

end
