(* ===== verification/Trap.thy ===== *)
theory Trap
  imports Exec
begin

text \<open>
  Entry to the kernel: the system call table and dispatcher of \<^verbatim>\<open>syscall.c\<close>, and \<^verbatim>\<open>trap.c\<close>.  What the hardware supplies is an argument: the characters
  the keyboard and the serial port deliver, and the faulting address \<^verbatim>\<open>cr2\<close>.  Acknowledging the interrupt at the local APIC
  has no effect on the modelled state, and the memory disk raises no interrupt.
\<close>

section \<open>System calls\<close>

definition syscalls :: "nat \<Rightarrow> ('a sysst_scheme \<Rightarrow> ('a sysst_scheme, i32) res) option" where
  "syscalls num =
     (if num = 1 then Some sys_fork else if num = 2 then Some sys_exit else if num = 3 then Some sys_wait
      else if num = 4 then Some sys_pipe else if num = 5 then Some sys_read else if num = 6 then Some sys_kill
      else if num = 7 then Some sys_exec else if num = 8 then Some sys_fstat else if num = 9 then Some sys_chdir
      else if num = 10 then Some sys_dup else if num = 11 then Some sys_getpid else if num = 12 then Some sys_sbrk
      else if num = 13 then Some sys_sleep else if num = 14 then Some sys_uptime else if num = 15 then Some sys_open
      else if num = 16 then Some sys_write else if num = 17 then Some sys_mknod else if num = 18 then Some sys_unlink
      else if num = 19 then Some sys_link else if num = 20 then Some sys_mkdir else if num = 21 then Some sys_close
      else None)"

definition set_eax :: "nat \<Rightarrow> u32 \<Rightarrow> 'a sysst_scheme \<Rightarrow> 'a sysst_scheme" where
  "set_eax c v s = s\<lparr>mem := store32 (mem s) (p_tf (proc_at c s) + TF_EAX) v\<rparr>"

definition syscall :: "'a sysst_scheme \<Rightarrow> ('a sysst_scheme, unit) res" where
  "syscall s = with_cur (\<lambda>c s.
     let num = load32 (mem s) (p_tf (proc_at c s) + TF_EAX) in
     case (if sint num > 0 then syscalls (unat num) else None) of
       Some f \<Rightarrow> rbind (f s) (\<lambda>r s. Ok () (set_eax c r s))
     | None \<Rightarrow>
         rbind (cprintf (Some (bytes ''%d %s: unknown sys call %d\<newline>''))
           [Num (p_pid (proc_at c s)), Str (Some (cstr (p_name (proc_at c s)))), Num num] s) (\<lambda>_ s.
         Ok () (set_eax c (- 1) s))) s"

section \<open>Traps\<close>

abbreviation (input) T_SYSCALL :: u32 where "T_SYSCALL \<equiv> 64"
abbreviation (input) T_IRQ0 :: u32 where "T_IRQ0 \<equiv> 32"
abbreviation (input) TF_TRAPNO :: u32 where "TF_TRAPNO \<equiv> 48"
abbreviation (input) TF_ERR :: u32 where "TF_ERR \<equiv> 52"

definition killed :: "'a sysst_scheme \<Rightarrow> bool" where
  "killed s = (case cur s of None \<Rightarrow> False | Some c \<Rightarrow> p_killed (proc_at c s) \<noteq> 0)"

definition exit_if :: "bool \<Rightarrow> 'a sysst_scheme \<Rightarrow> ('a sysst_scheme, unit) res" where
  "exit_if b s = rwhen b exit s"

definition clock_tick :: "'a sysst_scheme \<Rightarrow> ('a sysst_scheme, unit) res" where
  "clock_tick s =
     (if cpu_id (k_cpu s) = 0 then
        rbind (acquire TicksLock s) (\<lambda>_ s.
        rbind (wakeup ChanTicks (s\<lparr>ticks := ticks s + 1\<rparr>)) (\<lambda>_ s. release TicksLock s))
      else Ok () s)"

definition tf_field :: "u32 \<Rightarrow> u32 \<Rightarrow> 'a sysst_scheme \<Rightarrow> u32" where
  "tf_field tf off s = load32 (mem s) (tf + off)"

definition tf_cs :: "u32 \<Rightarrow> 'a sysst_scheme \<Rightarrow> u32" where
  "tf_cs tf s = tf_field tf TF_CS s AND 0xFFFF"

definition trap_fault :: "u32 \<Rightarrow> u32 \<Rightarrow> 'a sysst_scheme \<Rightarrow> ('a sysst_scheme, unit) res" where
  "trap_fault tf cr2 s =
     (let cpu = of_nat (cpu_id (k_cpu s)); no = tf_field tf TF_TRAPNO s; eip = tf_field tf TF_EIP s in
      case cur s of
        None \<Rightarrow> rbind (cprintf (Some (bytes ''unexpected trap %d from cpu %d eip %x (cr2=0x%x)\<newline>'')) [Num no, Num cpu, Num eip, Num cr2] s)
                  (\<lambda>_ s. Panic ''trap'')
      | Some c \<Rightarrow>
          if tf_cs tf s AND 3 = 0 then
            rbind (cprintf (Some (bytes ''unexpected trap %d from cpu %d eip %x (cr2=0x%x)\<newline>'')) [Num no, Num cpu, Num eip, Num cr2] s)
              (\<lambda>_ s. Panic ''trap'')
          else
            rbind (cprintf (Some (bytes ''pid %d %s: trap %d err %d on cpu %d eip 0x%x addr 0x%x--kill proc\<newline>''))
              [Num (p_pid (proc_at c s)), Str (Some (cstr (p_name (proc_at c s)))), Num no, Num (tf_field tf TF_ERR s), Num cpu,
               Num eip, Num cr2] s) (\<lambda>_ s.
            Ok () (upd_proc c (\<lambda>p. p\<lparr>p_killed := 1\<rparr>) s)))"

definition trap_end :: "u32 \<Rightarrow> 'a sysst_scheme \<Rightarrow> ('a sysst_scheme, unit) res" where
  "trap_end tf s =
     rbind (exit_if (killed s \<and> tf_cs tf s AND 3 = 3) s) (\<lambda>_ s.
     rbind (case cur s of
              None \<Rightarrow> Ok () s
            | Some c \<Rightarrow>
                rwhen (p_state (proc_at c s) = RUNNING \<and> tf_field tf TF_TRAPNO s = T_IRQ0) yield s) (\<lambda>_ s.
     exit_if (killed s \<and> tf_cs tf s AND 3 = 3) s))"

definition trap :: "u32 \<Rightarrow> i32 list \<Rightarrow> u32 \<Rightarrow> 'a sysst_scheme \<Rightarrow> ('a sysst_scheme, unit) res" where
  "trap tf input cr2 s =
     (let no = tf_field tf TF_TRAPNO s in
      if no = T_SYSCALL then
        with_cur (\<lambda>c s.
        rbind (exit_if (p_killed (proc_at c s) \<noteq> 0) s) (\<lambda>_ s.
        rbind (syscall (upd_proc c (\<lambda>p. p\<lparr>p_tf := tf\<rparr>) s)) (\<lambda>_ s.
        exit_if (p_killed (proc_at c s) \<noteq> 0) s))) s
      else
        rbind (if no = T_IRQ0 then clock_tick s
               else if no = T_IRQ0 + 14 \<or> no = T_IRQ0 + 15 then Ok () s
               else if no = T_IRQ0 + 1 \<or> no = T_IRQ0 + 4 then consoleintr input s
               else if no = T_IRQ0 + 7 \<or> no = T_IRQ0 + 31 then
                 cprintf (Some (bytes ''cpu%d: spurious interrupt at %x:%x\<newline>''))
                   [Num (of_nat (cpu_id (k_cpu s))), Num (tf_cs tf s), Num (tf_field tf TF_EIP s)] s
               else trap_fault tf cr2 s) (\<lambda>_ s. trap_end tf s))"

end
