(* ===== verification/Grep.thy ===== *)
theory Grep
  imports Cstring
begin

text \<open>
  The pattern matcher and the line loop of \<^verbatim>\<open>grep.c\<close>.  A C string is the list of its characters without the
  terminating zero, so an empty list is a pointer to the terminator.  The system call \<^verbatim>\<open>read\<close> is the parameter \<open>rd\<close>: given
  the room in the buffer and the state of the system it delivers bytes, none when it returns 0 or less.  The lines passed to \<^verbatim>\<open>write\<close> are collected in
  a list.
\<close>

abbreviation (input) caret :: u8 where "caret \<equiv> 0x5E"
abbreviation (input) dollar :: u8 where "dollar \<equiv> 0x24"
abbreviation (input) dot :: u8 where "dot \<equiv> 0x2E"
abbreviation (input) star :: u8 where "star \<equiv> 0x2A"
abbreviation (input) newline :: u8 where "newline \<equiv> 0x0A"

section \<open>The matcher\<close>

function matchhere :: "u8 list \<Rightarrow> u8 list \<Rightarrow> bool" and matchstar :: "u8 \<Rightarrow> u8 list \<Rightarrow> u8 list \<Rightarrow> bool" where
  "matchhere re str =
     (if re = [] then True
      else if tl re \<noteq> [] \<and> hd (tl re) = star then matchstar (hd re) (tl (tl re)) str
      else if hd re = dollar \<and> tl re = [] then str = []
      else if str \<noteq> [] \<and> (hd re = dot \<or> hd re = hd str) then matchhere (tl re) (tl str)
      else False)"
| "matchstar c re str =
     (if matchhere re str then True
      else if str \<noteq> [] \<and> (hd str = c \<or> c = dot) then matchstar c re (tl str)
      else False)"
  by pat_completeness auto
termination
  by (relation "measures [\<lambda>x. case x of Inl (re, t) \<Rightarrow> 2 * length re | Inr (c, re, t) \<Rightarrow> 2 * length re + 1,
      \<lambda>x. case x of Inl (re, t) \<Rightarrow> length t | Inr (c, re, t) \<Rightarrow> length t]") (auto simp: neq_Nil_conv)

declare matchhere.simps [simp del] matchstar.simps [simp del]

fun match_from :: "u8 list \<Rightarrow> u8 list \<Rightarrow> bool" where
  "match_from re str = (if matchhere re str then True else case str of [] \<Rightarrow> False | c # str \<Rightarrow> match_from re str)"

declare match_from.simps [simp del]

definition match :: "u8 list \<Rightarrow> u8 list \<Rightarrow> bool" where
  "match re str = (if re \<noteq> [] \<and> hd re = caret then matchhere (tl re) str else match_from re str)"

section \<open>The line loop\<close>

abbreviation (input) GBUF :: nat where "GBUF \<equiv> 1024"

lemma strchr_bound: "strchr (p @ [0]) c = Some (Some q) \<Longrightarrow> q < length p"
  by (induction p arbitrary: q) (auto split: if_splits)

text \<open>
  The inner loop on the bytes of the buffer from \<open>p\<close> on: the lines it writes, and the bytes it leaves at \<open>p\<close>.
\<close>

function grep_lines :: "u8 list \<Rightarrow> u8 list \<Rightarrow> u8 list list \<times> u8 list" where
  "grep_lines pat p =
     (case strchr (p @ [0]) newline of
        Some (Some q) \<Rightarrow>
          (let (out, r) = grep_lines pat (drop (q + 1) p)
           in (if match pat (take q p) then (take q p @ [newline]) # out else out, r))
      | _ \<Rightarrow> ([], p))"
  by pat_completeness auto
termination by (relation "measure (\<lambda>(pat, p). length p)") (auto dest: strchr_bound)

declare grep_lines.simps [simp del]

text \<open>
  The outer loop, \<open>k\<close> rounds at most; \<open>b\<close> is the first \<open>m\<close> bytes of the buffer.
\<close>

fun grep_loop :: "nat \<Rightarrow> u8 list \<Rightarrow> (nat \<Rightarrow> 's \<Rightarrow> u8 list \<times> 's) \<Rightarrow> u8 list \<Rightarrow> 's \<Rightarrow> (u8 list list \<times> 's) option" where
  "grep_loop 0 pat rd b s = None"
| "grep_loop (Suc k) pat rd b s =
     (let (bs, s) = rd (GBUF - length b - 1) s in
      if bs = [] then Some ([], s)
      else let b = b @ bs;
               (out, r) = grep_lines pat b;
               b = (if length r = length b then [] else r)
           in map_option (\<lambda>(out', s). (out @ out', s)) (grep_loop k pat rd b s))"

definition grep :: "nat \<Rightarrow> u8 list \<Rightarrow> (nat \<Rightarrow> 's \<Rightarrow> u8 list \<times> 's) \<Rightarrow> 's \<Rightarrow> (u8 list list \<times> 's) option" where
  "grep k pat rd s = grep_loop k pat rd [] s"

section \<open>What a pattern means\<close>

text \<open>
  A pattern is a sequence of single characters and repeated characters, tied to the start of the line by a leading \<^verbatim>\<open>^\<close> and to
  its end by a final \<^verbatim>\<open>$\<close>; a dot stands for any character.
\<close>

datatype item = One u8 | Star u8

definition char_ok :: "u8 \<Rightarrow> u8 \<Rightarrow> bool" where
  "char_ok c a \<longleftrightarrow> c = dot \<or> c = a"

fun items :: "u8 list \<Rightarrow> item list" where
  "items (c # d # re) = (if d = star then Star c # items re else One c # items (d # re))"
| "items [c] = (if c = dollar then [] else [One c])"
| "items [] = []"

fun at_end :: "u8 list \<Rightarrow> bool" where
  "at_end (c # d # re) = (if d = star then at_end re else at_end (d # re))"
| "at_end [c] = (c = dollar)"
| "at_end [] = False"

fun lang :: "item list \<Rightarrow> u8 list set" where
  "lang [] = {[]}"
| "lang (One c # is) = {a # w | a w. char_ok c a \<and> w \<in> lang is}"
| "lang (Star c # is) = {u @ w | u w. (\<forall>a \<in> set u. char_ok c a) \<and> w \<in> lang is}"

definition here :: "u8 list \<Rightarrow> u8 list \<Rightarrow> bool" where
  "here re str \<longleftrightarrow> (\<exists>u v. str = u @ v \<and> u \<in> lang (items re) \<and> (at_end re \<longrightarrow> v = []))"

definition found :: "u8 list \<Rightarrow> u8 list \<Rightarrow> bool" where
  "found re str \<longleftrightarrow>
     (if re \<noteq> [] \<and> hd re = caret then here (tl re) str else \<exists>pre rest. str = pre @ rest \<and> here re rest)"

section \<open>The matcher decides it\<close>

lemma hereI: "u \<in> lang (items re) \<Longrightarrow> (at_end re \<longrightarrow> v = []) \<Longrightarrow> here re (u @ v)"
  by (auto simp: here_def)

lemma hereE: assumes "here re str" obtains u v where "str = u @ v" "u \<in> lang (items re)" "at_end re \<longrightarrow> v = []"
  using assms by (auto simp: here_def)

lemma lang_OneI: "char_ok c a \<Longrightarrow> w \<in> lang is \<Longrightarrow> a # w \<in> lang (One c # is)"
  by simp

lemma lang_StarI: "(\<And>a. a \<in> set u \<Longrightarrow> char_ok c a) \<Longrightarrow> w \<in> lang is \<Longrightarrow> u @ w \<in> lang (Star c # is)"
  by auto

lemma here_Nil [simp]: "here [] str"
  by (auto simp: here_def)

lemma here_dollar: "here [dollar] str \<longleftrightarrow> str = []"
  by (auto simp: here_def)

lemma here_One:
  assumes "\<not> (re \<noteq> [] \<and> hd re = star)" "\<not> (c = dollar \<and> re = [])"
  shows "here (c # re) str \<longleftrightarrow> (\<exists>a rest. str = a # rest \<and> char_ok c a \<and> here re rest)"
proof -
  have e: "items (c # re) = One c # items re" "at_end (c # re) = at_end re" using assms by (cases re; auto)+
  show ?thesis
  proof
    assume "here (c # re) str"
    then obtain u v where t: "str = u @ v" "u \<in> lang (One c # items re)" "at_end re \<longrightarrow> v = []"
      by (rule hereE) (use e in auto)
    then obtain a w where "u = a # w" "char_ok c a" "w \<in> lang (items re)" by auto
    with t hereI [of w re v] show "\<exists>a rest. str = a # rest \<and> char_ok c a \<and> here re rest" by auto
  next
    assume "\<exists>a rest. str = a # rest \<and> char_ok c a \<and> here re rest"
    then obtain a rest where t: "str = a # rest" "char_ok c a" "here re rest" by blast
    from t(3) obtain u v where "rest = u @ v" "u \<in> lang (items re)" "at_end re \<longrightarrow> v = []" by (rule hereE)
    then show "here (c # re) str" using hereI [of "a # u" "c # re" v] lang_OneI [OF t(2)] e t(1) by simp
  qed
qed

lemma here_Star:
  "here (c # star # re) str \<longleftrightarrow> here re str \<or> (\<exists>a rest. str = a # rest \<and> char_ok c a \<and> here (c # star # re) rest)"
    (is "?l \<longleftrightarrow> ?r")
proof
  assume ?l
  then obtain x v where x: "str = x @ v" "x \<in> lang (Star c # items re)" "at_end re \<longrightarrow> v = []" by (rule hereE) auto
  then obtain u w where u: "x = u @ w" "\<forall>a \<in> set u. char_ok c a" "w \<in> lang (items re)" by auto
  show ?r
  proof (cases u)
    case Nil
    with x u show ?thesis by (auto intro: hereI)
  next
    case (Cons a u')
    with u have "u' @ w \<in> lang (Star c # items re)" by (intro lang_StarI) auto
    then have "here (c # star # re) ((u' @ w) @ v)" using x(3) by (intro hereI) auto
    with x u Cons show ?thesis by auto
  qed
next
  assume ?r
  then show ?l
  proof
    assume "here re str"
    then obtain u v where t: "str = u @ v" "u \<in> lang (items re)" "at_end re \<longrightarrow> v = []" by (rule hereE)
    have "u \<in> lang (Star c # items re)" using lang_StarI [of "[]", OF _ t(2)] by simp
    with t hereI [of u "c # star # re" v] show ?l by simp
  next
    assume "\<exists>a rest. str = a # rest \<and> char_ok c a \<and> here (c # star # re) rest"
    then obtain a rest where t: "str = a # rest" "char_ok c a" "here (c # star # re) rest" by blast
    from t(3) obtain x v where x: "rest = x @ v" "x \<in> lang (Star c # items re)" "at_end re \<longrightarrow> v = []" by (rule hereE) auto
    then obtain u w where u: "x = u @ w" "\<forall>a \<in> set u. char_ok c a" "w \<in> lang (items re)" by auto
    with t(2) have "(a # u) @ w \<in> lang (Star c # items re)" by (intro lang_StarI) auto
    with x t(1) u(1) hereI [of "(a # u) @ w" "c # star # re" v] show ?l by simp
  qed
qed

lemma matchhere_cases:
  "matchhere [] str" "matchhere (c # star # re) str = matchstar c re str" "matchhere [dollar] str = (str = [])"
  by (subst matchhere.simps, simp)+

lemma matchhere_here: "matchhere re str \<longleftrightarrow> here re str"
  and matchstar_here: "matchstar c re str \<longleftrightarrow> here (c # star # re) str"
proof (induction re str and c re str rule: matchhere_matchstar.induct)
  case (1 re str)
  consider "re = []" | c re' where "re = c # star # re'" | "re = [dollar]"
    | c re' where "re = c # re'" "\<not> (re' \<noteq> [] \<and> hd re' = star)" "\<not> (c = dollar \<and> re' = [])"
    by (metis list.exhaust_sel)
  then show ?case
  proof cases
    case (4 c re')
    then have "matchhere re str \<longleftrightarrow> (str \<noteq> [] \<and> (c = dot \<or> c = hd str)) \<and> matchhere re' (tl str)"
      by (subst matchhere.simps) auto
    also have "\<dots> \<longleftrightarrow> here re str"
      using 1(2) 4 unfolding 4(1) here_One [OF 4(2,3)] by (cases str) (auto simp: char_ok_def)
    finally show ?thesis .
  qed (use 1(1) in \<open>auto simp: here_dollar matchhere_cases\<close>)
next
  case (2 c re str)
  then show ?case
    by (subst matchstar.simps, subst here_Star, cases str) (auto simp: char_ok_def)
qed

lemma match_from_here: "match_from re str \<longleftrightarrow> (\<exists>pre rest. str = pre @ rest \<and> here re rest)"
proof (induction str)
  case Nil
  then show ?case by (subst match_from.simps) (simp add: matchhere_here)
next
  case (Cons a str)
  have "(\<exists>pre rest. a # str = pre @ rest \<and> here re rest) \<longleftrightarrow> here re (a # str) \<or> (\<exists>pre rest. str = pre @ rest \<and> here re rest)"
    by (auto simp: Cons_eq_append_conv)
  with Cons show ?case by (subst match_from.simps) (simp add: matchhere_here)
qed

lemma match_found: "match re str \<longleftrightarrow> found re str"
  by (simp add: match_def found_def matchhere_here match_from_here)

section \<open>The line loop prints the matching lines\<close>

definition line_of :: "u8 list \<Rightarrow> u8 list" where
  "line_of l = l @ [newline]"

text \<open>
  What \<^verbatim>\<open>read\<close> may do: \<open>delivers rd s f\<close> when from the state \<open>s\<close> on the reads return the bytes of \<open>f\<close> one after the other, in pieces of
  at most the size asked for, and then nothing.  A piece that is shorter than that has the end of a line in it, or no line ends behind it.
\<close>

inductive delivers :: "(nat \<Rightarrow> 's \<Rightarrow> u8 list \<times> 's) \<Rightarrow> 's \<Rightarrow> u8 list \<Rightarrow> bool" for rd where
  ended: "\<forall>n > 0. fst (rd n s) = [] \<Longrightarrow> delivers rd s []"
| piece: "\<forall>n > 0. \<exists>bs s' f'. rd n s = (bs, s') \<and> f = bs @ f' \<and> bs \<noteq> [] \<and> length bs \<le> n \<and>
     (newline \<in> set bs \<or> length bs = n \<or> newline \<notin> set f') \<and> delivers rd s' f' \<Longrightarrow> delivers rd s f"

text \<open>A file, from which \<^verbatim>\<open>read\<close> returns as much as asked for and there, and a terminal, from which it returns a line at most.\<close>

definition file_rd :: "nat \<Rightarrow> u8 list \<Rightarrow> u8 list \<times> u8 list" where
  "file_rd n s = (take n s, drop n s)"

definition line_rd :: "nat \<Rightarrow> u8 list \<Rightarrow> u8 list \<times> u8 list" where
  "line_rd n s = (let k = min n (length (takeWhile (\<lambda>c. c \<noteq> newline) s) + 1) in (take k s, drop k s))"

lemma delivers_prefix:
  assumes "\<forall>n s. rd n s = (take (k n s) s, drop (k n s) s)" "\<forall>n > 0. \<forall>s. 0 < k n s \<and> k n s \<le> n"
    "\<forall>n s. newline \<in> set (take (k n s) s) \<or> length (take (k n s) s) = n \<or> newline \<notin> set (drop (k n s) s)"
  shows "delivers rd f f"
proof (induction "length f" arbitrary: f rule: less_induct)
  case less
  show ?case
  proof (cases "f = []")
    case True
    then show ?thesis using assms(1) by (auto intro: delivers.ended)
  next
    case False
    have "rd n f = (take (k n f) f, drop (k n f) f) \<and> f = take (k n f) f @ drop (k n f) f \<and> take (k n f) f \<noteq> [] \<and> length (take (k n f) f) \<le> n \<and>
      (newline \<in> set (take (k n f) f) \<or> length (take (k n f) f) = n \<or> newline \<notin> set (drop (k n f) f)) \<and> delivers rd (drop (k n f) f) (drop (k n f) f)"
      if n: "0 < n" for n
    proof -
      have k: "0 < k n f" "k n f \<le> n" using assms(2) n by auto
      have "delivers rd (drop (k n f) f) (drop (k n f) f)" by (rule less) (use k False in simp)
      then show ?thesis using assms(1,3) k False by auto
    qed
    then show ?thesis by (intro delivers.piece) blast
  qed
qed

lemma file_delivers: "delivers file_rd f f"
  by (rule delivers_prefix [of _ "\<lambda>n s. n"]) (auto simp: file_rd_def)

lemma line_delivers: "delivers line_rd f f"
proof (rule delivers_prefix [of _ "\<lambda>n s. min n (length (takeWhile (\<lambda>c. c \<noteq> newline) s) + 1)"])
  show "\<forall>n s. newline \<in> set (take (min n (length (takeWhile (\<lambda>c. c \<noteq> newline) s) + 1)) s) \<or>
    length (take (min n (length (takeWhile (\<lambda>c. c \<noteq> newline) s) + 1)) s) = n \<or>
    newline \<notin> set (drop (min n (length (takeWhile (\<lambda>c. c \<noteq> newline) s) + 1)) s)"
  proof (intro allI)
    fix n and s :: "u8 list"
    let ?l = "takeWhile (\<lambda>c. c \<noteq> newline) s"
    show "newline \<in> set (take (min n (length ?l + 1)) s) \<or> length (take (min n (length ?l + 1)) s) = n \<or> newline \<notin> set (drop (min n (length ?l + 1)) s)"
    proof (cases "newline \<in> set s")
      case True
      then obtain xs ys where s: "s = xs @ newline # ys" "newline \<notin> set xs" using split_list_first by metis
      have l: "?l = xs" unfolding s(1) using s(2) by (subst takeWhile_append2) auto
      show ?thesis unfolding l unfolding s(1) by (cases "n \<le> length xs") (auto simp: min_def)
    qed (auto dest: in_set_dropD)
  qed
qed (simp_all add: line_rd_def Let_def)

lemma strchr_line: "newline \<notin> set l \<Longrightarrow> 0 \<notin> set l \<Longrightarrow> strchr (l @ newline # r) newline = Some (Some (length l))"
  by (induction l) auto

lemma strchr_none: "newline \<notin> set r \<Longrightarrow> strchr (r @ [0]) newline = Some None"
  by (induction r) auto

lemma grep_lines_eq:
  "\<forall>l \<in> set ls. newline \<notin> set l \<and> 0 \<notin> set l \<Longrightarrow> newline \<notin> set r \<Longrightarrow>
   grep_lines pat (concat (map line_of ls) @ r) = (map line_of (filter (match pat) ls), r)"
proof (induction ls)
  case Nil
  then show ?case by (subst grep_lines.simps) (simp add: strchr_none)
next
  case (Cons l ls)
  have "strchr ((concat (map line_of (l # ls)) @ r) @ [0]) newline = Some (Some (length l))"
    using Cons.prems strchr_line [of l "concat (map line_of ls) @ r @ [0]"] by (simp add: line_of_def)
  moreover have "drop (length l + 1) (concat (map line_of (l # ls)) @ r) = concat (map line_of ls) @ r"
    "take (length l) (concat (map line_of (l # ls)) @ r) = l" by (simp_all add: line_of_def)
  moreover have "grep_lines pat (concat (map line_of ls) @ r) = (map line_of (filter (match pat) ls), r)" using Cons by simp
  ultimately show ?case by (subst grep_lines.simps) (simp add: line_of_def [of l])
qed

lemma split_lines:
  "b @ s = concat (map line_of ls) @ rest \<Longrightarrow> newline \<notin> set rest \<Longrightarrow> \<forall>l \<in> set ls. newline \<notin> set l \<Longrightarrow>
   \<exists>ls1 ls2 r. ls = ls1 @ ls2 \<and> b = concat (map line_of ls1) @ r \<and> newline \<notin> set r \<and> r @ s = concat (map line_of ls2) @ rest"
proof (induction ls arbitrary: b)
  case Nil
  then have "newline \<notin> set (b @ s)" by simp
  with Nil show ?case by (intro exI [of _ "[]"] exI [of _ b]) auto
next
  case (Cons l ls)
  show ?case
  proof (cases "length b \<le> length l")
    case True
    then have "b = take (length b) l" using Cons.prems(1) by (auto simp: append_eq_append_conv_if line_of_def)
    then have "newline \<notin> set b" using Cons.prems(3) in_set_takeD [of newline "length b" l] by auto
    with Cons.prems(1) show ?thesis by (intro exI [of _ "[]"] exI [of _ "l # ls"] exI [of _ b]) simp
  next
    case False
    then obtain b' where b: "b = line_of l @ b'"
      using Cons.prems(1) by (auto simp: append_eq_append_conv2 append_eq_Cons_conv line_of_def)
    with Cons.prems Cons.IH [of b'] obtain ls1 ls2 r where "ls = ls1 @ ls2" "b' = concat (map line_of ls1) @ r" "newline \<notin> set r"
      "r @ s = concat (map line_of ls2) @ rest" by auto
    with b show ?thesis by (intro exI [of _ "l # ls1"] exI [of _ ls2] exI [of _ r]) simp
  qed
qed

text \<open>The bytes kept in the buffer are the start of a line, or of what follows the last line.\<close>

lemma grep_round:
  assumes e: "b @ bs @ f = concat (map line_of ls) @ rest" and n: "newline \<notin> set rest" "newline \<notin> set b" "length b < 1023"
    and l: "\<forall>l \<in> set ls. newline \<notin> set l \<and> 0 \<notin> set l \<and> length l < 1023"
    and bs: "length bs \<le> 1023 - length b" "newline \<in> set bs \<or> length bs = 1023 - length b \<or> newline \<notin> set f"
  obtains ls1 ls2 r rest' where "ls = ls1 @ ls2" "grep_lines pat (b @ bs) = (map line_of (filter (match pat) ls1), r)"
    "(if length r = length (b @ bs) then [] else r) @ f = concat (map line_of ls2) @ rest'"
    "newline \<notin> set rest'" "newline \<notin> set r" "length r < 1023 \<or> length r = length (b @ bs)"
proof -
  have "(b @ bs) @ f = concat (map line_of ls) @ rest" using e by simp
  with n(1) l obtain ls1 ls2 r where sp: "ls = ls1 @ ls2" "b @ bs = concat (map line_of ls1) @ r" "newline \<notin> set r"
    "r @ f = concat (map line_of ls2) @ rest" using split_lines [of "b @ bs" f ls rest] by blast
  have len: "length (b @ bs) \<le> 1023" using n(3) bs(1) by auto
  have g: "grep_lines pat (b @ bs) = (map line_of (filter (match pat) ls1), r)"
    unfolding sp(2) using l sp by (intro grep_lines_eq) auto
  show thesis
  proof (cases "ls1 = []")
    case False
    then have "length r < length (b @ bs)" by (cases ls1) (simp_all add: sp(2) line_of_def)
    then have "length r < 1023" "(if length r = length (b @ bs) then [] else r) = r" using len by auto
    then show thesis by (intro that [OF sp(1) g, of rest]) (use sp n(1) in simp_all)
  next
    case True
    then have rb: "r = b @ bs" using sp(2) by simp
    have "ls2 = []"
    proof (rule ccontr)
      assume "ls2 \<noteq> []"
      then obtain x xs where x: "ls2 = x # xs" by (cases ls2) auto
      then have "length x < 1023" using l sp(1) by auto
      moreover have "length r \<le> length x"
        using sp(3,4) x by (auto simp: line_of_def append_eq_append_conv2 append_eq_Cons_conv)
      ultimately have "newline \<notin> set f" using rb bs sp(3) by auto
      moreover have "newline \<in> set (r @ f)" using sp(4) x by (simp add: line_of_def)
      ultimately show False using sp(3) by simp
    qed
    then have "newline \<notin> set f" using sp(4) n(1) by (metis Un_iff append_Nil concat.simps(1) list.simps(8) set_append)
    then show thesis using that [OF sp(1) g, of f] \<open>ls2 = []\<close> sp(3) rb by auto
  qed
qed

text \<open>From every state of the buffer the loop prints the lines that match.\<close>

definition prints_lines :: "u8 list \<Rightarrow> (nat \<Rightarrow> 's \<Rightarrow> u8 list \<times> 's) \<Rightarrow> 's \<Rightarrow> u8 list \<Rightarrow> bool" where
  "prints_lines pat rd s f \<longleftrightarrow> (\<forall>b ls rest. b @ f = concat (map line_of ls) @ rest \<and> newline \<notin> set rest \<and> newline \<notin> set b \<and> length b < 1023 \<and>
     (\<forall>l \<in> set ls. newline \<notin> set l \<and> 0 \<notin> set l \<and> length l < 1023) \<longrightarrow>
     (\<exists>k t. grep_loop k pat rd b s = Some (map line_of (filter (match pat) ls), t)))"

lemma grep_loop_piece:
  assumes r: "rd (1023 - length b) s = (bs, s')" "bs \<noteq> []" "length bs \<le> 1023 - length b" "newline \<in> set bs \<or> length bs = 1023 - length b \<or> newline \<notin> set f"
    and nxt: "prints_lines pat rd s' f"
    and e: "b @ bs @ f = concat (map line_of ls) @ rest" and n: "newline \<notin> set rest" "newline \<notin> set b" "length b < 1023"
    and l: "\<forall>l \<in> set ls. newline \<notin> set l \<and> 0 \<notin> set l \<and> length l < 1023"
  shows "\<exists>k t. grep_loop k pat rd b s = Some (map line_of (filter (match pat) ls), t)"
proof -
  obtain ls1 ls2 q rest' where q: "ls = ls1 @ ls2" "grep_lines pat (b @ bs) = (map line_of (filter (match pat) ls1), q)"
    "(if length q = length (b @ bs) then [] else q) @ f = concat (map line_of ls2) @ rest'"
    "newline \<notin> set rest'" "newline \<notin> set q" "length q < 1023 \<or> length q = length (b @ bs)"
    by (rule grep_round [OF e n l r(3,4), of pat])
  let ?q = "if length q = length (b @ bs) then [] else q"
  have "newline \<notin> set ?q" "length ?q < 1023" "\<forall>l \<in> set ls2. newline \<notin> set l \<and> 0 \<notin> set l \<and> length l < 1023" using q(1,5,6) l by auto
  then obtain k t where "grep_loop k pat rd ?q s' = Some (map line_of (filter (match pat) ls2), t)"
    using nxt q(3,4) unfolding prints_lines_def by blast
  moreover have "GBUF - length b - 1 = 1023 - length b" by simp
  ultimately have "grep_loop (Suc k) pat rd b s = Some (map line_of (filter (match pat) ls), t)"
    using q(1,2) r(1,2) by (simp del: length_append split del: if_split)
  then show ?thesis by blast
qed

lemma grep_loop_lines: "delivers rd s f \<Longrightarrow> prints_lines pat rd s f"
proof (induction rule: delivers.induct)
  case (ended s)
  show ?case unfolding prints_lines_def
  proof (intro allI impI, elim conjE)
    fix b ls rest
    assume a: "b @ [] = concat (map line_of ls) @ rest" "newline \<notin> set b" "length b < 1023"
    then have "ls = []" by (cases ls) (auto simp: line_of_def)
    moreover have "fst (rd (GBUF - length b - 1) s) = []" using ended a(3) by simp
    ultimately show "\<exists>k t. grep_loop k pat rd b s = Some (map line_of (filter (match pat) ls), t)" by (intro exI [of _ "Suc 0"]) (simp add: split_beta)
  qed
next
  case (piece s f)
  show ?case unfolding prints_lines_def
  proof (intro allI impI, elim conjE)
    fix b ls rest
    assume a: "b @ f = concat (map line_of ls) @ rest" "newline \<notin> set rest" "newline \<notin> set b" "length b < 1023"
      "\<forall>l \<in> set ls. newline \<notin> set l \<and> 0 \<notin> set l \<and> length l < 1023"
    then have "0 < 1023 - length b" by simp
    then obtain bs s' f' where r: "rd (1023 - length b) s = (bs, s')" "f = bs @ f'" "bs \<noteq> []" "length bs \<le> 1023 - length b"
      "newline \<in> set bs \<or> length bs = 1023 - length b \<or> newline \<notin> set f'" "prints_lines pat rd s' f'" using piece by blast
    show "\<exists>k t. grep_loop k pat rd b s = Some (map line_of (filter (match pat) ls), t)"
      by (rule grep_loop_piece [OF r(1,3-6) _ a(2-5)]) (use a(1) r(2) in simp)
  qed
qed

section \<open>Properties\<close>

text \<open>
  C27: \<open>match\<close> decides what a pattern means: the line has a part that the sequence of single and repeated characters describes, at
  its start when the pattern begins with a caret and up to its end when the pattern ends with a dollar sign.
\<close>

theorem match_decides_pattern: "match re str \<longleftrightarrow> found re str"
  by (rule match_found)

text \<open>
  C28: on input without zero bytes whose lines have fewer than 1023 characters, \<open>grep\<close> returns after having printed exactly the complete lines that match, in order,
  whatever the sizes of the pieces in which the reads deliver it, as long as a piece that does not fill the buffer has the end of a line in it.
  What follows the last newline is not looked at.
\<close>

theorem grep_prints_matching_lines:
  assumes "delivers rd s (concat (map line_of ls) @ rest)" "newline \<notin> set rest"
    and "\<forall>l \<in> set ls. newline \<notin> set l \<and> 0 \<notin> set l \<and> length l < 1023"
  shows "\<exists>k t. grep k pat rd s = Some (map line_of (filter (match pat) ls), t)"
proof -
  have "prints_lines pat rd s (concat (map line_of ls) @ rest)" by (rule grep_loop_lines [OF assms(1)])
  then have "\<exists>k t. grep_loop k pat rd [] s = Some (map line_of (filter (match pat) ls), t)"
    unfolding prints_lines_def using assms(2,3) by (elim allE [of _ "[]"] allE [of _ ls] allE [of _ rest]) simp
  then show ?thesis by (simp add: grep_def)
qed

theorem grep_prints_matching_lines_witness:
  "(\<exists>k t. grep k [0x61, star] file_rd (concat (map line_of [[0x61, 0x62], [0x63]]) @ [0x61]) =
     Some (map line_of (filter (match [0x61, star]) [[0x61, 0x62], [0x63]]), t)) \<and>
   (\<exists>k t. grep k [0x61, star] line_rd (concat (map line_of [[0x61, 0x62], [0x63]]) @ [0x61]) =
     Some (map line_of (filter (match [0x61, star]) [[0x61, 0x62], [0x63]]), t))"
  by (intro conjI; rule grep_prints_matching_lines [OF file_delivers] grep_prints_matching_lines [OF line_delivers]) auto

end
