(* ===== verification/Sh.thy ===== *)
theory Sh
  imports Cstring "HOL-Library.Sublist"
begin

text \<open>
  The parser of the shell, \<^verbatim>\<open>sh.c\<close>.  The command line is the list of its characters without the terminating zero; the parameter \<^verbatim>\<open>*ps\<close> is
  the list of the characters from there to \<^verbatim>\<open>es\<close>.  The pointers into the line that a command keeps are distances from \<^verbatim>\<open>es\<close>.  \<open>panic\<close> ends the
  process, with its message.  Memory for a command is taken to be there.
\<close>

section \<open>Commands\<close>

datatype cmd =
    ExecCmd "(nat \<times> nat) list"
  | RedirCmd cmd nat nat i32 i32
  | PipeCmd cmd cmd
  | ListCmd cmd cmd
  | BackCmd cmd

datatype 'a pres = Parsed 'a | Exits string | NoFuel

fun pbind :: "'a pres \<Rightarrow> ('a \<Rightarrow> 'b pres) \<Rightarrow> 'b pres" where
  "pbind (Parsed x) f = f x"
| "pbind (Exits m) f = Exits m"
| "pbind NoFuel f = NoFuel"

lemma pbind_cong [fundef_cong]: "m = m' \<Longrightarrow> (\<And>x. m' = Parsed x \<Longrightarrow> f x = g x) \<Longrightarrow> pbind m f = pbind m' g"
  by (cases m') auto

lemma pbind_Parsed [simp]: "pbind m f = Parsed y \<longleftrightarrow> (\<exists>x. m = Parsed x \<and> f x = Parsed y)"
  by (cases m) auto

lemma pbind_NoFuel: "pbind m f = NoFuel \<longleftrightarrow> m = NoFuel \<or> (\<exists>x. m = Parsed x \<and> f x = NoFuel)"
  by (cases m) auto

abbreviation (input) MAXARGS :: nat where "MAXARGS \<equiv> 10"
abbreviation (input) O_RDONLY :: i32 where "O_RDONLY \<equiv> 0"
abbreviation (input) O_WRONLY_CREATE :: i32 where "O_WRONLY_CREATE \<equiv> 0x201"

section \<open>Tokens\<close>

definition whitespace :: "u8 list" where "whitespace = [0x20, 0x09, 0x0D, 0x0A, 0x0B]"
definition symbols :: "u8 list" where "symbols = map of_char ''<|>&;()''"

definition wordc :: "u8 \<Rightarrow> bool" where
  "wordc c \<longleftrightarrow> c \<notin> set whitespace \<and> c \<notin> set symbols"

definition skip_ws :: "u8 list \<Rightarrow> u8 list" where
  "skip_ws s = dropWhile (\<lambda>c. c \<in> set whitespace) s"

abbreviation (input) tokA :: u8 where "tokA \<equiv> 0x61"
abbreviation (input) tokPlus :: u8 where "tokPlus \<equiv> 0x2B"

text \<open>The \<^verbatim>\<open>switch\<close> of \<open>gettoken\<close>: the token at \<open>q\<close> and the pointer behind it.\<close>

definition token :: "u8 list \<Rightarrow> u8 \<times> u8 list" where
  "token q =
     (case q of
        [] \<Rightarrow> (0, [])
      | c # r \<Rightarrow>
          if c \<in> set (map of_char ''|();&<'') then (c, r)
          else if c = of_char CHR ''>'' then
            (if r \<noteq> [] \<and> hd r = of_char CHR ''>'' then (tokPlus, tl r) else (c, r))
          else (tokA, dropWhile wordc q))"

definition gettoken :: "u8 list \<Rightarrow> u8 \<times> u8 list \<times> u8 list \<times> u8 list" where
  "gettoken s = (let q = skip_ws s; (ret, eq) = token q in (ret, q, eq, skip_ws eq))"

definition peek :: "u8 list \<Rightarrow> string \<Rightarrow> bool \<times> u8 list" where
  "peek s toks = (let s = skip_ws s in (s \<noteq> [] \<and> hd s \<in> set (map of_char toks), s))"

lemma skip_ws_le: "length (skip_ws s) \<le> length s"
  by (simp add: skip_ws_def length_dropWhile_le)

lemma skip_ws_Nil [simp]: "skip_ws [] = []" "token [] = (0, [])"
  by (simp_all add: skip_ws_def token_def)

lemma skip_ws_hd: "skip_ws s = c # r \<Longrightarrow> c \<notin> set whitespace"
  using hd_dropWhile [of "\<lambda>c. c \<in> set whitespace" s] by (auto simp: skip_ws_def)

lemma token_less: "token (c # x) = (t, eq) \<Longrightarrow> c \<notin> set whitespace \<Longrightarrow> length eq < length (c # x)"
  using length_dropWhile_le [of wordc x]
  by (cases "wordc c") (auto simp: token_def wordc_def symbols_def split: if_splits)

lemma gettoken_less:
  assumes "(t, q, eq, r) = gettoken s" shows "length r \<le> length s \<and> (skip_ws s \<noteq> [] \<longrightarrow> length r < length s)"
proof -
  have g: "token (skip_ws s) = (t, eq)" "r = skip_ws eq" using assms by (auto simp: gettoken_def Let_def split: prod.splits)
  show ?thesis
  proof (cases "skip_ws s")
    case Nil
    then show ?thesis using g by simp
  next
    case (Cons c x)
    then have "length eq < length (skip_ws s)" using g(1) token_less [of c x t eq] skip_ws_hd [of s c x] by simp
    then show ?thesis using g(2) skip_ws_le [of eq] skip_ws_le [of s] by simp
  qed
qed

lemma gettoken_0: "(t, q, eq, r) = gettoken s \<Longrightarrow> t \<noteq> 0 \<Longrightarrow> skip_ws s \<noteq> []"
  by (auto simp: gettoken_def token_def)

lemma peek_eq: "(b, r) = peek s toks \<Longrightarrow> r = skip_ws s \<and> (b \<longrightarrow> skip_ws s \<noteq> [])"
  by (auto simp: peek_def Let_def)

lemma skip_skip [simp]: "skip_ws (skip_ws s) = skip_ws s"
  by (simp add: skip_ws_def)

lemma peek_token_less: "(True, r) = peek s toks \<Longrightarrow> (t, q, eq, u) = gettoken r \<Longrightarrow> length u < length s"
  using peek_eq [of True r s toks] gettoken_less [of t q eq u r] skip_ws_le [of s] by auto

lemma word_less: "(tokA, q, eq, r) = gettoken s \<Longrightarrow> length r < length s"
  using gettoken_less [of tokA q eq r s] gettoken_0 [of tokA q eq r s] by auto

section \<open>The grammar\<close>

function parseredirs :: "cmd \<Rightarrow> u8 list \<Rightarrow> (cmd \<times> u8 list) pres" where
  "parseredirs cmd s =
     (let (b, s) = peek s ''<>'' in
      if \<not> b then Parsed (cmd, s)
      else let (tok, _, _, s) = gettoken s; (t, q, eq, s) = gettoken s in
        if t \<noteq> tokA then Exits ''missing file for redirection''
        else parseredirs (if tok = of_char CHR ''<'' then RedirCmd cmd (length q) (length eq) O_RDONLY 0
                          else RedirCmd cmd (length q) (length eq) O_WRONLY_CREATE 1) s)"
  by pat_completeness auto
termination
  by (relation "measure (\<lambda>(c, s). length s)") (auto dest!: sym [of _ "peek _ _"] sym [of _ "gettoken _"] dest: peek_token_less [OF sym sym] word_less [OF sym] less_trans)

declare parseredirs.simps [simp del]

lemma parseredirs_le: "parseredirs c s = Parsed (d, r) \<Longrightarrow> length r \<le> length s"
proof (induction c s rule: parseredirs.induct)
  case (1 c s)
  obtain b s1 where p: "peek s ''<>'' = (b, s1)" by (cases "peek s ''<>''")
  obtain t1 q1 e1 s2 where g1: "gettoken s1 = (t1, q1, e1, s2)" by (cases "gettoken s1")
  obtain t2 q2 e2 s3 where g2: "gettoken s2 = (t2, q2, e2, s3)" by (cases "gettoken s2")
  show ?case
  proof (cases b)
    case False
    then show ?thesis using 1(2) p peek_eq [OF p [symmetric]] skip_ws_le [of s] by (simp add: parseredirs.simps [of c s])
  next
    case True
    then have "length s3 \<le> length s"
      using peek_token_less [of s1 s "''<>''" t1 q1 e1 s2] gettoken_less [OF g2 [symmetric]] p g1 by simp
    then show ?thesis using 1(1) [OF p [symmetric] refl] 1(2) p g1 g2 True
      by (fastforce simp: parseredirs.simps [of c s] split: if_splits)
  qed
qed

text \<open>\<open>cmd->argv[argc] = q\<close> and \<open>cmd->eargv[argc] = eq\<close>: \<open>ret\<close> is the command that \<open>cmd\<close> points to, inside its redirections.\<close>

fun push_arg :: "nat \<Rightarrow> nat \<Rightarrow> cmd \<Rightarrow> cmd" where
  "push_arg q eq (ExecCmd as) = ExecCmd (as @ [(q, eq)])"
| "push_arg q eq (RedirCmd c f ef m fd) = RedirCmd (push_arg q eq c) f ef m fd"
| "push_arg q eq c = c"

function parseexec_args :: "nat \<Rightarrow> cmd \<Rightarrow> u8 list \<Rightarrow> (cmd \<times> u8 list) pres" where
  "parseexec_args argc ret s =
     (let (b, s) = peek s ''|)&;'' in
      if b then Parsed (ret, s)
      else let (tok, q, eq, s) = gettoken s in
        if tok = 0 then Parsed (ret, s)
        else if tok \<noteq> tokA then Exits ''syntax''
        else let ret = push_arg (length q) (length eq) ret; argc = argc + 1 in
          if argc \<ge> MAXARGS then Exits ''too many args''
          else pbind (parseredirs ret s) (\<lambda>(ret, s). parseexec_args argc ret s))"
  by pat_completeness auto
termination
  by (relation "measure (\<lambda>(n, c, s). length s)") (auto dest!: parseredirs_le word_less peek_eq intro: le_less_trans less_le_trans [OF _ skip_ws_le])

declare parseexec_args.simps [simp del]

function parse_backs :: "cmd \<Rightarrow> u8 list \<Rightarrow> cmd \<times> u8 list" where
  "parse_backs cmd s =
     (let (b, s) = peek s ''&'' in
      if b then let (_, _, _, s) = gettoken s in parse_backs (BackCmd cmd) s else (cmd, s))"
  by pat_completeness auto
termination by (relation "measure (\<lambda>(c, s). length s)") (auto dest!: sym [of _ "peek _ _"] sym [of _ "gettoken _"] dest: peek_token_less [OF sym sym])

declare parse_backs.simps [simp del]

text \<open>
  The mutually recursive part of the grammar.  The fuel goes down where a call goes on behind a token; \<open>parsecmd\<close> gives as much as
  the line has characters.
\<close>

function parseline :: "nat \<Rightarrow> u8 list \<Rightarrow> (cmd \<times> u8 list) pres"
  and parsepipe :: "nat \<Rightarrow> u8 list \<Rightarrow> (cmd \<times> u8 list) pres"
  and parseexec :: "nat \<Rightarrow> u8 list \<Rightarrow> (cmd \<times> u8 list) pres"
  and parseblock :: "nat \<Rightarrow> u8 list \<Rightarrow> (cmd \<times> u8 list) pres" where
  "parseline k s =
     pbind (parsepipe k s) (\<lambda>(cmd, s).
     let (cmd, s) = parse_backs cmd s; (b, s) = peek s '';'' in
     if b then
       let (_, _, _, s) = gettoken s in
       case k of 0 \<Rightarrow> NoFuel | Suc k \<Rightarrow> pbind (parseline k s) (\<lambda>(r, s). Parsed (ListCmd cmd r, s))
     else Parsed (cmd, s))"
| "parsepipe k s =
     pbind (parseexec k s) (\<lambda>(cmd, s).
     let (b, s) = peek s ''|'' in
     if b then
       let (_, _, _, s) = gettoken s in
       case k of 0 \<Rightarrow> NoFuel | Suc k \<Rightarrow> pbind (parsepipe k s) (\<lambda>(r, s). Parsed (PipeCmd cmd r, s))
     else Parsed (cmd, s))"
| "parseexec k s =
     (let (b, s) = peek s ''('' in
      if b then parseblock k s
      else pbind (parseredirs (ExecCmd []) s) (\<lambda>(ret, s). parseexec_args 0 ret s))"
| "parseblock k s =
     (let (b, s) = peek s ''('' in
      if \<not> b then Exits ''parseblock''
      else let (_, _, _, s) = gettoken s in
        case k of 0 \<Rightarrow> NoFuel
        | Suc k \<Rightarrow>
            pbind (parseline k s) (\<lambda>(cmd, s).
            let (b, s) = peek s '')'' in
            if \<not> b then Exits ''syntax - missing )''
            else let (_, _, _, s) = gettoken s in parseredirs cmd s))"
  by pat_completeness auto
termination
  by (relation "measures [\<lambda>x. case x of Inl (Inl (k, s)) \<Rightarrow> k | Inl (Inr (k, s)) \<Rightarrow> k | Inr (Inl (k, s)) \<Rightarrow> k | Inr (Inr (k, s)) \<Rightarrow> k,
      \<lambda>x. case x of Inl (Inl _) \<Rightarrow> 3 | Inl (Inr _) \<Rightarrow> 2 | Inr (Inl _) \<Rightarrow> 1 | Inr (Inr _) \<Rightarrow> 0]") auto

declare parseline.simps [simp del] parsepipe.simps [simp del] parseexec.simps [simp del] parseblock.simps [simp del]

text \<open>\<open>nulterminate\<close> ends every string of a command in the line, of which \<open>b\<close> holds the \<open>n\<close> characters and the zero.\<close>

fun nulterminate :: "nat \<Rightarrow> cmd \<Rightarrow> u8 list \<Rightarrow> u8 list" where
  "nulterminate n (ExecCmd as) b = foldl (\<lambda>b (q, eq). b[n - eq := 0]) b as"
| "nulterminate n (RedirCmd c f ef m fd) b = (nulterminate n c b)[n - ef := 0]"
| "nulterminate n (PipeCmd l r) b = nulterminate n r (nulterminate n l b)"
| "nulterminate n (ListCmd l r) b = nulterminate n r (nulterminate n l b)"
| "nulterminate n (BackCmd c) b = nulterminate n c b"

definition parsecmd :: "u8 list \<Rightarrow> (cmd \<times> u8 list) pres" where
  "parsecmd s =
     pbind (parseline (length s) s) (\<lambda>(cmd, r).
     let (_, r) = peek r '''' in
     if r \<noteq> [] then Exits ''syntax'' else Parsed (cmd, nulterminate (length s) cmd (s @ [0])))"

end
