(* ===== verification/Sh_Laws.thy ===== *)
theory Sh_Laws
  imports Sh
begin

text \<open>
  What the shell's parser promises: it returns, the pointers it keeps are the bounds of words of the line, and ending the strings in the
  line leaves the words.
\<close>

section \<open>Words of the line\<close>

text \<open>\<open>w\<close> is a whole word of \<open>s\<close>, and the two distances are its bounds.\<close>

definition tok :: "u8 list \<Rightarrow> nat \<times> nat \<Rightarrow> u8 list \<Rightarrow> bool" where
  "tok s p w \<longleftrightarrow> (\<exists>a r. s = a @ w @ r \<and> p = (length (w @ r), length r) \<and> w \<noteq> [] \<and> (\<forall>c \<in> set w. wordc c) \<and> (r = [] \<or> \<not> wordc (hd r)))"

fun ptrs :: "cmd \<Rightarrow> (nat \<times> nat) list" where
  "ptrs (ExecCmd as) = as"
| "ptrs (RedirCmd c f ef m fd) = ptrs c @ [(f, ef)]"
| "ptrs (PipeCmd l r) = ptrs l @ ptrs r"
| "ptrs (ListCmd l r) = ptrs l @ ptrs r"
| "ptrs (BackCmd c) = ptrs c"

definition toks_ok :: "u8 list \<Rightarrow> cmd \<Rightarrow> bool" where
  "toks_ok s c \<longleftrightarrow> (\<forall>p \<in> set (ptrs c). \<exists>w. tok s p w)"

lemma tok_suffix: "suffix r s \<Longrightarrow> tok r p w \<Longrightarrow> tok s p w"
  unfolding tok_def suffix_def by (metis append_assoc)

lemma toks_ok_suffix: "suffix r s \<Longrightarrow> toks_ok r c \<Longrightarrow> toks_ok s c"
  unfolding toks_ok_def using tok_suffix by metis

lemma ptrs_push_arg: "set (ptrs (push_arg q eq c)) \<subseteq> insert (q, eq) (set (ptrs c))"
  by (induction c) auto

lemma skip_ws_suffix: "suffix (skip_ws s) s"
  by (simp add: skip_ws_def suffix_dropWhile)

lemma token_suffix: "token s = (t, eq) \<Longrightarrow> suffix eq s"
  by (auto simp: token_def suffix_Cons suffix_dropWhile suffix_tl split: list.splits if_splits)

lemma gettoken_eq: "gettoken s = (t, q, eq, r) \<longleftrightarrow> token (skip_ws s) = (t, eq) \<and> q = skip_ws s \<and> r = skip_ws eq"
  by (auto simp: gettoken_def Let_def split: prod.splits)

lemma gettoken_suffix: "gettoken s = (t, q, eq, r) \<Longrightarrow> suffix r s"
  unfolding gettoken_eq using skip_ws_suffix token_suffix suffix_order.trans by metis

lemma word_token: "token q = (tokA, eq) \<Longrightarrow> q = [] \<or> hd q \<notin> set whitespace \<Longrightarrow> q \<noteq> [] \<and> eq = dropWhile wordc q \<and> wordc (hd q)"
  by (cases q) (auto simp: token_def wordc_def symbols_def split: if_splits)

lemma gettoken_word:
  assumes "gettoken s = (tokA, q, eq, r)" shows "\<exists>w. tok s (length q, length eq) w"
proof -
  have g: "token q = (tokA, eq)" "q = skip_ws s" using assms by (simp_all add: gettoken_eq)
  have "q = [] \<or> hd q \<notin> set whitespace" using g(2) skip_ws_hd [of s "hd q" "tl q"] by auto
  note w = word_token [OF g(1) this]
  have "takeWhile wordc q \<noteq> []" using w by (cases q) auto
  moreover have "eq = [] \<or> \<not> wordc (hd eq)" using w hd_dropWhile [of wordc q] by auto
  moreover have "q = takeWhile wordc q @ eq" using w by simp
  ultimately have "tok q (length q, length eq) (takeWhile wordc q)"
    unfolding tok_def by (intro exI [of _ "[]"] exI [of _ eq]) (auto dest: set_takeWhileD)
  then show ?thesis using tok_suffix [OF skip_ws_suffix] g(2) by blast
qed

lemma peek_suffix: "peek s toks = (b, r) \<Longrightarrow> suffix r s"
  using skip_ws_suffix [of s] by (auto simp: peek_def Let_def)

section \<open>The parser returns, with words\<close>

definition good :: "u8 list \<Rightarrow> (cmd \<times> u8 list) pres \<Rightarrow> bool" where
  "good s m \<longleftrightarrow> m \<noteq> NoFuel \<and> (\<forall>c r. m = Parsed (c, r) \<longrightarrow> toks_ok s c \<and> suffix r s)"

lemma good_Exits [simp]: "good s (Exits m)"
  by (simp add: good_def)

lemma good_Parsed [simp]: "good s (Parsed (c, r)) \<longleftrightarrow> toks_ok s c \<and> suffix r s"
  by (simp add: good_def)

lemma good_bind:
  assumes "good s m" "\<And>c r. m = Parsed (c, r) \<Longrightarrow> toks_ok s c \<Longrightarrow> suffix r s \<Longrightarrow> good s (f (c, r))"
  shows "good s (pbind m f)"
  using assms by (cases m) (auto simp: good_def)

lemma good_suffix: "suffix r s \<Longrightarrow> good r m \<Longrightarrow> good s m"
  unfolding good_def using toks_ok_suffix suffix_order.trans by metis

lemma parseredirs_good: "toks_ok s0 c \<Longrightarrow> suffix s s0 \<Longrightarrow> good s0 (parseredirs c s)"
proof (induction c s rule: parseredirs.induct)
  case (1 c s)
  obtain b s1 where p: "peek s ''<>'' = (b, s1)" by (cases "peek s ''<>''")
  obtain t1 q1 e1 s2 where g1: "gettoken s1 = (t1, q1, e1, s2)" by (cases "gettoken s1")
  obtain t2 q2 e2 s3 where g2: "gettoken s2 = (t2, q2, e2, s3)" by (cases "gettoken s2")
  note sf = suffix_order.trans [OF peek_suffix [OF p] 1(3)]
  note sf2 = suffix_order.trans [OF gettoken_suffix [OF g1] sf]
  note sf3 = suffix_order.trans [OF gettoken_suffix [OF g2] sf2]
  show ?case
  proof (cases "b \<and> t2 = tokA")
    case True
    let ?c = "if t1 = of_char CHR ''<'' then RedirCmd c (length q2) (length e2) O_RDONLY 0
      else RedirCmd c (length q2) (length e2) O_WRONLY_CREATE 1"
    have "\<exists>w. tok s0 (length q2, length e2) w" using gettoken_word [of s2 q2 e2 s3] g2 True tok_suffix [OF sf2] by blast
    then have "toks_ok s0 ?c" using 1(2) by (auto simp: toks_ok_def)
    moreover have "parseredirs c s = parseredirs ?c s3" using p g1 g2 True by (simp add: parseredirs.simps [of c s])
    ultimately show ?thesis
      using 1(1) [OF p [symmetric] refl _ g1 [symmetric] refl refl refl g2 [symmetric] refl refl refl] True sf3 by simp
  next
    case False
    then show ?thesis using p g1 g2 1(2) sf by (auto simp: parseredirs.simps [of c s])
  qed
qed

lemma parseexec_args_good: "toks_ok s0 c \<Longrightarrow> suffix s s0 \<Longrightarrow> good s0 (parseexec_args n c s)"
proof (induction n c s rule: parseexec_args.induct)
  case (1 n c s)
  obtain b s1 where p: "peek s ''|)&;'' = (b, s1)" by (cases "peek s ''|)&;''")
  obtain t q e s2 where g: "gettoken s1 = (t, q, e, s2)" by (cases "gettoken s1")
  note sf = suffix_order.trans [OF peek_suffix [OF p] 1(3)]
  note sf2 = suffix_order.trans [OF gettoken_suffix [OF g] sf]
  show ?case
  proof (cases "\<not> b \<and> t = tokA \<and> \<not> n + 1 \<ge> MAXARGS")
    case True
    let ?c = "push_arg (length q) (length e) c"
    have "\<exists>w. tok s0 (length q, length e) w" using gettoken_word [of s1 q e s2] g True tok_suffix [OF sf] by blast
    then have "toks_ok s0 ?c" using 1(2) ptrs_push_arg [of "length q" "length e" c] by (auto simp: toks_ok_def)
    then have "good s0 (parseredirs ?c s2)" using sf2 by (rule parseredirs_good)
    then have "good s0 (pbind (parseredirs ?c s2) (\<lambda>(ret, s). parseexec_args (n + 1) ret s))"
      using 1(1) [OF p [symmetric] refl _ g [symmetric] refl refl refl] True by (intro good_bind) auto
    then show ?thesis using p g True by (simp add: parseexec_args.simps [of n c s])
  next
    case False
    then show ?thesis using p g 1(2) sf sf2 by (auto simp: parseexec_args.simps [of n c s])
  qed
qed

lemma parse_backs_good: "toks_ok s0 c \<Longrightarrow> suffix s s0 \<Longrightarrow> parse_backs c s = (d, r) \<Longrightarrow> toks_ok s0 d \<and> suffix r s0"
proof (induction c s arbitrary: d r rule: parse_backs.induct)
  case (1 c s)
  obtain b s1 where p: "peek s ''&'' = (b, s1)" by (cases "peek s ''&''")
  obtain t q e s2 where g: "gettoken s1 = (t, q, e, s2)" by (cases "gettoken s1")
  note sf = suffix_order.trans [OF peek_suffix [OF p] 1(3)]
  note sf2 = suffix_order.trans [OF gettoken_suffix [OF g] sf]
  show ?case
  proof (cases b)
    case True
    then have "toks_ok s0 (BackCmd c)" "parse_backs (BackCmd c) s2 = (d, r)"
      using 1(2,4) p g by (auto simp: toks_ok_def parse_backs.simps [of c s])
    then show ?thesis using 1(1) [OF p [symmetric] refl _ g [symmetric] refl refl refl] True sf2 by blast
  next
    case False
    then show ?thesis using 1(2,4) p sf by (simp add: parse_backs.simps [of c s])
  qed
qed

lemma peek_token:
  assumes "peek s toks = (True, r)" "gettoken r = (t, q, e, u)" shows "suffix u s" "length u < length s"
  using suffix_order.trans [OF gettoken_suffix [OF assms(2)] peek_suffix [OF assms(1)]] peek_token_less [of r s toks t q e u] assms by simp_all

text \<open>The common end of \<open>parseline\<close> and \<open>parsepipe\<close>: a separator and the same again.\<close>

lemma tail_good:
  assumes r: "toks_ok s c" "suffix r s" and k: "length s \<le> k"
    and f: "\<And>b r2 t q e r3 k'. peek r toks = (True, r2) \<Longrightarrow> gettoken r2 = (t, q, e, r3) \<Longrightarrow> k = Suc k' \<Longrightarrow> length r3 \<le> k' \<Longrightarrow> good r3 (f k' r3)"
    and C: "\<And>x. ptrs (C c x) = ptrs c @ ptrs x"
  shows "good s (let (b, s) = peek r toks in
     if b then let (_, _, _, s) = gettoken s in case k of 0 \<Rightarrow> NoFuel | Suc k \<Rightarrow> pbind (f k s) (\<lambda>(x, s). Parsed (C c x, s))
     else Parsed (c, s))"
proof -
  obtain b r2 where p: "peek r toks = (b, r2)" by (cases "peek r toks")
  obtain t q e r3 where g: "gettoken r2 = (t, q, e, r3)" by (cases "gettoken r2")
  show ?thesis
  proof (cases b)
    case True
    then have sf: "suffix r3 s" "length r3 < length s"
      using peek_token [of r toks r2 t q e r3] p g r suffix_length_le [of r s] suffix_order.trans [of r3 r s] by auto
    then obtain k' where k': "k = Suc k'" "length r3 \<le> k'" using k by (cases k) auto
    have "good s (f k' r3)" using good_suffix [OF sf(1) f] p g True k' by simp
    then have "good s (pbind (f k' r3) (\<lambda>(x, s). Parsed (C c x, s)))"
      using r by (intro good_bind) (auto simp: toks_ok_def C)
    then show ?thesis using p g True k' by simp
  next
    case False
    then show ?thesis using p r peek_suffix [OF p] suffix_order.trans [of r2 r s] by simp
  qed
qed

lemma close_good:
  assumes "toks_ok s c" "suffix x s"
  shows "good s (let (b, s) = peek x '')'' in if \<not> b then Exits ''syntax - missing )'' else let (_, _, _, s) = gettoken s in parseredirs c s)"
proof -
  obtain b x1 where p: "peek x '')'' = (b, x1)" by (cases "peek x '')''")
  obtain t q e x2 where g: "gettoken x1 = (t, q, e, x2)" by (cases "gettoken x1")
  have "suffix x2 s" using assms gettoken_suffix [OF g] peek_suffix [OF p] suffix_order.trans by metis
  then show ?thesis using p g assms parseredirs_good [of s c x2] by simp
qed

lemma parse_good:
  "length s \<le> k \<Longrightarrow> good s (parseline k s)" "length s \<le> k \<Longrightarrow> good s (parsepipe k s)"
  "length s \<le> k \<Longrightarrow> good s (parseexec k s)" "length s \<le> k \<Longrightarrow> good s (parseblock k s)"
proof (induction k s and k s and k s and k s rule: parseline_parsepipe_parseexec_parseblock.induct)
  case (1 k s)
  show ?case unfolding parseline.simps [of k s]
  proof (rule good_bind [OF 1(1) [OF 1(3)]], unfold prod.case)
    fix c r assume r: "parsepipe k s = Parsed (c, r)" "toks_ok s c" "suffix r s"
    obtain d r1 where b: "parse_backs c r = (d, r1)" by (cases "parse_backs c r")
    have d: "toks_ok s d" "suffix r1 s" using parse_backs_good [OF r(2,3) b] by simp_all
    show "good s (let (cmd, s) = parse_backs c r; (b, s) = peek s '';'' in
       if b then let (_, _, _, s) = gettoken s in
         case k of 0 \<Rightarrow> NoFuel | Suc k \<Rightarrow> pbind (parseline k s) (\<lambda>(r, s). Parsed (ListCmd cmd r, s))
       else Parsed (cmd, s))"
      using tail_good [OF d 1(3), where toks = "'';''" and f = parseline and C = ListCmd]
        1(2) [OF r(1) refl b [symmetric] refl _ refl _ _ refl refl refl] by (simp add: b)
  qed
next
  case (2 k s)
  show ?case unfolding parsepipe.simps [of k s]
  proof (rule good_bind [OF 2(1) [OF 2(3)]], unfold prod.case)
    fix c r assume r: "parseexec k s = Parsed (c, r)" "toks_ok s c" "suffix r s"
    show "good s (let (b, s) = peek r ''|'' in
       if b then let (_, _, _, s) = gettoken s in
         case k of 0 \<Rightarrow> NoFuel | Suc k \<Rightarrow> pbind (parsepipe k s) (\<lambda>(r, s). Parsed (PipeCmd c r, s))
       else Parsed (c, s))"
      using tail_good [OF r(2,3) 2(3), where toks = "''|''" and f = parsepipe and C = PipeCmd] 2(2) [OF r(1) refl _ refl _ _ refl refl refl] by simp
  qed
next
  case (3 k s)
  obtain b r where p: "peek s ''('' = (b, r)" by (cases "peek s ''(''")
  note sf = peek_suffix [OF p]
  show ?case
  proof (cases b)
    case True
    then show ?thesis
      using 3(1) [OF p [symmetric] refl True] 3(2) suffix_length_le [OF sf] good_suffix [OF sf, of "parseblock k r"] p by (simp add: parseexec.simps [of k s])
  next
    case False
    have "good s (parseredirs (ExecCmd []) r)" using sf by (intro parseredirs_good) (simp_all add: toks_ok_def)
    then have "good s (pbind (parseredirs (ExecCmd []) r) (\<lambda>(ret, s). parseexec_args 0 ret s))"
      by (intro good_bind) (simp_all add: parseexec_args_good)
    then show ?thesis using p False by (simp add: parseexec.simps [of k s])
  qed
next
  case (4 k s)
  obtain b r where p: "peek s ''('' = (b, r)" by (cases "peek s ''(''")
  obtain t q e r1 where g: "gettoken r = (t, q, e, r1)" by (cases "gettoken r")
  show ?case
  proof (cases b)
    case True
    then have sf: "suffix r1 s" "length r1 < length s" using peek_token [of s "''(''" r t q e r1] p g by simp_all
    then obtain k' where k: "k = Suc k'" "length r1 \<le> k'" using 4(2) by (cases k) auto
    have "good r1 (parseline k' r1)" using 4(1) [OF p [symmetric] refl _ g [symmetric] refl refl refl k(1) k(2)] True by simp
    then have "good s (pbind (parseline k' r1) (\<lambda>(cmd, s). let (b, s) = peek s '')'' in if \<not> b then Exits ''syntax - missing )''
        else let (_, _, _, s) = gettoken s in parseredirs cmd s))"
      using good_suffix [OF sf(1)] close_good by (intro good_bind) simp_all
    moreover have "parseblock k s = pbind (parseline k' r1) (\<lambda>(cmd, s). let (b, s) = peek s '')'' in if \<not> b then Exits ''syntax - missing )''
        else let (_, _, _, s) = gettoken s in parseredirs cmd s)" unfolding k(1) parseblock.simps [of "Suc k'" s] p using g True by simp
    ultimately show ?thesis by simp
  qed (use p in \<open>simp add: parseblock.simps [of k s]\<close>)
qed

end
