(* ===== verification/Sh_Props.thy ===== *)
theory Sh_Props
  imports Sh_Laws
begin

text \<open>
  Properties of the shell's parser: it returns on every line, the strings of the command are words of the line, and a command
  that is written out in the shell's syntax is parsed back.
\<close>

section \<open>The strings of a command\<close>

datatype scmd = Exec "u8 list list" | Redir scmd "u8 list" i32 i32 | Pipe scmd scmd | Lst scmd scmd | Bg scmd

text \<open>The command with its pointers replaced by what \<open>g\<close> reads there.\<close>

fun tree :: "(nat \<times> nat \<Rightarrow> u8 list) \<Rightarrow> cmd \<Rightarrow> scmd" where
  "tree g (ExecCmd as) = Exec (map g as)"
| "tree g (RedirCmd c f ef m fd) = Redir (tree g c) (g (f, ef)) m fd"
| "tree g (PipeCmd l r) = Pipe (tree g l) (tree g r)"
| "tree g (ListCmd l r) = Lst (tree g l) (tree g r)"
| "tree g (BackCmd c) = Bg (tree g c)"

text \<open>The word between two pointers in the line \<open>s\<close>, and the C string at a pointer in the memory \<open>b\<close> of the line.\<close>

definition word_at :: "u8 list \<Rightarrow> nat \<times> nat \<Rightarrow> u8 list" where
  "word_at s p = take (fst p - snd p) (drop (length s - fst p) s)"

definition string_at :: "nat \<Rightarrow> u8 list \<Rightarrow> nat \<times> nat \<Rightarrow> u8 list" where
  "string_at n b p = cstr (drop (n - fst p) b)"

lemma tree_cong: "\<forall>p \<in> set (ptrs c). g p = h p \<Longrightarrow> tree g c = tree h c"
  by (induction c) auto

lemma tok_word_at: "tok s p w \<Longrightarrow> word_at s p = w"
  by (auto simp: tok_def word_at_def)

definition zero_at :: "nat \<Rightarrow> u8 list \<Rightarrow> (nat \<times> nat) list \<Rightarrow> u8 list" where
  "zero_at n b ps = foldl (\<lambda>b p. b[n - snd p := 0]) b ps"

lemma nulterminate_zero: "nulterminate n c b = zero_at n b (ptrs c)"
  by (induction c arbitrary: b) (auto simp: zero_at_def case_prod_unfold)

lemma zero_at_nth: "length (zero_at n b ps) = length b"
  "i < length b \<Longrightarrow> zero_at n b ps ! i = (if i \<in> (\<lambda>p. n - snd p) ` set ps then 0 else b ! i)"
proof -
  show l: "length (zero_at n b ps) = length b" for b by (induction ps arbitrary: b) (auto simp: zero_at_def)
  show "i < length b \<Longrightarrow> zero_at n b ps ! i = (if i \<in> (\<lambda>p. n - snd p) ` set ps then 0 else b ! i)"
    by (induction ps arbitrary: b) (auto simp: zero_at_def nth_list_update)
qed

lemma cstr_prefix: "0 \<notin> set w \<Longrightarrow> length w < length b \<Longrightarrow> (\<And>i. i < length w \<Longrightarrow> b ! i = w ! i) \<Longrightarrow> b ! length w = 0 \<Longrightarrow> cstr b = w"
proof -
  assume a: "0 \<notin> set w" "length w < length b" "\<And>i. i < length w \<Longrightarrow> b ! i = w ! i" "b ! length w = 0"
  have "take (length w) b = w" using a by (intro nth_equalityI) auto
  then have b: "b = w @ 0 # drop (Suc (length w)) b" using id_take_nth_drop [OF a(2)] a(4) by simp
  have "takeWhile (\<lambda>c. c \<noteq> 0) (w @ 0 # x) = w" for x using a(1) by (subst takeWhile_append2) auto
  then show ?thesis unfolding cstr_def using b by metis
qed

lemma terminated_word:
  assumes z: "0 \<notin> set s" and ps: "\<forall>p \<in> set ps. \<exists>w. tok s p w" and p: "p \<in> set ps" "tok s p w"
  shows "string_at (length s) (zero_at (length s) (s @ [0]) ps) p = w"
proof -
  obtain a r where s: "s = a @ w @ r" "p = (length (w @ r), length r)" "\<forall>c \<in> set w. wordc c" using p(2) by (auto simp: tok_def)
  let ?b = "zero_at (length s) (s @ [0]) ps"
  have in_word: "?b ! (length a + i) = w ! i" if i: "i < length w" for i
  proof -
    have "length a + i \<notin> (\<lambda>p. length s - snd p) ` set ps"
    proof
      assume "length a + i \<in> (\<lambda>p. length s - snd p) ` set ps"
      then obtain p' w' where "length a + i = length s - snd p'" "tok s p' w'" using ps by auto
      then obtain a' r' where q: "s = a' @ w' @ r'" "length a + i = length (a' @ w')" "r' = [] \<or> \<not> wordc (hd r')" by (auto simp: tok_def)
      have "length (a' @ w') < length s" using i s(1) q(2) by simp
      then have "r' \<noteq> []" using q(1) by auto
      then have "s ! (length a + i) = hd r'" using q(1,2) by (simp add: nth_append hd_conv_nth)
      moreover have "s ! (length a + i) = w ! i" using i s(1) by (simp add: nth_append)
      ultimately show False using s(3) q(3) \<open>r' \<noteq> []\<close> i by (metis nth_mem)
    qed
    then show ?thesis using i s(1) by (subst zero_at_nth) (auto simp: nth_append)
  qed
  have "?b ! (length a + length w) = 0"
    using p(1) s by (subst zero_at_nth(2)) (auto simp: image_iff intro!: bexI [of _ p])
  moreover have "0 \<notin> set w" using z s(1) by auto
  ultimately show ?thesis
    unfolding string_at_def using s in_word by (intro cstr_prefix) (auto simp: zero_at_nth(1))
qed

lemma parsecmd_strings:
  assumes "parsecmd s = Parsed (cmd, buf)" "0 \<notin> set s"
  shows "toks_ok s cmd" "tree (string_at (length s) buf) cmd = tree (word_at s) cmd"
proof -
  obtain r where p: "parseline (length s) s = Parsed (cmd, r)" "buf = nulterminate (length s) cmd (s @ [0])"
    using assms(1) by (auto simp: parsecmd_def case_prod_unfold split: if_splits)
  then show t: "toks_ok s cmd" using parse_good(1) [of s "length s"] by simp
  show "tree (string_at (length s) buf) cmd = tree (word_at s) cmd"
  proof (rule tree_cong, rule ballI)
    fix p assume a: "p \<in> set (ptrs cmd)"
    then obtain w where "tok s p w" using t by (auto simp: toks_ok_def)
    with terminated_word [OF assms(2) _ a] t tok_word_at [of s p w] show "string_at (length s) buf p = word_at s p"
      by (simp add: p(2) nulterminate_zero toks_ok_def)
  qed
qed

section \<open>Writing a command\<close>

abbreviation (input) sp :: u8 where "sp \<equiv> 0x20"

definition symc :: "char \<Rightarrow> u8 list" where
  "symc c = [of_char c, sp]"

definition words :: "u8 list list \<Rightarrow> u8 list" where
  "words ws = concat (map (\<lambda>w. w @ [sp]) ws)"

definition redir :: "u8 list \<Rightarrow> i32 \<Rightarrow> u8 list" where
  "redir f fd = symc (if fd = 0 then CHR ''<'' else CHR ''>'') @ f @ [sp]"

definition paren :: "bool \<Rightarrow> u8 list \<Rightarrow> u8 list" where
  "paren b x = (if b then symc CHR ''('' @ x @ symc CHR '')'' else x)"

text \<open>
  A command in the shell's syntax, for a place of the grammar: 0 for a line, 1 for what may go to the background, 2 for a
  pipeline, 3 for a simple command.  Parentheses are written where the place needs them.
\<close>

fun pr :: "nat \<Rightarrow> scmd \<Rightarrow> u8 list" where
  "pr n (Exec ws) = words ws"
| "pr n (Redir t f m fd) = pr 3 t @ redir f fd"
| "pr n (Pipe l r) = paren (n > 2) (pr 3 l @ symc CHR ''|'' @ pr 2 r)"
| "pr n (Lst l r) = paren (n > 0) (pr 1 l @ symc CHR '';'' @ pr 0 r)"
| "pr n (Bg t) = paren (n > 1) (pr 1 t @ symc CHR ''&'')"

definition word_ok :: "u8 list \<Rightarrow> bool" where
  "word_ok w \<longleftrightarrow> w \<noteq> [] \<and> (\<forall>c \<in> set w. wordc c \<and> c \<noteq> 0)"

fun wf_scmd :: "scmd \<Rightarrow> bool" where
  "wf_scmd (Exec ws) \<longleftrightarrow> length ws < MAXARGS \<and> (\<forall>w \<in> set ws. word_ok w)"
| "wf_scmd (Redir t f m fd) \<longleftrightarrow> wf_scmd t \<and> word_ok f \<and> (m = O_RDONLY \<and> fd = 0 \<or> m = O_WRONLY_CREATE \<and> fd = 1)"
| "wf_scmd (Pipe l r) \<longleftrightarrow> wf_scmd l \<and> wf_scmd r"
| "wf_scmd (Lst l r) \<longleftrightarrow> wf_scmd l \<and> wf_scmd r"
| "wf_scmd (Bg t) \<longleftrightarrow> wf_scmd t"

section \<open>Reading tokens of a written command\<close>

definition nxt :: "u8 list \<Rightarrow> u8 option" where
  "nxt s = (case skip_ws s of [] \<Rightarrow> None | c # _ \<Rightarrow> Some c)"

definition isc :: "u8 option \<Rightarrow> string \<Rightarrow> bool" where
  "isc x cs \<longleftrightarrow> (case x of None \<Rightarrow> False | Some c \<Rightarrow> c \<in> set (map of_char cs))"

lemma isc_simps [simp]: "\<not> isc None cs" "isc (Some c) cs \<longleftrightarrow> c \<in> set (map of_char cs)"
  by (simp_all add: isc_def)

lemma peek_nxt: "peek s toks = (isc (nxt s) toks, skip_ws s)"
  by (auto simp: peek_def nxt_def isc_def Let_def split: list.splits)

lemma skip_sp [simp]: "skip_ws (sp # s) = skip_ws s"
  by (simp add: skip_ws_def whitespace_def)

lemma nxt_simps [simp]: "nxt [] = None" "nxt (sp # s) = nxt s" "nxt (skip_ws s) = nxt s"
  by (simp_all add: nxt_def)

lemma wordc_nws: "wordc c \<Longrightarrow> c \<notin> set whitespace"
  by (simp add: wordc_def)

lemma skip_word: "word_ok w \<Longrightarrow> skip_ws (w @ s) = w @ s" "word_ok w \<Longrightarrow> nxt (w @ s) = Some (hd w)"
  by (cases w; auto simp: word_ok_def skip_ws_def nxt_def dest: wordc_nws)+

lemma isc_word: "word_ok w \<Longrightarrow> set cs \<subseteq> set ''<|>&;()'' \<Longrightarrow> \<not> isc (Some (hd w)) cs"
  by (cases w) (auto simp: isc_def word_ok_def wordc_def symbols_def)

lemma symc_skip [simp]:
  "c \<in> set ''<|>&;()'' \<Longrightarrow> skip_ws (symc c @ s) = symc c @ s" "c \<in> set ''<|>&;()'' \<Longrightarrow> nxt (symc c @ s) = Some (of_char c)"
  by (auto simp: symc_def skip_ws_def nxt_def whitespace_def)

lemma gettoken_sym:
  "c \<in> set ''<|>&;()'' \<Longrightarrow> gettoken (symc c @ s) = (of_char c, symc c @ s, sp # s, skip_ws s)"
  by (auto simp: gettoken_def Let_def token_def symc_def skip_ws_def whitespace_def)

lemma gettoken_written: "word_ok w \<Longrightarrow> gettoken (w @ sp # s) = (tokA, w @ sp # s, sp # s, skip_ws s)"
proof -
  assume w: "word_ok w"
  have "dropWhile wordc (w @ sp # s) = sp # s"
    using w by (subst dropWhile_append2) (auto simp: word_ok_def wordc_def whitespace_def)
  then have "token (w @ sp # s) = (tokA, sp # s)"
    using w by (cases w) (auto simp: token_def word_ok_def wordc_def symbols_def)
  then show ?thesis using skip_word(1) [OF w, of "sp # s"] by (simp add: gettoken_def Let_def)
qed

lemma tok_written: assumes "word_ok w" shows "tok (w @ sp # s) (length (w @ sp # s), length (sp # s)) w"
proof -
  have "\<not> wordc sp" by (simp add: wordc_def whitespace_def)
  then show ?thesis using assms unfolding tok_def word_ok_def by (intro exI [of _ "[]"] exI [of _ "sp # s"]) simp
qed

lemma parse_skip:
  "parseredirs c (skip_ws s) = parseredirs c s" "parseexec_args n c (skip_ws s) = parseexec_args n c s"
  "parse_backs c (skip_ws s) = parse_backs c s" "parseexec k (skip_ws s) = parseexec k s"
  unfolding parseredirs.simps [of c s] parseredirs.simps [of c "skip_ws s"] parseexec_args.simps [of n c s] parseexec_args.simps [of n c "skip_ws s"]
    parse_backs.simps [of c s] parse_backs.simps [of c "skip_ws s"] parseexec.simps [of k s] parseexec.simps [of k "skip_ws s"] peek_nxt nxt_simps skip_skip
  by (rule refl)+

lemma parse_skip2: "parsepipe k (skip_ws s) = parsepipe k s" "parseline k (skip_ws s) = parseline k s"
  unfolding parsepipe.simps [of k s] parsepipe.simps [of k "skip_ws s"] parseline.simps [of k s] parseline.simps [of k "skip_ws s"] parse_skip
  by (rule refl)+

section \<open>Parsing a written command\<close>

text \<open>\<open>cmd\<close> has its words in \<open>s\<close>, and they make it the command \<open>t\<close>.\<close>

definition rep :: "u8 list \<Rightarrow> cmd \<Rightarrow> scmd \<Rightarrow> bool" where
  "rep s cmd t \<longleftrightarrow> toks_ok s cmd \<and> tree (word_at s) cmd = t"

lemma tok_append: "tok s p w \<Longrightarrow> tok (a @ s) p w"
  using tok_suffix [of s "a @ s"] by (auto simp: suffix_def)

lemma rep_append: "rep s cmd t \<Longrightarrow> rep (a @ s) cmd t"
proof -
  assume r: "rep s cmd t"
  have "\<forall>p \<in> set (ptrs cmd). word_at (a @ s) p = word_at s p"
    using r tok_word_at tok_append by (metis rep_def toks_ok_def)
  then show ?thesis
    using r tree_cong [of cmd "word_at (a @ s)" "word_at s"] toks_ok_suffix [of s "a @ s" cmd] by (auto simp: rep_def suffix_def)
qed

lemma rep_Exec: "list_all2 (tok s) as ws \<Longrightarrow> rep s (ExecCmd as) (Exec ws)"
  unfolding list_all2_conv_all_nth rep_def toks_ok_def
  by (auto simp: in_set_conv_nth tok_word_at intro!: nth_equalityI) metis

lemma rep_Redir: "rep s c t \<Longrightarrow> tok s (q, eq) f \<Longrightarrow> rep s (RedirCmd c q eq m fd) (Redir t f m fd)"
  by (auto simp: rep_def toks_ok_def tok_word_at)

lemma rep_two: "rep s l t \<Longrightarrow> rep s r u \<Longrightarrow> rep s (PipeCmd l r) (Pipe t u)" "rep s l t \<Longrightarrow> rep s r u \<Longrightarrow> rep s (ListCmd l r) (Lst t u)"
  "rep s l t \<Longrightarrow> rep s (BackCmd l) (Bg t)"
  by (auto simp: rep_def toks_ok_def)

text \<open>The rest of \<open>parseexec\<close> behind a command with its first redirections: more words when it has a word list, nothing behind a block.\<close>

definition fin :: "nat option \<Rightarrow> cmd \<times> u8 list \<Rightarrow> (cmd \<times> u8 list) pres" where
  "fin n x = (case n of None \<Rightarrow> Parsed x | Some n \<Rightarrow> parseexec_args n (fst x) (snd x))"

fun core :: "scmd \<Rightarrow> nat option" where
  "core (Exec ws) = Some (length ws)"
| "core (Redir t f m fd) = core t"
| "core _ = None"

lemma fin_Some: "fin (Some n) = (\<lambda>(ret, s). parseexec_args n ret s)"
  by (simp add: fin_def fun_eq_iff)

lemma parseredirs_none: "\<not> isc (nxt s) ''<>'' \<Longrightarrow> parseredirs c s = Parsed (c, skip_ws s)"
  by (subst parseredirs.simps) (simp add: peek_nxt)

lemma parseredirs_redir:
  assumes "word_ok f" "fd = 0 \<or> fd = 1"
  shows "parseredirs c (redir f fd @ s) =
    parseredirs (RedirCmd c (length (f @ sp # s)) (length (sp # s)) (if fd = 0 then O_RDONLY else O_WRONLY_CREATE) fd) s"
proof -
  let ?c = "if fd = 0 then CHR ''<'' else CHR ''>''"
  have c: "?c \<in> set ''<|>&;()''" by simp
  have e: "redir f fd @ s = symc ?c @ f @ sp # s" by (simp add: redir_def)
  have p: "peek (symc ?c @ f @ sp # s) ''<>'' = (True, symc ?c @ f @ sp # s)" using c by (simp add: peek_nxt)
  show ?thesis unfolding e parseredirs.simps [of c "symc ?c @ f @ sp # s"] p
    using assms gettoken_sym [OF c, of "f @ sp # s"] gettoken_written [OF assms(1), of s] skip_word(1) [OF assms(1), of "sp # s"]
    by (auto simp: parse_skip)
qed

lemma parseexec_args_stop: "isc (nxt s) ''|)&;'' \<or> nxt s = None \<Longrightarrow> parseexec_args n c s = Parsed (c, skip_ws s)"
  by (subst parseexec_args.simps) (auto simp: peek_nxt gettoken_def nxt_def split: list.splits)

lemma fin_stop: "isc (nxt s) ''|)&;'' \<or> nxt s = None \<Longrightarrow> pbind (parseredirs c s) (fin n) = Parsed (c, skip_ws s)"
proof -
  assume a: "isc (nxt s) ''|)&;'' \<or> nxt s = None"
  then have "\<not> isc (nxt s) ''<>''" by (auto simp: isc_def split: option.splits)
  then show ?thesis using a by (auto simp: parseredirs_none fin_def parse_skip parseexec_args_stop split: option.splits)
qed

lemma words_Cons: "words (w # ws) @ s = w @ sp # words ws @ s"
  by (simp add: words_def)

lemma parseexec_args_words:
  "ws \<noteq> [] \<Longrightarrow> \<forall>w \<in> set ws. word_ok w \<Longrightarrow> n + length ws < MAXARGS \<Longrightarrow>
   \<exists>as. list_all2 (tok (words ws @ s)) as ws \<and>
     parseexec_args n (ExecCmd bs) (words ws @ s) = pbind (parseredirs (ExecCmd (bs @ as)) s) (fin (Some (n + length ws)))"
proof (induction ws arbitrary: n bs)
  case (Cons w ws)
  have w: "word_ok w" using Cons.prems by simp
  let ?r = "words ws @ s" and ?p = "(length (w @ sp # words ws @ s), length (sp # words ws @ s))"
  have "\<not> isc (nxt (w @ sp # ?r)) ''|)&;''" using skip_word(2) [OF w] isc_word [OF w, of "''|)&;''"] by simp
  then have e: "parseexec_args n (ExecCmd bs) (w @ sp # ?r) =
      pbind (parseredirs (ExecCmd (bs @ [?p])) ?r) (\<lambda>(ret, s). parseexec_args (n + 1) ret s)"
    using Cons.prems gettoken_written [OF w, of ?r] skip_word(1) [OF w, of "sp # ?r"]
    by (subst parseexec_args.simps) (simp add: peek_nxt parse_skip)
  show ?case
  proof (cases "ws = []")
    case True
    show ?thesis using e True tok_written [OF w, of s] unfolding words_Cons by (intro exI [of _ "[?p]"]) (simp add: words_def fin_Some)
  next
    case False
    then obtain v vs where v: "ws = v # vs" "word_ok v" using Cons.prems by (cases ws) auto
    then have "parseredirs (ExecCmd (bs @ [?p])) ?r = Parsed (ExecCmd (bs @ [?p]), ?r)"
      using skip_word [OF v(2)] isc_word [OF v(2), of "''<>''"] by (simp add: words_Cons parseredirs_none)
    moreover obtain as where as: "list_all2 (tok ?r) as ws"
      "parseexec_args (n + 1) (ExecCmd (bs @ [?p])) ?r = pbind (parseredirs (ExecCmd ((bs @ [?p]) @ as)) s) (fin (Some (n + 1 + length ws)))"
      using Cons.IH [OF False, of "n + 1" "bs @ [?p]"] Cons.prems by auto
    moreover have "list_all2 (tok (w @ sp # ?r)) as ws"
      using as(1) tok_append [of ?r _ _ "w @ [sp]"] by (auto elim!: list_all2_mono)
    ultimately show ?thesis using e tok_written [OF w, of ?r] unfolding words_Cons by (intro exI [of _ "?p # as"]) simp
  qed
qed simp

text \<open>What parsing a written command gives at each place of the grammar.\<close>

definition atX :: "scmd \<Rightarrow> bool" where
  "atX t \<longleftrightarrow> (\<forall>k s. length (pr 3 t @ s) \<le> k \<longrightarrow> \<not> isc (nxt s) ''('' \<longrightarrow>
     (\<exists>c. rep (pr 3 t @ s) c t \<and> parseexec k (pr 3 t @ s) = pbind (parseredirs c s) (fin (core t))))"

definition atP :: "scmd \<Rightarrow> bool" where
  "atP t \<longleftrightarrow> (\<forall>k s. length (pr 2 t @ s) \<le> k \<longrightarrow> isc (nxt s) '')&;'' \<or> nxt s = None \<longrightarrow>
     (\<exists>c. rep (pr 2 t @ s) c t \<and> parsepipe k (pr 2 t @ s) = Parsed (c, skip_ws s)))"

definition atB :: "scmd \<Rightarrow> bool" where
  "atB t \<longleftrightarrow> (\<forall>k s. length (pr 1 t @ s) \<le> k \<longrightarrow> isc (nxt s) '')&;'' \<or> nxt s = None \<longrightarrow>
     (\<exists>c. rep (pr 1 t @ s) c t \<and> pbind (parsepipe k (pr 1 t @ s)) (\<lambda>(c, s). Parsed (parse_backs c s)) = Parsed (parse_backs c s)))"

definition atL :: "scmd \<Rightarrow> bool" where
  "atL t \<longleftrightarrow> (\<forall>k s. length (pr 0 t @ s) \<le> k \<longrightarrow> isc (nxt s) '')'' \<or> nxt s = None \<longrightarrow>
     (\<exists>c. rep (pr 0 t @ s) c t \<and> parseline k (pr 0 t @ s) = Parsed (c, skip_ws s)))"

lemma atXD: "atX t \<Longrightarrow> length (pr 3 t @ s) \<le> k \<Longrightarrow> \<not> isc (nxt s) ''('' \<Longrightarrow>
    \<exists>c. rep (pr 3 t @ s) c t \<and> parseexec k (pr 3 t @ s) = pbind (parseredirs c s) (fin (core t))"
  by (simp add: atX_def)

lemma atBD: "atB t \<Longrightarrow> length (pr 1 t @ s) \<le> k \<Longrightarrow> isc (nxt s) '')&;'' \<or> nxt s = None \<Longrightarrow>
    \<exists>c. rep (pr 1 t @ s) c t \<and> pbind (parsepipe k (pr 1 t @ s)) (\<lambda>(c, s). Parsed (parse_backs c s)) = Parsed (parse_backs c s)"
  unfolding atB_def by blast

lemma isc_mono: "isc x cs \<Longrightarrow> set cs \<subseteq> set ds \<Longrightarrow> isc x ds"
  by (auto simp: isc_def split: option.splits)

lemma isc_disjoint: "isc x cs \<Longrightarrow> set (map of_char cs :: u8 list) \<inter> set (map of_char ds) = {} \<Longrightarrow> \<not> isc x ds"
  by (auto simp: isc_def split: option.splits)

lemma X_to_P:
  assumes x: "atX t" and e: "pr 2 t = pr 3 t" shows "atP t"
  unfolding atP_def
proof (intro allI impI)
  fix k s assume k: "length (pr 2 t @ s) \<le> k" and n: "isc (nxt s) '')&;'' \<or> nxt s = None"
  have "\<not> isc (nxt s) ''(''" "isc (nxt s) ''|)&;'' \<or> nxt s = None" "\<not> isc (nxt s) ''|''"
    using n by (auto dest: isc_disjoint [where ds = "''(''"] isc_disjoint [where ds = "''|''"] intro: isc_mono)
  moreover from this(1) obtain c where c: "rep (pr 3 t @ s) c t" "parseexec k (pr 3 t @ s) = pbind (parseredirs c s) (fin (core t))"
    using x k e unfolding atX_def by metis
  ultimately have "parsepipe k (pr 3 t @ s) = Parsed (c, skip_ws s)"
    by (subst parsepipe.simps) (simp add: fin_stop peek_nxt)
  then show "\<exists>c. rep (pr 2 t @ s) c t \<and> parsepipe k (pr 2 t @ s) = Parsed (c, skip_ws s)" using c(1) e by auto
qed

lemma P_to_B:
  assumes p: "atP t" and e: "pr 1 t = pr 2 t" shows "atB t"
  unfolding atB_def
proof (intro allI impI)
  fix k s assume k: "length (pr 1 t @ s) \<le> k" and n: "isc (nxt s) '')&;'' \<or> nxt s = None"
  then obtain c where "rep (pr 2 t @ s) c t" "parsepipe k (pr 2 t @ s) = Parsed (c, skip_ws s)"
    using p e unfolding atP_def by metis
  then show "\<exists>c. rep (pr 1 t @ s) c t \<and> pbind (parsepipe k (pr 1 t @ s)) (\<lambda>(c, s). Parsed (parse_backs c s)) = Parsed (parse_backs c s)"
    using e by (auto simp: parse_skip)
qed

lemma parse_backs_none: "\<not> isc (nxt s) ''&'' \<Longrightarrow> parse_backs c s = (c, skip_ws s)"
  by (subst parse_backs.simps) (simp add: peek_nxt)

lemma parse_backs_bg: "parse_backs c (symc CHR ''&'' @ s) = parse_backs (BackCmd c) s"
  by (subst parse_backs.simps) (simp add: peek_nxt gettoken_sym parse_skip)

text \<open>\<open>parseline\<close>, from behind the commands for the background on.\<close>

lemma parseline_eq:
  "pbind (parsepipe k s) (\<lambda>(c, s). Parsed (parse_backs c s)) = Parsed (c, r) \<Longrightarrow> r = skip_ws r \<Longrightarrow>
   parseline k s = (if isc (nxt r) '';'' then (let (_, _, _, s) = gettoken r in
      case k of 0 \<Rightarrow> NoFuel | Suc k \<Rightarrow> pbind (parseline k s) (\<lambda>(r, s). Parsed (ListCmd c r, s))) else Parsed (c, r))"
  by (subst parseline.simps) (auto simp: peek_nxt)

lemma B_to_L:
  assumes b: "atB t" and e: "pr 0 t = pr 1 t" shows "atL t"
  unfolding atL_def
proof (intro allI impI)
  fix k s assume k: "length (pr 0 t @ s) \<le> k" and n: "isc (nxt s) '')'' \<or> nxt s = None"
  then have n': "isc (nxt s) '')&;'' \<or> nxt s = None" "\<not> isc (nxt s) ''&''" "\<not> isc (nxt s) '';''"
    by (auto dest: isc_disjoint [where ds = "''&''"] isc_disjoint [where ds = "'';''"] intro: isc_mono)
  then obtain c where c: "rep (pr 1 t @ s) c t"
    "pbind (parsepipe k (pr 1 t @ s)) (\<lambda>(c, s). Parsed (parse_backs c s)) = Parsed (parse_backs c s)"
    using b k e unfolding atB_def by metis
  then have "parseline k (pr 1 t @ s) = Parsed (c, skip_ws s)"
    using parseline_eq [of k "pr 1 t @ s" c "skip_ws s"] n' by (simp add: parse_backs_none)
  then show "\<exists>c. rep (pr 0 t @ s) c t \<and> parseline k (pr 0 t @ s) = Parsed (c, skip_ws s)" using c(1) e by auto
qed

lemma L_to_X:
  assumes l: "atL t" and e: "pr 3 t = symc CHR ''('' @ pr 0 t @ symc CHR '')''" "core t = None" shows "atX t"
  unfolding atX_def
proof (intro allI impI)
  fix k s assume k: "length (pr 3 t @ s) \<le> k"
  let ?r = "pr 0 t @ symc CHR '')'' @ s"
  obtain k' where k': "k = Suc k'" "length ?r \<le> k'" using k e(1) by (cases k) (auto simp: symc_def)
  have n: "isc (nxt (symc CHR '')'' @ s)) '')''" by simp
  then obtain c where c: "rep ?r c t" "parseline k' ?r = Parsed (c, symc CHR '')'' @ s)"
    using l k'(2) unfolding atL_def by fastforce
  have "parseexec k (symc CHR ''('' @ ?r) = parseredirs c s"
    using c(2) n k'(1)
    by (subst parseexec.simps, subst parseblock.simps) (simp add: peek_nxt gettoken_sym parse_skip parse_skip2)
  moreover have "pbind (parseredirs c s) (fin (core t)) = parseredirs c s" by (cases "parseredirs c s") (simp_all add: e fin_def)
  ultimately show "\<exists>c. rep (pr 3 t @ s) c t \<and> parseexec k (pr 3 t @ s) = pbind (parseredirs c s) (fin (core t))"
    using rep_append [OF c(1), of "symc CHR ''(''"] e(1) by auto
qed

lemma Exec_X: "wf_scmd (Exec ws) \<Longrightarrow> atX (Exec ws)"
  unfolding atX_def
proof (intro allI impI)
  fix k s assume w: "wf_scmd (Exec ws)" and n: "\<not> isc (nxt s) ''(''"
  show "\<exists>c. rep (pr 3 (Exec ws) @ s) c (Exec ws) \<and> parseexec k (pr 3 (Exec ws) @ s) = pbind (parseredirs c s) (fin (core (Exec ws)))"
  proof (cases ws)
    case Nil
    have "parseexec k s = pbind (parseredirs (ExecCmd []) s) (fin (Some 0))"
      using n by (subst parseexec.simps) (simp add: peek_nxt parse_skip fin_Some)
    moreover have "rep s (ExecCmd []) (Exec [])" by (simp add: rep_def toks_ok_def)
    ultimately show ?thesis using Nil by (intro exI [of _ "ExecCmd []"]) (simp add: words_def)
  next
    case (Cons v vs)
    then have v: "word_ok v" using w by simp
    obtain as where as: "list_all2 (tok (words ws @ s)) as ws"
      "parseexec_args 0 (ExecCmd []) (words ws @ s) = pbind (parseredirs (ExecCmd as) s) (fin (Some (length ws)))"
      using parseexec_args_words [of ws 0 s "[]"] w Cons by auto
    have "\<not> isc (nxt (words ws @ s)) ''(''" "\<not> isc (nxt (words ws @ s)) ''<>''" "skip_ws (words ws @ s) = words ws @ s"
      using skip_word [OF v] isc_word [OF v, of "''(''"] isc_word [OF v, of "''<>''"] by (simp_all add: Cons words_Cons)
    then have "parseexec k (words ws @ s) = pbind (parseredirs (ExecCmd as) s) (fin (Some (length ws)))"
      using as(2) by (subst parseexec.simps) (simp add: peek_nxt parseredirs_none)
    then show ?thesis using rep_Exec [OF as(1)] by (intro exI [of _ "ExecCmd as"]) simp
  qed
qed

lemma Redir_X:
  assumes x: "atX t" and f: "word_ok f" "m = O_RDONLY \<and> fd = 0 \<or> m = O_WRONLY_CREATE \<and> fd = 1"
  shows "atX (Redir t f m fd)"
  unfolding atX_def
proof (intro allI impI)
  fix k s assume k: "length (pr 3 (Redir t f m fd) @ s) \<le> k"
  let ?s = "redir f fd @ s"
  have "\<not> isc (nxt ?s) ''(''" by (auto simp: redir_def)
  then obtain c where c: "rep (pr 3 t @ ?s) c t" "parseexec k (pr 3 t @ ?s) = pbind (parseredirs c ?s) (fin (core t))"
    using atXD [OF x, of ?s k] k by auto
  let ?p = "length (f @ sp # s)" and ?e = "length (sp # s)"
  have "tok ?s (?p, ?e) f" unfolding redir_def append_assoc using tok_append [OF tok_written [OF f(1), of s]] by simp
  then have "rep (pr 3 t @ ?s) (RedirCmd c ?p ?e m fd) (Redir t f m fd)" using c(1) tok_append by (intro rep_Redir) auto
  moreover have "parseredirs c ?s = parseredirs (RedirCmd c ?p ?e m fd) s" using parseredirs_redir [OF f(1), of fd c s] f(2) by auto
  ultimately show "\<exists>c. rep (pr 3 (Redir t f m fd) @ s) c (Redir t f m fd) \<and>
      parseexec k (pr 3 (Redir t f m fd) @ s) = pbind (parseredirs c s) (fin (core (Redir t f m fd)))"
    using c(2) by auto
qed

lemma Pipe_P:
  assumes x: "atX l" and p: "atP r" shows "atP (Pipe l r)"
  unfolding atP_def
proof (intro allI impI)
  fix k s assume k: "length (pr 2 (Pipe l r) @ s) \<le> k" and n: "isc (nxt s) '')&;'' \<or> nxt s = None"
  let ?r = "symc CHR ''|'' @ pr 2 r @ s"
  have e: "pr 2 (Pipe l r) @ s = pr 3 l @ ?r" by (simp add: paren_def)
  obtain c where c: "rep (pr 3 l @ ?r) c l" "parseexec k (pr 3 l @ ?r) = pbind (parseredirs c ?r) (fin (core l))"
    using atXD [OF x, of ?r k] k e by auto
  obtain k' where k': "k = Suc k'" "length (pr 2 r @ s) \<le> k'" using k e by (cases k) (auto simp: symc_def)
  obtain d where d: "rep (pr 2 r @ s) d r" "parsepipe k' (pr 2 r @ s) = Parsed (d, skip_ws s)" using p k'(2) n unfolding atP_def by blast
  have "parseexec k (pr 3 l @ ?r) = Parsed (c, ?r)" unfolding c(2) using fin_stop [of ?r c "core l"] by (simp del: pbind_Parsed)
  then have "parsepipe k (pr 3 l @ ?r) = Parsed (PipeCmd c d, skip_ws s)"
    using d(2) k'(1) by (subst parsepipe.simps) (simp add: peek_nxt gettoken_sym parse_skip2)
  moreover have "rep (pr 3 l @ ?r) (PipeCmd c d) (Pipe l r)"
    using rep_two(1) [OF c(1)] rep_append [OF d(1), of "pr 3 l @ symc CHR ''|''"] by simp
  ultimately show "\<exists>c. rep (pr 2 (Pipe l r) @ s) c (Pipe l r) \<and> parsepipe k (pr 2 (Pipe l r) @ s) = Parsed (c, skip_ws s)" unfolding e by blast
qed

lemma Bg_B:
  assumes b: "atB t" shows "atB (Bg t)"
  unfolding atB_def
proof (intro allI impI)
  fix k s assume k: "length (pr 1 (Bg t) @ s) \<le> k"
  have e: "pr 1 (Bg t) @ s = pr 1 t @ symc CHR ''&'' @ s" by (simp add: paren_def)
  obtain c where c: "rep (pr 1 t @ symc CHR ''&'' @ s) c t"
    "pbind (parsepipe k (pr 1 t @ symc CHR ''&'' @ s)) (\<lambda>(c, s). Parsed (parse_backs c s)) = Parsed (parse_backs c (symc CHR ''&'' @ s))"
    using atBD [OF b, of "symc CHR ''&'' @ s" k] k e by auto
  then show "\<exists>c. rep (pr 1 (Bg t) @ s) c (Bg t) \<and>
      pbind (parsepipe k (pr 1 (Bg t) @ s)) (\<lambda>(c, s). Parsed (parse_backs c s)) = Parsed (parse_backs c s)"
    unfolding e parse_backs_bg using rep_two(3) by blast
qed

lemma Lst_L:
  assumes b: "atB l" and l: "atL r" shows "atL (Lst l r)"
  unfolding atL_def
proof (intro allI impI)
  fix k s assume k: "length (pr 0 (Lst l r) @ s) \<le> k" and n: "isc (nxt s) '')'' \<or> nxt s = None"
  let ?r = "symc CHR '';'' @ pr 0 r @ s"
  have e: "pr 0 (Lst l r) @ s = pr 1 l @ ?r" by (simp add: paren_def)
  obtain c where c: "rep (pr 1 l @ ?r) c l"
    "pbind (parsepipe k (pr 1 l @ ?r)) (\<lambda>(c, s). Parsed (parse_backs c s)) = Parsed (parse_backs c ?r)"
    using atBD [OF b, of ?r k] k e by auto
  obtain k' where k': "k = Suc k'" "length (pr 0 r @ s) \<le> k'" using k e by (cases k) (auto simp: symc_def)
  obtain d where d: "rep (pr 0 r @ s) d r" "parseline k' (pr 0 r @ s) = Parsed (d, skip_ws s)" using l k'(2) n unfolding atL_def by blast
  have "parse_backs c ?r = (c, ?r)" using parse_backs_none [of ?r c] by simp
  then have "parseline k (pr 1 l @ ?r) = Parsed (ListCmd c d, skip_ws s)"
    using parseline_eq [of k "pr 1 l @ ?r" c ?r] c(2) d(2) k'(1) by (simp add: gettoken_sym parse_skip2)
  moreover have "rep (pr 1 l @ ?r) (ListCmd c d) (Lst l r)"
    using rep_two(2) [OF c(1)] rep_append [OF d(1), of "pr 1 l @ symc CHR '';''"] by simp
  ultimately show "\<exists>c. rep (pr 0 (Lst l r) @ s) c (Lst l r) \<and> parseline k (pr 0 (Lst l r) @ s) = Parsed (c, skip_ws s)" unfolding e by blast
qed

lemma written_parses: "wf_scmd t \<Longrightarrow> atX t \<and> atP t \<and> atB t \<and> atL t"
proof (induction t)
  case (Exec ws)
  then have x: "atX (Exec ws)" by (rule Exec_X)
  note p = X_to_P [OF x] note b = P_to_B [OF p]
  show ?case using x p b B_to_L [OF b] by simp
next
  case (Redir t f m fd)
  then have x: "atX (Redir t f m fd)" by (intro Redir_X) auto
  note p = X_to_P [OF x] note b = P_to_B [OF p]
  show ?case using x p b B_to_L [OF b] by simp
next
  case (Pipe l r)
  then have p: "atP (Pipe l r)" by (intro Pipe_P) auto
  have b: "atB (Pipe l r)" by (rule P_to_B [OF p]) (simp add: paren_def)
  have l: "atL (Pipe l r)" by (rule B_to_L [OF b]) (simp add: paren_def)
  show ?case using p b l L_to_X [OF l] by (simp add: paren_def)
next
  case (Lst l r)
  then have l: "atL (Lst l r)" by (intro Lst_L) auto
  have x: "atX (Lst l r)" by (rule L_to_X [OF l]) (simp_all add: paren_def)
  have p: "atP (Lst l r)" by (rule X_to_P [OF x]) (simp add: paren_def)
  show ?case using l x p P_to_B [OF p] by (simp add: paren_def)
next
  case (Bg t)
  then have b: "atB (Bg t)" by (intro Bg_B) auto
  have l: "atL (Bg t)" by (rule B_to_L [OF b]) (simp add: paren_def)
  have x: "atX (Bg t)" by (rule L_to_X [OF l]) (simp_all add: paren_def)
  show ?case using b l x X_to_P [OF x] by (simp add: paren_def)
qed

lemma pr_no_zero: "wf_scmd t \<Longrightarrow> 0 \<notin> set (pr n t)"
  by (induction t arbitrary: n) (auto simp: words_def redir_def symc_def paren_def word_ok_def)

section \<open>Properties\<close>

text \<open>C24: the parser returns on every line: the recursion of the grammar never needs more steps than the line has characters.\<close>

theorem sh_parser_returns: "parsecmd s \<noteq> NoFuel"
  using parse_good(1) [of s "length s"]
  by (auto simp: parsecmd_def pbind_NoFuel good_def peek_def Let_def split: if_splits)

text \<open>
  C25: after \<open>nulterminate\<close> the strings that a parsed command points to are the words of the line between its pointers, each a
  whole word: writing the zeros damages none of them.
\<close>

theorem sh_strings_are_words:
  assumes "parsecmd s = Parsed (cmd, buf)" "0 \<notin> set s"
  shows "tree (string_at (length s) buf) cmd = tree (word_at s) cmd \<and> (\<forall>p \<in> set (ptrs cmd). tok s p (word_at s p))"
  using parsecmd_strings [OF assms] tok_word_at by (auto simp: toks_ok_def)

text \<open>
  C23: every command with fewer than ten arguments to a program, written with parentheses where the grammar needs them, is parsed back: \<open>parsecmd\<close> returns a command whose
  strings are those of the original and whose structure is the same.
\<close>

theorem sh_parses_written_command:
  assumes "wf_scmd t"
  shows "\<exists>cmd buf. parsecmd (pr 0 t) = Parsed (cmd, buf) \<and> tree (string_at (length (pr 0 t)) buf) cmd = t"
proof -
  obtain c where c: "rep (pr 0 t) c t" "parseline (length (pr 0 t)) (pr 0 t) = Parsed (c, [])"
    using written_parses [OF assms] unfolding atL_def by (metis append_Nil2 le_refl nxt_simps(1) skip_ws_Nil(1))
  let ?b = "nulterminate (length (pr 0 t)) c (pr 0 t @ [0])"
  have p: "parsecmd (pr 0 t) = Parsed (c, ?b)" using c(2) by (simp add: parsecmd_def peek_def)
  show ?thesis
    using p parsecmd_strings(2) [OF p pr_no_zero [OF assms]] c(1) by (auto simp: rep_def)
qed

theorem sh_parses_written_command_witness:
  "\<exists>cmd buf. parsecmd (pr 0 (Pipe (Exec [[0x6c, 0x73]]) (Bg (Exec [[0x77, 0x63]])))) = Parsed (cmd, buf) \<and>
     tree (string_at (length (pr 0 (Pipe (Exec [[0x6c, 0x73]]) (Bg (Exec [[0x77, 0x63]]))))) buf) cmd =
       Pipe (Exec [[0x6c, 0x73]]) (Bg (Exec [[0x77, 0x63]]))"
  by (rule sh_parses_written_command) (simp add: word_ok_def wordc_def whitespace_def symbols_def)

theorem sh_strings_are_words_witness:
  "\<exists>cmd buf. parsecmd [0x6c, 0x73, sp] = Parsed (cmd, buf) \<and> tree (string_at 3 buf) cmd = tree (word_at [0x6c, 0x73, sp]) cmd"
proof -
  have "atL (Exec [[0x6c, 0x73]])" using written_parses [of "Exec [[0x6c, 0x73]]"] by (simp add: word_ok_def wordc_def whitespace_def symbols_def)
  then obtain c where "parseline (length [0x6c, 0x73, sp]) [0x6c, 0x73, sp] = Parsed (c, [])"
    unfolding atL_def by (auto simp: words_def numeral_3_eq_3 dest!: spec [of _ 3] spec [of _ "[]"])
  then obtain buf where p: "parsecmd [0x6c, 0x73, sp] = Parsed (c, buf)" by (simp add: parsecmd_def peek_def del: list.size)
  from sh_strings_are_words [OF this] show ?thesis using p by (auto simp: numeral_3_eq_3)
qed

end
