(* ===== verification/Sh_Run.thy ===== *)
theory Sh_Run
  imports Sh_Props Sysfile
begin

text \<open>
  Running a parsed command, \<open>runcmd\<close> of \<^verbatim>\<open>sh.c\<close>: the system calls a process makes, as a tree that branches where the code looks at a
  result or forks.  The command is the one that \<open>parsecmd\<close> returns, with its strings read.  The relation \<open>performs\<close> says what can happen when a process makes
  these calls, with any of them failing: its children, what it waits for and with which open files, the program it turns into.  Its table of open files is the kernel's \<^verbatim>\<open>ofile\<close>
  and descriptors are chosen by the kernel's \<open>fd_find\<close>.
\<close>

section \<open>The system calls of a command\<close>

datatype prog =
    Exit
  | ExecP "u8 list" "u8 list list" prog                 \<comment> \<open>goes on when the call fails\<close>
  | PrintP string "u8 list" prog                        \<comment> \<open>\<^verbatim>\<open>printf(2, fmt, arg)\<close>\<close>
  | CloseP nat prog
  | DupP nat prog
  | OpenP "u8 list" i32 prog prog                       \<comment> \<open>failure, success\<close>
  | ForkP prog prog prog                                \<comment> \<open>failure, child, parent\<close>
  | WaitP prog
  | ChdirP "u8 list" prog prog                          \<comment> \<open>failure, success\<close>
  | PipeP prog "nat \<times> nat \<Rightarrow> prog"                      \<comment> \<open>failure, the two descriptors\<close>

definition sh_panic :: "string \<Rightarrow> prog" where
  "sh_panic m = PrintP ''%s\<newline>'' (map of_char m) Exit"

definition fork1 :: "prog \<Rightarrow> prog \<Rightarrow> prog" where
  "fork1 child parent = ForkP (sh_panic ''fork'') child parent"

fun runcmd :: "scmd \<Rightarrow> prog" where
  "runcmd (Exec argv) =
     (if argv = [] then Exit else ExecP (hd argv) argv (PrintP ''exec %s failed\<newline>'' (hd argv) Exit))"
| "runcmd (Redir cmd file mode fd) =
     CloseP (unat fd) (OpenP file mode (PrintP ''open %s failed\<newline>'' file Exit) (runcmd cmd))"
| "runcmd (Lst left right) = fork1 (runcmd left) (WaitP (runcmd right))"
| "runcmd (Pipe left right) =
     PipeP (sh_panic ''pipe'') (\<lambda>(p0, p1).
       fork1 (CloseP 1 (DupP p1 (CloseP p0 (CloseP p1 (runcmd left)))))
       (fork1 (CloseP 0 (DupP p0 (CloseP p0 (CloseP p1 (runcmd right)))))
       (CloseP p0 (CloseP p1 (WaitP (WaitP Exit))))))"
| "runcmd (Bg cmd) = fork1 (runcmd cmd) Exit"

text \<open>
  The body of the loop of \<open>main\<close> for the line that \<open>getcmd\<close> has read, and the loop on the lines it reads until the end of its
  input.  The text that does not belong to a command, which \<open>parsecmd\<close> prints before its message, is left out.
\<close>

definition sh_line :: "u8 list \<Rightarrow> prog \<Rightarrow> prog" where
  "sh_line buf k =
     (if take 3 buf = map of_char ''cd '' then
        (let dir = drop 3 (butlast buf) in ChdirP dir (PrintP ''cannot cd %s\<newline>'' dir k) k)
      else
        fork1 (case parsecmd buf of
                 Parsed (cmd, b) \<Rightarrow> runcmd (tree (string_at (length buf) b) cmd)
               | Exits m \<Rightarrow> sh_panic m
               | NoFuel \<Rightarrow> Exit)
          (WaitP k))"

fun sh_main :: "u8 list list \<Rightarrow> prog" where
  "sh_main [] = Exit"
| "sh_main (buf # bufs) = PrintP ''$ '' [] (if buf = [] then Exit else sh_line buf (sh_main bufs))"

section \<open>What a process does\<close>

text \<open>Taking the first free descriptor for the file \<open>f\<close>, and the effect of \<^verbatim>\<open>dup\<close> on the table.\<close>

definition fd_put :: "nat \<Rightarrow> nat option list \<Rightarrow> (nat \<times> nat option list) option" where
  "fd_put f t = map_option (\<lambda>fd. (fd, t[fd := Some f])) (fd_find t 0)"

definition dup_fd :: "nat \<Rightarrow> nat option list \<Rightarrow> nat option list" where
  "dup_fd fd t =
     (if fd < length t then
        case t ! fd of None \<Rightarrow> t | Some f \<Rightarrow> (case fd_put f t of None \<Rightarrow> t | Some (_, t) \<Rightarrow> t)
      else t)"

text \<open>This is what the kernel does to the table of the calling process.\<close>

lemma fdalloc_put:
  "fdalloc f s = with_cur (\<lambda>c s. case fd_put f (p_ofile (proc_at c s)) of
     None \<Rightarrow> Ok None s | Some (fd, t) \<Rightarrow> Ok (Some fd) (upd_proc c (\<lambda>x. x\<lparr>p_ofile := t\<rparr>) s)) s"
  by (auto simp: fdalloc_def with_cur_def fd_put_def upd_proc_def proc_at_def split: option.splits)

lemma sys_dup_table:
  assumes c: "cur s = Some c" "c < length (pt_proc s)" and a: "argfd 0 s = Ok (Some (fd, f)) s" "fd < length (p_ofile (proc_at c s))" "p_ofile (proc_at c s) ! fd = Some f"
    and l: "lock_ready FtableLock s" "1 \<le> sint (f_ref (file_at f s))" and d: "fd_find (p_ofile (proc_at c s)) 0 = Some d"
  shows "\<exists>t. sys_dup s = Ok (of_nat d) t \<and> p_ofile (proc_at c t) = dup_fd fd (p_ofile (proc_at c s))"
proof -
  let ?u = "upd_proc c (\<lambda>x. x\<lparr>p_ofile := (p_ofile x)[d := Some f]\<rparr>) s"
  let ?t = "upd_file f (\<lambda>x. x\<lparr>f_ref := f_ref x + 1\<rparr>) ?u"
  have r: "lock_ready FtableLock ?u" using l(1) by (simp add: lock_ready_def upd_proc_def)
  have "fdalloc f s = Ok (Some d) ?u" using c(1) d by (simp add: fdalloc_def with_cur_def)
  moreover have "release FtableLock (upd_file f (\<lambda>x. x\<lparr>f_ref := f_ref x + 1\<rparr>) (held FtableLock ?u)) = Ok () ?t"
    using release_restores [OF r, of "upd_file f (\<lambda>x. x\<lparr>f_ref := f_ref x + 1\<rparr>) (held FtableLock ?u)"] by (simp add: upd_file_def held_def)
  then have "filedup f ?u = Ok f ?t" using acquire_ready [OF r] l(2) by (simp add: filedup_def file_at_def held_def upd_proc_def)
  ultimately have "sys_dup s = Ok (of_nat d) ?t" using a(1) by (simp add: sys_dup_def)
  moreover have "p_ofile (proc_at c ?t) = dup_fd fd (p_ofile (proc_at c s))"
    using c(2) a(2,3) d by (simp add: dup_fd_def fd_put_def upd_file_def upd_proc_def proc_at_def)
  ultimately show ?thesis by blast
qed

text \<open>
  The events of a process, in their order: \<open>Forked\<close> has those of the child, \<open>Waited\<close> and \<open>Exited\<close> the table of open files at that moment and
  \<open>Started\<close> the table with which a program starts.  The files of a new pipe are not open in the process that makes it.
\<close>

datatype event =
    Exited "nat option list"
  | Started "u8 list" "u8 list list" "nat option list"
  | Printed string "u8 list"
  | Opened "u8 list" i32 nat
  | Forked "event list"
  | Waited "nat option list"
  | Moved "u8 list"
  | Piped nat nat

inductive performs :: "prog \<Rightarrow> nat option list \<Rightarrow> event list \<Rightarrow> bool" where
  exit: "performs Exit t [Exited t]"
| exec: "performs (ExecP f argv k) t [Started f argv t]"
| exec_fails: "performs k t es \<Longrightarrow> performs (ExecP f argv k) t es"
| print: "performs k t es \<Longrightarrow> performs (PrintP m x k) t (Printed m x # es)"
| close: "performs k (t[fd := None]) es \<Longrightarrow> performs (CloseP fd k) t es"
| dup: "performs k (dup_fd fd t) es \<Longrightarrow> performs (DupP fd k) t es"
| open_fails: "performs bad t es \<Longrightarrow> performs (OpenP file m bad k) t es"
| opens: "fd_put f t = Some (fd, t') \<Longrightarrow> performs k t' es \<Longrightarrow> performs (OpenP file m bad k) t (Opened file m fd # es)"
| fork_fails: "performs bad t es \<Longrightarrow> performs (ForkP bad child k) t es"
| fork: "performs child t cs \<Longrightarrow> performs k t es \<Longrightarrow> performs (ForkP bad child k) t (Forked cs # es)"
| wait: "performs k t es \<Longrightarrow> performs (WaitP k) t (Waited t # es)"
| chdir_fails: "performs bad t es \<Longrightarrow> performs (ChdirP d bad k) t es"
| chdir: "performs k t es \<Longrightarrow> performs (ChdirP d bad k) t (Moved d # es)"
| pipe_fails: "performs bad t es \<Longrightarrow> performs (PipeP bad k) t es"
| pipe: "rd \<noteq> wr \<Longrightarrow> Some rd \<notin> set t \<Longrightarrow> Some wr \<notin> set t \<Longrightarrow> fd_put rd t = Some (p0, t0) \<Longrightarrow> fd_put wr t0 = Some (p1, t1) \<Longrightarrow>
    performs (k (p0, p1)) t1 es \<Longrightarrow> performs (PipeP bad k) t (Piped rd wr # es)"

inductive_simps performs_Exit: "performs Exit t es"
inductive_simps performs_ExecP: "performs (ExecP f argv k) t es"
inductive_simps performs_PrintP: "performs (PrintP m x k) t es"
inductive_simps performs_CloseP: "performs (CloseP fd k) t es"
inductive_simps performs_DupP: "performs (DupP fd k) t es"
inductive_simps performs_OpenP: "performs (OpenP file m bad k) t es"
inductive_simps performs_ForkP: "performs (ForkP bad child k) t es"
inductive_simps performs_WaitP: "performs (WaitP k) t es"
inductive_simps performs_PipeP: "performs (PipeP bad k) t es"

section \<open>Pipelines\<close>

lemma fd_find_eq: "d < length t \<Longrightarrow> t ! d = None \<Longrightarrow> (\<forall>i < d. t ! i \<noteq> None) \<Longrightarrow> fd_find t k = Some (k + d)"
proof (induction t arbitrary: d k)
  case (Cons x t)
  show ?case
  proof (cases d)
    case (Suc e)
    then have "x \<noteq> None" "e < length t" "t ! e = None" "\<forall>i < e. t ! i \<noteq> None" using Cons.prems by auto
    with Cons.IH [of e "Suc k"] Suc show ?thesis by simp
  qed (use Cons.prems in simp)
qed simp

lemma fd_find_free: "fd_find t k = Some m \<Longrightarrow> k \<le> m \<and> m - k < length t \<and> t ! (m - k) = None"
proof (induction t arbitrary: k)
  case (Cons x t)
  show ?case
  proof (cases "x = None")
    case False
    with Cons have "Suc k \<le> m \<and> m - Suc k < length t \<and> t ! (m - Suc k) = None" by simp
    moreover from this have "m - k = Suc (m - Suc k)" by auto
    ultimately show ?thesis by simp
  qed (use Cons in auto)
qed simp

lemma fd_find_none: "fd_find t k = None \<longleftrightarrow> None \<notin> set t"
  by (induction t arbitrary: k) auto

lemma fd_put_free: "fd_put f t = Some (d, t') \<Longrightarrow> d < length t \<and> t ! d = None \<and> t' = t[d := Some f]"
  using fd_find_free [of t 0] by (auto simp: fd_put_def)

lemma put_back:
  assumes "p \<noteq> q" "t ! p = None" "t ! q = None"
  shows "t[p := a, q := b, p := None, q := None] = t" "k \<noteq> p \<Longrightarrow> k \<noteq> q \<Longrightarrow> t[p := a, q := b, k := c, p := None, q := None] = t[k := c]"
proof -
  show e: "t[p := a, q := b, p := None, q := None] = t"
  proof -
    have "t[p := a, q := b, p := None, q := None] = t[p := None, q := None]" using list_update_swap [OF assms(1) [symmetric], of "t[p := a]" b None] by simp
    also have "\<dots> = t" using list_update_id [of t p] list_update_id [of t q] assms(2,3) by simp
    finally show ?thesis .
  qed
  assume k: "k \<noteq> p" "k \<noteq> q"
  then have "t[p := a, q := b, k := c, p := None, q := None] = t[p := a, q := b, p := None, q := None, k := c]"
    by (simp add: list_update_swap [of k p] list_update_swap [of k q])
  then show "t[p := a, q := b, k := c, p := None, q := None] = t[k := c]" by (simp only: e)
qed

text \<open>The calls of the two sides leave the table of the shell but for one descriptor; those of the shell leave its table.\<close>

lemma pipe_tables:
  assumes t: "1 < length t" "t ! 0 \<noteq> None" "t ! 1 \<noteq> None" and p: "fd_put rd t = Some (p0, t0)" "fd_put wr t0 = Some (p1, t1)"
  shows "(dup_fd p1 (t1[1 := None]))[p0 := None, p1 := None] = t[1 := Some wr]"
    "(dup_fd p0 (t1[0 := None]))[p0 := None, p1 := None] = t[0 := Some rd]" "t1[p0 := None, p1 := None] = t"
proof -
  have p0: "p0 < length t" "t ! p0 = None" "t0 = t[p0 := Some rd]" using fd_put_free [OF p(1)] by simp_all
  have p1: "p1 < length t" "t0 ! p1 = None" "t1 = t0[p1 := Some wr]" using fd_put_free [OF p(2)] p0(3) by simp_all
  have ne: "p0 \<noteq> p1" "t ! p1 = None" using p0 p1 by (auto simp: nth_list_update split: if_splits)
  have d: "p0 \<noteq> 0" "p0 \<noteq> 1" "p1 \<noteq> 0" "p1 \<noteq> 1" using t p0 ne(2) by metis+
  have t1: "t1 = t[p0 := Some rd, p1 := Some wr]" using p0 p1 by simp
  have ne0: "t \<noteq> []" using t(1) by auto
  have f1: "fd_find (t1[1 := None]) 0 = Some 1" using fd_find_eq [of 1 "t1[1 := None]" 0] t d t1 by (simp add: nth_list_update)
  have f0: "fd_find (t1[0 := None]) 0 = Some 0" using fd_find_eq [of 0 "t1[0 := None]" 0] t d ne0 t1 by (simp add: nth_list_update)
  have "dup_fd p1 (t1[1 := None]) = t1[1 := Some wr]" "dup_fd p0 (t1[0 := None]) = t1[0 := Some rd]"
    using f1 f0 d ne(1) p0(1) p1(1) t1 by (simp_all add: dup_fd_def fd_put_def)
  then show "(dup_fd p1 (t1[1 := None]))[p0 := None, p1 := None] = t[1 := Some wr]"
    "(dup_fd p0 (t1[0 := None]))[p0 := None, p1 := None] = t[0 := Some rd]" "t1[p0 := None, p1 := None] = t"
    using d put_back [OF ne(1) p0(2) ne(2)] unfolding t1 by simp_all
qed

lemma pipe_fits:
  assumes "p < q" "q < length t" "t ! p = None" "t ! q = None"
  obtains p0 t0 p1 t1 where "fd_put rd t = Some (p0, t0)" "fd_put wr t0 = Some (p1, t1)"
proof -
  have "None \<in> set t" using assms by (metis nth_mem)
  then obtain p0 where a: "fd_find t 0 = Some p0" using fd_find_none [of t 0] by auto
  let ?t0 = "t[p0 := Some rd]"
  have "\<exists>i < length ?t0. ?t0 ! i = None"
  proof (cases "p0 = p")
    case True
    then show ?thesis using assms by (intro exI [of _ q]) (simp add: nth_list_update)
  next
    case False
    then show ?thesis using assms by (intro exI [of _ p]) (simp add: nth_list_update)
  qed
  then have "None \<in> set ?t0" by (metis nth_mem)
  then obtain p1 where "fd_find ?t0 0 = Some p1" using fd_find_none [of ?t0 0] by auto
  with a show thesis using that [of p0 ?t0 p1] by (simp add: fd_put_def)
qed

lemma performs_panic: "performs (sh_panic m) t es \<longleftrightarrow> es = [Printed ''%s\<newline>'' (map of_char m), Exited t]"
  by (auto simp: sh_panic_def performs_PrintP performs_Exit)

lemma performs_redir:
  assumes "fd = 0 \<or> fd = 1 \<and> t ! 0 \<noteq> None" "unat fd < length t"
  shows "performs (runcmd (Redir c f m fd)) t es \<longleftrightarrow>
    es = [Printed ''open %s failed\<newline>'' f, Exited (t[unat fd := None])] \<or> (\<exists>g es'. es = Opened f m (unat fd) # es' \<and> performs (runcmd c) (t[unat fd := Some g]) es')"
proof -
  have "fd_find (t[unat fd := None]) 0 = Some (unat fd)" using fd_find_eq [of "unat fd" "t[unat fd := None]" 0] assms by (auto simp: nth_list_update)
  then show ?thesis by (auto simp: performs_CloseP performs_OpenP performs_PrintP performs_Exit fd_put_def)
qed

text \<open>What the shell does after the call of \<^verbatim>\<open>pipe\<close>.\<close>

lemma performs_pipe_body:
  assumes t: "1 < length t" "t ! 0 \<noteq> None" "t ! 1 \<noteq> None" and p: "fd_put rd t = Some (p0, t0)" "fd_put wr t0 = Some (p1, t1)"
  shows "performs (fork1 (CloseP 1 (DupP p1 (CloseP p0 (CloseP p1 (runcmd l)))))
       (fork1 (CloseP 0 (DupP p0 (CloseP p0 (CloseP p1 (runcmd r))))) (CloseP p0 (CloseP p1 (WaitP (WaitP Exit)))))) t1 es \<longleftrightarrow>
      es = [Printed ''%s\<newline>'' (map of_char ''fork''), Exited t1] \<or>
      (\<exists>el. es = [Forked el, Printed ''%s\<newline>'' (map of_char ''fork''), Exited t1] \<and> performs (runcmd l) (t[1 := Some wr]) el) \<or>
      (\<exists>el er. es = [Forked el, Forked er, Waited t, Waited t, Exited t] \<and> performs (runcmd l) (t[1 := Some wr]) el \<and> performs (runcmd r) (t[0 := Some rd]) er)"
  using pipe_tables [OF t p]
  by (simp only: fork1_def performs_ForkP performs_panic performs_CloseP performs_DupP performs_WaitP performs_Exit) blast

text \<open>
  C26: a pipeline connects its two sides and nothing else.  Whatever calls fail: either a message is printed and the process exits, or there are two children, and the left
  command runs with the files of the shell but the write end of a new pipe as standard output, the right one with the read end as standard input, and the shell itself waits
  twice and exits with its own files, so that no other copy of an end of the pipe is open in any of the three.  With two free descriptors every run of the two sides occurs this way.
\<close>

theorem sh_pipe_connects:
  assumes t: "1 < length t" "t ! 0 \<noteq> None" "t ! 1 \<noteq> None"
  shows "(performs (runcmd (Pipe l r)) t es \<longrightarrow>
      es = [Printed ''%s\<newline>'' (map of_char ''pipe''), Exited t] \<or> (\<exists>rd wr u. es = [Piped rd wr, Printed ''%s\<newline>'' (map of_char ''fork''), Exited u]) \<or>
      (\<exists>rd wr el u. es = [Piped rd wr, Forked el, Printed ''%s\<newline>'' (map of_char ''fork''), Exited u] \<and> performs (runcmd l) (t[1 := Some wr]) el) \<or>
      (\<exists>rd wr el er. rd \<noteq> wr \<and> Some rd \<notin> set t \<and> Some wr \<notin> set t \<and> es = [Piped rd wr, Forked el, Forked er, Waited t, Waited t, Exited t] \<and>
        performs (runcmd l) (t[1 := Some wr]) el \<and> performs (runcmd r) (t[0 := Some rd]) er)) \<and>
    ((\<exists>p q. p < q \<and> q < length t \<and> t ! p = None \<and> t ! q = None) \<longrightarrow> rd \<noteq> wr \<longrightarrow> Some rd \<notin> set t \<longrightarrow> Some wr \<notin> set t \<longrightarrow>
      performs (runcmd l) (t[1 := Some wr]) el \<longrightarrow> performs (runcmd r) (t[0 := Some rd]) er \<longrightarrow>
      performs (runcmd (Pipe l r)) t [Piped rd wr, Forked el, Forked er, Waited t, Waited t, Exited t])"
proof -
  note body = performs_pipe_body [OF t]
  show ?thesis
  proof (intro conjI impI)
    assume "performs (runcmd (Pipe l r)) t es"
    then consider "es = [Printed ''%s\<newline>'' (map of_char ''pipe''), Exited t]"
      | rd wr p0 t0 p1 t1 es' where "rd \<noteq> wr" "Some rd \<notin> set t" "Some wr \<notin> set t" "fd_put rd t = Some (p0, t0)" "fd_put wr t0 = Some (p1, t1)" "es = Piped rd wr # es'"
        "performs (fork1 (CloseP 1 (DupP p1 (CloseP p0 (CloseP p1 (runcmd l)))))
         (fork1 (CloseP 0 (DupP p0 (CloseP p0 (CloseP p1 (runcmd r))))) (CloseP p0 (CloseP p1 (WaitP (WaitP Exit)))))) t1 es'"
      unfolding runcmd.simps performs_PipeP performs_panic prod.case by blast
    then show "es = [Printed ''%s\<newline>'' (map of_char ''pipe''), Exited t] \<or> (\<exists>rd wr u. es = [Piped rd wr, Printed ''%s\<newline>'' (map of_char ''fork''), Exited u]) \<or>
      (\<exists>rd wr el u. es = [Piped rd wr, Forked el, Printed ''%s\<newline>'' (map of_char ''fork''), Exited u] \<and> performs (runcmd l) (t[1 := Some wr]) el) \<or>
      (\<exists>rd wr el er. rd \<noteq> wr \<and> Some rd \<notin> set t \<and> Some wr \<notin> set t \<and> es = [Piped rd wr, Forked el, Forked er, Waited t, Waited t, Exited t] \<and>
        performs (runcmd l) (t[1 := Some wr]) el \<and> performs (runcmd r) (t[0 := Some rd]) er)"
    proof cases
      case 2
      note b = body [OF 2(4,5), THEN iffD1, OF 2(7)]
      show ?thesis using b
      proof (elim disjE)
        assume "es' = [Printed ''%s\<newline>'' (map of_char ''fork''), Exited t1]"
        then show ?thesis using 2(6) by blast
      next
        assume "\<exists>el. es' = [Forked el, Printed ''%s\<newline>'' (map of_char ''fork''), Exited t1] \<and> performs (runcmd l) (t[1 := Some wr]) el"
        then show ?thesis using 2(6) by blast
      next
        assume "\<exists>el er. es' = [Forked el, Forked er, Waited t, Waited t, Exited t] \<and> performs (runcmd l) (t[1 := Some wr]) el \<and> performs (runcmd r) (t[0 := Some rd]) er"
        then show ?thesis using 2(1-3,6) by blast
      qed
    qed blast
  next
    assume "\<exists>p q. p < q \<and> q < length t \<and> t ! p = None \<and> t ! q = None"
    then obtain p0 t0 p1 t1 where p: "fd_put rd t = Some (p0, t0)" "fd_put wr t0 = Some (p1, t1)" using pipe_fits by metis
    assume "rd \<noteq> wr" "Some rd \<notin> set t" "Some wr \<notin> set t" "performs (runcmd l) (t[1 := Some wr]) el" "performs (runcmd r) (t[0 := Some rd]) er"
    then show "performs (runcmd (Pipe l r)) t [Piped rd wr, Forked el, Forked er, Waited t, Waited t, Exited t]"
      using body [OF p, THEN iffD2] p by (auto intro!: performs.pipe)
  qed
qed

text \<open>Two programs, with the console open as the first three descriptors.\<close>

theorem sh_pipe_connects_witness:
  "performs (runcmd (Pipe (Exec [[0x6c, 0x73]]) (Exec [[0x77, 0x63]]))) [Some 0, Some 0, Some 0, None, None]
     [Piped 4 7, Forked [Started [0x6c, 0x73] [[0x6c, 0x73]] [Some 0, Some 7, Some 0, None, None]],
      Forked [Started [0x77, 0x63] [[0x77, 0x63]] [Some 4, Some 0, Some 0, None, None]],
      Waited [Some 0, Some 0, Some 0, None, None], Waited [Some 0, Some 0, Some 0, None, None], Exited [Some 0, Some 0, Some 0, None, None]]"
proof -
  let ?t = "[Some 0, Some 0, Some 0, None, None] :: nat option list"
  have "\<exists>p q. p < q \<and> q < length ?t \<and> ?t ! p = None \<and> ?t ! q = None" by (intro exI [of _ 3] exI [of _ 4]) simp
  moreover have "1 < length ?t" "?t ! 0 \<noteq> None" "?t ! 1 \<noteq> None" by simp_all
  note sh_pipe_connects [OF this, of "Exec [[0x6c, 0x73]]" "Exec [[0x77, 0x63]]" _ 4 7
    "[Started [0x6c, 0x73] [[0x6c, 0x73]] [Some 0, Some 7, Some 0, None, None]]" "[Started [0x77, 0x63] [[0x77, 0x63]] [Some 4, Some 0, Some 0, None, None]]"]
  ultimately show ?thesis by (simp add: performs.exec)
qed

end
