(* ===== verification/Umalloc.thy ===== *)
theory Umalloc
  imports Xv6_Prelude
begin

text \<open>
  The user's memory allocator, \<^verbatim>\<open>umalloc.c\<close>: a circular list of free blocks in order of their addresses, each with a header of 8
  bytes in front.  \<open>h_ptr\<close> and \<open>h_size\<close> are the fields of the header at an address, \<open>base\<close> is the address of the static header,
  and \<^verbatim>\<open>sbrk\<close> is the parameter \<open>sb\<close> on the state \<open>w\<close> of the system.  Sizes are in units of headers, addresses in bytes.  The loops
  take fuel; a result \<open>None\<close> means that it ran out.
\<close>

section \<open>The allocator\<close>

record uheap =
  h_ptr :: "u32 \<Rightarrow> u32"
  h_size :: "u32 \<Rightarrow> u32"
  h_freep :: u32

definition hnext :: "u32 \<Rightarrow> u32 \<Rightarrow> u32" where
  "hnext p n = p + 8 * n"   \<comment> \<open>pointer arithmetic: \<^verbatim>\<open>p + n\<close> for a \<^verbatim>\<open>Header *p\<close>\<close>

fun free_find :: "nat \<Rightarrow> u32 \<Rightarrow> u32 \<Rightarrow> uheap \<Rightarrow> u32 option" where
  "free_find 0 bp p s = None"
| "free_find (Suc k) bp p s =
     (if p < bp \<and> bp < h_ptr s p then Some p
      else if p \<ge> h_ptr s p \<and> (bp > p \<or> bp < h_ptr s p) then Some p
      else free_find k bp (h_ptr s p) s)"

definition join_next :: "u32 \<Rightarrow> u32 \<Rightarrow> uheap \<Rightarrow> uheap" where
  "join_next bp p s =
     (let n = h_ptr s p in
      if hnext bp (h_size s bp) = n then
        s\<lparr>h_size := (h_size s)(bp := h_size s bp + h_size s n), h_ptr := (h_ptr s)(bp := h_ptr s n)\<rparr>
      else s\<lparr>h_ptr := (h_ptr s)(bp := n)\<rparr>)"

definition join_prev :: "u32 \<Rightarrow> u32 \<Rightarrow> uheap \<Rightarrow> uheap" where
  "join_prev bp p s =
     (if hnext p (h_size s p) = bp then
        s\<lparr>h_size := (h_size s)(p := h_size s p + h_size s bp), h_ptr := (h_ptr s)(p := h_ptr s bp)\<rparr>
      else s\<lparr>h_ptr := (h_ptr s)(p := bp)\<rparr>)"

definition ufree :: "nat \<Rightarrow> u32 \<Rightarrow> uheap \<Rightarrow> uheap option" where
  "ufree k ap s =
     (let bp = ap - 8 in
      case free_find k bp (h_freep s) s of
        None \<Rightarrow> None
      | Some p \<Rightarrow> Some ((join_prev bp p (join_next bp p s))\<lparr>h_freep := p\<rparr>))"

definition morecore :: "nat \<Rightarrow> (u32 \<Rightarrow> 'w \<Rightarrow> u32 \<times> 'w) \<Rightarrow> u32 \<Rightarrow> uheap \<Rightarrow> 'w \<Rightarrow> (u32 \<times> uheap \<times> 'w) option" where
  "morecore k sb nu s w =
     (let nu = (if nu < 4096 then 4096 else nu);
          (p, w) = sb (nu * 8) w
      in if p = - 1 then Some (0, s, w)
         else case ufree k (hnext p 1) (s\<lparr>h_size := (h_size s)(p := nu)\<rparr>) of
                None \<Rightarrow> None
              | Some s \<Rightarrow> Some (h_freep s, s, w))"

text \<open>Taking a block of \<open>nunits\<close> from the end of the free block \<open>p\<close>, or all of it.\<close>

definition take_block :: "u32 \<Rightarrow> u32 \<Rightarrow> u32 \<Rightarrow> uheap \<Rightarrow> u32 \<times> uheap" where
  "take_block nunits prevp p s =
     (let (p, s) =
        (if h_size s p = nunits then (p, s\<lparr>h_ptr := (h_ptr s)(prevp := h_ptr s p)\<rparr>)
         else let s = s\<lparr>h_size := (h_size s)(p := h_size s p - nunits)\<rparr>; q = hnext p (h_size s p)
              in (q, s\<lparr>h_size := (h_size s)(q := nunits)\<rparr>))
      in (hnext p 1, s\<lparr>h_freep := prevp\<rparr>))"

fun malloc_loop :: "nat \<Rightarrow> (u32 \<Rightarrow> 'w \<Rightarrow> u32 \<times> 'w) \<Rightarrow> u32 \<Rightarrow> u32 \<Rightarrow> u32 \<Rightarrow> uheap \<Rightarrow> 'w \<Rightarrow> (u32 \<times> uheap \<times> 'w) option" where
  "malloc_loop 0 sb nunits prevp p s w = None"
| "malloc_loop (Suc k) sb nunits prevp p s w =
     (if h_size s p \<ge> nunits then (let (r, s) = take_block nunits prevp p s in Some (r, s, w))
      else if p = h_freep s then
        (case morecore k sb nunits s w of
           None \<Rightarrow> None
         | Some (p, s, w) \<Rightarrow> if p = 0 then Some (0, s, w) else malloc_loop k sb nunits p (h_ptr s p) s w)
      else malloc_loop k sb nunits p (h_ptr s p) s w)"

definition units :: "u32 \<Rightarrow> u32" where
  "units nbytes = (nbytes + 8 - 1) div 8 + 1"

definition malloc_init :: "u32 \<Rightarrow> uheap \<Rightarrow> uheap" where
  "malloc_init base s =
     (if h_freep s = 0 then s\<lparr>h_ptr := (h_ptr s)(base := base), h_freep := base, h_size := (h_size s)(base := 0)\<rparr> else s)"

definition malloc :: "nat \<Rightarrow> (u32 \<Rightarrow> 'w \<Rightarrow> u32 \<times> 'w) \<Rightarrow> u32 \<Rightarrow> u32 \<Rightarrow> uheap \<Rightarrow> 'w \<Rightarrow> (u32 \<times> uheap \<times> 'w) option" where
  "malloc k sb base nbytes s w =
     (let s = malloc_init base s
      in malloc_loop k sb (units nbytes) (h_freep s) (h_ptr s (h_freep s)) s w)"

end
