(* ===== verification/Umalloc_Laws.thy ===== *)
theory Umalloc_Laws
  imports Umalloc Chain
begin

text \<open>
  The free list of the user's allocator: a ring of blocks in the order of their addresses, no two of which touch.  The lemmas show that freeing
  and allocating keep it so, and what they do to the set of free bytes.
\<close>

section \<open>The free list\<close>

text \<open>The end of the block at \<open>a\<close>, the bytes of a block, and those of all blocks of a list.\<close>

definition en :: "uheap \<Rightarrow> u32 \<Rightarrow> nat" where
  "en s a = unat a + 8 * unat (h_size s a)"

definition blk :: "uheap \<Rightarrow> u32 \<Rightarrow> nat set" where
  "blk s a = {unat a..<en s a}"

definition cells :: "uheap \<Rightarrow> u32 list \<Rightarrow> nat set" where
  "cells s ns = (\<Union>a \<in> set ns. blk s a)"

text \<open>
  The blocks of a list lie in its order, apart from each other, and in the address space: no two of them touch.
\<close>

definition ordered :: "uheap \<Rightarrow> u32 list \<Rightarrow> bool" where
  "ordered s ns \<longleftrightarrow> sorted_wrt (\<lambda>a b. en s a < unat b) ns \<and> (\<forall>a \<in> set ns. en s a < 2 ^ 32)"

definition heap_ok :: "u32 \<Rightarrow> uheap \<Rightarrow> u32 list \<Rightarrow> bool" where
  "heap_ok base s rest \<longleftrightarrow> nchain (h_ptr s) base rest base \<and> ordered s (base # rest) \<and> base \<noteq> 0 \<and> h_size s base = 0 \<and>
     (\<forall>a \<in> set rest. h_size s a \<noteq> 0) \<and> h_freep s \<in> set (base # rest)"

lemma en_ge: "unat a \<le> en s a"
  by (simp add: en_def)

lemma ordered_append:
  "ordered s (xs @ ys) \<longleftrightarrow> ordered s xs \<and> ordered s ys \<and> (\<forall>x \<in> set xs. \<forall>y \<in> set ys. en s x < unat y)"
  by (auto simp: ordered_def sorted_wrt_append)

lemma ordered_Cons:
  "ordered s (x # ys) \<longleftrightarrow> en s x < 2 ^ 32 \<and> (\<forall>y \<in> set ys. en s x < unat y) \<and> ordered s ys"
  by (auto simp: ordered_def)

lemma ordered_Nil [simp]: "ordered s []"
  by (simp add: ordered_def)

lemma ordered_cong: "(\<And>a. a \<in> set ns \<Longrightarrow> h_size t a = h_size s a) \<Longrightarrow> ordered t ns = ordered s ns"
proof -
  assume a: "\<And>a. a \<in> set ns \<Longrightarrow> h_size t a = h_size s a"
  then have e: "\<forall>a \<in> set ns. en t a = en s a" by (simp add: en_def)
  have "sorted_wrt (\<lambda>a b. en t a < unat b) ns = sorted_wrt (\<lambda>a b. en s a < unat b) ns"
    using e by (induction ns) auto
  with e show ?thesis by (simp add: ordered_def)
qed

lemma cells_cong: "(\<And>a. a \<in> set ns \<Longrightarrow> h_size t a = h_size s a) \<Longrightarrow> cells t ns = cells s ns"
  by (simp add: cells_def blk_def en_def)

lemma cells_simps [simp]: "cells s [] = {}" "cells s (a # ns) = blk s a \<union> cells s ns" "cells s (xs @ ys) = cells s xs \<union> cells s ys"
  by (auto simp: cells_def)

lemma hnext_unat: "unat p + 8 * unat n < 2 ^ 32 \<Longrightarrow> unat (hnext p n) = unat p + 8 * unat n"
  by (simp add: hnext_def unat_word_ariths)

lemma hnext_eq: "en s p < 2 ^ 32 \<Longrightarrow> hnext p (h_size s p) = q \<longleftrightarrow> en s p = unat q"
  using hnext_unat [of p "h_size s p"] by (auto simp: en_def word_unat_eq_iff)

lemma ordered_distinct: "ordered s ns \<Longrightarrow> distinct ns"
proof (induction ns)
  case (Cons a ns)
  then have "a \<notin> set ns" using en_ge [of a s] by (auto simp: ordered_Cons dest!: bspec [of _ _ a])
  with Cons show ?case by (simp add: ordered_Cons)
qed simp

text \<open>The place of a new block: the last block before it, and those behind it.\<close>

lemma place_block:
  assumes o: "ordered s (b # rest)" and b: "unat b < unat bp" "bp \<notin> set rest"
  obtains as p cs where "b # rest = as @ p # cs" "\<forall>a \<in> set (as @ [p]). unat a < unat bp" "\<forall>c \<in> set cs. unat bp < unat c"
proof -
  let ?P = "\<lambda>a. unat a < unat bp"
  have ne: "takeWhile ?P (b # rest) \<noteq> []" using b by simp
  let ?t = "takeWhile ?P (b # rest)" and ?d = "dropWhile ?P (b # rest)"
  have "\<forall>c \<in> set ?d. unat bp < unat c"
  proof (cases ?d)
    case (Cons c cs)
    have "\<not> ?P c" using hd_dropWhile [of ?P "b # rest"] Cons by (metis list.sel(1) list.distinct(1))
    moreover have "c \<in> set (b # rest)" using set_dropWhileD [of c ?P "b # rest"] Cons by simp
    ultimately have c: "unat bp < unat c" using b by (cases "c = bp") (auto simp: not_less le_less word_unat_eq_iff)
    have "ordered s (?t @ ?d)" using o by simp
    then have "\<forall>x \<in> set cs. en s c < unat x" unfolding Cons ordered_append ordered_Cons by blast
    then show ?thesis using c en_ge [of c s] Cons by fastforce
  qed simp
  moreover have "b # rest = butlast ?t @ last ?t # ?d" using ne takeWhile_dropWhile_id [of ?P "b # rest"]
    by (metis append.assoc append_Cons append_Nil append_butlast_last_id)
  moreover have "\<forall>a \<in> set (butlast ?t @ [last ?t]). ?P a" using ne set_takeWhileD [of _ ?P "b # rest"] by (metis append_butlast_last_id)
  ultimately show thesis using that by blast
qed

section \<open>Freeing\<close>

lemma free_find_walk:
  "nchain (h_ptr s) x xs y \<Longrightarrow>
   \<forall>a \<in> set (x # xs). \<not> (a < bp \<and> bp < h_ptr s a) \<and> \<not> (a \<ge> h_ptr s a \<and> (bp > a \<or> bp < h_ptr s a)) \<Longrightarrow> length xs < k \<Longrightarrow>
   free_find k bp x s = free_find (k - Suc (length xs)) bp y s"
proof (induction xs arbitrary: x k)
  case Nil
  then show ?case by (cases k) auto
next
  case (Cons a xs)
  then have "free_find (k - 1) bp a s = free_find (k - 1 - Suc (length xs)) bp y s" by auto
  with Cons.prems show ?case by (cases k) auto
qed

lemma ring_next:
  "nchain n b rest b \<Longrightarrow> b # rest = as @ p # cs \<Longrightarrow> n p = hd (cs @ [b]) \<and> nchain n p cs b \<and> (as \<noteq> [] \<longrightarrow> as = b # tl as \<and> nchain n b (tl as) p)"
  by (cases as) (auto dest: nchain_fst)

lemma ordered_mid: "ordered s (as @ p # cs) \<Longrightarrow> a \<in> set as \<Longrightarrow> unat a < unat p"
  using en_ge [of a s] by (fastforce simp: ordered_append)

lemma ordered_front: "ordered s (p # cs) \<Longrightarrow> c \<in> set cs \<Longrightarrow> unat p < unat c"
  using en_ge [of p s] by (fastforce simp: ordered_Cons)

text \<open>Before the last block in front of the new one the search goes on, and so it does behind the new one.\<close>

lemma search_before:
  assumes o: "ordered s (b # rest)" and n: "nchain (h_ptr s) b rest b" and e: "b # rest = as @ p # cs" and p: "unat p < unat bp" and a: "a \<in> set as"
  shows "\<not> (a < bp \<and> bp < h_ptr s a) \<and> \<not> (a \<ge> h_ptr s a \<and> (bp > a \<or> bp < h_ptr s a))"
proof -
  obtain xs ys where s: "as = xs @ a # ys" using a by (auto simp: in_set_conv_decomp)
  then have "h_ptr s a = hd ((ys @ p # cs) @ [b])" using ring_next [OF n, of xs a "ys @ p # cs"] e by simp
  then have q: "h_ptr s a \<in> set (ys @ [p])" by (cases ys) auto
  have "ordered s (xs @ a # (ys @ p # cs))" "ordered s ((xs @ a # ys) @ p # cs)" using o e s by simp_all
  then have "unat a < unat (h_ptr s a)" "unat (h_ptr s a) \<le> unat p"
    using q ordered_front [of s a "ys @ p # cs"] ordered_mid [of s "xs @ a # ys" p cs] by (auto simp: ordered_append le_less)
  with p show ?thesis by (auto simp: word_less_nat_alt word_le_nat_alt)
qed

lemma search_behind:
  assumes o: "ordered s (b # rest)" and n: "nchain (h_ptr s) b rest b" and e: "b # rest = as @ p # cs" and p: "unat b < unat bp" and a: "a \<in> set cs" "unat bp < unat a"
  shows "\<not> (a < bp \<and> bp < h_ptr s a) \<and> \<not> (a \<ge> h_ptr s a \<and> (bp > a \<or> bp < h_ptr s a))"
proof -
  obtain xs ys where s: "cs = xs @ a # ys" using a by (auto simp: in_set_conv_decomp)
  have h: "h_ptr s a = hd (ys @ [b])" using ring_next [OF n, of "as @ p # xs" a ys] e s by simp
  have "ordered s ((as @ p # xs) @ a # ys)" using o e s by simp
  then have "h_ptr s a = b \<or> unat a < unat (h_ptr s a)"
    using h ordered_front [of s a ys "h_ptr s a"] unfolding ordered_append by (cases ys) auto
  with p a show ?thesis by (auto simp: word_less_nat_alt word_le_nat_alt)
qed

lemma found_here:
  assumes o: "ordered s (b # rest)" and n: "nchain (h_ptr s) b rest b" and e: "b # rest = as @ p # cs"
    and p: "unat p < unat bp" "\<forall>c \<in> set cs. unat bp < unat c"
  shows "0 < k \<Longrightarrow> free_find k bp p s = Some p"
proof -
  have h: "h_ptr s p = hd (cs @ [b])" using ring_next [OF n e] by simp
  have "unat b \<le> unat p" using o e ordered_front [of s b rest p] by (cases as) auto
  with h p show "0 < k \<Longrightarrow> free_find k bp p s = Some p" by (cases k; cases cs) (auto simp: word_less_nat_alt word_le_nat_alt)
qed

lemma free_find_ok:
  assumes o: "ordered s (b # rest)" and n: "nchain (h_ptr s) b rest b" and e: "b # rest = as @ p # cs" and b: "unat b < unat bp"
    and p: "\<forall>a \<in> set (as @ [p]). unat a < unat bp" "\<forall>c \<in> set cs. unat bp < unat c" and f: "f \<in> set (b # rest)"
    and k: "length rest < k"
  shows "free_find k bp f s = Some p"
proof -
  have here: "free_find j bp p s = Some p" if "0 < j" for j using found_here [OF o n e _ p(2) that] p(1) by simp
  have from_b: "free_find j bp b s = Some p" if "length as < j" for j
  proof (cases as)
    case Nil
    then show ?thesis using e here [of j] that by auto
  next
    case (Cons x xs)
    then have c: "nchain (h_ptr s) b xs p" "x = b" using ring_next [OF n e] e by auto
    have "free_find j bp b s = free_find (j - Suc (length xs)) bp p s"
      using search_before [OF o n e, of bp] p Cons c that by (intro free_find_walk) auto
    then show ?thesis using here [of "j - Suc (length xs)"] that Cons by simp
  qed
  have l: "length rest = length as + length cs" using arg_cong [OF e, of length] by simp
  consider "f \<in> set as" | "f = p" | "f \<in> set cs" using f e by auto
  then show ?thesis
  proof cases
    case 1
    then obtain xs ys where s: "as = xs @ f # ys" by (auto simp: in_set_conv_decomp)
    have "nchain (h_ptr s) f (ys @ p # cs) b" using ring_next [OF n, of xs f "ys @ p # cs"] e s by simp
    then have "free_find k bp f s = free_find (k - Suc (length ys)) bp p s"
      using search_before [OF o n e, of bp] p s k l by (intro free_find_walk) auto
    then show ?thesis using here [of "k - Suc (length ys)"] k l s by simp
  next
    case 2
    then show ?thesis using here [of k] k by simp
  next
    case 3
    then obtain xs ys where s: "cs = xs @ f # ys" by (auto simp: in_set_conv_decomp)
    have "nchain (h_ptr s) f ys b" using ring_next [OF n, of "as @ p # xs" f ys] e s by simp
    then have "free_find k bp f s = free_find (k - Suc (length ys)) bp b s"
      using search_behind [OF o n e b] p s k l by (intro free_find_walk) auto
    then show ?thesis using from_b [of "k - Suc (length ys)"] k l s by simp
  qed
qed

lemma unat_add_size: "a + 8 * unat x + 8 * unat y < 2 ^ 32 \<Longrightarrow> unat (x + y) = unat x + unat y" for x y :: u32
  by (simp add: unat_word_ariths)

lemma ring_build:
  "b # rest = as @ p # cs \<Longrightarrow> nchain n p cs b \<Longrightarrow> (as \<noteq> [] \<longrightarrow> nchain n b (tl as) p) \<Longrightarrow> nchain n b rest b"
  by (cases as) auto

lemma heap_okI:
  assumes "nchain (h_ptr t) b rest b" "ordered t (b # rest)" "b \<noteq> 0" "h_size t b = 0" "\<forall>a \<in> set (b # rest) - {b}. h_size t a \<noteq> 0" "p \<in> set (b # rest)"
  shows "heap_ok b (t\<lparr>h_freep := p\<rparr>) rest"
proof -
  have "ordered (t\<lparr>h_freep := p\<rparr>) (b # rest)" using assms(2) by (subst ordered_cong [of _ _ t]) auto
  moreover have "b \<notin> set rest" using ordered_distinct [OF assms(2)] by simp
  ultimately show ?thesis using assms by (auto simp: heap_ok_def)
qed

lemma join_next_ok:
  assumes h: "nchain (h_ptr s) p cs b" "ordered s cs" "bp \<notin> set (b # p # cs)" "unat b < unat bp"
    and bp: "h_size s bp \<noteq> 0" "en s bp < 2 ^ 32" "\<forall>c \<in> set cs. en s bp \<le> unat c"
  obtains cs1 where "nchain (h_ptr (join_next bp p s)) bp cs1 b" "ordered (join_next bp p s) (bp # cs1)" "set cs1 \<subseteq> set cs"
    "cells (join_next bp p s) (bp # cs1) = blk s bp \<union> cells s cs" "h_size s bp \<le> h_size (join_next bp p s) bp" "length cs1 \<le> length cs"
proof (cases "hnext bp (h_size s bp) = h_ptr s p")
  case False
  let ?t = "join_next bp p s"
  have t: "?t = s\<lparr>h_ptr := (h_ptr s)(bp := h_ptr s p)\<rparr>" using False by (simp add: join_next_def)
  have "\<forall>c \<in> set cs. en s bp < unat c"
  proof (cases cs)
    case (Cons c xs)
    then have "h_ptr s p = c" using h(1) by simp
    then have "en s bp < unat c" using False bp hnext_eq [OF bp(2), of c] Cons by auto
    then show ?thesis using Cons h(2) ordered_front [of s c xs] by fastforce
  qed simp
  then have "ordered ?t (bp # cs)" using bp h(2) t ordered_cong [of cs ?t s] by (simp add: ordered_Cons en_def)
  moreover have "nchain (h_ptr ?t) bp cs b" using h(1,3) t by (cases cs) auto
  moreover have "cells ?t (bp # cs) = blk s bp \<union> cells s cs" using t cells_cong [of cs ?t s] by (simp add: blk_def en_def)
  ultimately show thesis using that [of cs] bp(1) t by simp
next
  case True
  let ?t = "join_next bp p s"
  have "en s bp = unat (h_ptr s p)" using True hnext_eq [OF bp(2)] by simp
  moreover have "unat b < en s bp" using h(4) en_ge [of bp s] by simp
  ultimately obtain c cs1 where cs: "cs = c # cs1" "en s bp = unat c" "h_ptr s p = c" using h(1) by (cases cs) auto
  have t: "?t = s\<lparr>h_size := (h_size s)(bp := h_size s bp + h_size s c), h_ptr := (h_ptr s)(bp := h_ptr s c)\<rparr>"
    using True cs by (simp add: join_next_def)
  have c: "en s c < 2 ^ 32" "\<forall>x \<in> set cs1. en s c < unat x" "ordered s cs1" using h(2) cs by (simp_all add: ordered_Cons)
  have u: "unat (h_size s bp + h_size s c) = unat (h_size s bp) + unat (h_size s c)"
    using c(1) cs(2) by (intro unat_add_size [of "unat bp"]) (simp add: en_def)
  then have e: "en ?t bp = en s c" using cs(2) by (simp add: t en_def)
  have "ordered ?t cs1 = ordered s cs1" using h(3) cs by (intro ordered_cong) (auto simp: t)
  then have o: "ordered ?t (bp # cs1)" using c e by (simp add: ordered_Cons)
  have "h_size s bp \<le> h_size s bp + h_size s c" using u by (simp add: word_le_nat_alt)
  moreover have "blk ?t bp = blk s bp \<union> blk s c" using e cs(2) en_ge [of bp s] en_ge [of c s] by (auto simp: blk_def)
  moreover have "cells ?t cs1 = cells s cs1" using h(3) cs by (intro cells_cong) (auto simp: t)
  moreover have "nchain (h_ptr ?t) bp cs1 b" using h(1,3) cs t by (cases cs1) auto
  ultimately show thesis using that [of cs1] o cs t by auto
qed

lemma join_next_other: "x \<noteq> bp \<Longrightarrow> h_ptr (join_next bp p s) x = h_ptr s x \<and> h_size (join_next bp p s) x = h_size s x"
  by (simp add: join_next_def Let_def)

lemma join_prev_ok:
  assumes n: "nchain (h_ptr s) bp cs b" "as \<noteq> [] \<longrightarrow> hd as = b \<and> nchain (h_ptr s) b (tl as) p" "as = [] \<longrightarrow> p = b"
    and o: "ordered s (as @ [p])" "ordered s (bp # cs)" "\<forall>a \<in> set as. en s a < unat bp" "en s p \<le> unat bp" "bp \<notin> set (as @ p # cs)"
      "\<forall>a \<in> set (as @ [p]). \<forall>c \<in> set cs. en s a < unat c"
    and z: "h_size s b = 0" "h_size s bp \<noteq> 0" "p = b \<longrightarrow> unat b < unat bp" "\<forall>a \<in> set (as @ p # cs) - {b}. h_size s a \<noteq> 0" "b \<noteq> 0"
  obtains rest where "heap_ok b ((join_prev bp p s)\<lparr>h_freep := p\<rparr>) rest"
    "cells (join_prev bp p s) (b # rest) = cells s (as @ [p]) \<union> cells s (bp # cs)" "\<exists>a \<in> set (b # rest). h_size s bp \<le> h_size (join_prev bp p s) a"
    "length rest \<le> length as + length cs + 1"
proof (cases "hnext p (h_size s p) = bp")
  case False
  let ?t = "join_prev bp p s"
  have t: "?t = s\<lparr>h_ptr := (h_ptr s)(p := bp)\<rparr>" using False by (simp add: join_prev_def)
  obtain rest where r: "b # rest = as @ p # bp # cs" using n(2,3) by (cases as) auto
  have p: "p \<notin> set as" "p \<notin> set cs" "p \<noteq> bp" using o(1,5,6) ordered_distinct [OF o(1)] en_ge [of p s] by (fastforce simp: ordered_append)+
  have "en s p < unat bp" using o(4) False hnext_eq [of s p bp] o(1) by (auto simp: ordered_append ordered_Cons)
  then have "ordered s (as @ p # bp # cs)" using o by (auto simp: ordered_append ordered_Cons)
  then have "ordered ?t (b # rest)" unfolding r t by (subst ordered_cong [of _ _ s]) auto
  moreover have "as \<noteq> [] \<longrightarrow> nchain (h_ptr ?t) b (tl as) p" "nchain (h_ptr ?t) p (bp # cs) b" using n(1,2) p o(5) by (cases as; auto simp: t)+
  then have "nchain (h_ptr ?t) b rest b" by (intro ring_build [OF r])
  moreover have "\<forall>a \<in> set (b # rest) - {b}. h_size ?t a \<noteq> 0" unfolding r using z by (auto simp: t)
  moreover have "h_size ?t b = 0" "p \<in> set (b # rest)" using z(1) r by (auto simp: t)
  moreover have "cells ?t (b # rest) = cells s (as @ [p]) \<union> cells s (bp # cs)" unfolding r by (auto simp: t cells_def blk_def en_def)
  moreover have "\<exists>a \<in> set (b # rest). h_size s bp \<le> h_size ?t a" unfolding r by (auto simp: t)
  moreover have "length rest \<le> length as + length cs + 1" using arg_cong [OF r, of length] by simp
  ultimately show thesis using that [of rest] heap_okI [of ?t b rest p] z(5) by blast
next
  case True
  let ?t = "join_prev bp p s"
  have t: "?t = s\<lparr>h_size := (h_size s)(p := h_size s p + h_size s bp), h_ptr := (h_ptr s)(p := h_ptr s bp)\<rparr>" using True by (simp add: join_prev_def)
  obtain rest where r: "b # rest = as @ p # cs" using n(2,3) by (cases as) auto
  have p: "p \<notin> set as" "p \<notin> set cs" "p \<noteq> bp" using o(1,5,6) ordered_distinct [OF o(1)] en_ge [of p s] by (fastforce simp: ordered_append)+
  have ep: "en s p = unat bp" using True hnext_eq [of s p bp] o(1) by (auto simp: ordered_append ordered_Cons)
  have pb: "p \<noteq> b" using ep z by (auto simp: en_def)
  have u: "unat (h_size s p + h_size s bp) = unat (h_size s p) + unat (h_size s bp)"
    using ep o(2) by (intro unat_add_size [of "unat p"]) (simp add: en_def ordered_Cons)
  then have e1: "en ?t p = en s bp" using ep by (simp add: t en_def)
  have e2: "h_size s p + h_size s bp \<noteq> 0" using u z(2) by (metis add_is_0 unat_eq_0)
  have "ordered ?t cs = ordered s cs" "ordered ?t as = ordered s as" using p by (auto simp: t intro!: ordered_cong)
  moreover have "\<forall>a \<in> set as. en ?t a = en s a" using p by (auto simp: t en_def)
  ultimately have ord: "ordered ?t (b # rest)" unfolding r using o e1 by (auto simp: ordered_append ordered_Cons)
  moreover have "as \<noteq> [] \<longrightarrow> nchain (h_ptr ?t) b (tl as) p" using n(2) p by (cases as) (auto simp: t)
  moreover have "nchain (h_ptr ?t) p cs b" using n(1) p o(5) by (cases cs) (auto simp: t)
  ultimately have "nchain (h_ptr ?t) b rest b" by (intro ring_build [OF r])
  moreover have "\<forall>a \<in> set (b # rest) - {b}. h_size ?t a \<noteq> 0" unfolding r using z e2 by (auto simp: t)
  moreover have "h_size ?t b = 0" "p \<in> set (b # rest)" using z(1) r pb by (auto simp: t)
  moreover have "blk ?t p = blk s p \<union> blk s bp" using e1 ep en_ge [of p s] en_ge [of bp s] by (auto simp: blk_def)
  moreover have "cells ?t as = cells s as" "cells ?t cs = cells s cs" using p by (auto intro!: cells_cong simp: t)
  ultimately have "heap_ok b (?t\<lparr>h_freep := p\<rparr>) rest" using heap_okI [of ?t b rest p] z(5) ord by blast
  moreover have "blk ?t p = blk s p \<union> blk s bp" using e1 ep en_ge [of p s] en_ge [of bp s] by (auto simp: blk_def)
  moreover have "cells ?t as = cells s as" "cells ?t cs = cells s cs" using p by (auto intro!: cells_cong simp: t)
  moreover have "h_size s bp \<le> h_size s p + h_size s bp" using u by (simp add: word_le_nat_alt)
  moreover have "length rest \<le> length as + length cs + 1" using arg_cong [OF r, of length] by simp
  ultimately show thesis using that [of rest] unfolding r by (auto simp: t)
qed

text \<open>Where the block at \<open>bp\<close> belongs when its bytes are not free yet.\<close>

lemma place_apart:
  assumes h: "heap_ok b s rest" and bp: "h_size s bp \<noteq> 0" "unat b < unat bp" "blk s bp \<inter> cells s (b # rest) = {}"
  obtains as p cs where "b # rest = as @ p # cs" "\<forall>a \<in> set (as @ [p]). unat a < unat bp \<and> en s a \<le> unat bp"
    "\<forall>c \<in> set cs. unat bp < unat c \<and> en s bp \<le> unat c" "bp \<notin> set (b # rest)"
proof -
  have o: "ordered s (b # rest)" and z: "\<forall>a \<in> set rest. h_size s a \<noteq> 0" using h by (simp_all add: heap_ok_def)
  have in_blk: "unat a \<in> blk s a" if "h_size s a \<noteq> 0" for a using that by (simp add: blk_def en_def unat_gt_0)
  have new: "bp \<notin> set (b # rest)" using bp in_blk [of bp] by (auto simp: cells_def)
  obtain as p cs where e: "b # rest = as @ p # cs" and lt: "\<forall>a \<in> set (as @ [p]). unat a < unat bp" and gt: "\<forall>c \<in> set cs. unat bp < unat c"
    using place_block [OF o bp(2)] new by auto
  have apart: "en s a \<le> unat bp" if "a \<in> set (as @ [p])" for a
  proof (rule ccontr)
    assume "\<not> en s a \<le> unat bp"
    then have "unat bp \<in> blk s a" using lt that by (auto simp: blk_def)
    moreover have "blk s a \<subseteq> cells s (b # rest)" using that unfolding e by (auto simp: cells_def)
    ultimately show False using bp(3) in_blk [OF bp(1)] by auto
  qed
  have behind: "en s bp \<le> unat c" if "c \<in> set cs" for c
  proof (rule ccontr)
    assume "\<not> en s bp \<le> unat c"
    then have "unat c \<in> blk s bp" using gt that by (auto simp: blk_def)
    moreover have "c \<in> set (b # rest)" "c \<noteq> b" using that gt bp(2) unfolding e by auto
    then have "unat c \<in> cells s (b # rest)" using in_blk [of c] z by (auto simp: cells_def)
    ultimately show False using bp(3) by auto
  qed
  show thesis using that [OF e] lt gt apart behind new by blast
qed

lemma free_block:
  assumes h: "heap_ok b s rest" and bp: "h_size s bp \<noteq> 0" "en s bp < 2 ^ 32" "unat b < unat bp" "blk s bp \<inter> cells s (b # rest) = {}"
    and k: "length rest < k"
  obtains t rest' where "ufree k (bp + 8) s = Some t" "heap_ok b t rest'" "cells t (b # rest') = cells s (b # rest) \<union> blk s bp"
    "\<exists>a \<in> set (b # rest'). h_size s bp \<le> h_size t a" "length rest' \<le> length rest + 1"
proof -
  have o: "ordered s (b # rest)" and n: "nchain (h_ptr s) b rest b" and z: "h_size s b = 0" "\<forall>a \<in> set rest. h_size s a \<noteq> 0" "b \<noteq> 0" "h_freep s \<in> set (b # rest)"
    using h by (simp_all add: heap_ok_def)
  obtain as p cs where e: "b # rest = as @ p # cs" and lt: "\<forall>a \<in> set (as @ [p]). unat a < unat bp \<and> en s a \<le> unat bp"
    and gt: "\<forall>c \<in> set cs. unat bp < unat c \<and> en s bp \<le> unat c" and new: "bp \<notin> set (b # rest)"
    by (rule place_apart [OF h bp(1,3,4)])
  let ?s = "join_next bp p s" and ?t = "(join_prev bp p (join_next bp p s))\<lparr>h_freep := p\<rparr>"
  have r: "nchain (h_ptr s) p cs b" "as \<noteq> [] \<longrightarrow> hd as = b \<and> nchain (h_ptr s) b (tl as) p" "as = [] \<longrightarrow> p = b"
    using ring_next [OF n e] e by (cases as; auto)+
  have o2: "ordered s (as @ [p])" "ordered s cs" "\<forall>a \<in> set (as @ [p]). \<forall>c \<in> set cs. en s a < unat c" "\<forall>a \<in> set as. en s a < unat p"
    using o unfolding e by (auto simp: ordered_append ordered_Cons)
  have new2: "bp \<notin> set (as @ p # cs)" "bp \<noteq> b" using new unfolding e [symmetric] by simp_all
  have same: "x \<noteq> bp \<Longrightarrow> h_ptr ?s x = h_ptr s x \<and> h_size ?s x = h_size s x" for x by (rule join_next_other)
  obtain cs1 where j: "nchain (h_ptr ?s) bp cs1 b" "ordered ?s (bp # cs1)" "set cs1 \<subseteq> set cs"
    "cells ?s (bp # cs1) = blk s bp \<union> cells s cs" "h_size s bp \<le> h_size ?s bp" "length cs1 \<le> length cs"
    by (rule join_next_ok [OF r(1) o2(2) _ bp(3) bp(1,2)]) (use new2 gt in auto)
  have hs: "h_size ?s a = h_size s a" if "a \<in> set (as @ p # cs)" for a using same [of a] new2 that by metis
  then have en: "\<forall>a \<in> set (as @ p # cs). en ?s a = en s a" by (simp add: en_def)
  have ch: "as \<noteq> [] \<longrightarrow> hd as = b \<and> nchain (h_ptr ?s) b (tl as) p"
  proof
    assume a: "as \<noteq> []"
    have "h_ptr ?s x = h_ptr s x" if "x \<in> insert b (set (tl as))" for x
      using same [of x] that new2 a by (cases as) auto
    then show "hd as = b \<and> nchain (h_ptr ?s) b (tl as) p" using nchain_cong [of b "tl as" "h_ptr ?s" "h_ptr s" p] r(2) a by blast
  qed
  have o3: "ordered ?s (as @ [p])" using o2(1) hs by (subst ordered_cong [of _ _ s]) auto
  have nz: "\<forall>a \<in> set (as @ p # cs1) - {b}. h_size ?s a \<noteq> 0"
  proof
    fix a assume "a \<in> set (as @ p # cs1) - {b}"
    then have a: "a \<in> set (as @ p # cs)" "a \<noteq> b" using j(3) by auto
    then have "a \<in> set rest" unfolding e [symmetric] by simp
    then show "h_size ?s a \<noteq> 0" using hs [OF a(1)] z(2) by simp
  qed
  have nz2: "h_size ?s bp \<noteq> 0" "h_size ?s b = 0" using j(5) bp(1) z(1) same [of b] new2 by auto
  have lt2: "\<forall>a \<in> set as. en ?s a < unat bp" "en ?s p \<le> unat bp" "p = b \<longrightarrow> unat b < unat bp"
    using lt en o2(4) by fastforce+
  have gt2: "\<forall>a \<in> set (as @ [p]). \<forall>c \<in> set cs1. en ?s a < unat c" "bp \<notin> set (as @ p # cs1)" using o2(3) j(3) en new2 by auto
  obtain rest' where f: "heap_ok b ?t rest'" "cells (join_prev bp p ?s) (b # rest') = cells ?s (as @ [p]) \<union> cells ?s (bp # cs1)"
    "\<exists>a \<in> set (b # rest'). h_size ?s bp \<le> h_size (join_prev bp p ?s) a" "length rest' \<le> length as + length cs1 + 1"
    by (rule join_prev_ok [OF j(1) ch r(3) o3 j(2) lt2(1,2) gt2(2,1) nz2(2,1) lt2(3) nz z(3)])
  have "cells ?s (as @ [p]) = cells s (as @ [p])" using hs by (intro cells_cong) auto
  moreover have "cells ?t (b # rest') = cells (join_prev bp p ?s) (b # rest')" by (rule cells_cong) simp
  ultimately have c: "cells ?t (b # rest') = cells s (b # rest) \<union> blk s bp" using f(2) j(4) unfolding e by auto
  have "ufree k (bp + 8) s = Some ?t"
    using free_find_ok [OF o n e bp(3), of "h_freep s" k] lt gt z(4) k by (simp add: ufree_def)
  moreover have "\<exists>a \<in> set (b # rest'). h_size s bp \<le> h_size ?t a" using f(3) j(5) by fastforce
  moreover have "length rest' \<le> length rest + 1" using f(4) j(6) arg_cong [OF e, of length] by simp
  ultimately show thesis using that f(1) c by blast
qed

section \<open>Allocating\<close>

lemma ordered_disjoint: "ordered s (xs @ p # ys) \<Longrightarrow> blk s p \<inter> (cells s xs \<union> cells s ys) = {}"
proof -
  assume o: "ordered s (xs @ p # ys)"
  have "blk s a \<inter> blk s p = {}" if "a \<in> set xs" for a
    using o that by (fastforce simp: ordered_append blk_def)
  moreover have "blk s p \<inter> blk s a = {}" if "a \<in> set ys" for a
    using o that by (fastforce simp: ordered_append ordered_Cons blk_def)
  ultimately show ?thesis by (auto simp: cells_def)
qed

definition taken :: "u32 \<Rightarrow> u32 \<Rightarrow> nat set" where
  "taken r n = {unat r - 8..<unat r - 8 + 8 * unat n}"

lemma hnext_1: "unat p + 8 * unat n < 2 ^ 32 \<Longrightarrow> n \<noteq> 0 \<Longrightarrow> unat (hnext p 1) = unat p + 8"
proof -
  assume "unat p + 8 * unat n < 2 ^ 32" "n \<noteq> 0"
  moreover from this(2) have "1 \<le> unat n" by (simp add: unat_gt_0 Suc_le_eq)
  ultimately show ?thesis using hnext_unat [of p 1] by simp
qed

lemma take_whole:
  assumes h: "heap_ok b s rest" and e: "b # rest = as @ prev # p # cs" and n: "h_size s p = n" "n \<noteq> 0"
  shows "\<exists>r t rest'. take_block n prev p s = (r, t) \<and> heap_ok b t rest' \<and> cells s (b # rest) = cells t (b # rest') \<union> taken r n \<and>
    cells t (b # rest') \<inter> taken r n = {} \<and> h_size t (r - 8) = n \<and> 8 \<le> unat r"
proof -
  have o: "ordered s (b # rest)" and c: "nchain (h_ptr s) b rest b" and z: "h_size s b = 0" "\<forall>a \<in> set rest. h_size s a \<noteq> 0" "b \<noteq> 0"
    using h by (simp_all add: heap_ok_def)
  let ?t = "s\<lparr>h_ptr := (h_ptr s)(prev := h_ptr s p)\<rparr>"
  have o': "ordered s ((as @ [prev]) @ p # cs)" using o e by simp
  have d: "distinct ((as @ [prev]) @ p # cs)" by (rule ordered_distinct [OF o'])
  obtain rest' where r: "b # rest' = as @ prev # cs" "set rest' \<subseteq> set rest" using e by (cases as) auto
  have "ordered s (b # rest')" using o' unfolding r by (auto simp: ordered_append ordered_Cons)
  have in_r: "prev \<in> set (b # rest')" unfolding r(1) by simp
  have ot: "ordered ?t (b # rest')" using \<open>ordered s (b # rest')\<close> by (subst ordered_cong [of _ _ s]) auto
  have k: "nchain (h_ptr s) prev (p # cs) b" "as \<noteq> [] \<longrightarrow> as = b # tl as \<and> nchain (h_ptr s) b (tl as) prev" using ring_next [OF c e] by auto
  have "nchain (h_ptr ?t) prev cs b" using k(1) d by (cases cs) auto
  moreover have "as \<noteq> [] \<longrightarrow> nchain (h_ptr ?t) b (tl as) prev" using k(2) d by (cases as) auto
  ultimately have "nchain (h_ptr ?t) b rest' b" by (intro ring_build [OF r(1)])
  then have ok: "heap_ok b (?t\<lparr>h_freep := prev\<rparr>) rest'" using ot z r(2) in_r by (intro heap_okI) auto
  have ep: "en s p < 2 ^ 32" using o' by (simp add: ordered_append ordered_Cons)
  then have u: "unat (hnext p 1) = unat p + 8" "taken (hnext p 1) n = blk s p" "hnext p 1 - 8 = p"
    using hnext_1 [of p n] n by (simp_all add: taken_def blk_def en_def, simp add: hnext_def)
  have "cells (?t\<lparr>h_freep := prev\<rparr>) (b # rest') = cells s (as @ prev # cs)" unfolding r(1) by (rule cells_cong) simp
  moreover have "cells s (b # rest) = cells s (as @ prev # cs) \<union> blk s p" unfolding e by auto
  moreover have "cells s (as @ prev # cs) \<inter> blk s p = {}" using ordered_disjoint [OF o'] by auto
  ultimately show ?thesis using ok u n by (intro exI [of _ "hnext p 1"] exI [of _ "?t\<lparr>h_freep := prev\<rparr>"] exI [of _ rest']) (simp add: take_block_def)
qed

lemma take_part:
  assumes h: "heap_ok b s rest" and e: "b # rest = as @ prev # p # cs" and n: "n < h_size s p" "n \<noteq> 0"
  shows "\<exists>r t rest'. take_block n prev p s = (r, t) \<and> heap_ok b t rest' \<and> cells s (b # rest) = cells t (b # rest') \<union> taken r n \<and>
    cells t (b # rest') \<inter> taken r n = {} \<and> h_size t (r - 8) = n \<and> 8 \<le> unat r"
proof -
  have o: "ordered s (b # rest)" and c: "nchain (h_ptr s) b rest b" and z: "h_size s b = 0" "\<forall>a \<in> set rest. h_size s a \<noteq> 0" "b \<noteq> 0"
    using h by (simp_all add: heap_ok_def)
  have o': "ordered s ((as @ [prev]) @ p # cs)" using o e by simp
  have d: "distinct ((as @ [prev]) @ p # cs)" by (rule ordered_distinct [OF o'])
  let ?m = "h_size s p - n" and ?q = "hnext p (h_size s p - n)"
  have in_b: "prev \<in> set (b # rest)" unfolding e by simp
  define t where "t = s\<lparr>h_size := (h_size s)(p := ?m, ?q := n)\<rparr>"
  have ep: "en s p < 2 ^ 32" using o' by (simp add: ordered_append ordered_Cons)
  have m: "unat ?m = unat (h_size s p) - unat n" "unat n < unat (h_size s p)" using n(1) by (simp_all add: unat_sub word_less_nat_alt word_le_nat_alt)
  have q: "unat ?q = en s p - 8 * unat n" using ep m by (subst hnext_unat) (simp_all add: en_def)
  have "0 < unat n" using n(2) by (simp add: unat_gt_0)
  then have q2: "unat p < unat ?q" "unat ?q < en s p" "unat ?q + 8 * unat n = en s p" using q m by (simp_all add: en_def)
  have "?q \<notin> set ((as @ [prev]) @ p # cs)"
  proof
    assume "?q \<in> set ((as @ [prev]) @ p # cs)"
    then have "?q = p \<or> en s ?q < unat p \<or> en s p < unat ?q" using o' by (auto simp: ordered_append ordered_Cons)
    then show False using q2 en_ge [of ?q s] by auto
  qed
  then have q3: "?q \<noteq> p" "h_size t p = ?m" "h_size t ?q = n" "h_ptr t = h_ptr s"
    "\<And>a. a \<in> set ((as @ [prev]) @ p # cs) \<Longrightarrow> a \<noteq> p \<Longrightarrow> h_size t a = h_size s a" by (auto simp: t_def)
  have ht: "h_size t a = h_size s a" if "a \<in> set (as @ [prev]) \<or> a \<in> set cs" for a using q3(5) [of a] d that by auto
  have et: "en t p = unat ?q" using q3(2) q m by (simp add: en_def)
  have "ordered t (as @ [prev]) = ordered s (as @ [prev])" "ordered t cs = ordered s cs" using ht by (auto intro!: ordered_cong)
  moreover have "\<forall>a \<in> set (as @ [prev]). en t a = en s a" using ht by (auto simp: en_def)
  ultimately have "ordered t ((as @ [prev]) @ p # cs)" using o' et q2 ep by (auto simp: ordered_append ordered_Cons)
  then have ot: "ordered t (b # rest)" unfolding e by simp
  have "p \<noteq> b" using z(1) n(1) by auto
  moreover have "?m \<noteq> 0" using n(1) by auto
  moreover have hb: "h_size t a = h_size s a" if "a \<in> set (b # rest)" "a \<noteq> p" for a using q3(5) [of a] that unfolding e by auto
  ultimately have "\<forall>a \<in> set (b # rest) - {b}. h_size t a \<noteq> 0" "h_size t b = 0" using z q3(2) by (auto, metis)
  then have ok: "heap_ok b (t\<lparr>h_freep := prev\<rparr>) rest" using c ot z(3) q3(4) in_b by (intro heap_okI) simp_all
  have u: "unat (hnext ?q 1) = unat ?q + 8" "taken (hnext ?q 1) n = {unat ?q..<en s p}" "hnext ?q 1 - 8 = ?q"
    using hnext_1 [of ?q n] n(2) q2 ep by (simp_all add: taken_def, simp add: hnext_def)
  have ct: "cells (t\<lparr>h_freep := prev\<rparr>) (b # rest) = cells s (as @ [prev]) \<union> {unat p..<unat ?q} \<union> cells s cs"
  proof -
    have "cells (t\<lparr>h_freep := prev\<rparr>) (as @ [prev]) = cells s (as @ [prev])" by (rule cells_cong) (use ht in auto)
    moreover have "cells (t\<lparr>h_freep := prev\<rparr>) cs = cells s cs" by (rule cells_cong) (use ht in auto)
    moreover have "blk (t\<lparr>h_freep := prev\<rparr>) p = {unat p..<unat ?q}" using et by (simp add: blk_def en_def)
    ultimately show ?thesis unfolding e by auto
  qed
  have dj: "blk s p \<inter> (cells s (as @ [prev]) \<union> cells s cs) = {}" by (rule ordered_disjoint [OF o'])
  have cs: "cells s (b # rest) = cells s (as @ [prev]) \<union> {unat p..<en s p} \<union> cells s cs" unfolding e by (auto simp: blk_def)
  have C: "cells s (b # rest) = cells (t\<lparr>h_freep := prev\<rparr>) (b # rest) \<union> taken (hnext ?q 1) n"
    unfolding ct cs u(2) using q2 by auto
  have D: "cells (t\<lparr>h_freep := prev\<rparr>) (b # rest) \<inter> taken (hnext ?q 1) n = {}" 
  proof -
    have "{unat ?q..<en s p} \<subseteq> blk s p" using q2 by (auto simp: blk_def)
    then have "{unat ?q..<en s p} \<inter> (cells s (as @ [prev]) \<union> cells s cs) = {}" using dj by blast
    then show ?thesis unfolding ct u(2) by auto
  qed
  have "take_block n prev p s = (hnext ?q 1, t\<lparr>h_freep := prev\<rparr>)" using n(1) q3(1) by (auto simp: take_block_def Let_def t_def)
  moreover have "h_size (t\<lparr>h_freep := prev\<rparr>) (hnext ?q 1 - 8) = n" "8 \<le> unat (hnext ?q 1)" using u(1,3) q3(3) by simp_all
  ultimately show ?thesis using ok C D by blast
qed

lemma take_ok:
  assumes "heap_ok b s rest" "b # rest = as @ prev # p # cs" "n \<le> h_size s p" "n \<noteq> 0"
  shows "\<exists>r t rest'. take_block n prev p s = (r, t) \<and> heap_ok b t rest' \<and> cells s (b # rest) = cells t (b # rest') \<union> taken r n \<and>
    cells t (b # rest') \<inter> taken r n = {} \<and> h_size t (r - 8) = n \<and> 8 \<le> unat r"
  using take_whole [OF assms(1,2)] take_part [OF assms(1,2)] assms(3,4) by (cases "h_size s p = n") auto

lemma malloc_walk:
  "nchain (h_ptr s) x xs y \<Longrightarrow> \<forall>a \<in> set xs. h_size s a < n \<and> a \<noteq> h_freep s \<Longrightarrow> length xs \<le> k \<Longrightarrow>
   malloc_loop k sb n x (h_ptr s x) s w = malloc_loop (k - length xs) sb n (last (x # xs)) y s w"
proof (induction xs arbitrary: x k)
  case (Cons a xs)
  then have "malloc_loop (k - 1) sb n a (h_ptr s a) s w = malloc_loop (k - 1 - length xs) sb n (last (a # xs)) y s w" by auto
  with Cons.prems show ?case by (cases k) (auto simp: not_le)
qed simp

lemma nchain_last: "nchain n x xs y \<Longrightarrow> n (last (x # xs)) = y"
  by (induction xs arbitrary: x) auto

lemma ring_inj:
  assumes "nchain n b rest b" "distinct (b # rest)" shows "inj_on n (set (b # rest))"
proof -
  have "map n (x # xs) = xs @ [y]" if "nchain n x xs y" for x xs y using that by (induction xs arbitrary: x) auto
  from this [OF assms(1)] have "distinct (map n (b # rest))" using assms(2) by simp
  then show ?thesis by (rule distinct_map [THEN iffD1, THEN conjunct2])
qed

text \<open>All blocks in the order of the search, from behind \<open>freep\<close> on.\<close>

lemma ring_rotate:
  assumes "nchain n b rest b" "b # rest = as @ f # cs" shows "nchain n f (cs @ as) f"
  using ring_next [OF assms] assms(2) by (cases as) auto

lemma malloc_fit:
  assumes h: "heap_ok b s rest" and fit: "\<exists>a \<in> set (b # rest). n \<le> h_size s a" and n: "n \<noteq> 0" and k: "length rest < k"
  shows "\<exists>r t rest'. malloc_loop k sb n (h_freep s) (h_ptr s (h_freep s)) s w = Some (r, t, w) \<and> heap_ok b t rest' \<and>
    cells s (b # rest) = cells t (b # rest') \<union> taken r n \<and> cells t (b # rest') \<inter> taken r n = {} \<and> h_size t (r - 8) = n \<and> 8 \<le> unat r"
proof -
  let ?f = "h_freep s"
  have o: "ordered s (b # rest)" and c: "nchain (h_ptr s) b rest b" and z: "h_size s b = 0" "?f \<in> set (b # rest)"
    using h by (simp_all add: heap_ok_def)
  have d: "distinct (b # rest)" by (rule ordered_distinct [OF o])
  obtain as cs where e: "b # rest = as @ ?f # cs" using split_list [OF z(2)] by blast
  let ?zs = "cs @ as"
  have rot: "nchain (h_ptr s) ?f ?zs ?f" by (rule ring_rotate [OF c e])
  have nodes: "set (?zs @ [?f]) = set (b # rest)" unfolding e by auto
  have fz: "?f \<notin> set ?zs" using d unfolding e by auto
  obtain us g vs where g: "?zs @ [?f] = us @ g # vs" "n \<le> h_size s g" "\<forall>u \<in> set us. \<not> n \<le> h_size s u"
    using split_list_first_prop [of "?zs @ [?f]" "\<lambda>a. n \<le> h_size s a"] fit nodes by metis
  have us: "nchain (h_ptr s) ?f us g" "set us \<subseteq> set ?zs"
  proof -
    have v: "vs = [] \<and> us = ?zs \<and> g = ?f \<or> (\<exists>vs'. ?zs = us @ g # vs')" using g(1) by (cases vs rule: rev_cases) auto
    then show "nchain (h_ptr s) ?f us g" using rot by auto
    show "set us \<subseteq> set ?zs" using v by (metis Un_upper1 order_refl set_append)
  qed
  let ?p = "last (?f # us)"
  have sub: "set (?f # us) \<subseteq> set (b # rest)" "g \<in> set (b # rest)" using us(2) arg_cong [OF g(1), of set] nodes by auto
  have p: "h_ptr s ?p = g" "?p \<in> set (b # rest)" by (rule nchain_last [OF us(1)], rule subsetD [OF sub(1) last_in_set], simp)
  have "g \<noteq> b" using g(2) n z(1) by auto
  then obtain as' cs' where s: "rest = as' @ g # cs'" using sub(2) by (auto simp: in_set_conv_decomp)
  let ?q = "last (b # as')"
  have "h_ptr s ?q = g" using c s nchain_last [of "h_ptr s" b as' g] by simp
  moreover have "?q \<in> set (b # rest)" using s last_in_set [of "b # as'"] by auto
  ultimately have "?p = ?q" using ring_inj [OF c d] p(1,2) by (auto simp only: inj_on_def)
  then have split: "b # rest = butlast (b # as') @ ?p # g # cs'" using s append_butlast_last_id [of "b # as'"]
    by (metis append.assoc append_Cons append_Nil list.distinct(1))
  have len: "length us \<le> length rest" using arg_cong [OF g(1), of length] arg_cong [OF e, of length] by simp
  have "malloc_loop k sb n ?f (h_ptr s ?f) s w = malloc_loop (k - length us) sb n ?p g s w"
    using us fz g(3) k len by (intro malloc_walk) (auto simp: not_le)
  also have "\<dots> = (let (r, t) = take_block n ?p g s in Some (r, t, w))" using g(2) k len by (cases "k - length us") auto
  finally show ?thesis using take_ok [OF h split g(2) n] by auto
qed

section \<open>Getting more memory\<close>

text \<open>
  What \<^verbatim>\<open>sbrk\<close> promises when it does not fail: memory above the static header, in the address space, that was not handed out before.
\<close>

definition fresh :: "u32 \<Rightarrow> nat set \<Rightarrow> u32 \<Rightarrow> u32 \<Rightarrow> bool" where
  "fresh b used p nu \<longleftrightarrow> p \<noteq> - 1 \<and> unat b < unat p \<and> unat p + 8 * unat nu < 2 ^ 32 \<and> {unat p..<unat p + 8 * unat nu} \<inter> used = {}"

definition core_units :: "u32 \<Rightarrow> u32" where
  "core_units n = (if n < 4096 then 4096 else n)"

lemma core_units_ge: "n \<le> core_units n" "core_units n \<noteq> 0"
  by (auto simp: core_units_def not_less dest: order.trans [of 4096 n 0])

lemma morecore_ok:
  assumes h: "heap_ok b s rest" and p: "sb (core_units n * 8) w = (p, w')" "fresh b (cells s (b # rest)) p (core_units n)" and k: "length rest < k"
  obtains t rest' where "morecore k sb n s w = Some (h_freep t, t, w')" "heap_ok b t rest'" "h_freep t \<noteq> 0"
    "cells t (b # rest') = cells s (b # rest) \<union> {unat p..<unat p + 8 * unat (core_units n)}" "\<exists>a \<in> set (b # rest'). n \<le> h_size t a"
    "length rest' \<le> length rest + 1"
proof -
  let ?nu = "core_units n" and ?s = "s\<lparr>h_size := (h_size s)(p := core_units n)\<rparr>"
  have f: "p \<noteq> - 1" "unat b < unat p" "unat p + 8 * unat ?nu < 2 ^ 32" "{unat p..<unat p + 8 * unat ?nu} \<inter> cells s (b # rest) = {}"
    using p(2) by (simp_all add: fresh_def)
  have "unat p \<in> {unat p..<unat p + 8 * unat ?nu}" using core_units_ge(2) [of n] by (simp add: unat_gt_0)
  then have "unat p \<notin> cells s (b # rest)" using f(4) by blast
  then have new: "p \<notin> set (b # rest)" using f(2) h by (auto simp: cells_def blk_def en_def heap_ok_def unat_gt_0)
  then have sz: "h_size ?s a = h_size s a" if "a \<in> set (b # rest)" for a using that by auto
  have "ordered ?s (b # rest)" using h sz by (subst ordered_cong [of _ _ s]) (auto simp: heap_ok_def)
  then have h': "heap_ok b ?s rest" using h sz by (simp add: heap_ok_def)
  have c: "cells ?s (b # rest) = cells s (b # rest)" "blk ?s p = {unat p..<unat p + 8 * unat ?nu}" "en ?s p = unat p + 8 * unat ?nu"
    using sz by (intro cells_cong, simp_all add: blk_def en_def)
  have q: "h_size ?s p \<noteq> 0" "en ?s p < 2 ^ 32" "blk ?s p \<inter> cells ?s (b # rest) = {}" using f c core_units_ge(2) [of n] by auto
  obtain t rest' where t: "ufree k (p + 8) ?s = Some t" "heap_ok b t rest'" "cells t (b # rest') = cells ?s (b # rest) \<union> blk ?s p"
    "\<exists>a \<in> set (b # rest'). h_size ?s p \<le> h_size t a" "length rest' \<le> length rest + 1"
    by (rule free_block [OF h' q(1,2) f(2) q(3) k])
  have "h_freep t \<noteq> 0"
  proof
    assume z: "h_freep t = 0"
    then have "0 \<in> set rest'" using t(2) by (auto simp: heap_ok_def)
    then have "unat b < unat (0 :: u32)" using t(2) ordered_front [of t b rest' 0] by (auto simp: heap_ok_def)
    then show False by simp
  qed
  moreover have "\<exists>a \<in> set (b # rest'). n \<le> h_size t a" using t(4) core_units_ge(1) [of n] by (auto intro: order_trans)
  moreover have "morecore k sb n s w = Some (h_freep t, t, w')"
    using p(1) f(1) t(1) by (simp add: morecore_def core_units_def hnext_def)
  ultimately show thesis using that t(2,3,5) c by simp
qed

text \<open>When no block is large enough the search comes back to \<open>freep\<close>.\<close>

lemma malloc_around:
  assumes h: "heap_ok b s rest" and small: "\<forall>a \<in> set (b # rest). h_size s a < n" and k: "length rest < k"
  shows "malloc_loop k sb n (h_freep s) (h_ptr s (h_freep s)) s w =
    (case morecore (k - length rest - 1) sb n s w of
       None \<Rightarrow> None
     | Some (p, s, w) \<Rightarrow> if p = 0 then Some (0, s, w) else malloc_loop (k - length rest - 1) sb n p (h_ptr s p) s w)"
proof -
  let ?f = "h_freep s" and ?k = "k - length rest - 1"
  have o: "ordered s (b # rest)" and c: "nchain (h_ptr s) b rest b" and z: "?f \<in> set (b # rest)" using h by (simp_all add: heap_ok_def)
  obtain as cs where e: "b # rest = as @ ?f # cs" using split_list [OF z] by blast
  have rot: "nchain (h_ptr s) ?f (cs @ as) ?f" by (rule ring_rotate [OF c e])
  have len: "length (cs @ as) = length rest" using arg_cong [OF e, of length] by simp
  have fz: "?f \<notin> set (cs @ as)" "\<forall>a \<in> set (cs @ as). h_size s a < n" "\<not> n \<le> h_size s ?f"
    using ordered_distinct [OF o] small unfolding e by (auto simp: not_le)
  have "malloc_loop k sb n ?f (h_ptr s ?f) s w = malloc_loop (k - length (cs @ as)) sb n (last (?f # cs @ as)) ?f s w"
    using rot fz k len by (intro malloc_walk) auto
  also have "k - length (cs @ as) = Suc ?k" using k len by simp
  finally show ?thesis using fz(3) by (simp only: malloc_loop.simps if_False if_True refl)
qed

lemma malloc_grow:
  assumes h: "heap_ok b s rest" and n: "n \<noteq> 0" and small: "\<forall>a \<in> set (b # rest). h_size s a < n"
    and p: "sb (core_units n * 8) w = (p, w')" "fresh b (cells s (b # rest)) p (core_units n)" and k: "2 * length rest + 2 < k"
  shows "\<exists>r t rest'. malloc_loop k sb n (h_freep s) (h_ptr s (h_freep s)) s w = Some (r, t, w') \<and> heap_ok b t rest' \<and>
    cells s (b # rest) \<union> {unat p..<unat p + 8 * unat (core_units n)} = cells t (b # rest') \<union> taken r n \<and>
    cells t (b # rest') \<inter> taken r n = {} \<and> h_size t (r - 8) = n \<and> 8 \<le> unat r"
proof -
  let ?k = "k - length rest - 1"
  have k': "length rest < ?k" using k by simp
  obtain t rest' where t: "morecore ?k sb n s w = Some (h_freep t, t, w')" "heap_ok b t rest'" "h_freep t \<noteq> 0"
    "cells t (b # rest') = cells s (b # rest) \<union> {unat p..<unat p + 8 * unat (core_units n)}" "\<exists>a \<in> set (b # rest'). n \<le> h_size t a"
    "length rest' \<le> length rest + 1"
    by (rule morecore_ok [where s = s and rest = rest and n = n and sb = sb and w = w, OF h p k'])
  have "length rest' < ?k" using t(6) k by simp
  then show ?thesis
    using malloc_around [OF h small, of k sb w] k t(1,3) malloc_fit [OF t(2,5) n, of ?k sb w'] unfolding t(4) by simp
qed

lemma malloc_fail:
  assumes h: "heap_ok b s rest" and small: "\<forall>a \<in> set (b # rest). h_size s a < n"
    and p: "sb (core_units n * 8) w = (- 1, w')" and k: "length rest < k"
  shows "malloc_loop k sb n (h_freep s) (h_ptr s (h_freep s)) s w = Some (0, s, w')"
proof -
  have "morecore (k - length rest - 1) sb n s w = Some (0, s, w')"
    using p by (simp add: morecore_def core_units_def Let_def split: if_splits)
  then show ?thesis using malloc_around [OF h small k, of sb w] by simp
qed

section \<open>Properties\<close>

lemma units_ok: "unat nbytes + 7 < 2 ^ 32 \<Longrightarrow> unat (units nbytes) = (unat nbytes + 7) div 8 + 1" "units nbytes \<noteq> 0"
proof -
  have u: "unat ((nbytes + 8 - 1) div 8) \<le> unat (nbytes + 8 - 1) div 8" by (simp add: unat_div)
  also have "\<dots> < 2 ^ 29" using unsigned_less [of "nbytes + 8 - 1", where ?'a = nat] by simp
  finally have l: "unat (units nbytes) = unat (nbytes + 8 - 1) div 8 + 1" by (simp add: units_def unat_word_ariths unat_div)
  then show "units nbytes \<noteq> 0" by (metis add_is_0 one_neq_zero unat_0)
  assume "unat nbytes + 7 < 2 ^ 32"
  then have "unat (nbytes + 7) = unat nbytes + 7" by (simp add: unat_word_ariths)
  then show "unat (units nbytes) = (unat nbytes + 7) div 8 + 1" using l by (simp add: algebra_simps)
qed

text \<open>
  C21: \<open>free\<close> of a block that is not free returns, keeps the free list in the order of addresses with no two blocks that touch, and makes exactly the bytes
  of that block free.
\<close>

theorem free_returns_block:
  assumes "heap_ok b s rest" "h_size s bp \<noteq> 0" "en s bp < 2 ^ 32" "unat b < unat bp" "blk s bp \<inter> cells s (b # rest) = {}" "length rest < k"
  shows "\<exists>t rest'. ufree k (bp + 8) s = Some t \<and> heap_ok b t rest' \<and> cells t (b # rest') = cells s (b # rest) \<union> blk s bp"
proof -
  obtain t rest' where "ufree k (bp + 8) s = Some t" "heap_ok b t rest'" "cells t (b # rest') = cells s (b # rest) \<union> blk s bp"
    "\<exists>a \<in> set (b # rest'). h_size s bp \<le> h_size t a" "length rest' \<le> length rest + 1"
    by (rule free_block [OF assms])
  then show ?thesis by blast
qed

text \<open>
  C22: \<open>malloc\<close> returns a block that was free, or is part of what \<^verbatim>\<open>sbrk\<close> delivered when no free block was large enough: it has room for
  the bytes asked for, is not free any more, no other byte changes its state, and the free list stays well formed.
\<close>

theorem malloc_allocates:
  assumes h: "heap_ok b (malloc_init b s) rest" and n: "unat nbytes + 7 < 2 ^ 32" and k: "2 * length rest + 2 < k"
    and big: "new = {} \<and> (\<exists>a \<in> set (b # rest). units nbytes \<le> h_size (malloc_init b s) a) \<or>
      (\<forall>a \<in> set (b # rest). h_size (malloc_init b s) a < units nbytes) \<and> fresh b (cells (malloc_init b s) (b # rest)) p (core_units (units nbytes)) \<and>
      sb (core_units (units nbytes) * 8) w = (p, w') \<and> new = {unat p..<unat p + 8 * unat (core_units (units nbytes))}"
  shows "\<exists>r t u rest'. malloc k sb b nbytes s w = Some (r, t, u) \<and> r \<noteq> 0 \<and> heap_ok b t rest' \<and>
    cells (malloc_init b s) (b # rest) \<union> new = cells t (b # rest') \<union> taken r (units nbytes) \<and>
    cells t (b # rest') \<inter> taken r (units nbytes) = {} \<and> {unat r..<unat r + unat nbytes} \<subseteq> taken r (units nbytes)"
proof -
  let ?s = "malloc_init b s" and ?n = "units nbytes"
  have "\<exists>r t u rest'. malloc_loop k sb ?n (h_freep ?s) (h_ptr ?s (h_freep ?s)) ?s w = Some (r, t, u) \<and> heap_ok b t rest' \<and>
    cells ?s (b # rest) \<union> new = cells t (b # rest') \<union> taken r ?n \<and> cells t (b # rest') \<inter> taken r ?n = {} \<and> h_size t (r - 8) = ?n \<and> 8 \<le> unat r"
    using big
  proof
    assume "new = {} \<and> (\<exists>a \<in> set (b # rest). ?n \<le> h_size ?s a)"
    then show ?thesis using malloc_fit [OF h, of ?n k sb w] k units_ok(2) by auto
  next
    assume a: "(\<forall>a \<in> set (b # rest). h_size ?s a < ?n) \<and> fresh b (cells ?s (b # rest)) p (core_units ?n) \<and>
      sb (core_units ?n * 8) w = (p, w') \<and> new = {unat p..<unat p + 8 * unat (core_units ?n)}"
    then show ?thesis using malloc_grow [OF h units_ok(2) [of nbytes], where sb = sb and w = w and p = p and w' = w' and k = k] k by blast
  qed
  then obtain r t u rest' where r: "malloc_loop k sb ?n (h_freep ?s) (h_ptr ?s (h_freep ?s)) ?s w = Some (r, t, u)" "heap_ok b t rest'"
    "cells ?s (b # rest) \<union> new = cells t (b # rest') \<union> taken r ?n" "cells t (b # rest') \<inter> taken r ?n = {}" "8 \<le> unat r" by blast
  have "{unat r..<unat r + unat nbytes} \<subseteq> taken r ?n" using units_ok(1) [OF n] r(5) by (auto simp: taken_def)
  moreover have "r \<noteq> 0" using r(5) by auto
  ultimately show ?thesis using r(1-4) by (auto simp: malloc_def)
qed

text \<open>The number of units wraps around for the last seven sizes.\<close>

lemma units_wrap: "2 ^ 32 \<le> unat nbytes + 7 \<Longrightarrow> units nbytes = 1"
proof -
  assume n: "2 ^ 32 \<le> unat nbytes + 7"
  have lt: "unat nbytes < 2 ^ 32" using unsigned_less [of nbytes, where ?'a = nat] by simp
  have "unat (nbytes + 7) = unat nbytes + 7 - 2 ^ 32" using n lt by (simp add: unat_word_ariths mod_if)
  then have "unat (nbytes + 7) < 8" using lt by simp
  then have "unat ((nbytes + 7) div 8) = 0" by (simp add: unat_div)
  moreover have "nbytes + 8 - 1 = nbytes + 7" by simp
  ultimately show ?thesis by (simp only: units_def unat_eq_0) simp
qed

lemma units_0: "units 0 = 1"
  by (simp add: units_def)

text \<open>With an empty free list a request for one unit goes to \<^verbatim>\<open>sbrk\<close> for 4096 of them.\<close>

lemma malloc_unit_fails:
  assumes "heap_ok b s []" "sb 32768 w = (- 1, w')" "0 < k"
  shows "malloc_loop k sb 1 (h_freep s) (h_ptr s (h_freep s)) s w = Some (0, s, w')"
proof -
  have "h_freep s = b" "h_ptr s b = b" "h_size s b = 0" using assms(1) by (simp_all add: heap_ok_def)
  with assms(2,3) show ?thesis by (cases k) (simp_all add: morecore_def)
qed

text \<open>
  C29: the number of units wraps around: a request for one of the last seven sizes below 2 to the 32 is taken for a request for nothing,
  whatever the state.  So \<open>malloc\<close> does not fail on it as on a request for more than there is: it takes a block that
  consists of its header from the free list, or from what \<^verbatim>\<open>sbrk\<close> delivers when the list is empty, as on the first call; it returns 0 only when \<^verbatim>\<open>sbrk\<close>
  refuses the 32768 bytes it then asks for.
\<close>

theorem malloc_size_wraps:
  assumes h: "heap_ok b (malloc_init b s) rest" and n: "2 ^ 32 \<le> unat nbytes + 7" and k: "2 * length rest + 2 < k"
  shows "malloc k sb b nbytes s w = malloc k sb b 0 s w \<and>
    (rest \<noteq> [] \<longrightarrow> (\<exists>r t rest'. malloc k sb b nbytes s w = Some (r, t, w) \<and> r \<noteq> 0 \<and> heap_ok b t rest' \<and> h_size t (r - 8) = 1)) \<and>
    (rest = [] \<longrightarrow> fresh b {} p 4096 \<longrightarrow> sb 32768 w = (p, w') \<longrightarrow>
      (\<exists>r t rest'. malloc k sb b nbytes s w = Some (r, t, w') \<and> r \<noteq> 0 \<and> heap_ok b t rest' \<and> h_size t (r - 8) = 1)) \<and>
    (rest = [] \<longrightarrow> sb 32768 w = (- 1, w') \<longrightarrow> malloc k sb b nbytes s w = Some (0, malloc_init b s, w'))"
proof -
  let ?s = "malloc_init b s"
  let ?l = "malloc_loop k sb 1 (h_freep ?s) (h_ptr ?s (h_freep ?s)) ?s w"
  have m: "malloc k sb b nbytes s w = ?l" "malloc k sb b 0 s w = ?l" by (simp_all add: malloc_def Let_def units_wrap [OF n] units_0)
  have some: "\<exists>r t rest'. ?l = Some (r, t, w) \<and> heap_ok b t rest' \<and> h_size t (r - 8) = 1 \<and> 8 \<le> unat r" if ne: "rest \<noteq> []"
  proof -
    obtain a where a: "a \<in> set rest" using ne by (cases rest) auto
    then have "1 \<le> h_size ?s a" using h by (auto simp: heap_ok_def word_le_nat_alt unat_gt_0 Suc_le_eq)
    then have "\<exists>a \<in> set (b # rest). 1 \<le> h_size ?s a" using a by auto
    with malloc_fit [OF h, of 1 k sb w] k show ?thesis by auto
  qed
  have grow: "\<exists>r t rest'. ?l = Some (r, t, w') \<and> heap_ok b t rest' \<and> h_size t (r - 8) = 1 \<and> 8 \<le> unat r"
    if "rest = []" "fresh b {} p 4096" "sb 32768 w = (p, w')"
  proof -
    have z: "h_size ?s b = 0" using h by (simp add: heap_ok_def)
    then have c: "cells ?s (b # rest) = {}" using that(1) by (simp add: cells_def blk_def en_def)
    have g: "\<forall>a \<in> set (b # rest). h_size ?s a < 1" "sb (core_units 1 * 8) w = (p, w')" "fresh b (cells ?s (b # rest)) p (core_units 1)"
      using that z unfolding c by (simp_all add: core_units_def)
    show ?thesis using malloc_grow [where n = 1 and sb = sb and w = w and p = p and w' = w', OF h one_neq_zero g k] by blast
  qed
  have nz: "r \<noteq> 0" if "8 \<le> unat r" for r :: u32 using that by auto
  have fail: "?l = Some (0, ?s, w')" if "rest = []" "sb 32768 w = (- 1, w')"
    by (rule malloc_unit_fails) (use h that k in auto)
  show ?thesis unfolding m using some grow fail nz by blast
qed

section \<open>A heap\<close>

text \<open>A program that has not called the allocator, and one with one free block of 4096 units.\<close>

definition heap0 :: uheap where
  "heap0 = \<lparr>h_ptr = (\<lambda>_. 0), h_size = (\<lambda>_. 0), h_freep = 0\<rparr>"

definition heap1 :: uheap where
  "heap1 = \<lparr>h_ptr = (\<lambda>a. if a = 0x1000 then 0x4000 else 0x1000), h_size = (\<lambda>a. if a = 0x4000 then 4096 else if a = 0x20000 then 2 else 0), h_freep = 0x1000\<rparr>"

lemma heap0_ok: "heap_ok 0x1000 (malloc_init 0x1000 heap0) []"
  by (simp add: heap_ok_def heap0_def malloc_init_def ordered_def en_def)

lemma heap1_ok: "heap_ok 0x1000 heap1 [0x4000]" "malloc_init 0x1000 heap1 = heap1"
  by (simp_all add: heap_ok_def heap1_def malloc_init_def ordered_def en_def)

theorem malloc_allocates_witness:
  "\<exists>r t u rest'. malloc 3 (\<lambda>n w. (0x4000, w + n)) 0x1000 100 heap0 7 = Some (r, t, u) \<and> r \<noteq> 0 \<and> heap_ok 0x1000 t rest' \<and>
     {unat r..<unat r + unat (100 :: u32)} \<subseteq> taken r (units 100)"
proof -
  have u: "units 100 = 14" "core_units 14 = 4096" by (simp_all add: units_def core_units_def)
  have "\<exists>r t u rest'. malloc 3 (\<lambda>n w. (0x4000, w + n)) 0x1000 100 heap0 (7 :: u32) = Some (r, t, u) \<and> r \<noteq> 0 \<and> heap_ok 0x1000 t rest' \<and>
    cells (malloc_init 0x1000 heap0) [0x1000] \<union> {0x4000..<0x4000 + 32768} = cells t (0x1000 # rest') \<union> taken r (units 100) \<and>
    cells t (0x1000 # rest') \<inter> taken r (units 100) = {} \<and> {unat r..<unat r + unat (100 :: u32)} \<subseteq> taken r (units 100)"
    by (rule malloc_allocates [OF heap0_ok, where p = "0x4000" and w' = "7 + 32768"])
      (simp_all add: u fresh_def heap0_def malloc_init_def blk_def en_def)
  then show ?thesis by blast
qed

theorem free_returns_block_witness:
  "\<exists>t rest'. ufree 2 (0x20000 + 8) heap1 = Some t \<and> heap_ok 0x1000 t rest' \<and> cells t (0x1000 # rest') = cells heap1 [0x1000, 0x4000] \<union> {0x20000..<0x20010}"
proof -
  have "\<exists>t rest'. ufree 2 (0x20000 + 8) heap1 = Some t \<and> heap_ok 0x1000 t rest' \<and> cells t (0x1000 # rest') = cells heap1 [0x1000, 0x4000] \<union> blk heap1 0x20000"
    by (rule free_returns_block [OF heap1_ok(1)]) (auto simp: heap1_def blk_def en_def)
  moreover have "blk heap1 0x20000 = {0x20000..<0x20010}" by (simp add: heap1_def blk_def en_def)
  ultimately show ?thesis by simp
qed

theorem malloc_size_wraps_witness:
  "malloc 5 (\<lambda>n w. (- 1, w)) 0x1000 0xFFFFFFFF heap1 () = malloc 5 (\<lambda>n w. (- 1, w)) 0x1000 0 heap1 () \<and>
   (\<exists>r t rest'. malloc 5 (\<lambda>n w. (- 1, w)) 0x1000 0xFFFFFFFF heap1 () = Some (r, t, ()) \<and> r \<noteq> 0 \<and> heap_ok 0x1000 t rest' \<and> h_size t (r - 8) = 1) \<and>
   (\<exists>r t rest'. malloc 3 (\<lambda>n w. (0x4000, w + n)) 0x1000 0xFFFFFFF9 heap0 (7 :: u32) = Some (r, t, 7 + 32768) \<and> r \<noteq> 0 \<and> heap_ok 0x1000 t rest' \<and> h_size t (r - 8) = 1)"
proof -
  have f: "fresh 0x1000 {} 0x4000 4096" by (simp add: fresh_def)
  have a: "heap_ok 0x1000 (malloc_init 0x1000 heap1) [0x4000]" "[0x4000 :: u32] \<noteq> []" using heap1_ok by simp_all
  have "2 ^ 32 \<le> unat (0xFFFFFFFF :: u32) + 7" "2 * length [0x4000 :: u32] + 2 < 5" by simp_all
  note A = malloc_size_wraps [OF a(1) this, of "\<lambda>n w. (- 1, w)" "()"]
  have "2 ^ 32 \<le> unat (0xFFFFFFF9 :: u32) + 7" "2 * length ([] :: u32 list) + 2 < 3" by simp_all
  note B = malloc_size_wraps [OF heap0_ok this, of "\<lambda>n w. (0x4000, w + n)" 7 "0x4000" "7 + 32768"]
  show ?thesis using A B a(2) f by blast
qed

end
