(* ===== verification/Fs_Laws.thy ===== *)
theory Fs_Laws
  imports Fs Log_Laws
begin

text \<open>
  The file system inside a transaction: what the block operations of \<^verbatim>\<open>fs.c\<close> do to the contents of blocks as the cache shows them
  (\<open>view\<close>), and what follows for inodes and files.
\<close>

section \<open>Blocks in a transaction\<close>

definition fs_frame :: "'a logst_scheme \<Rightarrow> 'a logst_scheme \<Rightarrow> bool" where
  "fs_frame s t \<longleftrightarrow> t = s\<lparr>pt_proc := pt_proc t, bc_buf := bc_buf t, memdisk := memdisk t, disk_writes := disk_writes t,
     lg_n := lg_n t, lg_block := lg_block t\<rparr>"

lemma fs_frame_refl [simp]: "fs_frame s s"
  by (simp add: fs_frame_def)

lemma fs_frame_trans: "fs_frame s t \<Longrightarrow> fs_frame t u \<Longrightarrow> fs_frame s u"
proof -
  assume "fs_frame s t" "fs_frame t u"
  then have "t = s\<lparr>pt_proc := pt_proc t, bc_buf := bc_buf t, memdisk := memdisk t, disk_writes := disk_writes t, lg_n := lg_n t, lg_block := lg_block t\<rparr>"
    and u: "u = t\<lparr>pt_proc := pt_proc u, bc_buf := bc_buf u, memdisk := memdisk u, disk_writes := disk_writes u, lg_n := lg_n u, lg_block := lg_block u\<rparr>"
    by (simp_all add: fs_frame_def)
  then have "u = s\<lparr>pt_proc := pt_proc t, bc_buf := bc_buf t, memdisk := memdisk t, disk_writes := disk_writes t, lg_n := lg_n t, lg_block := lg_block t\<rparr>
      \<lparr>pt_proc := pt_proc u, bc_buf := bc_buf u, memdisk := memdisk u, disk_writes := disk_writes u, lg_n := lg_n u, lg_block := lg_block u\<rparr>" by simp
  then show "fs_frame s u" by (simp add: fs_frame_def)
qed

lemma bio_fs_frame: "bio_frame s t \<Longrightarrow> fs_frame s t"
proof -
  assume "bio_frame s t"
  then have t: "t = s\<lparr>pt_proc := pt_proc t, bc_buf := bc_buf t, memdisk := memdisk t, disk_writes := disk_writes t\<rparr>" by (simp add: bio_frame_def)
  then have "lg_n t = lg_n (s\<lparr>pt_proc := pt_proc t, bc_buf := bc_buf t, memdisk := memdisk t, disk_writes := disk_writes t\<rparr>)"
    "lg_block t = lg_block (s\<lparr>pt_proc := pt_proc t, bc_buf := bc_buf t, memdisk := memdisk t, disk_writes := disk_writes t\<rparr>)" by metis+
  then have "lg_n t = lg_n s" "lg_block t = lg_block s" by simp_all
  with t show ?thesis by (simp add: fs_frame_def)
qed

lemma fs_frame_fields:
  assumes "fs_frame s t"
  shows "disksize t = disksize s" "k_cpu t = k_cpu s" "k_locks t = k_locks s" "lg_size t = lg_size s" "lg_outstanding t = lg_outstanding s"
    "logst.more t = logst.more s" "cur t = cur s" "lock_ready l t = lock_ready l s"
proof -
  have t: "t = s\<lparr>pt_proc := pt_proc t, bc_buf := bc_buf t, memdisk := memdisk t, disk_writes := disk_writes t, lg_n := lg_n t, lg_block := lg_block t\<rparr>"
    using assms by (simp add: fs_frame_def)
  show "disksize t = disksize s" "k_cpu t = k_cpu s" "k_locks t = k_locks s" "lg_size t = lg_size s" "lg_outstanding t = lg_outstanding s"
    "logst.more t = logst.more s" "cur t = cur s" "lock_ready l t = lock_ready l s"
    by (subst t, simp add: lock_ready_def)+
qed

lemma fs_frame_inodes:
  fixes s t :: "'a icst_scheme"
  assumes "fs_frame s t" shows "sb t = sb s" "ic_inode t = ic_inode s" "inode_at ip t = inode_at ip s"
proof -
  have t: "t = s\<lparr>pt_proc := pt_proc t, bc_buf := bc_buf t, memdisk := memdisk t, disk_writes := disk_writes t, lg_n := lg_n t, lg_block := lg_block t\<rparr>"
    using assms by (simp add: fs_frame_def)
  show "sb t = sb s" "ic_inode t = ic_inode s" "inode_at ip t = inode_at ip s" by (subst t, simp add: inode_at_def)+
qed

text \<open>
  A transaction that holds the buffers \<open>held\<close>, has set aside room in the log for the blocks \<open>B\<close>, and may log \<open>k\<close> blocks besides.  A block
  that is in the log already takes no more room.
\<close>

definition logged :: "'a logst_scheme \<Rightarrow> u32 set" where
  "logged s = set (take (lg_count s) (lg_block s))"

definition tx :: "(nat \<Rightarrow> u32 option) \<Rightarrow> u32 set \<Rightarrow> nat \<Rightarrow> 'a logst_scheme \<Rightarrow> bool" where
  "tx bufs B k s \<longleftrightarrow> bcache_inv s \<and> owned s = bufs \<and> lock_ready LogLock s \<and> 1 \<le> sint (lg_outstanding s) \<and> 0 \<le> sint (lg_n s) \<and>
     length (lg_block s) = LOGSIZE \<and> sint (lg_size s - 1) < int LOGSIZE \<and> distinct (take (lg_count s) (lg_block s)) \<and>
     finite B \<and> int (card (logged s \<union> B \<union> ran bufs) + k) < sint (lg_size s - 1) \<and>
     (\<forall>b \<in> marked s. b_dev (bc_buf s b) = 1 \<and> b_blockno (bc_buf s b) \<in> logged s)"

lemma finite_logged [simp]: "finite (logged s)"
  by (simp add: logged_def)

lemma tx_reserve:
  assumes "tx bufs B (Suc k) s" shows "tx bufs (insert n B) k s"
proof -
  have f: "finite B" "finite (ran bufs)" using assms finite_ran [of bufs] by (auto simp: tx_def owned_dom intro: finite_subset [of _ "{..<NBUF}"] simp: owned_def)
  have "card (logged s \<union> insert n B \<union> ran bufs) \<le> Suc (card (logged s \<union> B \<union> ran bufs))"
    by (simp add: card_insert_if f)
  then show ?thesis using assms by (auto simp: tx_def)
qed

lemma tx_mono: "tx bufs B k s \<Longrightarrow> j \<le> k \<Longrightarrow> tx bufs B j s"
  by (auto simp: tx_def)

lemma tx_finite: "tx bufs B k s \<Longrightarrow> finite B" "tx bufs B k s \<Longrightarrow> finite (ran bufs)"
proof -
  assume a: "tx bufs B k s"
  then show "finite B" by (simp add: tx_def)
  have "dom (owned s) \<subseteq> {..<NBUF}" by (auto simp: owned_def split: if_splits)
  then show "finite (ran bufs)" using a finite_subset finite_ran by (auto simp: tx_def)
qed

lemma tx_room:
  assumes "tx bufs B k s" shows "card (dom (owned s) \<union> marked s) < NBUF"
proof -
  let ?f = "\<lambda>b. b_blockno (bc_buf s b)" and ?A = "dom (owned s) \<union> marked s"
  have inv: "bcache_inv s" "owned s = bufs" using assms by (simp_all add: tx_def)
  have A: "?A \<subseteq> {..<NBUF}" by (auto simp: owned_dom)
  have dev: "b_dev (bc_buf s b) = 1 \<and> ?f b \<in> logged s \<union> B \<union> ran bufs" if "b \<in> ?A" for b
    using that assms ownedD(3) [OF inv(1), of b] inv(2) by (auto simp: tx_def cached_as_def ran_def)
  have "inj_on ?f ?A"
  proof (rule inj_onI)
    fix b c assume "b \<in> ?A" "c \<in> ?A" "?f b = ?f c"
    then show "b = c" using cache_ok_unique [of s b c "?f b"] dev A inv(1) by (auto simp: bcache_inv_def cached_as_def)
  qed
  then have "card ?A \<le> card (logged s \<union> B \<union> ran bufs)"
    using card_inj_on_le [of ?f ?A "logged s \<union> B \<union> ran bufs"] dev tx_finite [OF assms] by auto
  then show ?thesis using assms by (auto simp: tx_def)
qed

text \<open>Which blocks the marked buffers hold is not changed by getting, filling and releasing buffers.\<close>

definition marks_same :: "'a biost_scheme \<Rightarrow> 'a biost_scheme \<Rightarrow> bool" where
  "marks_same s t \<longleftrightarrow> marked t = marked s \<and>
     (\<forall>b \<in> marked s. b_dev (bc_buf t b) = b_dev (bc_buf s b) \<and> b_blockno (bc_buf t b) = b_blockno (bc_buf s b))"

lemma bread_marks:
  assumes inv: "bcache_inv s" and n: "n \<notin> ran (owned s)" "card (dom (owned s) \<union> marked s) < NBUF" "n < disksize s" and "bread 1 n s = Ok b t"
  shows "marks_same s t"
proof -
  obtain bs where bs: "lru s bs" and ok: "cache_ok s" and r: "lock_ready BcacheLock s" using inv by (auto simp: bcache_inv_def)
  obtain b bf where b: "bread 1 n s = Ok b (upd_buf b (\<lambda>_. bf) s)" "b < NBUF" "\<not> busy s b"
    and bf: "bit (b_flags bf) 0" "bit (b_flags bf) 1" "bit (b_flags bf) 2 = dirty s b" "b_dev bf = 1" "b_blockno bf = n"
      "b_data bf = view s n" "b_next bf = b_next (bc_buf s b)" "b_prev bf = b_prev (bc_buf s b)"
    and old: "cached_as 1 n s b \<or> \<not> dirty s b \<and> (\<forall>c < NBUF. \<not> cached_as 1 n s c)"
    using bread_ok [OF bs r ok bcache_inv_obtainable [OF inv n(1,2)] n(3)] .
  then show ?thesis using assms(5) by (auto simp: marks_same_def marked_def cached_as_def)
qed

lemma brelse_marks:
  assumes inv: "bcache_inv s" and o: "owned s b = Some n" and "brelse b s = Ok () t"
  shows "marks_same s t"
proof -
  have t: "t = released b s" using assms(3) brelse_ok [of s b] ownedD [OF inv o] inv by (auto simp: bcache_inv_def)
  have "dirty (released b s) c = dirty s c" for c by (simp add: released_frame bit_simps)
  then show ?thesis by (simp add: t marks_same_def marked_def released_frame)
qed

section \<open>The steps of a transaction\<close>

lemma tx_bread:
  assumes tx: "tx bufs B k s" and n: "n \<notin> ran bufs" "n < disksize s" "n \<in> B"
  obtains b t where "bread 1 n s = Ok b t" "b \<notin> dom bufs" "tx (bufs(b \<mapsto> n)) B k t" "view t = view s" "b_data (bc_buf t b) = view s n" "fs_frame s t"
    "b \<in> marked t \<or> view s n = dsk s n" "dsk t = dsk s"
    "\<forall>c \<in> dom bufs. b_data (bc_buf t c) = b_data (bc_buf s c)"
proof -
  have a: "bcache_inv s" "n \<notin> ran (owned s)" "owned s = bufs" using tx n by (simp_all add: tx_def)
  obtain b t where r: "bread 1 n s = Ok b t" "bcache_inv t" "b \<notin> dom (owned s)" "owned t = (owned s)(b \<mapsto> n)" "marked t = marked s" "view t = view s"
    "\<forall>c \<in> dom (owned s). b_data (bc_buf t c) = b_data (bc_buf s c)" "b \<in> marked t \<or> view s n = dsk s n" "dsk t = dsk s" "bio_frame s t"
    using bread_law [OF a(1,2) tx_room [OF tx] n(2)] by blast
  note m = bread_marks [OF a(1,2) tx_room [OF tx] n(2) r(1)]
  have d: "b_data (bc_buf t b) = view s n" using ownedD(6) [OF r(2), of b n] r(4,6) by simp
  have "ran (bufs(b \<mapsto> n)) = insert n (ran bufs)" using r(3) a(3) by (simp add: domIff)
  then have "tx (bufs(b \<mapsto> n)) B k t"
    using tx n(3) r m bio_frame_log [OF r(10)] bio_frame_fields [OF r(10)] a(3)
    by (simp add: tx_def lock_ready_def logged_def marks_same_def insert_absorb)
  then show thesis using that r d bio_fs_frame [OF r(10)] a(3) by blast
qed

lemma sint_Suc: "0 \<le> sint x \<Longrightarrow> sint x < 100 \<Longrightarrow> sint (x + 1) = sint x + 1" for x :: i32
proof -
  assume a: "0 \<le> sint x" "sint x < 100"
  have "sint (x + 1) = signed_take_bit 31 (sint x + 1)" by (simp add: sint_word_ariths)
  also have "\<dots> = sint x + 1" using a by (simp add: signed_take_bit_int_eq_self)
  finally show ?thesis .
qed

lemma dirty_law:
  assumes inv: "bcache_inv s" and o: "owned s b = Some n"
  shows "bcache_inv (upd_buf b (\<lambda>x. x\<lparr>b_flags := b_flags x OR B_DIRTY\<rparr>) s) \<and> owned (upd_buf b (\<lambda>x. x\<lparr>b_flags := b_flags x OR B_DIRTY\<rparr>) s) = owned s \<and>
    marked (upd_buf b (\<lambda>x. x\<lparr>b_flags := b_flags x OR B_DIRTY\<rparr>) s) = insert b (marked s) \<and>
    view (upd_buf b (\<lambda>x. x\<lparr>b_flags := b_flags x OR B_DIRTY\<rparr>) s) = view s"
proof -
  let ?t = "upd_buf b (\<lambda>x. x\<lparr>b_flags := b_flags x OR B_DIRTY\<rparr>) s"
  note D = ownedD [OF inv o]
  have ok: "cache_ok s" using inv by (simp add: bcache_inv_def)
  have v: "cache_ok ?t \<and> view ?t = (view s)(n := b_data (bc_buf ?t b))"
    by (intro conjI; rule view_modify [OF ok D(1,3)]) (use D in \<open>auto simp: buf_same_def cached_as_def\<close>)
  have "lru ?t bs = lru s bs" for bs by (rule lru_cong) auto
  then have "bcache_inv ?t" using inv v by (auto simp: bcache_inv_def lock_ready_def)
  moreover have "owned ?t = owned s" "marked ?t = insert b (marked s)" using D(1) by (auto simp: owned_def marked_def fun_eq_iff)
  moreover have "view ?t = view s" using v D by (auto simp: fun_eq_iff)
  ultimately show ?thesis by simp
qed

lemma bio_lg: "bcache_inv (s\<lparr>lg_block := y, lg_n := x\<rparr>) = bcache_inv s" "owned (s\<lparr>lg_block := y, lg_n := x\<rparr>) = owned s"
  "marked (s\<lparr>lg_block := y, lg_n := x\<rparr>) = marked s" "view (s\<lparr>lg_block := y, lg_n := x\<rparr>) = view s"
  by simp_all

lemma log_find_spec:
  "b \<in> set (take k (drop i bl)) \<Longrightarrow> i + k \<le> length bl \<Longrightarrow> log_find bl k i b < i + k \<and> bl ! log_find bl k i b = b"
  "b \<notin> set (take k (drop i bl)) \<Longrightarrow> i + k \<le> length bl \<Longrightarrow> log_find bl k i b = i + k"
proof (induction k arbitrary: i)
  case (Suc k)
  have d: "take (Suc k) (drop i bl) = bl ! i # take k (drop (Suc i) bl)" if "i + Suc k \<le> length bl" for i
    using that Cons_nth_drop_Suc [of i bl, symmetric] by simp
  { case 1 then show ?case using Suc.IH(1) [of "Suc i"] d [OF 1(2)] by (simp split: if_splits, metis) }
  { case 2 then show ?case using Suc.IH(2) [of "Suc i"] d [OF 2(2)] by auto }
qed simp_all

text \<open>\<open>log_write\<close> adds the block to the log unless it is there, and marks the buffer.\<close>

lemma log_write_eq:
  assumes "lock_ready LogLock s" "1 \<le> sint (lg_outstanding s)" "0 \<le> sint (lg_n s)" "sint (lg_n s) < sint (lg_size s - 1)"
    and l: "sint (lg_size s - 1) < int LOGSIZE" "length (lg_block s) = LOGSIZE" "distinct (take (lg_count s) (lg_block s))"
  obtains n' bl where "log_write b s = Ok () (upd_buf b (\<lambda>x. x\<lparr>b_flags := b_flags x OR B_DIRTY\<rparr>) (s\<lparr>lg_block := bl, lg_n := n'\<rparr>))"
    "0 \<le> sint n'" "length bl = LOGSIZE" "distinct (take (nat (sint n')) bl)" "set (take (nat (sint n')) bl) = insert (b_blockno (bc_buf s b)) (logged s)"
proof -
  let ?h = "held LogLock s" and ?no = "b_blockno (bc_buf s b)" and ?c = "lg_count s"
  define i where "i = log_find (lg_block s) ?c 0 ?no"
  define n' where "n' = (if int i = sint (lg_n s) then lg_n s + 1 else lg_n s)"
  define bl where "bl = (lg_block s)[i := ?no]"
  let ?t = "upd_buf b (\<lambda>x. x\<lparr>b_flags := b_flags x OR B_DIRTY\<rparr>) (s\<lparr>lg_block := bl, lg_n := n'\<rparr>)"
  have e: "log_write b s = release LogLock (upd_buf b (\<lambda>x. x\<lparr>b_flags := b_flags x OR B_DIRTY\<rparr>) (?h\<lparr>lg_block := bl, lg_n := n'\<rparr>))"
    using assms by (simp add: log_write_def acquire_ready i_def n'_def bl_def held_def Let_def)
  have w: "log_write b s = Ok () ?t"
    unfolding e by (subst release_restores [OF assms(1)]) (simp_all add: upd_buf_def held_def)
  have c: "int ?c = sint (lg_n s)" "?c < LOGSIZE" using assms by simp_all
  have "distinct (take (nat (sint n')) bl) \<and> set (take (nat (sint n')) bl) = insert ?no (logged s)"
  proof (cases "?no \<in> logged s")
    case True
    then have i: "i < ?c" "lg_block s ! i = ?no" using log_find_spec(1) [of ?no ?c 0 "lg_block s"] c l(2) by (simp_all add: logged_def i_def)
    then have "bl = lg_block s" unfolding bl_def by (metis list_update_id)
    with i(1) show ?thesis using True l(3) c by (auto simp: n'_def logged_def insert_absorb)
  next
    case False
    then have i: "i = ?c" using log_find_spec(2) [of ?no ?c 0 "lg_block s"] c l(2) by (simp add: logged_def i_def)
    then have "nat (sint n') = Suc ?c" using sint_Suc [of "lg_n s"] c assms(3) by (simp add: n'_def)
    then have "take (nat (sint n')) bl = take ?c (lg_block s) @ [?no]" using i l(2) c(2) by (simp add: bl_def take_Suc_conv_app_nth)
    then show ?thesis using False l(3) by (simp add: logged_def)
  qed
  moreover have "0 \<le> sint n'" using sint_Suc [of "lg_n s"] assms(3,4) l(1) by (cases "int i = sint (lg_n s)") (simp_all add: n'_def)
  ultimately show thesis using that [OF w] l(2) by (simp add: bl_def)
qed

lemma lg_count_card: "tx bufs B k s \<Longrightarrow> sint (lg_n s) = int (card (logged s)) \<and> sint (lg_n s) < sint (lg_size s - 1)"
proof -
  assume a: "tx bufs B k s"
  have "card (logged s) \<le> card (logged s \<union> B \<union> ran bufs)" using tx_finite [OF a] by (intro card_mono) auto
  moreover have "int (card (logged s)) = min (sint (lg_n s)) (int LOGSIZE)"
    using a distinct_card [of "take (lg_count s) (lg_block s)"] by (auto simp: tx_def logged_def)
  ultimately show ?thesis using a by (auto simp: tx_def)
qed

text \<open>Storing into a held buffer and logging it.\<close>

lemma tx_log:
  assumes tx: "tx bufs B k s" and b: "bufs b = Some n" "n \<in> B"
  obtains t where "log_write b (put_data b d s) = Ok () t" "tx bufs B k t" "view t = (view s)(n := d)" "b \<in> marked t" "fs_frame s t"
proof -
  let ?p = "put_data b d s" and ?f = "upd_buf b (\<lambda>x. x\<lparr>b_flags := b_flags x OR B_DIRTY\<rparr>)"
  have inv: "bcache_inv s" "owned s b = Some n" using tx b by (simp_all add: tx_def)
  have p: "bcache_inv ?p" "owned ?p = owned s" "marked ?p = marked s" "view ?p = (view s)(n := d)" "bio_frame s ?p"
    using put_law [OF inv, of d] by auto
  note lg = bio_frame_log [OF p(5)] and ff = bio_frame_fields [OF p(5)]
  have bn: "b_blockno (bc_buf s b) = n" "b_dev (bc_buf s b) = 1" "b < NBUF" using ownedD [OF inv] by (simp_all add: cached_as_def)
  have pb: "b_blockno (bc_buf ?p c) = b_blockno (bc_buf s c)" "b_dev (bc_buf ?p c) = b_dev (bc_buf s c)" for c by (simp_all add: put_data_def)
  obtain n' bl where w: "log_write b ?p = Ok () (?f (?p\<lparr>lg_block := bl, lg_n := n'\<rparr>))" "0 \<le> sint n'" "length bl = LOGSIZE"
      "distinct (take (nat (sint n')) bl)" "set (take (nat (sint n')) bl) = insert (b_blockno (bc_buf ?p b)) (logged ?p)"
    by (rule log_write_eq [of ?p b]) (use tx lg_count_card [OF tx] lg ff in \<open>auto simp: tx_def lock_ready_def\<close>)
  let ?q = "?p\<lparr>lg_block := bl, lg_n := n'\<rparr>"
  have q: "bcache_inv ?q" "owned ?q = owned s" "marked ?q = marked s" "view ?q = (view s)(n := d)" using p by (simp_all add: bio_lg)
  have d: "bcache_inv (?f ?q)" "owned (?f ?q) = owned s" "marked (?f ?q) = insert b (marked s)" "view (?f ?q) = (view s)(n := d)"
    using dirty_law [of ?q b n] q inv(2) by simp_all
  have lt: "logged (?f ?q) = insert n (logged s)" using w(5) lg by (simp add: logged_def upd_buf_def pb bn)
  then have c: "logged (?f ?q) \<union> B \<union> ran bufs = logged s \<union> B \<union> ran bufs" using b(2) by auto
  have pq: "fs_frame ?p (?f ?q)" by (simp add: fs_frame_def upd_buf_def)
  note fr = fs_frame_trans [OF bio_fs_frame [OF p(5)] pq]
  have "\<forall>c \<in> marked (?f ?q). b_dev (bc_buf (?f ?q) c) = 1 \<and> b_blockno (bc_buf (?f ?q) c) \<in> logged (?f ?q)"
    using tx d(3) bn pb lt by (auto simp: tx_def)
  moreover have "lg_n (?f ?q) = n'" "lg_block (?f ?q) = bl" by (simp_all add: upd_buf_def)
  ultimately have "tx bufs B k (?f ?q)"
    using tx d(1,2) w(2-4) fs_frame_fields [OF fr] c by (simp add: tx_def)
  then show thesis using that [OF w(1)] d(3,4) fr by simp
qed

lemma tx_brelse:
  assumes tx: "tx bufs B k s" and b: "bufs b = Some n" "b \<in> marked s \<or> view s n = dsk s n"
  obtains t where "brelse b s = Ok () t" "tx (bufs(b := None)) B k t" "view t = view s" "fs_frame s t"
proof -
  have inv: "bcache_inv s" "owned s b = Some n" using tx b by (simp_all add: tx_def)
  obtain t where t: "brelse b s = Ok () t" "bcache_inv t" "owned t = (owned s)(b := None)" "marked t = marked s" "view t = view s" "bio_frame s t"
    using brelse_law [OF inv b(2)] by blast
  note m = brelse_marks [OF inv t(1)]
  have l: "logged t = logged s" using bio_frame_log [OF t(6)] by (simp add: logged_def)
  have "ran (bufs(b := None)) \<subseteq> ran bufs" by (auto simp: ran_def split: if_splits)
  then have "card (logged s \<union> B \<union> ran (bufs(b := None))) \<le> card (logged s \<union> B \<union> ran bufs)"
    using tx_finite [OF tx] by (intro card_mono) auto
  then have "tx (bufs(b := None)) B k t"
    using tx t m l bio_frame_log [OF t(6)] bio_frame_fields [OF t(6)] by (auto simp: tx_def lock_ready_def marks_same_def)
  then show thesis using that [OF t(1)] t(5) bio_fs_frame [OF t(6)] by simp
qed

text \<open>The two patterns of \<^verbatim>\<open>fs.c\<close>: a block read and released, and a block read, changed, logged and released.\<close>

lemma tx_read:
  assumes tx: "tx bufs B k s" and n: "n \<notin> ran bufs" "n < disksize s"
  obtains b s1 t where "bread 1 n s = Ok b s1" "b_data (bc_buf s1 b) = view s n" "brelse b s1 = Ok () t" "tx bufs B k t" "view t = view s"
    "fs_frame s s1" "fs_frame s t"
proof -
  have a: "bcache_inv s" "n \<notin> ran (owned s)" "owned s = bufs" using tx n by (auto simp: tx_def)
  obtain b s1 where r: "bread 1 n s = Ok b s1" "bcache_inv s1" "b \<notin> dom (owned s)" "owned s1 = (owned s)(b \<mapsto> n)" "marked s1 = marked s" "view s1 = view s"
    "b \<in> marked s1 \<or> view s n = dsk s n" "dsk s1 = dsk s" "bio_frame s s1"
    using bread_law [OF a(1,2) tx_room [OF tx] n(2)] by blast
  note m = bread_marks [OF a(1,2) tx_room [OF tx] n(2) r(1)]
  have ob: "owned s1 b = Some n" using r(4) by simp
  obtain t where t: "brelse b s1 = Ok () t" "bcache_inv t" "owned t = (owned s1)(b := None)" "marked t = marked s1" "view t = view s1" "bio_frame s1 t"
    using brelse_law [OF r(2) ob] r(6,7,8) by auto
  note m' = brelse_marks [OF r(2) ob t(1)]
  note fr = bio_frame_trans [OF r(9) t(6)]
  have "owned t = bufs" using t(3) r(3,4) a(3) by (simp add: fun_upd_idem domIff)
  then have "tx bufs B k t"
    using tx t(2) m m' bio_frame_log [OF fr] bio_frame_fields [OF fr] by (auto simp: tx_def lock_ready_def marks_same_def logged_def)
  then show thesis using that [OF r(1) _ t(1)] ownedD(6) [OF r(2) ob] r(6) t(5) bio_fs_frame [OF r(9)] bio_fs_frame [OF fr] by simp
qed

lemma tx_update:
  assumes tx: "tx bufs B k s" and n: "n \<notin> ran bufs" "n < disksize s" "n \<in> B"
  obtains b s1 where "bread 1 n s = Ok b s1" "b_data (bc_buf s1 b) = view s n" "fs_frame s s1"
    "\<forall>d. \<exists>s2 t. log_write b (put_data b d s1) = Ok () s2 \<and> brelse b s2 = Ok () t \<and> tx bufs B k t \<and> view t = (view s)(n := d) \<and> fs_frame s s2 \<and> fs_frame s t"
proof -
  obtain b s1 where r: "bread 1 n s = Ok b s1" "b \<notin> dom bufs" "tx (bufs(b \<mapsto> n)) B k s1" "view s1 = view s" "b_data (bc_buf s1 b) = view s n" "fs_frame s s1"
    by (rule tx_bread [OF tx n])
  show thesis
  proof (rule that [OF r(1,5,6)], rule allI)
    fix d
    obtain s2 where s2: "log_write b (put_data b d s1) = Ok () s2" "tx (bufs(b \<mapsto> n)) B k s2" "view s2 = (view s1)(n := d)" "b \<in> marked s2" "fs_frame s1 s2"
      by (rule tx_log [OF r(3) _ n(3), of b d]) simp
    obtain t where t: "brelse b s2 = Ok () t" "tx (bufs(b \<mapsto> n, b := None)) B k t" "view t = view s2" "fs_frame s2 t"
      by (rule tx_brelse [OF s2(2), of b n]) (use s2(4) in simp_all)
    have "bufs(b \<mapsto> n, b := None) = bufs" using r(2) by (auto simp: fun_eq_iff)
    then show "\<exists>s2 t. log_write b (put_data b d s1) = Ok () s2 \<and> brelse b s2 = Ok () t \<and> tx bufs B k t \<and> view t = (view s)(n := d) \<and> fs_frame s s2 \<and> fs_frame s t"
      using s2 t r(4) fs_frame_trans [OF r(6) s2(5)] fs_frame_trans [OF fs_frame_trans [OF r(6) s2(5)] t(4)] by auto
  qed
qed

end
