(* ===== verification/Balloc.thy ===== *)
theory Balloc
  imports Fs_Laws
begin

text \<open>
  The free map: the bit of a block, the layout of the disk the allocator relies on, and what \<open>balloc\<close> and \<open>bfree\<close> do to the blocks of the disk.
\<close>

section \<open>Bits\<close>

lemma bm_test_bit: "bm_test d i = bit (d ! (i div 8)) (i mod 8)"
proof -
  have "d ! (i div 8) AND push_bit (i mod 8) 1 = (if bit (d ! (i div 8)) (i mod 8) then push_bit (i mod 8) 1 else 0)"
    by (auto intro!: bit_eqI simp: bit_simps)
  moreover have "push_bit (i mod 8) (1 :: u8) \<noteq> 0"
    using bit_push_bit_iff [of "i mod 8" "1 :: u8" "i mod 8"] by (auto simp: bit_eq_iff bit_simps exI [of _ "i mod 8"])
  ultimately show ?thesis by (simp add: bm_test_def)
qed

lemma bm_length [simp]: "length (bm_set d i) = length d" "length (bm_clear d i) = length d"
  by (simp_all add: bm_set_def bm_clear_def)

lemma same_bit: "j div 8 = i div 8 \<Longrightarrow> i = j \<longleftrightarrow> j mod 8 = i mod 8" for i j :: nat
  using div_mult_mod_eq [of i 8] div_mult_mod_eq [of j 8] by auto

lemma bit_push_1: "k < 8 \<Longrightarrow> m < 8 \<Longrightarrow> bit (2 ^ k :: u8) m \<longleftrightarrow> m = k"
  by (auto simp: bit_simps)

lemma bm_test_set: "i div 8 < length d \<Longrightarrow> bm_test (bm_set d i) j \<longleftrightarrow> i = j \<or> bm_test d j"
proof (cases "j div 8 = i div 8")
  case True
  assume i: "i div 8 < length d"
  then have "bm_test (bm_set d i) j \<longleftrightarrow> j mod 8 = i mod 8 \<or> bm_test d j" using True by (auto simp: bm_test_bit bm_set_def bit_or_iff bit_push_1)
  then show ?thesis using same_bit [OF True] by auto
qed (auto simp: bm_test_bit bm_set_def)

lemma bm_test_clear: "i div 8 < length d \<Longrightarrow> bm_test (bm_clear d i) j \<longleftrightarrow> i \<noteq> j \<and> bm_test d j"
proof (cases "j div 8 = i div 8")
  case True
  assume i: "i div 8 < length d"
  then have "bm_test (bm_clear d i) j \<longleftrightarrow> j mod 8 \<noteq> i mod 8 \<and> bm_test d j" using True by (auto simp: bm_test_bit bm_clear_def bit_and_iff bit_not_iff bit_push_1)
  then show ?thesis using same_bit [OF True] by auto
qed (auto simp: bm_test_bit bm_clear_def)

lemma bm_find_Some:
  "bm_find n i b sz d = Some j \<Longrightarrow> i \<le> j \<and> j < i + n \<and> b + j < sz \<and> \<not> bm_test d j \<and> (\<forall>l. i \<le> l \<and> l < j \<longrightarrow> bm_test d l)"
proof (induction n arbitrary: i)
  case (Suc n)
  show ?case
  proof (cases "bm_test d i")
    case True
    then have "Suc i \<le> j \<and> j < Suc i + n \<and> b + j < sz \<and> \<not> bm_test d j \<and> (\<forall>l. Suc i \<le> l \<and> l < j \<longrightarrow> bm_test d l)"
      using Suc.IH [of "Suc i"] Suc.prems by (simp split: if_splits)
    then show ?thesis using True by (metis Suc_leD Suc_leI add_Suc_right add_Suc le_neq_implies_less)
  qed (use Suc.prems in \<open>auto split: if_splits\<close>)
qed simp

lemma bm_find_None: "bm_find n i b sz d = None \<Longrightarrow> i \<le> l \<Longrightarrow> l < i + n \<Longrightarrow> b + l < sz \<Longrightarrow> bm_test d l"
proof (induction n arbitrary: i)
  case (Suc n)
  show ?case
  proof (cases "l = i")
    case False
    then show ?thesis using Suc.IH [of "Suc i"] Suc.prems by (auto split: if_splits)
  qed (use Suc.prems in \<open>auto split: if_splits\<close>)
qed simp

section \<open>The layout of the disk\<close>

definition used :: "(u32 \<Rightarrow> u8 list) \<Rightarrow> superblock \<Rightarrow> u32 \<Rightarrow> bool" where
  "used V x b \<longleftrightarrow> bm_test (V (BBLOCK b x)) (unat b mod BPB)"

text \<open>Every block of the disk has its bit in a block of the free map, and the first block and the free map itself are in use.\<close>

definition layout :: "(u32 \<Rightarrow> u8 list) \<Rightarrow> superblock \<Rightarrow> u32 \<Rightarrow> bool" where
  "layout V x dsz \<longleftrightarrow> sb_size x \<le> dsz \<and> 0 < sb_size x \<and> used V x 0 \<and> (\<forall>b < dsz. length (V b) = BSIZE) \<and>
     (\<forall>b < sb_size x. BBLOCK b x < sb_size x \<and> used V x (BBLOCK b x))"

definition map_blocks :: "superblock \<Rightarrow> u32 set" where
  "map_blocks x = (\<lambda>b. BBLOCK b x) ` {b. b < sb_size x}"

lemma BBLOCK_eq_iff: "BBLOCK a x = BBLOCK b x \<longleftrightarrow> unat a div BPB = unat b div BPB"
proof -
  have "BBLOCK a x = BBLOCK b x \<longleftrightarrow> a div 4096 = b div 4096" by (simp only: BBLOCK_def add_right_cancel of_nat_numeral)
  also have "\<dots> \<longleftrightarrow> unat (a div 4096) = unat (b div 4096)" by (rule word_unat_eq_iff)
  finally show ?thesis by (simp add: unat_div)
qed

lemma bit_index: "i < BPB \<Longrightarrow> i div 8 < BSIZE"
  by (simp add: less_mult_imp_div_less)

lemma used_set:
  assumes "layout V x dsz" "a < sb_size x" "b < sb_size x"
  shows "used (V(BBLOCK a x := bm_set (V (BBLOCK a x)) (unat a mod BPB))) x b \<longleftrightarrow> b = a \<or> used V x b"
proof -
  have l: "unat a mod BPB div 8 < length (V (BBLOCK a x))" using assms bit_index [of "unat a mod BPB"] by (auto simp: layout_def)
  show ?thesis
  proof (cases "BBLOCK b x = BBLOCK a x")
    case True
    then have "unat b div BPB = unat a div BPB" by (simp only: BBLOCK_eq_iff)
    then have "unat a mod BPB = unat b mod BPB \<longleftrightarrow> b = a" by (metis div_mod_decomp word_unat_eq_iff)
    then show ?thesis using True l by (simp add: used_def bm_test_set)
  next
    case False
    then show ?thesis by (auto simp: used_def)
  qed
qed

lemma layout_upd:
  assumes "layout V x dsz" "n \<notin> map_blocks x" "length d = BSIZE" shows "layout (V(n := d)) x dsz"
proof -
  have "BBLOCK b x \<noteq> n" if "b < sb_size x" for b using assms(2) that by (auto simp: map_blocks_def)
  then have u: "used (V(n := d)) x b = used V x b" if "b < sb_size x" for b using that by (simp add: used_def)
  have s: "sb_size x > 0" "\<And>b. b < sb_size x \<Longrightarrow> BBLOCK b x < sb_size x" using assms(1) by (simp_all add: layout_def)
  show ?thesis using assms(1,3) u [OF s(1)] u [OF s(2)] by (simp add: layout_def)
qed

lemma layout_set:
  assumes "layout V x dsz" "a < sb_size x"
  shows "layout (V(BBLOCK a x := bm_set (V (BBLOCK a x)) (unat a mod BPB))) x dsz"
proof -
  let ?V = "V(BBLOCK a x := bm_set (V (BBLOCK a x)) (unat a mod BPB))"
  have s: "sb_size x > 0" "\<And>b. b < sb_size x \<Longrightarrow> BBLOCK b x < sb_size x" "\<And>b. b < dsz \<Longrightarrow> length (?V b) = BSIZE"
    using assms(1) by (simp_all add: layout_def)
  then show ?thesis using assms(1) used_set [OF assms s(1)] used_set [OF assms s(2)] unfolding layout_def by metis
qed

lemma used_upd: "n \<notin> map_blocks x \<Longrightarrow> b < sb_size x \<Longrightarrow> used (V(n := d)) x b = used V x b"
  by (auto simp: used_def map_blocks_def)

lemma map_blocks_used: "layout V x dsz \<Longrightarrow> n \<in> map_blocks x \<Longrightarrow> n < sb_size x \<and> n < dsz \<and> used V x n"
  by (auto simp: layout_def map_blocks_def intro: less_le_trans)

section \<open>\<open>balloc\<close>\<close>

lemma tx_zero:
  assumes tx: "tx bufs B k s" and n: "n \<notin> ran bufs" "n < disksize s" "n \<in> B"
  obtains t where "bzero 1 n s = Ok () t" "tx bufs B k t" "view t = (view s)(n := replicate BSIZE 0)" "fs_frame s t"
proof -
  obtain b s1 where r: "bread 1 n s = Ok b s1" "b_data (bc_buf s1 b) = view s n" "fs_frame s s1"
      "\<forall>d. \<exists>s2 t. log_write b (put_data b d s1) = Ok () s2 \<and> brelse b s2 = Ok () t \<and> tx bufs B k t \<and> view t = (view s)(n := d) \<and> fs_frame s s2 \<and> fs_frame s t"
    by (rule tx_update [OF tx n])
  obtain s2 t where "log_write b (put_data b (replicate BSIZE 0) s1) = Ok () s2" "brelse b s2 = Ok () t" "tx bufs B k t"
    "view t = (view s)(n := replicate BSIZE 0)" "fs_frame s t" using r(4) by blast
  then show thesis using that r by (simp add: bzero_def)
qed

text \<open>The block \<open>balloc\<close> takes: the first free one.\<close>

definition first_free :: "(u32 \<Rightarrow> u8 list) \<Rightarrow> superblock \<Rightarrow> u32 \<Rightarrow> bool" where
  "first_free V x a \<longleftrightarrow> a < sb_size x \<and> \<not> used V x a \<and> (\<forall>b < a. used V x b)"

definition alloced :: "u32 \<Rightarrow> superblock \<Rightarrow> (u32 \<Rightarrow> u8 list) \<Rightarrow> u32 \<Rightarrow> u8 list" where
  "alloced a x V = V(BBLOCK a x := bm_set (V (BBLOCK a x)) (unat a mod BPB), a := replicate BSIZE 0)"

lemma map_block_in: "b < sb_size x \<Longrightarrow> BBLOCK b x \<in> map_blocks x"
  by (auto simp: map_blocks_def)

lemma first_free_unique: "first_free V x a \<Longrightarrow> first_free V x b \<Longrightarrow> a = b"
  unfolding first_free_def by (metis linorder_neqE)

lemma unat_block: "b < unat (x :: u32) \<Longrightarrow> unat (of_nat b :: u32) = b"
proof -
  assume b: "b < unat x"
  have "unat x < 2 ^ LENGTH(32)" by (rule unsigned_less)
  then show ?thesis using b by (simp add: unat_of_nat take_bit_nat_eq_self)
qed

lemma used_bit:
  assumes "b + bi < unat (sb_size x)" "BPB dvd b" "bi < BPB"
  shows "used V x (of_nat (b + bi)) \<longleftrightarrow> bm_test (V (BBLOCK (of_nat b) x)) bi" "BBLOCK (of_nat (b + bi)) x = BBLOCK (of_nat b) x"
proof -
  have u: "unat (of_nat (b + bi) :: u32) = b + bi" "unat (of_nat b :: u32) = b" 
    using unat_block [OF assms(1)] unat_block [of b "sb_size x"] assms(1) by simp_all
  obtain q where q: "b = BPB * q" using assms(2) by blast
  show N: "BBLOCK (of_nat (b + bi)) x = BBLOCK (of_nat b) x" unfolding BBLOCK_eq_iff u using assms(3) by (simp add: q)
  have "(b + bi) mod BPB = bi" using assms(3) by (simp add: q)
  then show "used V x (of_nat (b + bi)) \<longleftrightarrow> bm_test (V (BBLOCK (of_nat b) x)) bi" by (simp only: used_def N u)
qed

lemma balloc_pass:
  fixes s :: "'a icst_scheme"
  assumes tx: "tx bufs B k s" and lay: "layout (view s) (sb s) (disksize s)" and B: "map_blocks (sb s) \<subseteq> B" "ran bufs \<inter> map_blocks (sb s) = {}"
    and b: "b < unat (sb_size (sb s))" and none: "bm_find BPB 0 b (unat (sb_size (sb s))) (view s (BBLOCK (of_nat b) (sb s))) = None"
  obtains t where "balloc_loop (Suc n) 1 b s = balloc_loop n 1 (b + BPB) t" "tx bufs B k t" "view t = view s" "fs_frame s t"
proof -
  let ?N = "BBLOCK (of_nat b) (sb s)"
  have bs: "(of_nat b :: u32) < sb_size (sb s)" using b unat_block [OF b] by (simp add: word_less_nat_alt)
  have N: "?N \<in> map_blocks (sb s)" "?N < disksize s" using map_block_in [OF bs] map_blocks_used [OF lay] by auto
  obtain bp s1 t where r: "bread 1 ?N s = Ok bp s1" "b_data (bc_buf s1 bp) = view s ?N" "brelse bp s1 = Ok () t" "tx bufs B k t" "view t = view s" "fs_frame s s1" "fs_frame s t"
    by (rule tx_read [OF tx _ N(2)]) (use N B(2) in auto)
  then have "balloc_loop (Suc n) 1 b s = balloc_loop n 1 (b + BPB) t" using b none fs_frame_inodes [OF r(6)] by simp
  then show thesis using that r by blast
qed

lemma balloc_take:
  fixes s :: "'a icst_scheme"
  assumes tx: "tx bufs B (Suc k) s" and lay: "layout (view s) (sb s) (disksize s)" and B: "map_blocks (sb s) \<subseteq> B" "ran bufs \<inter> map_blocks (sb s) = {}"
    and h: "\<forall>n \<in> ran bufs. used (view s) (sb s) n" and b: "b < unat (sb_size (sb s))" "BPB dvd b"
    and fnd: "bm_find BPB 0 b (unat (sb_size (sb s))) (view s (BBLOCK (of_nat b) (sb s))) = Some bi" and a: "a = of_nat (b + bi)"
  obtains t where "balloc_loop (Suc n) 1 b s = Ok a t" "tx bufs (insert a B) k t" "view t = alloced a (sb s) (view s)" "fs_frame s t"
proof -
  let ?N = "BBLOCK (of_nat b) (sb s)" and ?V = "view s"
  have bs: "(of_nat b :: u32) < sb_size (sb s)" using b unat_block [OF b(1)] by (simp add: word_less_nat_alt)
  have N: "?N \<in> map_blocks (sb s)" "?N < disksize s" using map_block_in [OF bs] map_blocks_used [OF lay] by auto
  have bi: "bi < BPB" "b + bi < unat (sb_size (sb s))" "\<not> bm_test (?V ?N) bi" using bm_find_Some [OF fnd] by simp_all
  note u = used_bit [OF bi(2) b(2) bi(1)]
  have au: "unat a = b + bi" "a < sb_size (sb s)" "\<not> used ?V (sb s) a" "BBLOCK a (sb s) = ?N"
    using unat_block [OF bi(2)] bi u by (simp_all add: a word_less_nat_alt)
  have am: "unat a mod BPB = bi" using b(2) bi(1) by (auto simp: au(1))
  have ad: "a < disksize s" "a \<notin> ran bufs" using au lay h by (auto simp: layout_def)
  note tx' = tx_reserve [OF tx, of a]
  obtain bp s1 where r: "bread 1 ?N s = Ok bp s1" "b_data (bc_buf s1 bp) = ?V ?N" "fs_frame s s1"
      "\<forall>d. \<exists>s2 t. log_write bp (put_data bp d s1) = Ok () s2 \<and> brelse bp s2 = Ok () t \<and> tx bufs (insert a B) k t \<and> view t = ?V(?N := d) \<and> fs_frame s s2 \<and> fs_frame s t"
    by (rule tx_update [OF tx' _ N(2)]) (use N B in auto)
  obtain s2 s3 where w: "log_write bp (put_data bp (bm_set (?V ?N) bi) s1) = Ok () s2" "brelse bp s2 = Ok () s3" "tx bufs (insert a B) k s3"
    "view s3 = ?V(?N := bm_set (?V ?N) bi)" "fs_frame s s3" using r(4) by blast
  obtain t where z: "bzero 1 a s3 = Ok () t" "tx bufs (insert a B) k t" "view t = (view s3)(a := replicate BSIZE 0)" "fs_frame s3 t"
    by (rule tx_zero [OF w(3), of a]) (use ad fs_frame_fields [OF w(5)] in auto)
  have "balloc_loop (Suc n) 1 b s = Ok a t" using b(1) fnd r w z(1) fs_frame_inodes [OF r(3)] by (simp add: a)
  moreover have "view t = alloced a (sb s) ?V" using z(3) w(4) by (simp only: alloced_def au(4) am)
  ultimately show thesis using that z(2) fs_frame_trans [OF w(5) z(4)] by blast
qed

lemma bm_find_first:
  assumes ff: "first_free V x a" and b: "BPB dvd b" "b \<le> unat a"
  shows "bm_find BPB 0 b (unat (sb_size x)) (V (BBLOCK (of_nat b) x)) = (if unat a < b + BPB then Some (unat a - b) else None)"
proof -
  let ?d = "V (BBLOCK (of_nat b) x)"
  have asz: "unat a < unat (sb_size x)" "\<not> used V x a" using ff by (simp_all add: first_free_def word_less_nat_alt)
  have lo: "bm_test ?d l" if "b + l < unat a" "l < BPB" for l
  proof -
    have s: "b + l < unat (sb_size x)" using that asz by simp
    then have "(of_nat (b + l) :: u32) < a" using that unat_block [OF s] by (simp add: word_less_nat_alt)
    then show ?thesis using ff used_bit(1) [OF s b(1) that(2), of V] by (simp add: first_free_def)
  qed
  have at: "\<not> bm_test ?d (unat a - b)" if "unat a < b + BPB"
    using used_bit(1) [of b "unat a - b" x V] asz b that by simp
  show ?thesis
  proof (cases "bm_find BPB 0 b (unat (sb_size x)) ?d")
    case None
    then have "\<not> unat a < b + BPB" using bm_find_None [OF None, of "unat a - b"] at asz b by (metis add.commute add_0 le_add_diff_inverse less_diff_conv2 zero_le)
    then show ?thesis using None by simp
  next
    case (Some j)
    then have j: "j < BPB" "b + j < unat (sb_size x)" "\<not> bm_test ?d j" "\<forall>l < j. bm_test ?d l" using bm_find_Some [OF Some] by simp_all
    then have "unat a \<le> b + j" using lo [of j] by (meson not_le)
    moreover from this have "\<not> unat a - b < j" using at j by auto
    ultimately show ?thesis using Some b j(1) by auto
  qed
qed

lemma balloc_loop_ok:
  fixes s :: "'a icst_scheme"
  assumes "tx bufs B (Suc k) s" "layout (view s) (sb s) (disksize s)" "map_blocks (sb s) \<subseteq> B" "ran bufs \<inter> map_blocks (sb s) = {}"
    "\<forall>n \<in> ran bufs. used (view s) (sb s) n" "first_free (view s) (sb s) a" "BPB dvd b" "b \<le> unat a" "unat (sb_size (sb s)) < b + n * BPB"
  shows "\<exists>t. balloc_loop n 1 b s = Ok a t \<and> tx bufs (insert a B) k t \<and> view t = alloced a (sb s) (view s) \<and> fs_frame s t"
  using assms
proof (induction n arbitrary: b s)
  case 0
  then show ?case by (simp add: first_free_def word_less_nat_alt)
next
  case (Suc n)
  note p = Suc.prems
  have b: "b < unat (sb_size (sb s))" using p(6,8) by (simp add: first_free_def word_less_nat_alt)
  note f = bm_find_first [OF p(6-8)]
  show ?case
  proof (cases "unat a < b + BPB")
    case True
    then have fnd: "bm_find BPB 0 b (unat (sb_size (sb s))) (view s (BBLOCK (of_nat b) (sb s))) = Some (unat a - b)" using f by simp
    have "a = of_nat (b + (unat a - b))" using p(8) by (simp del: of_nat_add)
    from balloc_take [OF p(1-5) b p(7) fnd this] show ?thesis by blast
  next
    case False
    obtain s1 where s1: "balloc_loop (Suc n) 1 b s = balloc_loop n 1 (b + BPB) s1" "tx bufs B (Suc k) s1" "view s1 = view s" "fs_frame s s1"
      by (rule balloc_pass [OF p(1-4) b]) (use False f in auto)
    note fr = fs_frame_fields [OF s1(4)] fs_frame_inodes [OF s1(4)]
    have "\<exists>t. balloc_loop n 1 (b + BPB) s1 = Ok a t \<and> tx bufs (insert a B) k t \<and> view t = alloced a (sb s1) (view s1) \<and> fs_frame s1 t"
      by (rule Suc.IH [OF s1(2)]) (use p False s1(3) fr in auto)
    then show ?thesis using s1 fr fs_frame_trans [OF s1(4)] by auto
  qed
qed

lemma balloc_law:
  fixes s :: "'a icst_scheme"
  assumes "tx bufs B (Suc k) s" "layout (view s) (sb s) (disksize s)" "map_blocks (sb s) \<subseteq> B" "ran bufs \<inter> map_blocks (sb s) = {}"
    "\<forall>n \<in> ran bufs. used (view s) (sb s) n" "first_free (view s) (sb s) a"
  obtains t where "balloc 1 s = Ok a t" "tx bufs (insert a B) k t" "view t = alloced a (sb s) (view s)" "fs_frame s t"
proof -
  have "unat (sb_size (sb s)) < 0 + Suc (Suc (unat (sb_size (sb s)) div BPB)) * BPB"
    using div_mult_mod_eq [of "unat (sb_size (sb s))" BPB] mod_less_divisor [of BPB "unat (sb_size (sb s))"] by simp
  then show thesis using that balloc_loop_ok [OF assms, of 0 "Suc (Suc (unat (sb_size (sb s)) div BPB))"] by (auto simp: balloc_def)
qed

text \<open>With no free block the search passes over the whole map and stops.\<close>

lemma balloc_loop_full:
  fixes s :: "'a icst_scheme"
  assumes "tx bufs B k s" "layout (view s) (sb s) (disksize s)" "map_blocks (sb s) \<subseteq> B" "ran bufs \<inter> map_blocks (sb s) = {}"
    "\<forall>b < sb_size (sb s). used (view s) (sb s) b" "BPB dvd b" "unat (sb_size (sb s)) + BPB < b + n * BPB" "0 < n"
  shows "balloc_loop n 1 b s = Panic ''balloc: out of blocks''"
  using assms
proof (induction n arbitrary: b s)
  case (Suc n)
  note p = Suc.prems
  show ?case
  proof (cases "b < unat (sb_size (sb s))")
    case True
    have "bm_find BPB 0 b (unat (sb_size (sb s))) (view s (BBLOCK (of_nat b) (sb s))) = None"
    proof (rule ccontr)
      assume "\<not> ?thesis"
      then obtain j where "bm_find BPB 0 b (unat (sb_size (sb s))) (view s (BBLOCK (of_nat b) (sb s))) = Some j" by auto
      then have j: "j < BPB" "b + j < unat (sb_size (sb s))" "\<not> bm_test (view s (BBLOCK (of_nat b) (sb s))) j" using bm_find_Some by fastforce+
      then show False using p(5) used_bit(1) [OF j(2) p(6) j(1), of "view s"] unat_block [OF j(2)] by (simp add: word_less_nat_alt)
    qed
    then obtain s1 where s1: "balloc_loop (Suc n) 1 b s = balloc_loop n 1 (b + BPB) s1" "tx bufs B k s1" "view s1 = view s" "fs_frame s s1"
      by (rule balloc_pass [OF p(1-4) True])
    note fr = fs_frame_fields [OF s1(4)] fs_frame_inodes [OF s1(4)]
    have "0 < n" using p(7) True by (cases n) auto
    then have "balloc_loop n 1 (b + BPB) s1 = Panic ''balloc: out of blocks''"
      by (intro Suc.IH [OF s1(2)]) (use p s1(3) fr in auto)
    then show ?thesis using s1(1) by simp
  qed simp
qed simp

text \<open>The state of the map after an allocation.\<close>

lemma alloced_simps:
  assumes lay: "layout V x dsz" and a: "first_free V x a"
  shows "b < sb_size x \<Longrightarrow> used (alloced a x V) x b \<longleftrightarrow> b = a \<or> used V x b" "layout (alloced a x V) x dsz" "a \<noteq> 0" "a < dsz" "a \<notin> map_blocks x"
    "alloced a x V a = replicate BSIZE 0" "n \<notin> map_blocks x \<Longrightarrow> n \<noteq> a \<Longrightarrow> alloced a x V n = V n"
proof -
  let ?W = "V(BBLOCK a x := bm_set (V (BBLOCK a x)) (unat a mod BPB))"
  have asz: "a < sb_size x" "\<not> used V x a" using a by (simp_all add: first_free_def)
  show "a \<noteq> 0" using lay asz by (auto simp: layout_def)
  show "a < dsz" using lay asz by (auto simp: layout_def)
  show am: "a \<notin> map_blocks x" using asz map_blocks_used [OF lay] by auto
  show "used (alloced a x V) x b \<longleftrightarrow> b = a \<or> used V x b" if "b < sb_size x"
    unfolding alloced_def using used_upd [OF am that, of ?W] used_set [OF lay asz(1) that] by simp
  show "layout (alloced a x V) x dsz" unfolding alloced_def using layout_upd [OF layout_set [OF lay asz(1)] am, of "replicate BSIZE 0"] by simp
  show "alloced a x V a = replicate BSIZE 0" by (simp add: alloced_def)
  show "alloced a x V n = V n" if "n \<notin> map_blocks x" "n \<noteq> a" using that asz(1) by (auto simp: alloced_def map_blocks_def)
qed

lemma ex_first_free: "b < sb_size x \<Longrightarrow> \<not> used V x b \<Longrightarrow> \<exists>a. first_free V x a"
proof -
  assume b: "b < sb_size x" "\<not> used V x b"
  define a where "a = (LEAST a. \<not> used V x a)"
  have "\<not> used V x a" "\<forall>c < a. used V x c" unfolding a_def using LeastI [of "\<lambda>a. \<not> used V x a", OF b(2)] not_less_Least by blast+
  moreover have "a \<le> b" unfolding a_def using b(2) by (rule Least_le)
  ultimately show ?thesis using le_less_trans [OF _ b(1)] unfolding first_free_def by blast
qed

end
