(* ===== verification/Filemap.thy ===== *)
theory Filemap
  imports Balloc
begin

text \<open>
  The blocks of a file: \<open>iaddr\<close> is the block that holds block \<open>i\<close> of an inode's contents, \<open>fdata\<close> the bytes there, and \<open>ifile_ok\<close> says that the
  blocks of an inode are allocated and distinct.  \<open>bmap\<close> keeps \<open>ifile_ok\<close> and the contents: a block it allocates reads as the zeros the hole did.
\<close>

section \<open>Contents\<close>

definition iaddr :: "(u32 \<Rightarrow> u8 list) \<Rightarrow> inode \<Rightarrow> nat \<Rightarrow> u32" where
  "iaddr V x i = (if i < NDIRECT then i_addrs x ! i else if i_addrs x ! NDIRECT = 0 then 0 else ld32 (V (i_addrs x ! NDIRECT)) (4 * (i - NDIRECT)))"

definition iblocks :: "(u32 \<Rightarrow> u8 list) \<Rightarrow> inode \<Rightarrow> u32 set" where
  "iblocks V x = {a. a \<noteq> 0 \<and> (a = i_addrs x ! NDIRECT \<or> (\<exists>i < MAXFILE. a = iaddr V x i))}"

definition ifile_ok :: "(u32 \<Rightarrow> u8 list) \<Rightarrow> superblock \<Rightarrow> inode \<Rightarrow> bool" where
  "ifile_ok V sbk x \<longleftrightarrow> length (i_addrs x) = NDIRECT + 1 \<and> i_dev x = 1 \<and>
     (\<forall>a \<in> iblocks V x. a < sb_size sbk \<and> used V sbk a \<and> a \<notin> map_blocks sbk) \<and>
     (\<forall>i < MAXFILE. \<forall>j < MAXFILE. iaddr V x i \<noteq> 0 \<and> iaddr V x i = iaddr V x j \<longrightarrow> i = j) \<and>
     (\<forall>i < MAXFILE. iaddr V x i \<noteq> 0 \<longrightarrow> iaddr V x i \<noteq> i_addrs x ! NDIRECT)"

definition fdata :: "(u32 \<Rightarrow> u8 list) \<Rightarrow> inode \<Rightarrow> nat \<Rightarrow> u8 list" where
  "fdata V x i = (if iaddr V x i = 0 then replicate BSIZE 0 else V (iaddr V x i))"

lemma ifile_okD:
  assumes "ifile_ok V sbk x"
  shows "length (i_addrs x) = 13" "i_dev x = 1" "a \<in> iblocks V x \<Longrightarrow> a < sb_size sbk \<and> used V sbk a \<and> a \<notin> map_blocks sbk"
  using assms by (simp_all add: ifile_ok_def)

lemma iblocksI: "i < MAXFILE \<Longrightarrow> iaddr V x i \<noteq> 0 \<Longrightarrow> iaddr V x i \<in> iblocks V x"
  "i_addrs x ! NDIRECT \<noteq> 0 \<Longrightarrow> i_addrs x ! NDIRECT \<in> iblocks V x"
  by (auto simp: iblocks_def)

section \<open>Growing a file\<close>

text \<open>One more block: entry \<open>i\<close> of the map, free until now, becomes the new block \<open>a\<close>.\<close>

definition grown :: "superblock \<Rightarrow> (u32 \<Rightarrow> u8 list) \<Rightarrow> inode \<Rightarrow> (u32 \<Rightarrow> u8 list) \<Rightarrow> inode \<Rightarrow> u32 \<Rightarrow> bool" where
  "grown sbk V x W y a \<longleftrightarrow> length (i_addrs y) = NDIRECT + 1 \<and> i_dev y = 1 \<and> W a = replicate BSIZE 0 \<and>
     (\<forall>b < sb_size sbk. used W sbk b \<longleftrightarrow> b = a \<or> used V sbk b) \<and>
     (\<forall>n. n \<notin> map_blocks sbk \<and> n \<noteq> a \<and> n \<noteq> i_addrs x ! NDIRECT \<longrightarrow> W n = V n)"

lemma grown_entry:
  assumes ok: "ifile_ok V sbk x" and a: "a < sb_size sbk" "\<not> used V sbk a" "a \<notin> map_blocks sbk" "a \<noteq> 0" and g: "grown sbk V x W y a"
    and i: "iaddr V x i = 0" and ind: "i_addrs y ! NDIRECT = i_addrs x ! NDIRECT"
    and m: "\<And>j. j < MAXFILE \<Longrightarrow> iaddr W y j = (if j = i then a else iaddr V x j)"
  shows "ifile_ok W sbk y" "j < MAXFILE \<Longrightarrow> fdata W y j = fdata V x j" "iblocks W y \<subseteq> insert a (iblocks V x)"
proof -
  note D = ifile_okD [OF ok]
  have na: "iaddr V x j \<noteq> a" if "j < MAXFILE" for j using that a(2,4) D(3) iblocksI(1) by metis
  have ni: "i_addrs x ! NDIRECT \<noteq> a" using a(2,4) D(3) iblocksI(2) by metis
  show sub: "iblocks W y \<subseteq> insert a (iblocks V x)" using m by (auto simp: iblocks_def ind split: if_splits)
  show "ifile_ok W sbk y" unfolding ifile_ok_def
  proof (intro conjI)
    show "length (i_addrs y) = NDIRECT + 1" "i_dev y = 1" using g by (simp_all add: grown_def)
    show "\<forall>b \<in> iblocks W y. b < sb_size sbk \<and> used W sbk b \<and> b \<notin> map_blocks sbk"
      using sub D(3) a g by (fastforce simp: grown_def)
    show "\<forall>i<MAXFILE. \<forall>j<MAXFILE. iaddr W y i \<noteq> 0 \<and> iaddr W y i = iaddr W y j \<longrightarrow> i = j"
      using ok m na by (auto simp: ifile_ok_def split: if_splits)
    show "\<forall>i<MAXFILE. iaddr W y i \<noteq> 0 \<longrightarrow> iaddr W y i \<noteq> i_addrs y ! NDIRECT"
      using ok m ni ind by (auto simp: ifile_ok_def split: if_splits)
  qed
  show "fdata W y j = fdata V x j" if j: "j < MAXFILE"
  proof (cases "j = i")
    case True
    then show ?thesis using m [OF j] i g a(4) by (simp add: fdata_def grown_def)
  next
    case False
    have "W (iaddr V x j) = V (iaddr V x j)" if nz: "iaddr V x j \<noteq> 0"
    proof -
      have "iaddr V x j \<noteq> i_addrs x ! NDIRECT" using ok j nz by (simp add: ifile_ok_def)
      moreover have "iaddr V x j \<notin> map_blocks sbk" using D(3) iblocksI(1) [OF j nz] by simp
      ultimately show ?thesis using g na [OF j] by (simp add: grown_def)
    qed
    then show ?thesis using False m [OF j] by (simp add: fdata_def)
  qed
qed

lemma ind_frame:
  assumes "ifile_ok V sbk x" "layout V sbk dsz" "first_free V sbk a"
  shows "i_addrs x ! NDIRECT \<noteq> 0 \<Longrightarrow> alloced a sbk V (i_addrs x ! NDIRECT) = V (i_addrs x ! NDIRECT)" "i_addrs x ! NDIRECT \<noteq> 0 \<Longrightarrow> i_addrs x ! NDIRECT \<noteq> a"
proof -
  assume "i_addrs x ! NDIRECT \<noteq> 0"
  then have i: "i_addrs x ! NDIRECT \<notin> map_blocks sbk" "used V sbk (i_addrs x ! NDIRECT)" using ifile_okD(3) [OF assms(1)] iblocksI(2) by metis+
  then show n: "i_addrs x ! NDIRECT \<noteq> a" using assms(3) by (auto simp: first_free_def)
  show "alloced a sbk V (i_addrs x ! NDIRECT) = V (i_addrs x ! NDIRECT)" using alloced_simps(7) [OF assms(2,3)] i n by blast
qed

lemma grow_direct:
  assumes ok: "ifile_ok V sbk x" and lay: "layout V sbk dsz" and a: "first_free V sbk a" and i: "i < NDIRECT" "i_addrs x ! i = 0"
    and W: "W = alloced a sbk V" and y: "y = x\<lparr>i_addrs := (i_addrs x)[i := a]\<rparr>"
  shows "ifile_ok W sbk y" "j < MAXFILE \<Longrightarrow> fdata W y j = fdata V x j" "iblocks W y \<subseteq> insert a (iblocks V x)"
    "j < MAXFILE \<Longrightarrow> iaddr W y j = (if j = i then a else iaddr V x j)"
proof -
  note A = alloced_simps [OF lay a]
  have len: "length (i_addrs x) = 13" "i_dev x = 1" using ok by (simp_all add: ifile_ok_def)
  have g: "grown sbk V x W y a" using A len W y by (auto simp: grown_def)
  have m: "iaddr W y j = (if j = i then a else iaddr V x j)" for j
    using i len ind_frame(1) [OF ok lay a] W y by (auto simp: iaddr_def)
  have i0: "iaddr V x i = 0" using i by (simp add: iaddr_def)
  have a': "a < sb_size sbk" "\<not> used V sbk a" using a by (simp_all add: first_free_def)
  note G = grown_entry [OF ok a' A(5,3) g i0 _ m]
  show "ifile_ok W sbk y" "j < MAXFILE \<Longrightarrow> fdata W y j = fdata V x j" "iblocks W y \<subseteq> insert a (iblocks V x)"
    "j < MAXFILE \<Longrightarrow> iaddr W y j = (if j = i then a else iaddr V x j)"
    using G m i y len by simp_all
qed

lemma grow_indirect:
  assumes ok: "ifile_ok V sbk x" and lay: "layout V sbk dsz" and a: "first_free V sbk a" and i: "NDIRECT \<le> i" "i < MAXFILE" "iaddr V x i = 0" "i_addrs x ! NDIRECT \<noteq> 0"
    and W: "W = (alloced a sbk V)(i_addrs x ! NDIRECT := st32 (V (i_addrs x ! NDIRECT)) (4 * (i - NDIRECT)) a)"
  shows "ifile_ok W sbk x" "j < MAXFILE \<Longrightarrow> fdata W x j = fdata V x j" "iblocks W x \<subseteq> insert a (iblocks V x)"
    "j < MAXFILE \<Longrightarrow> iaddr W x j = (if j = i then a else iaddr V x j)"
proof -
  let ?n = "i_addrs x ! NDIRECT"
  note A = alloced_simps [OF lay a] and I = ind_frame [OF ok lay a i(4)]
  have len: "length (i_addrs x) = 13" "i_dev x = 1" using ok by (simp_all add: ifile_ok_def)
  have n: "?n \<notin> map_blocks sbk" "?n < sb_size sbk" using ifile_okD(3) [OF ok] iblocksI(2) i(4) by metis+
  then have l: "length (V ?n) = BSIZE" using lay by (auto simp: layout_def intro: less_le_trans)
  have "used W sbk b \<longleftrightarrow> b = a \<or> used V sbk b" if "b < sb_size sbk" for b using A(1) [OF that] used_upd [OF n(1) that] W by simp
  then have g: "grown sbk V x W x a" using A len W I(2) by (auto simp: grown_def)
  have o: "ld32 (st32 d (4 * (i - 12)) a) (4 * (j - 12)) = ld32 d (4 * (j - 12))" if "\<not> j < 12" "j \<noteq> i" for j d
    by (rule ld_st_other(4)) (use that i(1) in arith)
  have m: "iaddr W x j = (if j = i then a else iaddr V x j)" if "j < MAXFILE" for j
    using i that l W o by (auto simp: iaddr_def)
  have a': "a < sb_size sbk" "\<not> used V sbk a" using a by (simp_all add: first_free_def)
  note G = grown_entry [OF ok a' A(5,3) g i(3) refl m]
  show "ifile_ok W sbk x" "j < MAXFILE \<Longrightarrow> fdata W x j = fdata V x j" "iblocks W x \<subseteq> insert a (iblocks V x)"
    "j < MAXFILE \<Longrightarrow> iaddr W x j = (if j = i then a else iaddr V x j)"
    using G m by simp_all
qed

lemma ld32_zero: "k + 3 < n \<Longrightarrow> ld32 (replicate n 0) k = 0"
  by (simp add: ld32_def)

lemma grow_table:
  assumes ok: "ifile_ok V sbk x" and lay: "layout V sbk dsz" and a: "first_free V sbk a" and i: "i_addrs x ! NDIRECT = 0"
    and W: "W = alloced a sbk V" and y: "y = x\<lparr>i_addrs := (i_addrs x)[NDIRECT := a]\<rparr>"
  shows "ifile_ok W sbk y" "j < MAXFILE \<Longrightarrow> fdata W y j = fdata V x j" "iblocks W y \<subseteq> insert a (iblocks V x)" "j < MAXFILE \<Longrightarrow> iaddr W y j = iaddr V x j"
proof -
  note A = alloced_simps [OF lay a]
  have len: "length (i_addrs x) = 13" "i_dev x = 1" using ok by (simp_all add: ifile_ok_def)
  have m: "iaddr W y j = iaddr V x j" if "j < MAXFILE" for j using that i len A(6) W y by (auto simp: iaddr_def ld32_zero)
  then show "j < MAXFILE \<Longrightarrow> iaddr W y j = iaddr V x j" .
  have a': "a < sb_size sbk" "\<not> used V sbk a" using a by (simp_all add: first_free_def)
  have na: "iaddr V x j \<noteq> a" if "j < MAXFILE" for j using that a'(2) A(3) ifile_okD(3) [OF ok] iblocksI(1) by metis
  have ya: "i_addrs y ! NDIRECT = a" "length (i_addrs y) = NDIRECT + 1" "i_dev y = 1" using y len by simp_all
  show sub: "iblocks W y \<subseteq> insert a (iblocks V x)" using m by (auto simp: iblocks_def ya)
  have "b < sb_size sbk \<and> used W sbk b \<and> b \<notin> map_blocks sbk" if "b \<in> iblocks W y" for b
    using that sub ifile_okD(3) [OF ok] a' A(1,5) W by blast
  then show "ifile_ok W sbk y" using ok m na ya by (auto simp: ifile_ok_def)
  show "fdata W y j = fdata V x j" if j: "j < MAXFILE"
    using m [OF j] na [OF j] A(7) ifile_okD(3) [OF ok iblocksI(1) [OF j]] W by (auto simp: fdata_def)
qed

section \<open>\<open>bmap\<close>\<close>

definition nfree :: "(u32 \<Rightarrow> u8 list) \<Rightarrow> superblock \<Rightarrow> nat" where
  "nfree V x = card {b. b < sb_size x \<and> \<not> used V x b}"

lemma nfree_alloced: "layout V x dsz \<Longrightarrow> first_free V x a \<Longrightarrow> nfree V x = Suc (nfree (alloced a x V) x)"
proof -
  assume l: "layout V x dsz" and a: "first_free V x a"
  let ?F = "{b. b < sb_size x \<and> \<not> used V x b}"
  have "{b. b < sb_size x \<and> \<not> used (alloced a x V) x b} = ?F - {a}" using alloced_simps(1) [OF l a] by auto
  moreover have "a \<in> ?F" using a by (simp add: first_free_def)
  ultimately show ?thesis unfolding nfree_def using card.remove [of ?F a] by simp
qed

lemma nfree_upd: "n \<notin> map_blocks x \<Longrightarrow> nfree (V(n := d)) x = nfree V x"
  unfolding nfree_def by (rule arg_cong [of _ _ card]) (auto simp: used_upd)

lemma nfree_pos: "0 < nfree V x \<Longrightarrow> \<exists>a. first_free V x a"
  using ex_first_free [of _ x V] by (auto simp: nfree_def card_gt_0_iff)

text \<open>
  What a step on the file \<open>ip\<close> needs and keeps: its blocks are in order, and log and disk have room for \<open>k\<close> more blocks and for its indirect
  block if that is not in the log.
\<close>

definition credit :: "u32 set \<Rightarrow> inode \<Rightarrow> nat" where
  "credit B x = (if i_addrs x ! NDIRECT \<noteq> 0 \<and> i_addrs x ! NDIRECT \<in> B then 0 else 1)"

definition file_tx :: "u32 set \<Rightarrow> nat \<Rightarrow> nat \<Rightarrow> 'a icst_scheme \<Rightarrow> bool" where
  "file_tx B k ip s \<longleftrightarrow> ip < length (ic_inode s) \<and> layout (view s) (sb s) (disksize s) \<and> ifile_ok (view s) (sb s) (inode_at ip s) \<and>
     map_blocks (sb s) \<subseteq> B \<and> tx Map.empty B (k + credit B (inode_at ip s)) s \<and> k + credit B (inode_at ip s) \<le> nfree (view s) (sb s)"

text \<open>What it leaves alone: the other inodes and the blocks in use that are neither the file's nor of the free map.\<close>

definition other_block :: "'a icst_scheme \<Rightarrow> nat \<Rightarrow> u32 \<Rightarrow> bool" where
  "other_block s ip n \<longleftrightarrow> n \<notin> map_blocks (sb s) \<and> n \<notin> iblocks (view s) (inode_at ip s) \<and> (n < sb_size (sb s) \<longrightarrow> used (view s) (sb s) n)"

definition file_step :: "nat \<Rightarrow> 'a icst_scheme \<Rightarrow> 'a icst_scheme \<Rightarrow> bool" where
  "file_step ip s t \<longleftrightarrow> sb t = sb s \<and> disksize t = disksize s \<and> icst.more t = icst.more s \<and>
     (\<exists>A. ic_inode t = (ic_inode s)[ip := (inode_at ip s)\<lparr>i_addrs := A\<rparr>]) \<and>
     (\<forall>n. other_block s ip n \<longrightarrow> other_block t ip n \<and> view t n = view s n) \<and>
     (\<forall>i < MAXFILE. iaddr (view s) (inode_at ip s) i \<noteq> 0 \<longrightarrow> iaddr (view t) (inode_at ip t) i = iaddr (view s) (inode_at ip s) i)"

lemma bio_upd_inode [simp]:
  "bcache_inv (upd_inode ip f s) = bcache_inv s" "owned (upd_inode ip f s) = owned s" "marked (upd_inode ip f s) = marked s"
  "view (upd_inode ip f s) = view s" "dsk (upd_inode ip f s) = dsk s"
  by (simp_all add: upd_inode_def bcache_inv_def owned_def marked_def view_def dsk_def lru_def cache_ok_def cached_as_def lock_ready_def fun_eq_iff
      cong: option.case_cong)

lemma upd_inode_simps [simp]:
  "sb (upd_inode ip f s) = sb s" "disksize (upd_inode ip f s) = disksize s" "bc_buf (upd_inode ip f s) = bc_buf s" "icst.more (upd_inode ip f s) = icst.more s"
  "length (ic_inode (upd_inode ip f s)) = length (ic_inode s)" "lock_ready l (upd_inode ip f s) = lock_ready l s"
  "ic_inode (upd_inode ip f s) = (ic_inode s)[ip := f (inode_at ip s)]"
  by (simp_all add: upd_inode_def lock_ready_def inode_at_def)

lemma tx_upd_inode [simp]: "tx bufs B k (upd_inode ip f s) = tx bufs B k s"
  unfolding tx_def logged_def bio_upd_inode upd_inode_simps by (simp add: upd_inode_def)

lemma inode_at_upd [simp]: "ip < length (ic_inode s) \<Longrightarrow> inode_at ip (upd_inode ip f s) = f (inode_at ip s)"
  "jp \<noteq> ip \<Longrightarrow> inode_at jp (upd_inode ip f s) = inode_at jp s"
  by (simp_all add: inode_at_def upd_inode_def)

lemma file_step_refl [simp]: "file_step ip s s"
  unfolding file_step_def using list_update_id [of "ic_inode s" ip] by (auto simp: inode_at_def intro: exI [of _ "i_addrs (ic_inode s ! ip)"])

lemma file_step_trans: "file_step ip s t \<Longrightarrow> file_step ip t u \<Longrightarrow> file_step ip s u"
  unfolding file_step_def by (cases "ip < length (ic_inode s)") (auto simp: inode_at_def list_update_beyond)

lemma inode_frame: "fs_frame s t \<Longrightarrow> icst.more t = icst.more s" for s t :: "'a icst_scheme"
proof -
  assume "fs_frame s t"
  then have t: "t = s\<lparr>pt_proc := pt_proc t, bc_buf := bc_buf t, memdisk := memdisk t, disk_writes := disk_writes t, lg_n := lg_n t, lg_block := lg_block t\<rparr>"
    by (simp add: fs_frame_def)
  show ?thesis by (subst t) simp
qed

text \<open>Allocating for the file, and storing the new block where \<open>bmap\<close> puts it.\<close>

lemma alloc_step:
  fixes s :: "'a icst_scheme"
  assumes tx: "tx bufs B (Suc k) s" and lay: "layout (view s) (sb s) (disksize s)" and B: "map_blocks (sb s) \<subseteq> B" "ran bufs \<inter> map_blocks (sb s) = {}"
    and h: "\<forall>n \<in> ran bufs. used (view s) (sb s) n" and n: "Suc m \<le> nfree (view s) (sb s)"
  obtains a t where "balloc 1 s = Ok a t" "first_free (view s) (sb s) a" "tx bufs (insert a B) k t" "view t = alloced a (sb s) (view s)" "fs_frame s t"
    "m \<le> nfree (view t) (sb s)" "layout (view t) (sb s) (disksize s)"
proof -
  obtain a where a: "first_free (view s) (sb s) a" using nfree_pos n by (metis Suc_le_lessD gr_zeroI not_less_zero)
  show thesis
    by (rule balloc_law [OF tx lay B h a], rule that) (use a nfree_alloced [OF lay a] alloced_simps(2) [OF lay a] n in auto)
qed

lemma other_block_grow:
  assumes "other_block s ip n" "layout (view s) (sb s) dsz" "first_free (view s) (sb s) a" "sb t = sb s"
    and "\<And>b. b < sb_size (sb s) \<Longrightarrow> used (view t) (sb s) b \<longleftrightarrow> b = a \<or> used (view s) (sb s) b"
    and "iblocks (view t) (inode_at ip t) \<subseteq> insert a (iblocks (view s) (inode_at ip s))"
  shows "other_block t ip n" "n \<noteq> a" "n \<notin> map_blocks (sb s)" "n \<notin> iblocks (view s) (inode_at ip s)"
proof -
  show n: "n \<noteq> a" "n \<notin> map_blocks (sb s)" "n \<notin> iblocks (view s) (inode_at ip s)" using assms(1,3) by (auto simp: other_block_def first_free_def)
  then show "other_block t ip n" using assms by (auto simp: other_block_def)
qed

definition same_data :: "nat \<Rightarrow> 'a icst_scheme \<Rightarrow> 'a icst_scheme \<Rightarrow> bool" where
  "same_data ip s t \<longleftrightarrow> (\<forall>j < MAXFILE. fdata (view t) (inode_at ip t) j = fdata (view s) (inode_at ip s) j)"

definition mapped :: "nat \<Rightarrow> nat \<Rightarrow> u32 set \<Rightarrow> nat \<Rightarrow> 'a icst_scheme \<Rightarrow> u32 \<Rightarrow> 'a icst_scheme \<Rightarrow> bool" where
  "mapped ip i B k s a t \<longleftrightarrow> (\<exists>B'. insert a B \<subseteq> B' \<and> file_tx B' k ip t) \<and> file_step ip s t \<and> iaddr (view t) (inode_at ip t) i = a \<and> a \<noteq> 0 \<and> same_data ip s t"

lemma file_tx_reserve: "file_tx B (Suc k) ip s \<Longrightarrow> file_tx (insert a B) k ip s"
proof -
  assume f: "file_tx B (Suc k) ip s"
  have c: "credit (insert a B) (inode_at ip s) \<le> credit B (inode_at ip s)" by (simp add: credit_def)
  have "tx Map.empty (insert a B) (k + credit B (inode_at ip s)) s" using f tx_reserve by (auto simp: file_tx_def)
  then show ?thesis using f c by (auto simp: file_tx_def intro: tx_mono)
qed

lemma file_tx_ind: "file_tx B k ip s \<Longrightarrow> i_addrs (inode_at ip s) ! NDIRECT \<noteq> 0 \<Longrightarrow> file_tx (insert (i_addrs (inode_at ip s) ! NDIRECT) B) k ip s"
proof (cases "i_addrs (inode_at ip s) ! NDIRECT \<in> B")
  case False
  assume f: "file_tx B k ip s" and n: "i_addrs (inode_at ip s) ! NDIRECT \<noteq> 0"
  then have "tx Map.empty (insert (i_addrs (inode_at ip s) ! NDIRECT) B) k s" using False tx_reserve by (auto simp: file_tx_def credit_def)
  then show ?thesis using f n False by (auto simp: file_tx_def credit_def)
qed (simp add: insert_absorb)

lemma bmap_direct:
  fixes s :: "'a icst_scheme"
  assumes f: "file_tx B (Suc k) ip s" and i: "i < NDIRECT"
  obtains a t where "bmap ip (of_nat i) s = Ok a t" "mapped ip i B k s a t"
proof (cases "i_addrs (inode_at ip s) ! i = 0")
  case False
  have "bmap ip (of_nat i) s = Ok (i_addrs (inode_at ip s) ! i) s" using i False by (simp add: bmap_def unat_of_nat take_bit_nat_eq_self)
  moreover have "mapped ip i B k s (i_addrs (inode_at ip s) ! i) s"
    using i False file_tx_reserve [OF f, of "i_addrs (inode_at ip s) ! i"] by (auto simp: mapped_def same_data_def iaddr_def)
  ultimately show thesis by (rule that)
next
  case True
  let ?x = "inode_at ip s" and ?c = "credit B (inode_at ip s)"
  have F: "ip < length (ic_inode s)" "layout (view s) (sb s) (disksize s)" "ifile_ok (view s) (sb s) ?x" "map_blocks (sb s) \<subseteq> B"
    "tx Map.empty B (Suc (k + ?c)) s" "Suc (k + ?c) \<le> nfree (view s) (sb s)" using f by (simp_all add: file_tx_def)
  obtain a t where b: "balloc 1 s = Ok a t" "first_free (view s) (sb s) a" "tx Map.empty (insert a B) (k + ?c) t" "view t = alloced a (sb s) (view s)" "fs_frame s t"
      "k + ?c \<le> nfree (view t) (sb s)" "layout (view t) (sb s) (disksize s)"
    by (rule alloc_step [OF F(5,2,4) _ _ F(6)]) simp_all
  note fr = fs_frame_fields [OF b(5)] fs_frame_inodes [OF b(5)] inode_frame [OF b(5)]
  let ?t = "upd_inode ip (\<lambda>x. x\<lparr>i_addrs := (i_addrs x)[i := a]\<rparr>) t"
  have y: "inode_at ip ?t = ?x\<lparr>i_addrs := (i_addrs ?x)[i := a]\<rparr>" using F(1) fr by simp
  note G = grow_direct [OF F(3,2) b(2) i True b(4) y]
  have dev: "i_dev ?x = 1" using F(3) by (simp add: ifile_ok_def)
  have "bmap ip (of_nat i) s = Ok a ?t" using i True b(1) dev by (simp add: bmap_def unat_of_nat take_bit_nat_eq_self)
  moreover have "file_tx (insert a B) k ip ?t"
  proof -
    have "credit (insert a B) (inode_at ip ?t) \<le> ?c" using i y by (auto simp: credit_def)
    then show ?thesis using F(1,4) b(3,6,7) G(1) fr by (auto simp: file_tx_def intro: tx_mono)
  qed
  moreover have "file_step ip s ?t"
  proof -
    have "other_block ?t ip n \<and> view ?t n = view s n" if n: "other_block s ip n" for n
      using other_block_grow [OF n F(2) b(2), of ?t] alloced_simps [OF F(2) b(2)] G(3) b(4) fr by simp
    then show ?thesis using fr G(4) i True unfolding file_step_def y by (auto simp: iaddr_def)
  qed
  ultimately show thesis using that G i alloced_simps(3) [OF F(2) b(2)] by (auto simp: mapped_def same_data_def)
qed

lemma unat_index: "i < MAXFILE \<Longrightarrow> unat (of_nat i :: u32) = i"
  by (simp add: unat_of_nat take_bit_nat_eq_self)

lemma bmap_table:
  fixes s :: "'a icst_scheme"
  assumes f: "file_tx B (Suc k) ip s" and i: "NDIRECT \<le> i" "i < MAXFILE" and z: "i_addrs (inode_at ip s) ! NDIRECT = 0"
  obtains a t where "bmap ip (of_nat i) s = bmap ip (of_nat i) t" "file_tx (insert a B) (Suc k) ip t" "file_step ip s t" "same_data ip s t"
    "i_addrs (inode_at ip t) ! NDIRECT \<noteq> 0"
proof -
  let ?x = "inode_at ip s"
  have F: "ip < length (ic_inode s)" "layout (view s) (sb s) (disksize s)" "ifile_ok (view s) (sb s) ?x" "map_blocks (sb s) \<subseteq> B"
    "tx Map.empty B (Suc (Suc k)) s" "Suc (Suc k) \<le> nfree (view s) (sb s)" using f z by (simp_all add: file_tx_def credit_def)
  obtain a t where b: "balloc 1 s = Ok a t" "first_free (view s) (sb s) a" "tx Map.empty (insert a B) (Suc k) t" "view t = alloced a (sb s) (view s)" "fs_frame s t"
      "Suc k \<le> nfree (view t) (sb s)" "layout (view t) (sb s) (disksize s)"
    by (rule alloc_step [OF F(5,2,4) _ _ F(6)]) simp_all
  note fr = fs_frame_fields [OF b(5)] fs_frame_inodes [OF b(5)] inode_frame [OF b(5)]
  let ?t = "upd_inode ip (\<lambda>x. x\<lparr>i_addrs := (i_addrs x)[NDIRECT := a]\<rparr>) t"
  have y: "inode_at ip ?t = ?x\<lparr>i_addrs := (i_addrs ?x)[NDIRECT := a]\<rparr>" using F(1) fr by simp
  note G = grow_table [OF F(3,2) b(2) z b(4) y]
  have x: "i_dev ?x = 1" "length (i_addrs ?x) = 13" using F(3) by (simp_all add: ifile_ok_def)
  have a: "a \<noteq> 0" "i - NDIRECT < NINDIRECT" using alloced_simps(3) [OF F(2) b(2)] i by simp_all
  have "bmap ip (of_nat i) s = bmap ip (of_nat i) ?t" unfolding bmap_def y using i a z b(1) x by (simp add: unat_index Let_def)
  moreover have "file_tx (insert a B) (Suc k) ip ?t" using F(1,4) b(3,6,7) G(1) fr a x y by (auto simp: file_tx_def credit_def)
  moreover have "file_step ip s ?t"
  proof -
    have "other_block ?t ip n \<and> view ?t n = view s n" if n: "other_block s ip n" for n
      using other_block_grow [OF n F(2) b(2), of ?t] alloced_simps [OF F(2) b(2)] G(3) b(4) fr by simp
    then show ?thesis using fr G(4) unfolding file_step_def y by auto
  qed
  ultimately show thesis using that G a x y by (auto simp: same_data_def)
qed

lemma bmap_indirect_old:
  fixes s :: "'a icst_scheme"
  assumes tx: "tx Map.empty B k s" and lay: "layout (view s) (sb s) (disksize s)" and ok: "ifile_ok (view s) (sb s) (inode_at ip s)"
    and i: "NDIRECT \<le> i" "i < MAXFILE" "iaddr (view s) (inode_at ip s) i \<noteq> 0"
  obtains t where "bmap ip (of_nat i) s = Ok (iaddr (view s) (inode_at ip s) i) t" "tx Map.empty B k t" "view t = view s" "fs_frame s t"
proof -
  let ?x = "inode_at ip s" and ?n = "i_addrs (inode_at ip s) ! NDIRECT"
  have n: "?n \<noteq> 0" using i by (auto simp: iaddr_def split: if_splits)
  have nd: "?n < disksize s" using ifile_okD(3) [OF ok iblocksI(2) [OF n]] lay by (auto simp: layout_def)
  obtain b s1 t where r: "bread 1 ?n s = Ok b s1" "b_data (bc_buf s1 b) = view s ?n" "brelse b s1 = Ok () t" "tx Map.empty B k t" "view t = view s" "fs_frame s s1" "fs_frame s t"
    by (rule tx_read [OF tx _ nd]) simp_all
  have "bmap ip (of_nat i) s = Ok (iaddr (view s) ?x i) t"
    using i n r(1-3) ifile_okD(2) [OF ok] by (simp add: bmap_def unat_index iaddr_def Let_def)
  then show thesis using that r by blast
qed

lemma bmap_indirect_new:
  fixes s :: "'a icst_scheme"
  assumes f: "file_tx B (Suc k) ip s" and i: "NDIRECT \<le> i" "i < MAXFILE" "iaddr (view s) (inode_at ip s) i = 0"
    and n: "i_addrs (inode_at ip s) ! NDIRECT \<noteq> 0" "i_addrs (inode_at ip s) ! NDIRECT \<in> B"
  obtains a t where "bmap ip (of_nat i) s = Ok a t" "mapped ip i B k s a t"
proof -
  let ?x = "inode_at ip s" and ?n = "i_addrs (inode_at ip s) ! NDIRECT" and ?V = "view s"
  have F: "ip < length (ic_inode s)" "layout ?V (sb s) (disksize s)" "ifile_ok ?V (sb s) ?x" "map_blocks (sb s) \<subseteq> B" "tx Map.empty B (Suc k) s" "Suc k \<le> nfree ?V (sb s)"
    using f n by (simp_all add: file_tx_def credit_def)
  have N: "?n < sb_size (sb s)" "used ?V (sb s) ?n" "?n \<notin> map_blocks (sb s)" "?n < disksize s"
    using ifile_okD(3) [OF F(3) iblocksI(2) [OF n(1)]] F(2) by (auto simp: layout_def)
  obtain b s1 where r: "bread 1 ?n s = Ok b s1" "tx [b \<mapsto> ?n] B (Suc k) s1" "view s1 = ?V" "b_data (bc_buf s1 b) = ?V ?n" "fs_frame s s1"
    by (rule tx_bread [OF F(5) _ N(4) n(2)]) simp_all
  note f1 = fs_frame_fields [OF r(5)] fs_frame_inodes [OF r(5)]
  obtain a s2 where b: "balloc 1 s1 = Ok a s2" "first_free ?V (sb s) a" "tx [b \<mapsto> ?n] (insert a B) k s2" "view s2 = alloced a (sb s) ?V" "fs_frame s1 s2"
      "k \<le> nfree (view s2) (sb s)" "layout (view s2) (sb s) (disksize s)"
    by (rule alloc_step [of "[b \<mapsto> ?n]" B k s1 k]) (use F r N f1 in simp_all)
  note f2 = fs_frame_trans [OF r(5) b(5)] and I = ind_frame [OF F(3,2) b(2) n(1)]
  have d: "b_data (bc_buf s2 b) = ?V ?n" using ownedD(6) [of s2 b ?n] b(3,4) I(1) by (simp add: tx_def)
  let ?d = "st32 (?V ?n) (4 * (i - NDIRECT)) a"
  obtain s3 where w: "log_write b (put_data b ?d s2) = Ok () s3" "tx [b \<mapsto> ?n] (insert a B) k s3" "view s3 = (view s2)(?n := ?d)" "b \<in> marked s3" "fs_frame s2 s3"
    by (rule tx_log [OF b(3), of b ?n ?d]) (use n(2) in simp_all)
  obtain t where t: "brelse b s3 = Ok () t" "tx Map.empty (insert a B) k t" "view t = view s3" "fs_frame s3 t"
    by (rule tx_brelse [OF w(2), of b ?n]) (use w(4) in simp_all)
  note ft = fs_frame_trans [OF f2 fs_frame_trans [OF w(5) t(4)]]
  note fr = fs_frame_fields [OF ft] fs_frame_inodes [OF ft] inode_frame [OF ft]
  have W: "view t = (alloced a (sb s) ?V)(?n := ?d)" using t(3) w(3) b(4) by simp
  note G = grow_indirect [OF F(3,2) b(2) i n(1) W] and A = alloced_simps [OF F(2) b(2)]
  have ld: "ld32 (?V ?n) (4 * (i - NDIRECT)) = 0" using i n by (simp add: iaddr_def)
  have len: "length (?V ?n) = BSIZE" using F(2) N(4) by (simp add: layout_def)
  have "bmap ip (of_nat i) s = Ok a t"
    using i n r(1,4) ld b(1) w(1) t(1) d ifile_okD(2) [OF F(3)] by (simp add: bmap_def unat_index Let_def)
  moreover have "file_tx (insert a B) k ip t"
    using F(1,4) t(2) G(1) b(6,7) layout_upd [OF b(7) N(3), of ?d] nfree_upd [OF N(3)] b(4) W len fr n by (simp add: file_tx_def credit_def subset_insertI2)
  moreover have "file_step ip s t"
  proof -
    have u: "used (view t) (sb s) m \<longleftrightarrow> m = a \<or> used ?V (sb s) m" if "m < sb_size (sb s)" for m
      using A(1) [OF that] used_upd [OF N(3) that] W by simp
    have "other_block t ip m \<and> view t m = ?V m" if m: "other_block s ip m" for m
    proof -
      note O = other_block_grow [OF m F(2) b(2) _ u]
      have "m \<noteq> ?n" using O(4) iblocksI(2) [OF n(1), of ?V] G(3) fr by auto
      then show ?thesis using O G(3) fr A(7) W by simp
    qed
    moreover have "\<exists>C. ic_inode t = (ic_inode s)[ip := ?x\<lparr>i_addrs := C\<rparr>]"
      using fr by (intro exI [of _ "i_addrs ?x"]) (simp add: inode_at_def)
    ultimately show ?thesis using fr G(4) i(3) unfolding file_step_def by auto
  qed
  ultimately show thesis using that G i(2) A(3) fr by (auto simp: mapped_def same_data_def)
qed

lemma frame_file:
  fixes s t :: "'a icst_scheme"
  assumes "fs_frame s t" "view t = view s"
  shows "file_step ip s t" "same_data ip s t" "file_tx B k ip s \<Longrightarrow> tx Map.empty B (k + credit B (inode_at ip s)) t \<Longrightarrow> file_tx B k ip t"
proof -
  note fr = fs_frame_fields [OF assms(1)] fs_frame_inodes [OF assms(1)] inode_frame [OF assms(1)]
  have "\<exists>A. ic_inode t = (ic_inode s)[ip := (inode_at ip s)\<lparr>i_addrs := A\<rparr>]"
    using fr by (intro exI [of _ "i_addrs (inode_at ip s)"]) (simp add: inode_at_def)
  then show "file_step ip s t" using fr assms(2) unfolding file_step_def other_block_def by simp
  show "same_data ip s t" using fr assms(2) by (simp add: same_data_def)
  show "file_tx B k ip t" if "file_tx B k ip s" "tx Map.empty B (k + credit B (inode_at ip s)) t"
    using that fr assms(2) by (simp add: file_tx_def)
qed

lemma mapped_trans:
  assumes "file_step ip s t" "same_data ip s t" "B \<subseteq> C" "mapped ip i C k t a u" shows "mapped ip i B k s a u"
  using assms file_step_trans [OF assms(1), of u] unfolding mapped_def same_data_def by auto

lemma bmap_indirect:
  fixes s :: "'a icst_scheme"
  assumes f: "file_tx B (Suc k) ip s" and i: "NDIRECT \<le> i" "i < MAXFILE" and n: "i_addrs (inode_at ip s) ! NDIRECT \<noteq> 0"
  obtains a t where "bmap ip (of_nat i) s = Ok a t" "mapped ip i B k s a t"
proof (cases "iaddr (view s) (inode_at ip s) i = 0")
  case True
  show thesis
    by (rule bmap_indirect_new [OF file_tx_ind [OF f n] i True n])
       (use that mapped_trans [of ip s s B "insert (i_addrs (inode_at ip s) ! NDIRECT) B"] in \<open>auto simp: same_data_def\<close>)
next
  case False
  let ?a = "iaddr (view s) (inode_at ip s) i"
  note g = file_tx_reserve [OF f, of ?a]
  then have G: "layout (view s) (sb s) (disksize s)" "ifile_ok (view s) (sb s) (inode_at ip s)" "tx Map.empty (insert ?a B) (k + credit (insert ?a B) (inode_at ip s)) s"
    by (simp_all add: file_tx_def)
  obtain t where t: "bmap ip (of_nat i) s = Ok ?a t" "tx Map.empty (insert ?a B) (k + credit (insert ?a B) (inode_at ip s)) t" "view t = view s" "fs_frame s t"
    by (rule bmap_indirect_old [OF G(3,1,2) i False])
  note fr = frame_file [OF t(4,3), where ip = ip]
  have "mapped ip i B k s ?a t"
    using fr(1,2) fr(3) [OF g t(2)] False t(3) fs_frame_inodes [OF t(4)] by (auto simp: mapped_def)
  then show thesis using that t(1) by blast
qed

text \<open>\<open>bmap\<close> finds or makes the block; it changes neither the contents of the file nor the blocks of others.\<close>

lemma bmap_law:
  fixes s :: "'a icst_scheme"
  assumes f: "file_tx B (Suc k) ip s" and i: "i < MAXFILE"
  obtains a t where "bmap ip (of_nat i) s = Ok a t" "mapped ip i B k s a t"
proof (cases "i < NDIRECT")
  case False
  then have i': "NDIRECT \<le> i" by simp
  show thesis
  proof (cases "i_addrs (inode_at ip s) ! NDIRECT = 0")
    case True
    obtain b s1 where s1: "bmap ip (of_nat i) s = bmap ip (of_nat i) s1" "file_tx (insert b B) (Suc k) ip s1" "file_step ip s s1" "same_data ip s s1"
      "i_addrs (inode_at ip s1) ! NDIRECT \<noteq> 0" by (rule bmap_table [OF f i' i True])
    show thesis
      by (rule bmap_indirect [OF s1(2) i' i s1(5)]) (use that s1 mapped_trans [OF s1(3,4), of B "insert b B"] in auto)
  qed (use bmap_indirect [OF f i' i] that in blast)
qed (use bmap_direct [OF f] that in blast)

lemma bmap_read:
  fixes s :: "'a icst_scheme"
  assumes tx: "tx Map.empty B k s" and lay: "layout (view s) (sb s) (disksize s)" and ok: "ifile_ok (view s) (sb s) (inode_at ip s)"
    and i: "i < MAXFILE" "iaddr (view s) (inode_at ip s) i \<noteq> 0"
  obtains t where "bmap ip (of_nat i) s = Ok (iaddr (view s) (inode_at ip s) i) t" "tx Map.empty B k t" "view t = view s" "fs_frame s t"
proof (cases "i < NDIRECT")
  case True
  then have "bmap ip (of_nat i) s = Ok (iaddr (view s) (inode_at ip s) i) s" using i by (simp add: bmap_def unat_index iaddr_def)
  then show thesis using that tx by auto
qed (use bmap_indirect_old [OF tx lay ok _ i] that in auto)

end
