(* ===== verification/Readwrite.thy ===== *)
theory Readwrite
  imports Filemap
begin

text \<open>
  Reading and writing a file: the loops of \<open>readi\<close> and \<open>writei\<close> against the file as a sequence of bytes.
\<close>

section \<open>Bytes of a file\<close>

definition fbyte :: "(u32 \<Rightarrow> u8 list) \<Rightarrow> inode \<Rightarrow> nat \<Rightarrow> u8" where
  "fbyte V x p = fdata V x (p div BSIZE) ! (p mod BSIZE)"

lemma block_split: obtains q r where "off = BSIZE * q + r" "r < BSIZE" "off div BSIZE = q" "off mod BSIZE = r"
  by (rule that [of "off div BSIZE" "off mod BSIZE"]) simp_all

lemma chunk_index:
  assumes "k < chunk off n" shows "(off + k) div BSIZE = off div BSIZE" "(off + k) mod BSIZE = off mod BSIZE + k"
proof -
  obtain q r where r: "off = BSIZE * q + r" "r < BSIZE" "off div BSIZE = q" "off mod BSIZE = r" by (rule block_split)
  then have k: "r + k < BSIZE" "off + k = BSIZE * q + (r + k)" using assms by (auto simp: chunk_def)
  show "(off + k) div BSIZE = off div BSIZE" "(off + k) mod BSIZE = off mod BSIZE + k" unfolding r(3,4) k(2) using k(1) by simp_all
qed

lemma chunk_le: "off mod BSIZE + chunk off n \<le> BSIZE"
  using mod_less_divisor [of BSIZE off] unfolding chunk_def by linarith

text \<open>The number of blocks a transfer touches.\<close>

definition nblk :: "nat \<Rightarrow> nat \<Rightarrow> nat" where
  "nblk off n = (if n = 0 then 0 else (off mod BSIZE + n + (BSIZE - 1)) div BSIZE)"

lemma nblk_step: "0 < n \<Longrightarrow> nblk off n = Suc (nblk (off + chunk off n) (n - chunk off n))"
proof -
  assume n: "0 < n"
  obtain q r where r: "off = BSIZE * q + r" "r < BSIZE" "off mod BSIZE = r" by (rule block_split)
  show ?thesis
  proof (cases "r + n \<le> BSIZE")
    case True
    then have "chunk off n = n" by (auto simp: chunk_def r(3))
    moreover have "(r + n + (BSIZE - 1)) div BSIZE = 1" using True n by (intro div_nat_eqI) auto
    ultimately show ?thesis using n by (simp add: nblk_def r(3))
  next
    case False
    then have c: "chunk off n = BSIZE - r" by (auto simp: chunk_def r(3))
    then have "off + chunk off n = BSIZE * (q + 1)" using r by simp
    then have "(off + chunk off n) mod BSIZE = 0" by (simp only: mod_mult_self1_is_0)
    moreover have "n - chunk off n > 0" "r + n + (BSIZE - 1) = (n - chunk off n + (BSIZE - 1)) + BSIZE" using False c r(2) by auto
    ultimately show ?thesis using n by (simp add: nblk_def r(3))
  qed
qed

section \<open>Reading\<close>

lemma fbyte_chunk:
  assumes "length d = BSIZE" "fdata V x (off div BSIZE) = d"
  shows "take (chunk off n) (drop (off mod BSIZE) d) = map (fbyte V x) [off..<off + chunk off n]"
  using assms chunk_le [of off n] by (intro nth_equalityI) (auto simp: fbyte_def chunk_index)

lemma readi_loop_law:
  fixes s :: "'a const_scheme"
  assumes "tx Map.empty B k s" "layout (view s) (sb s) (disksize s)" "ifile_ok (view s) (sb s) (inode_at ip s)" "off + n \<le> MAXFILE * BSIZE"
    "\<And>p. off \<le> p \<Longrightarrow> p < off + n \<Longrightarrow> iaddr (view s) (inode_at ip s) (p div BSIZE) \<noteq> 0"
  shows "\<exists>t. readi_loop ip off n s = Ok (map (fbyte (view s) (inode_at ip s)) [off..<off + n]) t \<and> tx Map.empty B k t \<and> view t = view s \<and> fs_frame s t"
  using assms
proof (induction n arbitrary: off s rule: less_induct)
  case (less n)
  note p = less.prems
  show ?case
  proof (cases "n = 0")
    case False
    let ?m = "chunk off n" and ?i = "off div BSIZE" and ?x = "inode_at ip s"
    have i: "?i < MAXFILE" "iaddr (view s) ?x ?i \<noteq> 0" using p(4) p(5) [of off] False by (auto simp: less_mult_imp_div_less)
    let ?a = "iaddr (view s) ?x ?i"
    obtain s1 where s1: "bmap ip (of_nat ?i) s = Ok ?a s1" "tx Map.empty B k s1" "view s1 = view s" "fs_frame s s1"
      by (rule bmap_read [OF p(1-3) i])
    note f1 = fs_frame_fields [OF s1(4)] fs_frame_inodes [OF s1(4)]
    have a: "?a < disksize s1" "length (view s ?a) = BSIZE" using ifile_okD(3) [OF p(3) iblocksI(1) [OF i]] p(2) f1 by (auto simp: layout_def)
    obtain b s2 s3 where r: "bread 1 ?a s1 = Ok b s2" "b_data (bc_buf s2 b) = view s1 ?a" "brelse b s2 = Ok () s3" "tx Map.empty B k s3" "view s3 = view s1" "fs_frame s1 s2" "fs_frame s1 s3"
      by (rule tx_read [OF s1(2) _ a(1)]) simp_all
    note f3 = fs_frame_trans [OF s1(4) r(7)]
    note g3 = fs_frame_fields [OF f3] fs_frame_inodes [OF f3]
    have m: "0 < ?m" "?m \<le> n" using False by simp_all
    have "\<exists>t. readi_loop ip (off + ?m) (n - ?m) s3 = Ok (map (fbyte (view s3) (inode_at ip s3)) [off + ?m..<off + ?m + (n - ?m)]) t \<and> tx Map.empty B k t \<and> view t = view s3 \<and> fs_frame s3 t"
      by (rule less.IH [OF _ r(4)]) (use p m diff_less [OF m(1)] False g3 r(5) s1(3) in auto)
    then obtain t where t: "readi_loop ip (off + ?m) (n - ?m) s3 = Ok (map (fbyte (view s) ?x) [off + ?m..<off + n]) t" "tx Map.empty B k t" "view t = view s" "fs_frame s3 t"
      using g3 r(5) s1(3) m by auto
    have d: "take ?m (drop (off mod BSIZE) (view s ?a)) = map (fbyte (view s) ?x) [off..<off + ?m]"
      by (rule fbyte_chunk [OF a(2)]) (use i in \<open>simp add: fdata_def\<close>)
    have "dev_of ip s1 = 1" using f1 ifile_okD(2) [OF p(3)] by (simp add: dev_of_def)
    then have "readi_loop ip off n s = Ok (map (fbyte (view s) ?x) [off..<off + ?m] @ map (fbyte (view s) ?x) [off + ?m..<off + n]) t"
      using False s1(1,3) r(1-3) t(1) d by (subst readi_loop.simps) (simp add: Let_def)
    moreover have "[off..<off + n] = [off..<off + ?m] @ [off + ?m..<off + n]" using m by (metis le_add_diff_inverse upt_add_eq_append le_add1 add.assoc)
    ultimately show ?thesis using t fs_frame_trans [OF f3 t(4)] by auto
  qed (use p(1) in \<open>subst readi_loop.simps, simp\<close>)
qed

section \<open>Writing\<close>

lemma put_block:
  assumes ok: "ifile_ok V sbk x" and i: "i < MAXFILE" "iaddr V x i \<noteq> 0" and W: "W = V(iaddr V x i := d)"
  shows "iaddr W x j = iaddr V x j" "iblocks W x = iblocks V x" "ifile_ok W sbk x" "j < MAXFILE \<Longrightarrow> fdata W x j = (if j = i then d else fdata V x j)"
proof -
  have "iaddr V x i \<noteq> i_addrs x ! NDIRECT" using ok i by (simp add: ifile_ok_def)
  then have m: "iaddr W x j = iaddr V x j" for j by (auto simp: iaddr_def W)
  then show "iaddr W x j = iaddr V x j" .
  show ib: "iblocks W x = iblocks V x" by (simp add: iblocks_def m)
  have nm: "iaddr V x i \<notin> map_blocks sbk" using ifile_okD(3) [OF ok iblocksI(1) [OF i]] by simp
  have "used W sbk a = used V sbk a" if "a < sb_size sbk" for a unfolding W by (rule used_upd [OF nm that])
  then show "ifile_ok W sbk x" using ok by (auto simp: ifile_ok_def m ib)
  show "fdata W x j = (if j = i then d else fdata V x j)" if j: "j < MAXFILE"
  proof -
    have "iaddr V x j = iaddr V x i \<longleftrightarrow> j = i" if "iaddr V x j \<noteq> 0" using that ok i(1) j by (auto simp: ifile_ok_def)
    moreover have "W (iaddr V x j) = (if iaddr V x j = iaddr V x i then d else V (iaddr V x j))" by (simp add: W)
    ultimately show ?thesis using i(2) by (auto simp: fdata_def m)
  qed
qed

lemma fwrite_block:
  fixes s :: "'a icst_scheme"
  assumes f: "file_tx B k ip s" and i: "i < MAXFILE" "iaddr (view s) (inode_at ip s) i = a" "a \<noteq> 0" "a \<in> B"
  obtains b s1 where "bread 1 a s = Ok b s1" "b_data (bc_buf s1 b) = view s a"
    "\<forall>d. length d = BSIZE \<longrightarrow> (\<exists>s2 t. log_write b (put_data b d s1) = Ok () s2 \<and> brelse b s2 = Ok () t \<and> file_tx B k ip t \<and> file_step ip s t \<and>
       ic_inode t = ic_inode s \<and> (\<forall>j < MAXFILE. fdata (view t) (inode_at ip t) j = (if j = i then d else fdata (view s) (inode_at ip s) j)))"
proof -
  let ?V = "view s" and ?x = "inode_at ip s"
  have F: "ip < length (ic_inode s)" "layout ?V (sb s) (disksize s)" "ifile_ok ?V (sb s) ?x" "map_blocks (sb s) \<subseteq> B" "tx Map.empty B (k + credit B ?x) s"
    "k + credit B ?x \<le> nfree ?V (sb s)" using f by (simp_all add: file_tx_def)
  have nz: "iaddr ?V ?x i \<noteq> 0" using i by simp
  have A: "a < disksize s" "a \<notin> map_blocks (sb s)" "a \<in> iblocks ?V ?x" using ifile_okD(3) [OF F(3) iblocksI(1) [OF i(1) nz]] iblocksI(1) [OF i(1) nz] F(2) i(2) by (auto simp: layout_def)
  obtain b s1 where r: "bread 1 a s = Ok b s1" "b_data (bc_buf s1 b) = ?V a" "fs_frame s s1"
      "\<forall>d. \<exists>s2 t. log_write b (put_data b d s1) = Ok () s2 \<and> brelse b s2 = Ok () t \<and> tx Map.empty B (k + credit B ?x) t \<and> view t = ?V(a := d) \<and> fs_frame s s2 \<and> fs_frame s t"
    by (rule tx_update [OF F(5) _ A(1) i(4)]) simp_all
  show thesis
  proof (rule that [OF r(1,2)], intro allI impI)
    fix d :: "u8 list" assume d: "length d = BSIZE"
    obtain s2 t where t: "log_write b (put_data b d s1) = Ok () s2" "brelse b s2 = Ok () t" "tx Map.empty B (k + credit B ?x) t" "view t = ?V(a := d)" "fs_frame s t"
      using r(4) by blast
    note fr = fs_frame_fields [OF t(5)] fs_frame_inodes [OF t(5)] inode_frame [OF t(5)]
    note P = put_block [OF F(3) i(1) nz, of "view t" d, unfolded i(2), OF t(4)]
    have u: "used (view t) (sb s) n = used ?V (sb s) n" if "n < sb_size (sb s)" for n using used_upd [OF A(2) that] t(4) by simp
    have "file_tx B k ip t" using F t(3,4) P(3) layout_upd [OF F(2) A(2) d] nfree_upd [OF A(2)] fr by (simp add: file_tx_def)
    moreover have "file_step ip s t"
    proof -
      have "other_block t ip n \<and> view t n = ?V n" if "other_block s ip n" for n
        using that A(3) P(2) u t(4) fr by (auto simp: other_block_def)
      moreover have "\<exists>C. ic_inode t = (ic_inode s)[ip := ?x\<lparr>i_addrs := C\<rparr>]" using fr by (intro exI [of _ "i_addrs ?x"]) (simp add: inode_at_def)
      ultimately show ?thesis using fr P(1) by (simp add: file_step_def)
    qed
    ultimately show "\<exists>s2 t. log_write b (put_data b d s1) = Ok () s2 \<and> brelse b s2 = Ok () t \<and> file_tx B k ip t \<and> file_step ip s t \<and>
       ic_inode t = ic_inode s \<and> (\<forall>j < MAXFILE. fdata (view t) (inode_at ip t) j = (if j = i then d else fdata ?V ?x j))"
      using t(1,2) P(4) fr by auto
  qed
qed

lemma splice_byte:
  assumes "length d = BSIZE" "length src = n" "0 < n"
  shows "length (splice d (off mod BSIZE) (take (chunk off n) src)) = BSIZE"
    "k < BSIZE \<Longrightarrow> splice d (off mod BSIZE) (take (chunk off n) src) ! k =
       (if off mod BSIZE \<le> k \<and> k < off mod BSIZE + chunk off n then src ! (k - off mod BSIZE) else d ! k)"
proof -
  have l: "length (take (chunk off n) src) = chunk off n" using assms(2) by (simp add: min_absorb2)
  show "length (splice d (off mod BSIZE) (take (chunk off n) src)) = BSIZE" using assms(1) chunk_le [of off n] l by simp
  show "splice d (off mod BSIZE) (take (chunk off n) src) ! k =
       (if off mod BSIZE \<le> k \<and> k < off mod BSIZE + chunk off n then src ! (k - off mod BSIZE) else d ! k)" if "k < BSIZE"
    using assms(1) chunk_le [of off n] l that by (auto simp: splice_nth)
qed

lemma fbyte_put:
  assumes d: "\<And>j. j < MAXFILE \<Longrightarrow> fdata W y j = (if j = off div BSIZE then splice (fdata V x (off div BSIZE)) (off mod BSIZE) (take (chunk off n) src) else fdata V x j)"
    and l: "length (fdata V x (off div BSIZE)) = BSIZE" "length src = n" "0 < n" and p: "p < MAXFILE * BSIZE"
  shows "fbyte W y p = (if off \<le> p \<and> p < off + chunk off n then src ! (p - off) else fbyte V x p)"
proof -
  have j: "p div BSIZE < MAXFILE" using p by (simp add: less_mult_imp_div_less)
  obtain q r where o: "off = BSIZE * q + r" "r < BSIZE" "off div BSIZE = q" "off mod BSIZE = r" by (rule block_split)
  obtain q' r' where p': "p = BSIZE * q' + r'" "r' < BSIZE" "p div BSIZE = q'" "p mod BSIZE = r'" by (rule block_split)
  have c: "r + chunk off n \<le> BSIZE" using chunk_le [of off n] o by simp
  show ?thesis
  proof (cases "q' = q")
    case True
    then have "fbyte W y p = (if r \<le> r' \<and> r' < r + chunk off n then src ! (r' - r) else fbyte V x p)"
      using d [OF j] splice_byte(2) [OF l, of r' off] o p' by (simp add: fbyte_def)
    then show ?thesis using True by (simp add: o(1) p'(1))
  next
    case False
    then have "\<not> (off \<le> p \<and> p < off + chunk off n)" using o p' c by (metis chunk_index(1) le_add_diff_inverse nat_add_left_cancel_less)
    then show ?thesis using False d [OF j] o p' by (auto simp: fbyte_def)
  qed
qed

lemma file_block_length: "file_tx B k ip s \<Longrightarrow> i < MAXFILE \<Longrightarrow> iaddr (view s) (inode_at ip s) i \<noteq> 0 \<Longrightarrow> length (view s (iaddr (view s) (inode_at ip s) i)) = BSIZE"
  using ifile_okD(3) [OF _ iblocksI(1), of "view s" "sb s" "inode_at ip s" i] by (auto simp: file_tx_def layout_def)

text \<open>One round of the loop.\<close>

definition wrote :: "nat \<Rightarrow> u8 list \<Rightarrow> nat \<Rightarrow> nat \<Rightarrow> 'a icst_scheme \<Rightarrow> 'a icst_scheme \<Rightarrow> bool" where
  "wrote ip src off n s t \<longleftrightarrow> file_step ip s t \<and>
    (\<forall>p < MAXFILE * BSIZE. fbyte (view t) (inode_at ip t) p = (if off \<le> p \<and> p < off + n then src ! (p - off) else fbyte (view s) (inode_at ip s) p)) \<and>
    (\<forall>p. off \<le> p \<and> p < off + n \<longrightarrow> iaddr (view t) (inode_at ip t) (p div BSIZE) \<noteq> 0)"

lemma wrote_trans:
  assumes "wrote ip src off m s t" "wrote ip (drop m src) (off + m) (n - m) t u" "m \<le> n" "length src = n" "off + n \<le> MAXFILE * BSIZE"
  shows "wrote ip src off n s u"
  unfolding wrote_def
proof (intro conjI allI impI)
  show "file_step ip s u" using assms file_step_trans by (auto simp: wrote_def)
  show "fbyte (view u) (inode_at ip u) p = (if off \<le> p \<and> p < off + n then src ! (p - off) else fbyte (view s) (inode_at ip s) p)" if p: "p < MAXFILE * BSIZE" for p
  proof -
    have "fbyte (view u) (inode_at ip u) p = (if off + m \<le> p \<and> p < off + n then src ! (p - off) else fbyte (view t) (inode_at ip t) p)"
      using assms(2-4) p by (auto simp: wrote_def)
    moreover have "fbyte (view t) (inode_at ip t) p = (if off \<le> p \<and> p < off + m then src ! (p - off) else fbyte (view s) (inode_at ip s) p)"
      using assms(1) p by (simp add: wrote_def)
    ultimately show ?thesis using assms(3) by auto
  qed
  show "iaddr (view u) (inode_at ip u) (p div BSIZE) \<noteq> 0" if p: "off \<le> p \<and> p < off + n" for p
  proof (cases "p < off + m")
    case True
    have "p div BSIZE < MAXFILE" using p assms(5) by (simp add: less_mult_imp_div_less)
    then show ?thesis using True p assms(1,2) by (auto simp: wrote_def file_step_def)
  qed (use p assms(2,3) in \<open>auto simp: wrote_def\<close>)
qed

lemma fwrite_chunk:
  fixes s :: "'a const_scheme"
  assumes f: "file_tx B (Suc k) ip s" and n: "0 < n" "off + n \<le> MAXFILE * BSIZE" "length src = n"
  obtains B' t where "writei_loop ip src off n s = writei_loop ip (drop (chunk off n) src) (off + chunk off n) (n - chunk off n) t" "B \<subseteq> B'" "file_tx B' k ip t"
    "wrote ip src off (chunk off n) s t"
proof -
  let ?m = "chunk off n" and ?i = "off div BSIZE" and ?x = "inode_at ip s"
  have i: "?i < MAXFILE" using n by (auto simp: less_mult_imp_div_less)
  obtain a s1 where b: "bmap ip (of_nat ?i) s = Ok a s1" "mapped ip ?i B k s a s1" by (rule bmap_law [OF f i])
  then obtain B1 where B1: "insert a B \<subseteq> B1" "file_tx B1 k ip s1" and s1: "file_step ip s s1" "iaddr (view s1) (inode_at ip s1) ?i = a" "a \<noteq> 0" "same_data ip s s1"
    by (auto simp: mapped_def)
  have a: "a \<in> B1" using B1(1) by simp
  let ?d = "splice (view s1 a) (off mod BSIZE) (take ?m src)"
  obtain bp s2 where r: "bread 1 a s1 = Ok bp s2" "b_data (bc_buf s2 bp) = view s1 a"
    and w: "\<forall>d. length d = BSIZE \<longrightarrow> (\<exists>s3 s4. log_write bp (put_data bp d s2) = Ok () s3 \<and> brelse bp s3 = Ok () s4 \<and> file_tx B1 k ip s4 \<and> file_step ip s1 s4 \<and>
       ic_inode s4 = ic_inode s1 \<and> (\<forall>j < MAXFILE. fdata (view s4) (inode_at ip s4) j = (if j = ?i then d else fdata (view s1) (inode_at ip s1) j)))"
    by (rule fwrite_block [OF B1(2) i s1(2,3) a])
  have fd: "fdata (view s) ?x j = fdata (view s1) (inode_at ip s1) j" if "j < MAXFILE" for j using s1(4) that by (simp add: same_data_def)
  have f1: "fdata (view s1) (inode_at ip s1) ?i = view s1 a" using s1(2,3) by (simp add: fdata_def)
  have la: "length (view s1 a) = BSIZE" using file_block_length [OF B1(2) i] s1(2,3) by simp
  obtain s3 s4 where s4: "log_write bp (put_data bp ?d s2) = Ok () s3" "brelse bp s3 = Ok () s4" "file_tx B1 k ip s4" "file_step ip s1 s4"
     "\<forall>j < MAXFILE. fdata (view s4) (inode_at ip s4) j = (if j = ?i then ?d else fdata (view s1) (inode_at ip s1) j)"
    using w splice_byte(1) [OF la n(3,1), of off] by blast
  have dev: "dev_of ip s1 = 1" using ifile_okD(2) [of "view s1" "sb s1" "inode_at ip s1"] B1(2) by (simp add: dev_of_def file_tx_def)
  have "writei_loop ip src off n s = writei_loop ip (drop ?m src) (off + ?m) (n - ?m) s4"
    using n(1) b(1) r s4(1,2) dev by (subst writei_loop.simps) (simp add: Let_def)
  moreover have "wrote ip src off ?m s s4" unfolding wrote_def
  proof (intro conjI allI impI)
    show "file_step ip s s4" by (rule file_step_trans [OF s1(1) s4(4)])
    show "fbyte (view s4) (inode_at ip s4) p = (if off \<le> p \<and> p < off + ?m then src ! (p - off) else fbyte (view s) ?x p)" if p: "p < MAXFILE * BSIZE" for p
      by (rule fbyte_put [OF _ _ n(3,1) p]) (use s4(5) fd i f1 la in auto)
    show "iaddr (view s4) (inode_at ip s4) (p div BSIZE) \<noteq> 0" if p: "off \<le> p \<and> p < off + ?m" for p
      using chunk_index(1) [of "p - off" off n] p s4(4) s1(2,3) i by (auto simp: file_step_def)
  qed
  ultimately show thesis using that B1(1) s4(3) by blast
qed

lemma writei_loop_law:
  fixes s :: "'a const_scheme"
  assumes "file_tx B (k + nblk off n) ip s" "off + n \<le> MAXFILE * BSIZE" "length src = n"
  shows "\<exists>B' t. writei_loop ip src off n s = Ok () t \<and> B \<subseteq> B' \<and> file_tx B' k ip t \<and> wrote ip src off n s t"
  using assms
proof (induction n arbitrary: B off src s rule: less_induct)
  case (less n)
  note p = less.prems
  show ?case
  proof (cases "n = 0")
    case True
    then show ?thesis using p by (auto simp: writei_loop.simps nblk_def wrote_def)
  next
    case False
    let ?m = "chunk off n"
    have m: "0 < ?m" "?m \<le> n" "0 < n" using False by simp_all
    have f: "file_tx B (Suc (k + nblk (off + ?m) (n - ?m))) ip s" using p(1) nblk_step [OF m(3)] by simp
    obtain B1 s1 where s1: "writei_loop ip src off n s = writei_loop ip (drop ?m src) (off + ?m) (n - ?m) s1" "B \<subseteq> B1" "file_tx B1 (k + nblk (off + ?m) (n - ?m)) ip s1"
      "wrote ip src off ?m s s1" by (rule fwrite_chunk [OF f m(3) p(2,3)])
    obtain B2 t where t: "writei_loop ip (drop ?m src) (off + ?m) (n - ?m) s1 = Ok () t" "B1 \<subseteq> B2" "file_tx B2 k ip t" "wrote ip (drop ?m src) (off + ?m) (n - ?m) s1 t"
      using less.IH [OF diff_less [OF m(1,3)] s1(3), of "drop ?m src"] p m by auto
    then show ?thesis using s1(1,2) wrote_trans [OF s1(4) t(4) m(2) p(3,2)] by auto
  qed
qed

end
