(* ===== verification/Dinode.thy ===== *)
theory Dinode
  imports Readwrite
begin

text \<open>
  Inodes on the disk: the bytes \<open>iupdate\<close> writes are the fields \<open>ilock\<close> reads, and the other inodes of the block are left alone.
\<close>

section \<open>Encoding\<close>

lemma put_addrs_length [simp]: "length (put_addrs d off as) = length d"
  by (induction d off as rule: put_addrs.induct) simp_all

lemma put_addrs_other:
  "k + 2 \<le> off \<or> off + 4 * length as \<le> k \<Longrightarrow> ld16 (put_addrs d off as) k = ld16 d k"
  "k + 4 \<le> off \<or> off + 4 * length as \<le> k \<Longrightarrow> ld32 (put_addrs d off as) k = ld32 d k"
  by (induction d off as rule: put_addrs.induct) auto

lemma put_addrs_at: "i < length as \<Longrightarrow> off + 4 * length as \<le> length d \<Longrightarrow> ld32 (put_addrs d off as) (off + 4 * i) = as ! i"
proof (induction d off as arbitrary: i rule: put_addrs.induct)
  case (2 d off a as)
  show ?case
  proof (cases i)
    case 0
    then show ?thesis using 2(3) put_addrs_other(2) [of off "off + 4" as "st32 d off a"] by simp
  next
    case (Suc j)
    then show ?thesis using 2(1) [of j] 2(2,3) by (simp add: algebra_simps)
  qed
qed simp

lemma dino_put_length [simp]: "length (dino_put x d) = length d"
  by (simp add: dino_put_def Let_def)

lemma dino_off_bound: "dino_off n + 64 \<le> BSIZE"
proof -
  have "unat n mod 8 < 8" by simp
  then show ?thesis unfolding dino_off_def by linarith
qed

lemma dino_off_apart: "unat m mod 8 \<noteq> unat n mod 8 \<Longrightarrow> dino_off m + 64 \<le> dino_off n \<or> dino_off n + 64 \<le> dino_off m"
  unfolding dino_off_def by linarith

lemma dino_get_put:
  assumes "length d = BSIZE" "length (i_addrs x) = 13" "i_inum y = i_inum x"
  shows "dino_get (dino_put x d) y = y\<lparr>i_type := i_type x, i_major := i_major x, i_minor := i_minor x, i_nlink := i_nlink x, i_size := i_size x, i_addrs := i_addrs x\<rparr>"
proof -
  let ?o = "dino_off (i_inum x)"
  have o: "?o + 64 \<le> BSIZE" by (rule dino_off_bound)
  let ?d = "st32 (st16 (st16 (st16 (st16 d ?o (i_type x)) (?o + 2) (i_major x)) (?o + 4) (i_minor x)) (?o + 6) (i_nlink x)) (?o + 8) (i_size x)"
  have e: "dino_put x d = put_addrs ?d (?o + 12) (i_addrs x)" by (simp add: dino_put_def Let_def)
  have "dino_addrs (dino_put x d) ?o = i_addrs x"
    unfolding e dino_addrs_def using assms o put_addrs_at [of _ "i_addrs x" "?o + 12" ?d] by (intro nth_equalityI) (simp_all del: upt_Suc)
  moreover have "ld16 (dino_put x d) ?o = i_type x" "ld16 (dino_put x d) (?o + 2) = i_major x" "ld16 (dino_put x d) (?o + 4) = i_minor x"
    "ld16 (dino_put x d) (?o + 6) = i_nlink x" "ld32 (dino_put x d) (?o + 8) = i_size x"
    unfolding e using assms(1) o by (simp_all add: put_addrs_other)
  ultimately show ?thesis by (simp add: dino_get_def Let_def assms(3))
qed

lemma dino_get_other:
  assumes "unat (i_inum y) mod 8 \<noteq> unat (i_inum x) mod 8" "length (i_addrs x) = 13"
  shows "dino_get (dino_put x d) y = dino_get d y"
proof -
  let ?o = "dino_off (i_inum x)" and ?q = "dino_off (i_inum y)"
  have ap: "?q + 64 \<le> ?o \<or> ?o + 64 \<le> ?q" by (rule dino_off_apart [OF assms(1)])
  have l16: "ld16 (dino_put x d) (?q + k) = ld16 d (?q + k)" if "k + 2 \<le> 64" for k
    using ap that assms(2) by (auto simp: dino_put_def Let_def put_addrs_other)
  have l32: "ld32 (dino_put x d) (?q + k) = ld32 d (?q + k)" if "k + 4 \<le> 64" for k
    using ap that assms(2) by (auto simp: dino_put_def Let_def put_addrs_other)
  have "dino_addrs (dino_put x d) ?q = dino_addrs d ?q" unfolding dino_addrs_def using l32 [of "12 + 4 * _"] by (auto simp: add.assoc)
  then show ?thesis using l16 [of 0] l16 [of 2] l16 [of 4] l16 [of 6] l32 [of 8] by (simp add: dino_get_def Let_def)
qed

section \<open>\<open>iupdate\<close> and \<open>ilock\<close>\<close>

lemma iupdate_law:
  fixes s :: "'a icst_scheme"
  assumes tx: "tx Map.empty B k s" and I: "I = IBLOCK (i_inum (inode_at ip s)) (sb s)" "I \<in> B" "I < disksize s" "i_dev (inode_at ip s) = 1"
  obtains t where "iupdate ip s = Ok () t" "tx Map.empty B k t" "view t = (view s)(I := dino_put (inode_at ip s) (view s I))" "fs_frame s t"
proof -
  obtain b s1 where r: "bread 1 I s = Ok b s1" "b_data (bc_buf s1 b) = view s I" "fs_frame s s1"
      "\<forall>d. \<exists>s2 t. log_write b (put_data b d s1) = Ok () s2 \<and> brelse b s2 = Ok () t \<and> tx Map.empty B k t \<and> view t = (view s)(I := d) \<and> fs_frame s s2 \<and> fs_frame s t"
    by (rule tx_update [OF tx _ I(3,2)]) simp_all
  obtain s2 t where w: "log_write b (put_data b (dino_put (inode_at ip s) (view s I)) s1) = Ok () s2" "brelse b s2 = Ok () t" "tx Map.empty B k t"
    "view t = (view s)(I := dino_put (inode_at ip s) (view s I))" "fs_frame s t" using r(4) by blast
  have "iupdate ip s = Ok () t" using r(1,2) w(1,2) fs_frame_inodes [OF r(3)] I(1,4) by (simp add: iupdate_def)
  then show thesis using that w by blast
qed

lemma ilock_law:
  fixes s :: "'a icst_scheme"
  assumes tx: "tx Map.empty B k s" and l: "lock_ready IcacheLock s" and ip: "ip < length (ic_inode s)" and y: "inode_at ip s = y" "i_dev y = 1" "0 < sint (i_ref y)" "i_flags y = 0"
    and I: "I = IBLOCK (i_inum y) (sb s)" "I < disksize s" "I \<in> B" and ty: "i_type (dino_get (view s I) y) \<noteq> 0"
  obtains t where "ilock (Some ip) s = Ok () t" "tx Map.empty B k t" "view t = view s" "inode_at ip t = (dino_get (view s I) y)\<lparr>i_flags := 3\<rparr>"
proof -
  let ?f = "\<lambda>x. x\<lparr>i_flags := i_flags x OR I_BUSY\<rparr>" and ?s = "upd_inode ip (\<lambda>x. x\<lparr>i_flags := i_flags x OR I_BUSY\<rparr>) s"
  have h: "acquire IcacheLock s = Ok () (held IcacheLock s)" by (rule acquire_ready [OF l])
  have hf: "inode_at ip (held IcacheLock s) = y" using y by (simp add: inode_at_def held_def)
  have rel: "release IcacheLock (upd_inode ip ?f (held IcacheLock s)) = Ok () ?s"
    by (subst release_restores [OF l]) (simp_all add: upd_inode_def held_def)
  have x: "inode_at ip ?s = y\<lparr>i_flags := 1\<rparr>" using ip y by simp
  have tx': "tx Map.empty B k ?s" using tx by simp
  have I': "I < disksize ?s" using I by simp
  obtain b s1 where r: "bread 1 I ?s = Ok b s1" "tx [b \<mapsto> I] B k s1" "view s1 = view ?s" "b_data (bc_buf s1 b) = view ?s I" "fs_frame ?s s1"
      "b \<in> marked s1 \<or> view ?s I = dsk ?s I" "dsk s1 = dsk ?s"
    by (rule tx_bread [OF tx' _ I' I(3)]) simp_all
  let ?u = "upd_inode ip (dino_get (view s I)) s1"
  have "tx [b \<mapsto> I] B k ?u" using r(2) by simp
  then obtain t where t: "brelse b ?u = Ok () t" "tx Map.empty B k t" "view t = view ?u" "fs_frame ?u t"
    by (rule tx_brelse [of "[b \<mapsto> I]" B k _ b I]) (use r(3,6,7) in auto)
  let ?t = "upd_inode ip (\<lambda>x. x\<lparr>i_flags := i_flags x OR I_VALID\<rparr>) t"
  have l1: "ip < length (ic_inode s1)" "inode_at ip s1 = y\<lparr>i_flags := 1\<rparr>" "sb s1 = sb s" using fs_frame_inodes [OF r(5)] ip x by simp_all
  then have l2: "ip < length (ic_inode t)" "inode_at ip t = dino_get (view s I) (y\<lparr>i_flags := 1\<rparr>)" using fs_frame_inodes [OF t(4)] by simp_all
  then have u: "inode_at ip ?t = (dino_get (view s I) y)\<lparr>i_flags := 3\<rparr>" by (simp add: dino_get_def Let_def)
  have "ilock (Some ip) s = ilock_body ip (held IcacheLock s)" using y h by (simp add: ilock_def)
  also have "\<dots> = Ok () ?t"
    unfolding ilock_body_def hf rel using y(2,4) x r(1,3,4) I(1) t(1) l2 ty rel by (simp add: u Let_def dino_get_def)
  finally show thesis using that u t(2,3) r(3) by simp
qed

end
