(* ===== verification/Content.thy ===== *)
theory Content
  imports Dinode
begin

text \<open>
  A file as a sequence of bytes (\<open>contents\<close>), and what \<open>readi\<close> and \<open>writei\<close> do to it.
\<close>

section \<open>Files as byte sequences\<close>

definition contents :: "(u32 \<Rightarrow> u8 list) \<Rightarrow> inode \<Rightarrow> u8 list" where
  "contents V x = map (fbyte V x) [0..<unat (i_size x)]"

definition overwrite :: "u8 list \<Rightarrow> nat \<Rightarrow> u8 list \<Rightarrow> u8 list" where
  "overwrite c off src = take off c @ src @ drop (off + length src) c"

text \<open>A file without holes, of a size the map can hold.\<close>

definition whole :: "(u32 \<Rightarrow> u8 list) \<Rightarrow> inode \<Rightarrow> bool" where
  "whole V x \<longleftrightarrow> unat (i_size x) \<le> MAXFILE * BSIZE \<and> (\<forall>p < unat (i_size x). iaddr V x (p div BSIZE) \<noteq> 0)"

lemma sint_small: "unat (n :: u32) < 2147483648 \<Longrightarrow> sint n = int (unat n)"
proof -
  assume n: "unat n < 2147483648"
  have u: "uint n = int (unat n)" by simp
  have b: "0 \<le> uint n" "uint n < 2147483648" using n u by linarith+
  have "sint n = signed_take_bit 31 (uint n)" by (simp add: sint_uint)
  also have "\<dots> = uint n" using b by (intro signed_take_bit_int_eq_self; simp; linarith)
  finally show ?thesis by simp
qed

lemma readi_law:
  fixes s :: "'a const_scheme"
  assumes tx: "tx Map.empty B k s" and lay: "layout (view s) (sb s) (disksize s)" and ok: "ifile_ok (view s) (sb s) (inode_at ip s)" and wh: "whole (view s) (inode_at ip s)"
    and ty: "i_type (inode_at ip s) \<noteq> T_DEV" and off: "off \<le> i_size (inode_at ip s)" "unat off + unat n < 2 ^ 32"
  obtains t bs where "readi ip off n s = Ok (int (length bs), bs) t" "bs = take (unat n) (drop (unat off) (contents (view s) (inode_at ip s)))"
    "tx Map.empty B k t" "view t = view s" "fs_frame s t"
proof -
  let ?x = "inode_at ip s" and ?V = "view s"
  define m where "m = (if off + n > i_size ?x then i_size ?x - off else n)"
  have un: "unat (off + n) = unat off + unat n" using off(2) by (simp add: unat_word_ariths)
  have o: "unat off \<le> unat (i_size ?x)" using off(1) by (simp add: word_le_nat_alt)
  have m: "unat m = min (unat n) (unat (i_size ?x) - unat off)"
    using o un off(1) by (simp add: m_def word_less_nat_alt unat_sub) 
  have sz: "unat (i_size ?x) \<le> MAXFILE * BSIZE" using wh by (simp add: whole_def)
  have "unat off + unat m \<le> MAXFILE * BSIZE" "\<And>p. unat off \<le> p \<Longrightarrow> p < unat off + unat m \<Longrightarrow> iaddr ?V ?x (p div BSIZE) \<noteq> 0"
    using m o sz wh by (auto simp: whole_def)
  from readi_loop_law [OF tx lay ok this]
  obtain t where t: "readi_loop ip (unat off) (unat m) s = Ok (map (fbyte ?V ?x) [unat off..<unat off + unat m]) t" "tx Map.empty B k t" "view t = ?V" "fs_frame s t" by blast
  let ?bs = "map (fbyte ?V ?x) [unat off..<unat off + unat m]"
  have bs: "?bs = take (unat n) (drop (unat off) (contents ?V ?x))"
    unfolding contents_def using m o by (auto simp: take_map drop_map min_def)
  have "off + n < off \<longleftrightarrow> False" "i_size ?x < off \<longleftrightarrow> False" using un off(1) by (simp_all add: word_less_nat_alt word_le_nat_alt)
  then have "readi ip off n s = Ok (sint m, ?bs) t" using ty t(1) by (simp add: readi_def m_def [symmetric])
  moreover have "sint m = int (unat m)" using m o sz by (intro sint_small) auto
  moreover have "length ?bs = unat m" by simp
  ultimately show thesis using that [of ?bs t] t(2-4) bs by argo
qed

section \<open>Writing\<close>

text \<open>What an update of the inode on the disk does not touch.\<close>

definition inode_block :: "'a icst_scheme \<Rightarrow> nat \<Rightarrow> u32" where
  "inode_block s ip = IBLOCK (i_inum (inode_at ip s)) (sb s)"

lemma layout_blocks:
  assumes ok: "ifile_ok V sbk x" and n: "n \<notin> map_blocks sbk" "n \<notin> iblocks V x" and W: "W = V(n := d)"
  shows "iaddr W x i = iaddr V x i" "iblocks W x = iblocks V x" "ifile_ok W sbk x" "i < MAXFILE \<Longrightarrow> fdata W x i = fdata V x i"
proof -
  have m: "iaddr W x i = iaddr V x i" for i using n(2) iblocksI(2) [of x V] by (auto simp: iaddr_def W)
  then show "iaddr W x i = iaddr V x i" .
  show ib: "iblocks W x = iblocks V x" by (simp add: iblocks_def m)
  have "used W sbk a = used V sbk a" if "a < sb_size sbk" for a unfolding W by (rule used_upd [OF n(1) that])
  then show "ifile_ok W sbk x" using ok by (auto simp: ifile_ok_def m ib)
  show "fdata W x i = fdata V x i" if "i < MAXFILE"
  proof -
    have "iaddr V x i \<noteq> 0 \<Longrightarrow> W (iaddr V x i) = V (iaddr V x i)" using iblocksI(1) [OF that, of V x] n(2) by (auto simp: W)
    then show ?thesis by (auto simp: fdata_def m)
  qed
qed

lemma contents_cong: "unat (i_size x) \<le> MAXFILE * BSIZE \<Longrightarrow> i_size y = i_size x \<Longrightarrow> (\<And>i. i < MAXFILE \<Longrightarrow> fdata W y i = fdata V x i) \<Longrightarrow> contents W y = contents V x"
  by (auto simp: contents_def fbyte_def less_mult_imp_div_less)

text \<open>A file none of whose blocks changes keeps its contents.\<close>

lemma contents_other:
  assumes ok: "ifile_ok V sbk y" "unat (i_size y) \<le> MAXFILE * BSIZE" and same: "\<And>n. n \<in> iblocks V y \<Longrightarrow> W n = V n"
  shows "contents W y = contents V y"
proof (rule contents_cong [OF ok(2) refl])
  fix i assume i: "i < MAXFILE"
  have "iaddr W y i = iaddr V y i" using same iblocksI(2) [of y V] by (auto simp: iaddr_def)
  then show "fdata W y i = fdata V y i" using same iblocksI(1) [OF i, of V y] by (auto simp: fdata_def)
qed

lemma wrote_contents:
  assumes w: "wrote ip src off n s t" and n: "length src = n" "off + n \<le> MAXFILE * BSIZE" "off \<le> unat (i_size (inode_at ip s))" "unat (i_size (inode_at ip s)) \<le> MAXFILE * BSIZE"
    and y: "unat (i_size y) = (if n = 0 then unat (i_size (inode_at ip s)) else max (unat (i_size (inode_at ip s))) (off + n))" "i_addrs y = i_addrs (inode_at ip t)"
  shows "contents (view t) y = overwrite (contents (view s) (inode_at ip s)) off src"
proof -
  let ?z = "unat (i_size (inode_at ip s))"
  have a: "fbyte (view t) y p = fbyte (view t) (inode_at ip t) p" for p by (simp add: fbyte_def fdata_def iaddr_def y(2))
  have l: "length (overwrite (contents (view s) (inode_at ip s)) off src) = unat (i_size y)"
    using n y(1) by (auto simp: overwrite_def contents_def max_def)
  show ?thesis
  proof (rule nth_equalityI)
    show "length (contents (view t) y) = length (overwrite (contents (view s) (inode_at ip s)) off src)" using l by (simp add: contents_def)
    fix p assume "p < length (contents (view t) y)"
    then have p: "p < unat (i_size y)" "p < MAXFILE * BSIZE" using n y(1) by (auto simp: contents_def split: if_splits)
    have "contents (view t) y ! p = (if off \<le> p \<and> p < off + n then src ! (p - off) else fbyte (view s) (inode_at ip s) p)"
      using w p a by (simp add: contents_def wrote_def)
    also have "\<dots> = overwrite (contents (view s) (inode_at ip s)) off src ! p"
      using n p y(1) by (auto simp: overwrite_def contents_def nth_append split: if_splits)
    finally show "contents (view t) y ! p = overwrite (contents (view s) (inode_at ip s)) off src ! p" .
  qed
qed

lemma size_irrelevant [simp]:
  "iaddr V (x\<lparr>i_size := z\<rparr>) = iaddr V x" "iblocks V (x\<lparr>i_size := z\<rparr>) = iblocks V x" "ifile_ok V sbk (x\<lparr>i_size := z\<rparr>) = ifile_ok V sbk x"
  "fdata V (x\<lparr>i_size := z\<rparr>) = fdata V x" "credit B (x\<lparr>i_size := z\<rparr>) = credit B x" "fbyte V (x\<lparr>i_size := z\<rparr>) = fbyte V x"
  by (simp_all add: iaddr_def fun_eq_iff iblocks_def ifile_ok_def fdata_def credit_def fbyte_def)

lemma set_size:
  fixes s :: "'a icst_scheme"
  assumes f: "file_tx B k ip s" and I: "I = inode_block s ip" "I \<in> B" "I < disksize s" "other_block s ip I"
  obtains t where "iupdate ip (upd_inode ip (\<lambda>x. x\<lparr>i_size := z\<rparr>) s) = Ok () t" "file_tx B k ip t" "inode_at ip t = (inode_at ip s)\<lparr>i_size := z\<rparr>"
    "\<forall>i. iaddr (view t) (inode_at ip t) i = iaddr (view s) (inode_at ip s) i" "\<forall>i < MAXFILE. fdata (view t) (inode_at ip t) i = fdata (view s) (inode_at ip s) i"
    "\<forall>m. m \<noteq> I \<longrightarrow> view t m = view s m" "\<forall>jp. jp \<noteq> ip \<longrightarrow> inode_at jp t = inode_at jp s"
proof -
  let ?s = "upd_inode ip (\<lambda>x. x\<lparr>i_size := z\<rparr>) s" and ?x = "inode_at ip s"
  have F: "ip < length (ic_inode s)" "layout (view s) (sb s) (disksize s)" "ifile_ok (view s) (sb s) ?x" "map_blocks (sb s) \<subseteq> B" "tx Map.empty B (k + credit B ?x) s"
    "k + credit B ?x \<le> nfree (view s) (sb s)" using f by (simp_all add: file_tx_def)
  have n: "I \<notin> map_blocks (sb s)" "I \<notin> iblocks (view s) ?x" using I(4) by (simp_all add: other_block_def)
  have x: "inode_at ip ?s = ?x\<lparr>i_size := z\<rparr>" using F(1) by simp
  have tx: "tx Map.empty B (k + credit B ?x) ?s" using F(5) by simp
  obtain t where t: "iupdate ip ?s = Ok () t" "tx Map.empty B (k + credit B ?x) t" "view t = (view s)(I := dino_put (?x\<lparr>i_size := z\<rparr>) (view s I))" "fs_frame ?s t"
    using iupdate_law [OF tx, of I ip] I ifile_okD(2) [OF F(3)] x by (auto simp: inode_block_def)
  note fr = fs_frame_fields [OF t(4)] fs_frame_inodes [OF t(4)]
  note L = layout_blocks [OF F(3) n t(3)]
  have "length (dino_put (?x\<lparr>i_size := z\<rparr>) (view s I)) = BSIZE" using F(2) I(3) by (simp add: layout_def)
  then have "layout (view t) (sb s) (disksize s)" using layout_upd [OF F(2) n(1)] t(3) by simp
  then have "file_tx B k ip t" using F t(2) L(3) nfree_upd [OF n(1)] t(3) fr x by (simp add: file_tx_def)
  then show thesis using that [OF t(1)] t(3) L(1,4) fr x by simp
qed

lemma writei_law:
  fixes s :: "'a const_scheme"
  assumes f: "file_tx B (nblk (unat off) (unat n)) ip s" and wh: "whole (view s) (inode_at ip s)" and ty: "i_type (inode_at ip s) \<noteq> T_DEV"
    and n: "unat off \<le> unat (i_size (inode_at ip s))" "unat off + unat n \<le> MAXFILE * BSIZE" "length src = unat n"
    and I: "inode_block s ip \<in> B" "inode_block s ip < disksize s" "other_block s ip (inode_block s ip)"
  obtains B' t where "writei ip src off n s = Ok (int (unat n)) t" "file_tx B' 0 ip t" "whole (view t) (inode_at ip t)"
    "contents (view t) (inode_at ip t) = overwrite (contents (view s) (inode_at ip s)) (unat off) src"
    "\<forall>m. other_block s ip m \<and> m \<noteq> inode_block s ip \<longrightarrow> view t m = view s m" "\<forall>jp. jp \<noteq> ip \<longrightarrow> inode_at jp t = inode_at jp s"
proof -
  let ?x = "inode_at ip s" and ?z = "i_size (inode_at ip s)"
  obtain B1 s1 where w: "writei_loop ip src (unat off) (unat n) s = Ok () s1" "B \<subseteq> B1" "file_tx B1 0 ip s1" "wrote ip src (unat off) (unat n) s s1"
    using writei_loop_law [of B 0 "unat off" "unat n" ip s src] f n by auto
  have un: "unat (off + n) = unat off + unat n" using n(2) by (simp add: unat_word_ariths)
  obtain A where A: "sb s1 = sb s" "disksize s1 = disksize s" "ic_inode s1 = (ic_inode s)[ip := ?x\<lparr>i_addrs := A\<rparr>]" using w(4) by (auto simp: wrote_def file_step_def)
  have ip: "ip < length (ic_inode s)" using f by (simp add: file_tx_def)
  have x1: "inode_at ip s1 = ?x\<lparr>i_addrs := A\<rparr>" "\<And>jp. jp \<noteq> ip \<Longrightarrow> inode_at jp s1 = inode_at jp s" using A(3) ip by (simp_all add: inode_at_def)
  have wr: "writei ip src off n s = rbind (rwhen (n > 0 \<and> off + n > ?z) (\<lambda>s. iupdate ip (upd_inode ip (\<lambda>x. x\<lparr>i_size := off + n\<rparr>) s)) s1) (\<lambda>_ s. Ok (sint n) s)"
    using w(1) ty n un x1(1) by (simp add: writei_def word_less_nat_alt word_le_nat_alt Let_def)
  have sn: "sint n = int (unat n)" using n(2) by (intro sint_small) simp
  have sz: "unat ?z \<le> MAXFILE * BSIZE" using wh by (simp add: whole_def)
  have map: "iaddr (view s1) (inode_at ip s1) (p div BSIZE) \<noteq> 0" if "p < unat ?z \<or> unat off \<le> p \<and> p < unat off + unat n" for p
    using that wh w(4) sz by (auto simp: whole_def wrote_def file_step_def less_mult_imp_div_less)
  have I1: "inode_block s ip = inode_block s1 ip" "inode_block s ip \<in> B1" "inode_block s ip < disksize s1" "other_block s1 ip (inode_block s ip)"
    using I w(2,4) A x1(1) by (auto simp: inode_block_def wrote_def file_step_def)
  have oth: "view s1 m = view s m" if "other_block s ip m" for m using that w(4) by (auto simp: wrote_def file_step_def)
  show thesis
  proof (cases "n > 0 \<and> off + n > ?z")
    case False
    have le: "unat n = 0 \<or> unat off + unat n \<le> unat ?z" using False un by (auto simp: word_less_nat_alt not_less unat_eq_zero)
    have "contents (view s1) (inode_at ip s1) = overwrite (contents (view s) ?x) (unat off) src"
      by (rule wrote_contents [OF w(4) n(3,2,1) sz]) (use le x1(1) in auto)
    moreover have "whole (view s1) (inode_at ip s1)" using map sz x1(1) by (simp add: whole_def)
    ultimately show thesis using that [OF _ w(3)] wr False sn oth x1(2) by simp
  next
    case True
    obtain t where t: "iupdate ip (upd_inode ip (\<lambda>x. x\<lparr>i_size := off + n\<rparr>) s1) = Ok () t" "file_tx B1 0 ip t" "inode_at ip t = (inode_at ip s1)\<lparr>i_size := off + n\<rparr>"
      "\<forall>i. iaddr (view t) (inode_at ip t) i = iaddr (view s1) (inode_at ip s1) i" "\<forall>i < MAXFILE. fdata (view t) (inode_at ip t) i = fdata (view s1) (inode_at ip s1) i"
      "\<forall>m. m \<noteq> inode_block s ip \<longrightarrow> view t m = view s1 m" "\<forall>jp. jp \<noteq> ip \<longrightarrow> inode_at jp t = inode_at jp s1"
      by (rule set_size [OF w(3) I1])
    let ?y = "(inode_at ip s1)\<lparr>i_size := off + n\<rparr>"
    have gt: "unat ?z < unat off + unat n" "unat n \<noteq> 0" using True un by (auto simp: word_less_nat_alt)
    have "contents (view t) (inode_at ip t) = contents (view s1) ?y"
      by (rule contents_cong) (use n(2) un t(3,5) in auto)
    also have "\<dots> = overwrite (contents (view s) ?x) (unat off) src"
      by (rule wrote_contents [OF w(4) n(3,2,1) sz]) (use gt un in auto)
    finally have "contents (view t) (inode_at ip t) = overwrite (contents (view s) ?x) (unat off) src" .
    moreover have "iaddr (view s1) (inode_at ip s1) (p div BSIZE) \<noteq> 0" if "p < unat off + unat n" for p
      using map [of p] that n(1) by (cases "p < unat off") auto
    then have "whole (view t) (inode_at ip t)" using n t(3,4) un by (simp add: whole_def)
    moreover have "writei ip src off n s = Ok (int (unat n)) t" using wr True t(1) sn by simp
    ultimately show thesis using that [OF _ t(2)] t(6,7) oth x1(2) by auto
  qed
qed

end
