(* ===== verification/Fs_Props.thy ===== *)
theory Fs_Props
  imports Content Demo
begin

text \<open>
  What \<^verbatim>\<open>fs.c\<close> promises: a file is a sequence of bytes that \<open>readi\<close> reads and \<open>writei\<close> overwrites and extends, \<open>balloc\<close> takes the first free
  block, and an inode written back is read again.
\<close>

section \<open>A file system to apply the theorems to\<close>

text \<open>The first 59 blocks are in use; inode 1 is an empty file in entry 5 of the cache, and the log holds one block.\<close>

definition demo_map :: "u8 list" where
  "demo_map = replicate 7 0xFF @ [7] @ replicate 504 0"

definition demo_empty :: inode where
  "demo_empty = \<lparr>i_dev = 1, i_inum = 1, i_ref = 1, i_flags = 3, i_type = 2, i_major = 0, i_minor = 0, i_nlink = 1, i_size = 0, i_addrs = replicate 13 0\<rparr>"

definition demo_fs :: sysst where
  "demo_fs = demo_sys\<lparr>lg_n := 1, lg_outstanding := 1, memdisk := (memdisk demo_sys)(58 := demo_map), ic_inode := (replicate 50 demo_inode)[5 := demo_empty]\<rparr>"

lemma demo_fs_fields [simp]:
  "lg_n demo_fs = 1" "lg_outstanding demo_fs = 1" "lg_size demo_fs = 30" "lg_block demo_fs = 50 # replicate 29 0" "bc_buf demo_fs = demo_buf" "disksize demo_fs = 1000"
  "sb demo_fs = demo_sb" "inode_at 5 demo_fs = demo_empty" "length (ic_inode demo_fs) = 50" "memdisk demo_fs = (\<lambda>_. replicate 512 0)(58 := demo_map)"
  by (simp_all add: demo_fs_def inode_at_def)

lemma demo_fs_ready [simp]: "lock_ready l demo_fs"
  using demo_sys_ready [of l] by (simp add: lock_ready_def demo_fs_def)

lemma demo_fs_bio: "bcache_inv demo_fs" "owned demo_fs = Map.empty" "marked demo_fs = {0}"
  "view demo_fs n = (if n = 58 then demo_map else replicate 512 (if n = 50 then 1 else 0))"
proof -
  have "lru demo_fs = lru demo_bio" "cached_as d n demo_fs = cached_as d n demo_bio" for d n by (simp_all add: lru_def cached_as_def fun_eq_iff)
  moreover have "cache_ok demo_fs" by (auto simp: cache_ok_def demo_buf_def cached_as_def)
  ultimately show inv: "bcache_inv demo_fs" using demo_bcache(1) by (auto simp: bcache_inv_def demo_buf_def)
  have "\<forall>b. owned demo_fs b = None" by (simp add: owned_def demo_buf_def)
  then show "owned demo_fs = Map.empty" by auto
  show "marked demo_fs = {0}" by (auto simp: marked_def demo_buf_def)
  show "view demo_fs n = (if n = 58 then demo_map else replicate 512 (if n = 50 then 1 else 0))"
  proof (cases "n = 50")
    case True
    then show ?thesis using inv view_cached [of demo_fs 0 50] by (simp add: bcache_inv_def cached_as_def demo_buf_def)
  next
    case False
    have "view demo_fs n = memdisk demo_fs (unat n)" using False by (intro view_uncached) (auto simp: cached_as_def demo_buf_def split: if_splits)
    moreover have "unat n = 58 \<longleftrightarrow> n = 58" using word_unat_eq_iff [of n 58] by simp
    ultimately show ?thesis using False by simp
  qed
qed

lemma demo_used:
  "used (view demo_fs) demo_sb b \<longleftrightarrow> unat b < 59" if "b < 1000"
proof -
  have b: "unat b < 1000" using that by (simp add: word_less_nat_alt)
  have "BBLOCK b demo_sb = 58" using BBLOCK_eq_iff [of b demo_sb 0] b by (simp add: BBLOCK_def demo_sb_def)
  then have "used (view demo_fs) demo_sb b \<longleftrightarrow> bm_test demo_map (unat b)" using b by (simp add: used_def demo_fs_bio(4))
  also have "\<dots> \<longleftrightarrow> bit (demo_map ! (unat b div 8)) (unat b mod 8)" by (rule bm_test_bit)
  also have "\<dots> \<longleftrightarrow> unat b < 59"
  proof -
    consider "unat b div 8 < 7" | "unat b div 8 = 7" | "7 < unat b div 8" by linarith
    then show ?thesis
    proof cases
      case 1
      then have "demo_map ! (unat b div 8) = - 1" by (simp add: demo_map_def nth_append)
      then show ?thesis using 1 by (simp add: bit_simps)
    next
      case 2
      have "bit (7 :: u8) k \<longleftrightarrow> k < 3" for k
      proof -
        have "bit (mask 3 :: u8) k \<longleftrightarrow> k < 3" unfolding bit_mask_iff by auto
        then show ?thesis by (simp add: mask_eq_exp_minus_1)
      qed
      moreover have "demo_map ! 7 = 7" by (simp add: demo_map_def nth_append)
      moreover have e: "unat b = 56 + unat b mod 8" using 2 div_mult_mod_eq [of "unat b" 8] by linarith
      have "unat b mod 8 < 3 \<longleftrightarrow> unat b < 59" by (intro iffI; use e in linarith)
      ultimately show ?thesis by (simp only: 2)
    next
      case 3
      then have "demo_map ! (unat b div 8) = 0" using b by (auto simp: demo_map_def nth_append nth_Cons')
      then show ?thesis using 3 by auto
    qed
  qed
  finally show ?thesis .
qed

lemma demo_map_blocks: "map_blocks demo_sb = {58}"
proof -
  have "BBLOCK b demo_sb = 58" if "b < 1000" for b
    using BBLOCK_eq_iff [of b demo_sb 0] that by (simp add: BBLOCK_def demo_sb_def word_less_nat_alt)
  then show ?thesis by (auto simp: map_blocks_def demo_sb_def intro!: image_eqI [of _ _ 0])
qed

lemma demo_layout: "layout (view demo_fs) demo_sb 1000"
proof -
  have "BBLOCK b demo_sb = 58" if "b < 1000" for b using demo_map_blocks that by (auto simp: map_blocks_def demo_sb_def)
  moreover have "length demo_map = 512" by (simp add: demo_map_def)
  ultimately show ?thesis using demo_used [of 0] demo_used [of 58] by (auto simp: layout_def demo_fs_bio(4) demo_sb_def)
qed

lemma demo_tx: "finite B \<Longrightarrow> card (insert 50 B) + k < 29 \<Longrightarrow> tx Map.empty B k demo_fs"
  using demo_fs_bio by (auto simp: tx_def logged_def demo_buf_def)

lemma demo_nfree: "3 \<le> nfree (view demo_fs) demo_sb"
proof -
  have "{59, 60, 61} \<subseteq> {b. b < sb_size demo_sb \<and> \<not> used (view demo_fs) demo_sb b}" using demo_used by (auto simp: demo_sb_def)
  then have "card {59, 60, 61 :: u32} \<le> nfree (view demo_fs) demo_sb" unfolding nfree_def by (intro card_mono) auto
  then show ?thesis by simp
qed

lemma demo_empty_ok: "ifile_ok V sbk demo_empty" "iblocks V demo_empty = {}" "contents V demo_empty = []" "whole V demo_empty"
proof -
  have a: "iaddr V demo_empty i = 0" for i by (simp add: iaddr_def demo_empty_def nth_Cons')
  then show b: "iblocks V demo_empty = {}" by (auto simp: iblocks_def demo_empty_def)
  show "ifile_ok V sbk demo_empty" using a b by (auto simp: ifile_ok_def demo_empty_def)
  show "contents V demo_empty = []" "whole V demo_empty" by (simp_all add: contents_def whole_def demo_empty_def)
qed

lemma demo_file_tx: "file_tx {58, 32} 2 5 demo_fs"
proof -
  have c: "(2 :: nat) + credit {58, 32} (inode_at 5 demo_fs) = 3" by (simp add: credit_def demo_empty_def)
  have "tx Map.empty {58, 32} 3 demo_fs" by (rule demo_tx) simp_all
  then show ?thesis unfolding file_tx_def c using demo_layout demo_map_blocks demo_empty_ok demo_nfree by simp
qed

text \<open>The same file with 100 bytes in block 50.\<close>

definition demo_data :: inode where
  "demo_data = demo_empty\<lparr>i_size := 100, i_addrs := 50 # replicate 12 0\<rparr>"

lemma demo_data_ok: "ifile_ok (view demo_fs) demo_sb demo_data" "contents (view demo_fs) demo_data = replicate 100 1" "whole (view demo_fs) demo_data"
proof -
  have a: "iaddr V demo_data i = (if i = 0 then 50 else 0)" for V i by (simp add: iaddr_def demo_data_def demo_empty_def nth_Cons')
  then have b: "iblocks V demo_data = {50}" for V by (auto simp: iblocks_def demo_data_def demo_empty_def)
  have u: "used (view demo_fs) demo_sb 50" using demo_used [of 50] by simp
  show "ifile_ok (view demo_fs) demo_sb demo_data"
    unfolding ifile_ok_def a b using u demo_map_blocks by (auto simp: demo_data_def demo_empty_def demo_sb_def)
  have "fbyte (view demo_fs) demo_data p = 1" if "p < 100" for p using that by (simp add: fbyte_def fdata_def a demo_fs_bio(4))
  moreover have s: "unat (i_size demo_data) = 100" by (simp add: demo_data_def)
  ultimately show "contents (view demo_fs) demo_data = replicate 100 1" unfolding contents_def s by (intro nth_equalityI) auto
  show "whole (view demo_fs) demo_data" unfolding whole_def s a by simp
qed

section \<open>Properties\<close>

text \<open>
  C2: \<open>writei\<close> implements writing into a sequence of bytes.  For a file without holes whose blocks are in order, in a transaction with room in the
  log and on the disk for the blocks it touches, an indirect block and the inode, a write at an offset within the file that stays within the
  largest file returns the number of bytes; afterwards the contents are the old ones with the bytes at that offset replaced or appended, the file
  is again without holes, and every other file that shares no block with it has the contents it had.
\<close>

theorem writei_overwrites_contents:
  fixes s :: "'a const_scheme"
  assumes "file_tx B (nblk (unat off) (unat n)) ip s" "whole (view s) (inode_at ip s)" "i_type (inode_at ip s) \<noteq> T_DEV"
    "unat off \<le> unat (i_size (inode_at ip s))" "unat off + unat n \<le> MAXFILE * BSIZE" "length src = unat n"
    "inode_block s ip \<in> B" "inode_block s ip < disksize s" "other_block s ip (inode_block s ip)"
  shows "\<exists>t. writei ip src off n s = Ok (int (unat n)) t \<and> ifile_ok (view t) (sb t) (inode_at ip t) \<and> whole (view t) (inode_at ip t) \<and>
    contents (view t) (inode_at ip t) = overwrite (contents (view s) (inode_at ip s)) (unat off) src \<and>
    (\<forall>jp. jp \<noteq> ip \<longrightarrow> inode_at jp t = inode_at jp s) \<and>
    (\<forall>y. ifile_ok (view s) (sb s) y \<and> whole (view s) y \<and> iblocks (view s) y \<inter> insert (inode_block s ip) (iblocks (view s) (inode_at ip s)) = {} \<longrightarrow>
       contents (view t) y = contents (view s) y)"
proof -
  obtain B' t where t: "writei ip src off n s = Ok (int (unat n)) t" "file_tx B' 0 ip t" "whole (view t) (inode_at ip t)"
    "contents (view t) (inode_at ip t) = overwrite (contents (view s) (inode_at ip s)) (unat off) src"
    "\<forall>m. other_block s ip m \<and> m \<noteq> inode_block s ip \<longrightarrow> view t m = view s m" "\<forall>jp. jp \<noteq> ip \<longrightarrow> inode_at jp t = inode_at jp s"
    by (rule writei_law [OF assms])
  have "contents (view t) y = contents (view s) y"
    if y: "ifile_ok (view s) (sb s) y" "whole (view s) y" "iblocks (view s) y \<inter> insert (inode_block s ip) (iblocks (view s) (inode_at ip s)) = {}" for y
  proof (rule contents_other [OF y(1)])
    show "unat (i_size y) \<le> MAXFILE * BSIZE" using y(2) by (simp add: whole_def)
    fix m assume m: "m \<in> iblocks (view s) y"
    then have "other_block s ip m" "m \<noteq> inode_block s ip" using ifile_okD(3) [OF y(1) m] y(3) by (auto simp: other_block_def)
    then show "view t m = view s m" using t(5) by blast
  qed
  moreover have "ifile_ok (view t) (sb t) (inode_at ip t)" using t(2) by (simp add: file_tx_def)
  ultimately show ?thesis using t by blast
qed

theorem writei_overwrites_contents_witness:
  "\<exists>t. writei 5 (replicate 600 7) 0 600 demo_fs = Ok 600 t \<and> contents (view t) (inode_at 5 t) = replicate 600 7"
proof -
  have I: "inode_block demo_fs 5 = 32" by (simp add: inode_block_def IBLOCK_def demo_empty_def demo_sb_def)
  have nb: "nblk (unat (0 :: u32)) (unat (600 :: u32)) = 2" "i_type demo_empty = 2" "i_size demo_empty = 0" by (simp_all add: nblk_def demo_empty_def)
  have "other_block demo_fs 5 32" using demo_used [of 32] by (simp add: other_block_def demo_map_blocks demo_empty_ok)
  then show ?thesis
    using writei_overwrites_contents [of "{58, 32}" 0 600 5 demo_fs "replicate 600 7"] demo_file_tx demo_empty_ok I nb
    by (auto simp: overwrite_def)
qed

text \<open>
  C5: \<open>readi\<close> implements reading from a sequence of bytes: on a file without holes it returns the bytes of the contents from the offset on, as many as
  there are up to the number asked for, and their number; at an offset beyond the end, or when offset and length overflow, it returns -1.  It
  changes the contents of no block.
\<close>

theorem readi_returns_contents:
  fixes s :: "'a const_scheme"
  assumes "tx Map.empty B k s" "layout (view s) (sb s) (disksize s)" "ifile_ok (view s) (sb s) (inode_at ip s)" "whole (view s) (inode_at ip s)"
    "i_type (inode_at ip s) \<noteq> T_DEV"
  shows "\<exists>t. view t = view s \<and> ic_inode t = ic_inode s \<and>
    readi ip off n s = Ok (if off \<le> i_size (inode_at ip s) \<and> unat off + unat n < 2 ^ 32
      then (int (min (unat n) (unat (i_size (inode_at ip s)) - unat off)), take (unat n) (drop (unat off) (contents (view s) (inode_at ip s)))) else (- 1, [])) t"
proof (cases "off \<le> i_size (inode_at ip s) \<and> unat off + unat n < 2 ^ 32")
  case True
  obtain t bs where t: "readi ip off n s = Ok (int (length bs), bs) t" "bs = take (unat n) (drop (unat off) (contents (view s) (inode_at ip s)))"
    "view t = view s" "fs_frame s t"
    by (rule readi_law [OF assms, of off n]) (use True in auto)
  have "length bs = min (unat n) (unat (i_size (inode_at ip s)) - unat off)" using t(2) by (simp add: contents_def)
  then show ?thesis using t True fs_frame_inodes(2) [OF t(4)] by auto
next
  case False
  have "off + n < off" if "\<not> unat off + unat n < 2 ^ 32" 
  proof -
    have "unat off < 2 ^ LENGTH(32)" "unat n < 2 ^ LENGTH(32)" by (rule unsigned_less)+
    then show ?thesis using that by (auto simp: word_less_nat_alt unat_word_ariths mod_if not_less)
  qed
  then have "off > i_size (inode_at ip s) \<or> off + n < off" using False by auto
  then show ?thesis using assms(5) False by (auto simp: readi_def)
qed

theorem readi_returns_contents_witness:
  "\<exists>t. readi 5 10 20 (upd_inode 5 (\<lambda>_. demo_data) demo_fs) = Ok (20, replicate 20 1) t"
proof -
  let ?s = "upd_inode 5 (\<lambda>_. demo_data) demo_fs"
  have x: "inode_at 5 ?s = demo_data" by simp
  have "take 20 (drop 10 (contents (view demo_fs) demo_data)) = replicate 20 1" by (simp add: demo_data_ok)
  then show ?thesis using readi_returns_contents [of "{}" 0 ?s 5 10 20] demo_tx [of "{}" 0] demo_layout demo_data_ok x
    by (auto simp: demo_data_def demo_empty_def)
qed

text \<open>
  C8: an inode written to the disk is the inode read from it: after \<open>iupdate\<close>, an entry of the cache that \<open>iget\<close> has set up afresh for this inode
  gets, when it is locked, the type, the device numbers, the link count, the size and the addresses that were written; the other inodes of the block
  read as before.
\<close>

theorem inode_written_is_read_back:
  fixes s :: "'a icst_scheme"
  assumes tx: "tx Map.empty B k s" and l: "lock_ready IcacheLock s" and ip: "ip < length (ic_inode s)" and x: "inode_at ip s = x" "i_dev x = 1" "length (i_addrs x) = NDIRECT + 1" "i_type x \<noteq> 0"
    and I: "I = inode_block s ip" "I \<in> B" "I < disksize s" "length (view s I) = BSIZE" and y: "i_dev y = 1" "i_inum y = i_inum x" "0 < sint (i_ref y)" "i_flags y = 0"
  shows "\<exists>t u. iupdate ip s = Ok () t \<and> ilock (Some ip) (upd_inode ip (\<lambda>_. y) t) = Ok () u \<and>
    inode_at ip u = y\<lparr>i_flags := 3, i_type := i_type x, i_major := i_major x, i_minor := i_minor x, i_nlink := i_nlink x, i_size := i_size x, i_addrs := i_addrs x\<rparr> \<and>
    (\<forall>z. unat (i_inum z) mod 8 \<noteq> unat (i_inum x) mod 8 \<longrightarrow> dino_get (view u I) z = dino_get (view s I) z)"
proof -
  obtain t where t: "iupdate ip s = Ok () t" "tx Map.empty B k t" "view t = (view s)(I := dino_put x (view s I))" "fs_frame s t"
    by (rule iupdate_law [OF tx, of I ip]) (use I x in \<open>auto simp: inode_block_def\<close>)
  note fr = fs_frame_fields [OF t(4)] fs_frame_inodes [OF t(4)]
  let ?t = "upd_inode ip (\<lambda>_. y) t"
  have g: "dino_get (view ?t I) y = y\<lparr>i_type := i_type x, i_major := i_major x, i_minor := i_minor x, i_nlink := i_nlink x, i_size := i_size x, i_addrs := i_addrs x\<rparr>"
    using dino_get_put [of "view s I" x y] I(4) x(3) y(2) t(3) by simp
  obtain u where u: "ilock (Some ip) ?t = Ok () u" "view u = view ?t" "inode_at ip u = (dino_get (view ?t I) y)\<lparr>i_flags := 3\<rparr>"
    by (rule ilock_law [where s = ?t and B = B and k = k and ip = ip and y = y and I = I]) (use t(2) l ip I x y fr g in \<open>auto simp: inode_block_def\<close>)
  have "dino_get (view u I) z = dino_get (view s I) z" if "unat (i_inum z) mod 8 \<noteq> unat (i_inum x) mod 8" for z
    using dino_get_other [OF that] x(3) u(2) t(3) by simp
  then show ?thesis using t(1) u(1,3) g by (intro exI [of _ t] exI [of _ u]) simp
qed

theorem inode_written_is_read_back_witness:
  "\<exists>t u. iupdate 5 demo_fs = Ok () t \<and> ilock (Some 5) (upd_inode 5 (\<lambda>_. demo_inode\<lparr>i_dev := 1, i_inum := 1, i_ref := 1\<rparr>) t) = Ok () u \<and>
    i_type (inode_at 5 u) = 2 \<and> i_nlink (inode_at 5 u) = 1"
proof -
  have I: "inode_block demo_fs 5 = 32" by (simp add: inode_block_def IBLOCK_def demo_empty_def demo_sb_def)
  let ?y = "demo_inode\<lparr>i_dev := 1, i_inum := 1, i_ref := 1\<rparr>"
  have tx: "tx Map.empty {32} 0 demo_fs" by (rule demo_tx) simp_all
  have x: "i_dev demo_empty = 1" "length (i_addrs demo_empty) = 13" "i_type demo_empty = 2" "i_nlink demo_empty = 1" "i_inum demo_empty = 1" by (simp_all add: demo_empty_def)
  have y: "i_dev ?y = 1" "i_inum ?y = i_inum demo_empty" "0 < sint (i_ref ?y)" "i_flags ?y = 0" by (simp_all add: demo_inode_def x)
  have "length (view demo_fs 32) = BSIZE" by (simp add: demo_fs_bio(4))
  from inode_written_is_read_back [OF tx demo_fs_ready _ _ _ _ _ I [symmetric] _ _ this y] x
  obtain t u where "iupdate 5 demo_fs = Ok () t" "ilock (Some 5) (upd_inode 5 (\<lambda>_. ?y) t) = Ok () u"
    "inode_at 5 u = ?y\<lparr>i_flags := 3, i_type := i_type demo_empty, i_major := i_major demo_empty, i_minor := i_minor demo_empty, i_nlink := i_nlink demo_empty,
       i_size := i_size demo_empty, i_addrs := i_addrs demo_empty\<rparr>" by auto
  then show ?thesis using x by (intro exI [of _ t] exI [of _ u]) simp
qed

text \<open>
  C9: \<open>balloc\<close> takes the first block that is free in the map, marks exactly that block as used, fills it with zeros and changes no other block but the one of
  the map; when no block is free it stops the kernel.
\<close>

theorem balloc_takes_first_free:
  fixes s :: "'a icst_scheme"
  assumes tx: "tx Map.empty B 1 s" and lay: "layout (view s) (sb s) (disksize s)" and B: "map_blocks (sb s) \<subseteq> B"
  shows "if \<forall>b < sb_size (sb s). used (view s) (sb s) b then balloc 1 s = Panic ''balloc: out of blocks''
    else \<exists>a t. balloc 1 s = Ok a t \<and> first_free (view s) (sb s) a \<and> layout (view t) (sb s) (disksize s) \<and> ic_inode t = ic_inode s \<and>
      (\<forall>b < sb_size (sb s). used (view t) (sb s) b \<longleftrightarrow> b = a \<or> used (view s) (sb s) b) \<and> view t a = replicate BSIZE 0 \<and>
      (\<forall>n. n \<notin> map_blocks (sb s) \<and> n \<noteq> a \<longrightarrow> view t n = view s n)"
proof (cases "\<forall>b < sb_size (sb s). used (view s) (sb s) b")
  case True
  let ?n = "unat (sb_size (sb s))"
  have "?n + BPB < Suc (Suc (?n div BPB)) * BPB" using div_mult_mod_eq [of ?n BPB] mod_less_divisor [of BPB ?n] by simp
  then have "balloc 1 s = Panic ''balloc: out of blocks''" unfolding balloc_def by (intro balloc_loop_full [OF tx lay B _ True]) simp_all
  then show ?thesis using True by simp
next
  case False
  then obtain a where a: "first_free (view s) (sb s) a" using ex_first_free by blast
  have tx': "tx Map.empty B (Suc 0) s" using tx by simp
  obtain t where t: "balloc 1 s = Ok a t" "view t = alloced a (sb s) (view s)" "fs_frame s t" by (rule balloc_law [OF tx' lay B _ _ a]) simp_all
  then show ?thesis using False a alloced_simps [OF lay a] fs_frame_inodes [OF t(3)] by auto
qed

theorem balloc_takes_first_free_witness:
  "\<exists>t. balloc 1 demo_fs = Ok 59 t \<and> view t 59 = replicate 512 0"
proof -
  have "\<not> used (view demo_fs) demo_sb 59" using demo_used [of 59] by simp
  moreover have "a = 59" if "first_free (view demo_fs) demo_sb a" for a
  proof (rule first_free_unique [OF that])
    have "used (view demo_fs) demo_sb b" if "b < 59" for b using demo_used [of b] that by (simp add: word_less_nat_alt)
    then show "first_free (view demo_fs) demo_sb 59" using demo_used [of 59] by (simp add: first_free_def demo_sb_def)
  qed
  ultimately show ?thesis
    using balloc_takes_first_free [OF demo_tx [of "{58}" 1]] demo_layout demo_map_blocks by (auto simp: demo_sb_def split: if_splits)
qed

end
