(* ===== verification/Ports.thy ===== *)
theory Ports
  imports Xv6_Prelude
begin

text \<open>
  Port input and output, as the drivers use it.  \<open>io_in\<close> is what the reads of a port will return, in order (the device decides), and \<open>io_out\<close> is
  what has been written, with its port, in order.  A read of a port that has nothing more to return is \<open>None\<close>.
\<close>

record ports =
  io_in :: "u16 \<Rightarrow> u8 list"
  io_out :: "(u16 \<times> u8) list"

definition inb :: "u16 \<Rightarrow> ports \<Rightarrow> (u8 \<times> ports) option" where
  "inb port io = (case io_in io port of [] \<Rightarrow> None | x # xs \<Rightarrow> Some (x, io\<lparr>io_in := (io_in io)(port := xs)\<rparr>))"

definition outb :: "u16 \<Rightarrow> u8 \<Rightarrow> ports \<Rightarrow> ports" where
  "outb port data io = io\<lparr>io_out := io_out io @ [(port, data)]\<rparr>"

text \<open>The string instructions move \<open>cnt\<close> words of four bytes through one port.\<close>

definition insl :: "u16 \<Rightarrow> nat \<Rightarrow> ports \<Rightarrow> (u8 list \<times> ports) option" where
  "insl port cnt io =
     (if length (io_in io port) < 4 * cnt then None
      else Some (take (4 * cnt) (io_in io port), io\<lparr>io_in := (io_in io)(port := drop (4 * cnt) (io_in io port))\<rparr>))"

definition outsl :: "u16 \<Rightarrow> u8 list \<Rightarrow> nat \<Rightarrow> ports \<Rightarrow> ports" where
  "outsl port bs cnt io = io\<lparr>io_out := io_out io @ map (Pair port) (take (4 * cnt) bs)\<rparr>"

end
