(* ===== verification/Ide.thy ===== *)
theory Ide
  imports Block_Store Ports
begin

text \<open>
  The driver of the IDE disk, \<^verbatim>\<open>ide.c\<close>, which the default kernel has in place of \<^verbatim>\<open>memide.c\<close>: a queue of buffers linked through \<^verbatim>\<open>qnext\<close>, whose
  head is the request the controller is working on.  The controller is behind the ports of \<open>Ports\<close>; the fields \<open>memdisk\<close> and \<open>disksize\<close> of the
  state belong to the other driver and are not used.  A wait for a controller that never becomes ready is \<open>Diverge\<close>.
\<close>

section \<open>The driver\<close>

abbreviation (input) FSSIZE :: u32 where "FSSIZE \<equiv> 1000"
abbreviation (input) IDE_BSY :: u8 where "IDE_BSY \<equiv> 0x80"
abbreviation (input) IDE_DRDY :: u8 where "IDE_DRDY \<equiv> 0x40"
abbreviation (input) IDE_DF :: u8 where "IDE_DF \<equiv> 0x20"
abbreviation (input) IDE_ERR :: u8 where "IDE_ERR \<equiv> 0x01"
abbreviation (input) IDE_CMD_READ :: u8 where "IDE_CMD_READ \<equiv> 0x20"
abbreviation (input) IDE_CMD_WRITE :: u8 where "IDE_CMD_WRITE \<equiv> 0x30"

record idest = biost +
  io :: ports
  idequeue :: "nat option"
  havedisk1 :: i32

text \<open>\<open>idewait\<close>: the status bytes the loop reads, the last of them ready, and its result.\<close>

fun idewait_loop :: "u8 list \<Rightarrow> (u8 \<times> u8 list) option" where
  "idewait_loop [] = None"
| "idewait_loop (r # rs) = (if r AND (IDE_BSY OR IDE_DRDY) \<noteq> IDE_DRDY then idewait_loop rs else Some (r, rs))"

definition idewait :: "bool \<Rightarrow> ports \<Rightarrow> (int \<times> ports) option" where
  "idewait checkerr p =
     (case idewait_loop (io_in p 0x1f7) of
        None \<Rightarrow> None
      | Some (r, rs) \<Rightarrow>
          Some (if checkerr \<and> r AND (IDE_DF OR IDE_ERR) \<noteq> 0 then - 1 else 0, p\<lparr>io_in := (io_in p)(0x1f7 := rs)\<rparr>))"

fun probe_disk1 :: "nat \<Rightarrow> ports \<Rightarrow> (bool \<times> ports) option" where
  "probe_disk1 0 p = Some (False, p)"
| "probe_disk1 (Suc n) p = (case inb 0x1f7 p of None \<Rightarrow> None | Some (r, p) \<Rightarrow> if r \<noteq> 0 then Some (True, p) else probe_disk1 n p)"

definition ide_init :: "'a idest_scheme \<Rightarrow> ('a idest_scheme, unit) res" where
  "ide_init s =
     (let s = initlock IdeLock s in
      case idewait False (io s) of
        None \<Rightarrow> Diverge
      | Some (_, p) \<Rightarrow>
          (case probe_disk1 1000 (outb 0x1f6 (0xe0 OR push_bit 4 1) p) of
             None \<Rightarrow> Diverge
           | Some (f, p) \<Rightarrow>
               Ok () (s\<lparr>havedisk1 := (if f then 1 else havedisk1 s), io := outb 0x1f6 (0xe0 OR push_bit 4 0) p\<rparr>)))"

text \<open>The commands for one block: the number of its sector in four registers, the drive, and the direction.\<close>

definition ide_command :: "buf \<Rightarrow> ports \<Rightarrow> ports" where
  "ide_command x p =
     (let sector = b_blockno x * 1;
          p = outb 0x3f6 0 p;
          p = outb 0x1f2 1 p;
          p = outb 0x1f3 (ucast (sector AND 0xff)) p;
          p = outb 0x1f4 (ucast (drop_bit 8 sector AND 0xff)) p;
          p = outb 0x1f5 (ucast (drop_bit 16 sector AND 0xff)) p;
          p = outb 0x1f6 (ucast (0xe0 OR push_bit 4 (b_dev x AND 1) OR (drop_bit 24 sector AND 0x0f))) p
      in if b_flags x AND B_DIRTY \<noteq> 0 then outsl 0x1f0 (b_data x) (BSIZE div 4) (outb 0x1f7 IDE_CMD_WRITE p)
         else outb 0x1f7 IDE_CMD_READ p)"

definition idestart :: "nat option \<Rightarrow> 'a idest_scheme \<Rightarrow> ('a idest_scheme, unit) res" where
  "idestart b s =
     (case b of
        None \<Rightarrow> Panic ''idestart''
      | Some b \<Rightarrow>
          if b_blockno (bc_buf s b) \<ge> FSSIZE then Panic ''incorrect blockno''
          else case idewait False (io s) of
                 None \<Rightarrow> Diverge
               | Some (_, p) \<Rightarrow> Ok () (s\<lparr>io := ide_command (bc_buf s b) p\<rparr>))"

text \<open>The two halves of the completion of a request: the data of a read, and the flags.\<close>

definition ide_fetch :: "nat \<Rightarrow> 'a idest_scheme \<Rightarrow> ('a idest_scheme, unit) res" where
  "ide_fetch b s =
     (if b_flags (bc_buf s b) AND B_DIRTY = 0 then
        (case idewait True (io s) of
           None \<Rightarrow> Diverge
         | Some (r, p) \<Rightarrow>
             if r \<ge> 0 then
               (case insl 0x1f0 (BSIZE div 4) p of
                  None \<Rightarrow> Diverge
                | Some (d, p) \<Rightarrow> Ok () (upd_buf b (\<lambda>x. x\<lparr>b_data := d\<rparr>) (s\<lparr>io := p\<rparr>)))
             else Ok () (s\<lparr>io := p\<rparr>))
      else Ok () s)"

definition ide_complete :: "nat \<Rightarrow> 'a idest_scheme \<Rightarrow> ('a idest_scheme, unit) res" where
  "ide_complete b s =
     rbind (ide_fetch b s) (\<lambda>_ s.
     wakeup (ChanBuf b) (upd_buf b (\<lambda>x. x\<lparr>b_flags := (b_flags x OR B_VALID) AND NOT B_DIRTY\<rparr>) s))"

definition ideintr :: "'a idest_scheme \<Rightarrow> ('a idest_scheme, unit) res" where
  "ideintr s =
     rbind (acquire IdeLock s) (\<lambda>_ s.
     case idequeue s of
       None \<Rightarrow> release IdeLock s
     | Some b \<Rightarrow>
         rbind (ide_complete b (s\<lparr>idequeue := b_qnext (bc_buf s b)\<rparr>)) (\<lambda>_ s.
         rbind (rwhen (idequeue s \<noteq> None) (\<lambda>s. idestart (idequeue s) s) s) (\<lambda>_ s.
         release IdeLock s)))"

text \<open>
  The loop of \<open>iderw\<close> that looks for the end of a queue that is not empty: its last buffer.  \<open>HEAD + 1\<close> rounds are more than there are buffers.
\<close>

fun ide_last :: "nat \<Rightarrow> (nat \<Rightarrow> nat option) \<Rightarrow> nat \<Rightarrow> nat option" where
  "ide_last 0 qnext c = None"
| "ide_last (Suc k) qnext c = (case qnext c of None \<Rightarrow> Some c | Some d \<Rightarrow> ide_last k qnext d)"

definition ide_enqueue :: "nat \<Rightarrow> 'a idest_scheme \<Rightarrow> ('a idest_scheme, unit) res" where
  "ide_enqueue b s =
     (let s = upd_buf b (\<lambda>x. x\<lparr>b_qnext := None\<rparr>) s in
      rbind (case idequeue s of
               None \<Rightarrow> Ok () (s\<lparr>idequeue := Some b\<rparr>)
             | Some h \<Rightarrow>
                 (case ide_last (HEAD + 1) (\<lambda>c. b_qnext (bc_buf s c)) h of
                    None \<Rightarrow> Diverge
                  | Some c \<Rightarrow> Ok () (upd_buf c (\<lambda>x. x\<lparr>b_qnext := Some b\<rparr>) s))) (\<lambda>_ s.
      rwhen (idequeue s = Some b) (\<lambda>s. idestart (Some b) s) s))"

text \<open>\<open>ide_wait\<close> is the loop at the end of \<open>iderw\<close>, which a process that slept in it enters again.\<close>

definition ide_wait :: "nat \<Rightarrow> 'a idest_scheme \<Rightarrow> ('a idest_scheme, unit) res" where
  "ide_wait b s =
     (if b_flags (bc_buf s b) AND (B_VALID OR B_DIRTY) \<noteq> B_VALID then sleep (ChanBuf b) (Some IdeLock) s
      else release IdeLock s)"

definition ide_rw :: "nat \<Rightarrow> 'a idest_scheme \<Rightarrow> ('a idest_scheme, unit) res" where
  "ide_rw b s =
     (let f = b_flags (bc_buf s b) in
      if f AND B_BUSY = 0 then Panic ''iderw: buf not busy''
      else if f AND (B_VALID OR B_DIRTY) = B_VALID then Panic ''iderw: nothing to do''
      else if b_dev (bc_buf s b) \<noteq> 0 \<and> havedisk1 s = 0 then Panic ''iderw: ide disk 1 not present''
      else rbind (acquire IdeLock s) (\<lambda>_ s.
           rbind (ide_enqueue b s) (\<lambda>_ s.
           ide_wait b s)))"

definition ide_rw_return :: "bool \<Rightarrow> nat \<Rightarrow> 'a idest_scheme \<Rightarrow> ('a idest_scheme, unit) res" where
  "ide_rw_return ena b s = rbind (sleep_return ena IdeLock s) (\<lambda>_ s. ide_wait b s)"

end
