(* ===== verification/Ide_Laws.thy ===== *)
theory Ide_Laws
  imports Ide
begin

text \<open>
  The queue of the IDE driver as a list: requests are sent to the controller one at a time, in the order in which they were made.
\<close>

section \<open>What the locks leave alone\<close>

definition lock_step :: "'a procst_scheme \<Rightarrow> 'a procst_scheme \<Rightarrow> bool" where
  "lock_step s t \<longleftrightarrow> t = s\<lparr>k_cpu := k_cpu t, k_locks := k_locks t, pt_proc := pt_proc t\<rparr>"

lemma acquire_step: "acquire l s = Ok () t \<Longrightarrow> lock_step s t"
  by (auto simp: acquire_def pushcli_eq lock_step_def split: if_splits)

lemma release_step: "release l s = Ok () t \<Longrightarrow> lock_step s t"
  by (auto simp: release_def popcli_def lock_step_def Let_def split: if_splits)

lemma lock_step_trans: "lock_step s t \<Longrightarrow> lock_step t u \<Longrightarrow> lock_step s u"
proof -
  assume "lock_step s t" "lock_step t u"
  then have "t = s\<lparr>k_cpu := k_cpu t, k_locks := k_locks t, pt_proc := pt_proc t\<rparr>" and u: "u = t\<lparr>k_cpu := k_cpu u, k_locks := k_locks u, pt_proc := pt_proc u\<rparr>"
    by (simp_all add: lock_step_def)
  then have "u = s\<lparr>k_cpu := k_cpu t, k_locks := k_locks t, pt_proc := pt_proc t\<rparr>\<lparr>k_cpu := k_cpu u, k_locks := k_locks u, pt_proc := pt_proc u\<rparr>" by simp
  then show ?thesis by (simp add: lock_step_def)
qed

lemma wakeup_step: "wakeup ch s = Ok () t \<Longrightarrow> lock_step s t"
proof -
  assume "wakeup ch s = Ok () t"
  then obtain a b where a: "acquire PtableLock s = Ok () a" "release PtableLock (wakeup1 ch a) = Ok () t" by (auto simp: wakeup_def rbind_eq_Ok)
  have "lock_step a (wakeup1 ch a)" by (simp add: lock_step_def wakeup1_def)
  then show ?thesis using acquire_step [OF a(1)] release_step [OF a(2)] lock_step_trans by blast
qed

lemma lock_step_fields:
  fixes s t :: "'a idest_scheme"
  assumes "lock_step s t" shows "bc_buf t = bc_buf s" "io t = io s" "idequeue t = idequeue s"
proof -
  have t: "t = s\<lparr>k_cpu := k_cpu t, k_locks := k_locks t, pt_proc := pt_proc t\<rparr>" using assms by (simp add: lock_step_def)
  show "bc_buf t = bc_buf s" "io t = io s" "idequeue t = idequeue s" by (subst t, simp)+
qed

section \<open>The queue as a list\<close>

fun qchain :: "(nat \<Rightarrow> nat option) \<Rightarrow> nat option \<Rightarrow> nat list \<Rightarrow> bool" where
  "qchain f p [] \<longleftrightarrow> p = None"
| "qchain f p (b # bs) \<longleftrightarrow> p = Some b \<and> qchain f (f b) bs"

lemma qchain_cong: "(\<And>b. b \<in> set q \<Longrightarrow> f b = g b) \<Longrightarrow> qchain f p q = qchain g p q"
  by (induction q arbitrary: p) auto

lemma qchain_unique: "qchain f p q \<Longrightarrow> qchain f p r \<Longrightarrow> q = r"
proof (induction q arbitrary: p r)
  case (Cons b q)
  then show ?case by (cases r) auto
qed (auto elim: qchain.elims)

lemma ide_last_chain: "qchain f (f h) q \<Longrightarrow> length q < k \<Longrightarrow> ide_last k f h = Some (last (h # q))"
proof (induction q arbitrary: h k)
  case Nil
  then show ?case by (cases k) auto
next
  case (Cons b q)
  then show ?case by (cases k) auto
qed

lemma qchain_snoc:
  assumes "qchain f p (q @ [c])" "distinct (q @ [c])" "b \<notin> set (q @ [c])" "f b = None"
  shows "qchain (f(c := Some b)) p (q @ [c, b])"
  using assms by (induction q arbitrary: p) auto

definition queue_of :: "'a idest_scheme \<Rightarrow> nat list \<Rightarrow> bool" where
  "queue_of s q \<longleftrightarrow> qchain (\<lambda>c. b_qnext (bc_buf s c)) (idequeue s) q \<and> distinct q \<and> set q \<subseteq> {..<NBUF}"

section \<open>Commands\<close>

definition ide_bytes :: "buf \<Rightarrow> (u16 \<times> u8) list" where
  "ide_bytes x = io_out (ide_command x \<lparr>io_in = (\<lambda>_. []), io_out = []\<rparr>)"

lemma ide_command_out: "io_out (ide_command x p) = io_out p @ ide_bytes x" "io_in (ide_command x p) = io_in p"
  by (simp_all add: ide_command_def ide_bytes_def outb_def outsl_def Let_def)

definition same_request :: "buf \<Rightarrow> buf \<Rightarrow> bool" where
  "same_request x y \<longleftrightarrow> b_flags x = b_flags y \<and> b_dev x = b_dev y \<and> b_blockno x = b_blockno y \<and> b_data x = b_data y"

lemma same_request_bytes: "same_request x y \<Longrightarrow> ide_bytes x = ide_bytes y"
  by (auto simp: same_request_def ide_bytes_def ide_command_def Let_def)

lemma idewait_out: "idewait c p = Some (r, p') \<Longrightarrow> io_out p' = io_out p"
  by (auto simp: idewait_def split: option.splits)

lemma idestart_Ok:
  assumes "idestart (Some b) s = Ok () t"
  shows "bc_buf t = bc_buf s \<and> idequeue t = idequeue s \<and> io_out (io t) = io_out (io s) @ ide_bytes (bc_buf s b)"
proof (cases "idewait False (io s)")
  case (Some w)
  then obtain r p where p: "idewait False (io s) = Some (r, p)" by (cases w) auto
  then have "t = s\<lparr>io := ide_command (bc_buf s b) p\<rparr>" using assms unfolding idestart_def by (simp split: if_splits)
  then have "bc_buf t = bc_buf s" "idequeue t = idequeue s" "io t = ide_command (bc_buf s b) p" by simp_all
  then show ?thesis using idewait_out [OF p] ide_command_out(1) [of "bc_buf s b" p] by simp
next
  case None
  then have False using assms unfolding idestart_def option.case None by (simp split: if_splits)
  then show ?thesis ..
qed

lemma ide_fetch_Ok:
  assumes "ide_fetch b s = Ok () u"
  shows "idequeue u = idequeue s \<and> io_out (io u) = io_out (io s) \<and> (\<forall>c. c \<noteq> b \<longrightarrow> bc_buf u c = bc_buf s c) \<and> b_qnext (bc_buf u b) = b_qnext (bc_buf s b)"
proof (cases "b_flags (bc_buf s b) AND B_DIRTY = 0")
  case True
  then obtain r p where w: "idewait True (io s) = Some (r, p)" using assms unfolding ide_fetch_def by (auto split: option.splits)
  show ?thesis
  proof (cases "r \<ge> 0")
    case True
    then obtain d p' where i: "insl 0x1f0 (BSIZE div 4) p = Some (d, p')" "u = upd_buf b (\<lambda>x. x\<lparr>b_data := d\<rparr>) (s\<lparr>io := p'\<rparr>)"
      using assms w \<open>b_flags (bc_buf s b) AND B_DIRTY = 0\<close> unfolding ide_fetch_def by (auto split: option.splits)
    have "io_out p' = io_out p" using i(1) by (auto simp: insl_def split: if_splits)
    then show ?thesis using i(2) idewait_out [OF w] by (simp add: upd_buf_def)
  next
    case False
    then have "u = s\<lparr>io := p\<rparr>" using assms w \<open>b_flags (bc_buf s b) AND B_DIRTY = 0\<close> unfolding ide_fetch_def by simp
    then show ?thesis using idewait_out [OF w] by simp
  qed
next
  case False
  then show ?thesis using assms unfolding ide_fetch_def by simp
qed

lemma ide_complete_Ok:
  assumes "ide_complete b s = Ok () t"
  shows "idequeue t = idequeue s" "io_out (io t) = io_out (io s)" "c \<noteq> b \<Longrightarrow> bc_buf t c = bc_buf s c" "bit (b_flags (bc_buf t b)) 1 \<and> \<not> bit (b_flags (bc_buf t b)) 2"
    "b_qnext (bc_buf t b) = b_qnext (bc_buf s b)"
proof -
  obtain u where u: "ide_fetch b s = Ok () u" and k: "wakeup (ChanBuf b) (upd_buf b (\<lambda>x. x\<lparr>b_flags := (b_flags x OR B_VALID) AND NOT B_DIRTY\<rparr>) u) = Ok () t"
    using assms by (auto simp: ide_complete_def rbind_eq_Ok)
  note f = ide_fetch_Ok [OF u] and w = lock_step_fields [OF wakeup_step [OF k]]
  show "idequeue t = idequeue s" "io_out (io t) = io_out (io s)" "c \<noteq> b \<Longrightarrow> bc_buf t c = bc_buf s c" "bit (b_flags (bc_buf t b)) 1 \<and> \<not> bit (b_flags (bc_buf t b)) 2"
    "b_qnext (bc_buf t b) = b_qnext (bc_buf s b)"
    using f w by (simp_all add: upd_buf_def)
qed

section \<open>The operations\<close>

lemma enqueue_law:
  assumes q: "queue_of s q" and b: "b \<notin> set q" "b < NBUF" and e: "ide_enqueue b s = Ok () t"
  shows "queue_of t (q @ [b])" "io_out (io t) = io_out (io s) @ (if q = [] then ide_bytes (bc_buf s b) else [])"
    "same_request (bc_buf t c) (bc_buf s c)"
proof -
  let ?s = "upd_buf b (\<lambda>x. x\<lparr>b_qnext := None\<rparr>) s" and ?f = "\<lambda>c. b_qnext (bc_buf (upd_buf b (\<lambda>x. x\<lparr>b_qnext := None\<rparr>) s) c)"
  have f: "?f b = None" "\<And>c. c \<noteq> b \<Longrightarrow> ?f c = b_qnext (bc_buf s c)" by (simp_all add: upd_buf_def)
  have "qchain ?f p q = qchain (\<lambda>c. b_qnext (bc_buf s c)) p q" for p by (rule qchain_cong) (metis f(2) b(1))
  then have q': "qchain ?f (idequeue s) q" "distinct q" "set q \<subseteq> {..<NBUF}" using q by (simp_all add: queue_of_def)
  have sr: "same_request (bc_buf ?s c) (bc_buf s c)" for c by (simp add: same_request_def upd_buf_def)
  have "queue_of t (q @ [b]) \<and> io_out (io t) = io_out (io s) @ (if q = [] then ide_bytes (bc_buf s b) else []) \<and> (\<forall>c. same_request (bc_buf t c) (bc_buf s c))"
  proof (cases q)
    case Nil
    then have "idequeue s = None" using q' by simp
    then have "idestart (Some b) (?s\<lparr>idequeue := Some b\<rparr>) = Ok () t" using e by (simp add: ide_enqueue_def upd_buf_def)
    from idestart_Ok [OF this] have t: "bc_buf t = bc_buf ?s" "idequeue t = Some b" "io_out (io t) = io_out (io s) @ ide_bytes (bc_buf ?s b)" by (simp_all add: upd_buf_def)
    moreover have "ide_bytes (bc_buf ?s b) = ide_bytes (bc_buf s b)" by (rule same_request_bytes [OF sr])
    ultimately show ?thesis unfolding queue_of_def using f(1) b(2) Nil sr by simp
  next
    case (Cons h r)
    then have h: "idequeue s = Some h" "qchain ?f (?f h) r" "h \<noteq> b" using q' b by auto
    have "length q \<le> NBUF" using q'(2,3) by (metis card_lessThan card_mono distinct_card finite_lessThan)
    then have "ide_last (HEAD + 1) ?f h = Some (last q)" using ide_last_chain [OF h(2), of "HEAD + 1"] Cons by simp
    moreover have "idequeue ?s = Some h" using h(1) by (simp add: upd_buf_def)
    moreover have "idequeue (upd_buf c g ?s) = Some h" for c g using h(1) by (simp add: upd_buf_def)
    ultimately have t: "t = upd_buf (last q) (\<lambda>x. x\<lparr>b_qnext := Some b\<rparr>) ?s" using e h(3) by (simp add: ide_enqueue_def Let_def)
    then have n: "(\<lambda>c. b_qnext (bc_buf t c)) = ?f(last q := Some b)" "idequeue t = idequeue s" "io t = io s" "\<And>c. same_request (bc_buf t c) (bc_buf s c)"
      by (auto simp: upd_buf_def same_request_def)
    have "q = butlast q @ [last q]" using Cons by simp
    then have "qchain (?f(last q := Some b)) (idequeue s) (butlast q @ [last q, b])"
      using qchain_snoc [of ?f "idequeue s" "butlast q" "last q" b] q' b f(1) by simp
    then have "qchain (\<lambda>c. b_qnext (bc_buf t c)) (idequeue t) (q @ [b])" using n(1,2) Cons by (metis append.assoc append_Cons append_Nil append_butlast_last_id list.distinct(1))
    then show ?thesis using n q' b Cons by (simp add: queue_of_def)
  qed
  then show "queue_of t (q @ [b])" "io_out (io t) = io_out (io s) @ (if q = [] then ide_bytes (bc_buf s b) else [])" "same_request (bc_buf t c) (bc_buf s c)"
    by simp_all
qed

lemma ideintr_law:
  assumes q: "queue_of s (b # r)" and e: "ideintr s = Ok () t"
  shows "queue_of t r" "io_out (io t) = io_out (io s) @ (case r of [] \<Rightarrow> [] | c # _ \<Rightarrow> ide_bytes (bc_buf s c))" "c \<noteq> b \<Longrightarrow> bc_buf t c = bc_buf s c"
    "bit (b_flags (bc_buf t b)) 1 \<and> \<not> bit (b_flags (bc_buf t b)) 2"
proof -
  have Q: "idequeue s = Some b" "qchain (\<lambda>c. b_qnext (bc_buf s c)) (b_qnext (bc_buf s b)) r" "distinct (b # r)" "set r \<subseteq> {..<NBUF}" using q by (auto simp: queue_of_def)
  obtain s1 where a: "acquire IdeLock s = Ok () s1" using e by (auto simp: ideintr_def rbind_eq_Ok)
  note f1 = lock_step_fields [OF acquire_step [OF a]]
  obtain s2 s3 where c: "ide_complete b (s1\<lparr>idequeue := b_qnext (bc_buf s1 b)\<rparr>) = Ok () s2"
    and st: "rwhen (idequeue s2 \<noteq> None) (\<lambda>s. idestart (idequeue s) s) s2 = Ok () s3" and rl: "release IdeLock s3 = Ok () t"
    using e a Q(1) f1 by (auto simp: ideintr_def rbind_eq_Ok)
  note C = ide_complete_Ok [OF c] and f3 = lock_step_fields [OF release_step [OF rl]]
  have iq: "idequeue s2 = b_qnext (bc_buf s b)" using C(1) f1 by simp
  have S: "bc_buf s3 = bc_buf s2 \<and> idequeue s3 = idequeue s2 \<and> io_out (io s3) = io_out (io s2) @ (case r of [] \<Rightarrow> [] | c # _ \<Rightarrow> ide_bytes (bc_buf s2 c))"
    using st iq Q(2) idestart_Ok [of _ s2 s3] by (cases r) auto
  have o: "bc_buf t c = bc_buf s c" if "c \<noteq> b" for c using that C(3) S f1 f3 by simp
  then show "c \<noteq> b \<Longrightarrow> bc_buf t c = bc_buf s c" .
  have "qchain (\<lambda>c. b_qnext (bc_buf t c)) p r = qchain (\<lambda>c. b_qnext (bc_buf s c)) p r" for p by (rule qchain_cong) (metis o Q(3) distinct.simps(2))
  then have "qchain (\<lambda>c. b_qnext (bc_buf t c)) (idequeue t) r" using Q(2) S iq f3 by simp
  then show "queue_of t r" using Q by (simp add: queue_of_def)
  show "io_out (io t) = io_out (io s) @ (case r of [] \<Rightarrow> [] | c # _ \<Rightarrow> ide_bytes (bc_buf s c))"
    using S f1 f3 C(2,3) Q(3) by (auto split: list.splits)
  show "bit (b_flags (bc_buf t b)) 1 \<and> \<not> bit (b_flags (bc_buf t b)) 2" using C(4) S f3 by simp
qed

section \<open>Runs\<close>

text \<open>
  Requests and interrupts in any order.  A request is made, under the lock, by the process that holds the buffer and then sleeps, so a buffer is not
  requested again while it is pending.  The history is the requests \<open>e\<close>, each with its buffer as it was, and the completions \<open>d\<close>.
\<close>

inductive ide_run :: "'a idest_scheme \<Rightarrow> (nat \<times> buf) list \<Rightarrow> nat list \<Rightarrow> 'a idest_scheme \<Rightarrow> bool" where
  ide_start: "idequeue s = None \<Longrightarrow> ide_run s [] [] s"
| ide_request: "ide_run s e d t \<Longrightarrow> b < NBUF \<Longrightarrow> b \<notin> set (map fst (drop (length d) e)) \<Longrightarrow> acquire IdeLock t = Ok () t1 \<Longrightarrow> ide_enqueue b t1 = Ok () t2 \<Longrightarrow>
    release IdeLock t2 = Ok () u \<Longrightarrow> ide_run s (e @ [(b, bc_buf t b)]) d u"
| ide_interrupt: "ide_run s e d t \<Longrightarrow> idequeue t = Some b \<Longrightarrow> ideintr t = Ok () u \<Longrightarrow> ide_run s e (d @ [b]) u"
| ide_spurious: "ide_run s e d t \<Longrightarrow> idequeue t = None \<Longrightarrow> ideintr t = Ok () u \<Longrightarrow> ide_run s e d u"

definition ide_inv :: "'a idest_scheme \<Rightarrow> (nat \<times> buf) list \<Rightarrow> nat list \<Rightarrow> 'a idest_scheme \<Rightarrow> bool" where
  "ide_inv s e d t \<longleftrightarrow> length d \<le> length e \<and> d = map fst (take (length d) e) \<and> queue_of t (map fst (drop (length d) e)) \<and>
     (\<forall>(b, x) \<in> set (drop (length d) e). same_request (bc_buf t b) x) \<and>
     io_out (io t) = io_out (io s) @ concat (map (ide_bytes \<circ> snd) (take (length d + 1) e))"

lemma queue_cong: "bc_buf t = bc_buf s \<Longrightarrow> idequeue t = idequeue s \<Longrightarrow> queue_of t q = queue_of s q"
  by (simp add: queue_of_def)

lemma ide_inv_request:
  assumes i: "ide_inv s e d t" and b: "b < NBUF" "b \<notin> set (map fst (drop (length d) e))" and a: "acquire IdeLock t = Ok () t1" "ide_enqueue b t1 = Ok () t2" "release IdeLock t2 = Ok () u"
  shows "ide_inv s (e @ [(b, bc_buf t b)]) d u"
proof -
  let ?q = "map fst (drop (length d) e)"
  note f1 = lock_step_fields [OF acquire_step [OF a(1)]] and f2 = lock_step_fields [OF release_step [OF a(3)]]
  have I: "length d \<le> length e" "d = map fst (take (length d) e)" "queue_of t ?q" "\<forall>(b, x) \<in> set (drop (length d) e). same_request (bc_buf t b) x"
    "io_out (io t) = io_out (io s) @ concat (map (ide_bytes \<circ> snd) (take (length d + 1) e))" using i unfolding ide_inv_def by blast+
  have "queue_of t1 ?q" using I(3) f1 by (simp add: queue_of_def)
  note E = enqueue_law [OF this b(2,1) a(2)]
  have sr: "same_request (bc_buf u c) (bc_buf t c)" for c using E(3) [of c] f1 f2 by simp
  then have "\<forall>(c, x) \<in> set (drop (length d) (e @ [(b, bc_buf t b)])). same_request (bc_buf u c) x" using I(1,4) by (auto simp: same_request_def)
  moreover have "queue_of u (map fst (drop (length d) (e @ [(b, bc_buf t b)])))" using E(1) f2 I(1) by (simp add: queue_of_def)
  moreover have "io_out (io u) = io_out (io s) @ concat (map (ide_bytes \<circ> snd) (take (length d + 1) (e @ [(b, bc_buf t b)])))"
  proof (cases "length d = length e")
    case True
    then show ?thesis using E(2) I(5) f1 f2 by simp
  next
    case False
    then have "take (length d + 1) (e @ [(b, bc_buf t b)]) = take (length d + 1) e" using I(1) by simp
    then show ?thesis using False E(2) I(1,5) f1 f2 by simp
  qed
  moreover have "d = map fst (take (length d) (e @ [(b, bc_buf t b)]))" using I(1,2) by simp
  ultimately show ?thesis using I(1) by (simp add: ide_inv_def)
qed

lemma ide_inv_interrupt:
  assumes i: "ide_inv s e d t" and b: "idequeue t = Some b" "ideintr t = Ok () u" shows "ide_inv s e (d @ [b]) u"
proof -
  have I: "length d \<le> length e" "d = map fst (take (length d) e)" "queue_of t (map fst (drop (length d) e))" "\<forall>(b, x) \<in> set (drop (length d) e). same_request (bc_buf t b) x"
    "io_out (io t) = io_out (io s) @ concat (map (ide_bytes \<circ> snd) (take (length d + 1) e))" using i unfolding ide_inv_def by blast+
  obtain x r where e: "drop (length d) e = (b, x) # r" using I(3) b(1) by (cases "drop (length d) e") (auto simp: queue_of_def)
  then have l: "length d < length e" by (metis drop_all list.distinct(1) not_less)
  have r: "drop (length d + 1) e = r" "e ! length d = (b, x)" using e l by (metis Cons_nth_drop_Suc Suc_eq_plus1 list.sel(3), metis Cons_nth_drop_Suc l list.sel(1))
  have "queue_of t (b # map fst r)" using I(3) e by simp
  note L = ideintr_law [OF this b(2)]
  have nb: "b \<notin> fst ` set r" using \<open>queue_of t (b # map fst r)\<close> by (simp add: queue_of_def)
  have "\<forall>(c, y) \<in> set r. same_request (bc_buf u c) y" using I(4) e nb L(3) by (force simp: split_beta)
  moreover have "io_out (io u) = io_out (io s) @ concat (map (ide_bytes \<circ> snd) (take (length d + 2) e))"
  proof (cases r)
    case Nil
    then have "length e = length d + 1" using r(1) l by (metis Suc_eq_plus1 Suc_leI drop_eq_Nil le_antisym)
    then show ?thesis using L(2) Nil I(5) by simp
  next
    case (Cons y r')
    have "take (length d + 2) e = take (length d + 1) e @ [y]" using r(1) Cons
      by (metis Cons_nth_drop_Suc add_2_eq_Suc' drop_all list.inject list.distinct(1) not_less_eq_eq Suc_eq_plus1 take_Suc_conv_app_nth not_le)
    moreover have "same_request (bc_buf t (fst y)) (snd y)" using I(4) e Cons by auto
    ultimately show ?thesis using L(2) Cons I(5) same_request_bytes by auto
  qed
  moreover have "d @ [b] = map fst (take (length d + 1) e)" using I(2) r(2) l by (simp add: take_Suc_conv_app_nth)
  ultimately show ?thesis using L(1) r(1) l by (simp add: ide_inv_def)
qed

lemma ide_run_inv: "ide_run s e d t \<Longrightarrow> ide_inv s e d t"
proof (induction rule: ide_run.induct)
  case (ide_start s)
  then show ?case by (simp add: ide_inv_def queue_of_def)
next
  case (ide_request s e d t b t1 t2 u)
  then show ?case by (intro ide_inv_request)
next
  case (ide_interrupt s e d t b u)
  then show ?case by (intro ide_inv_interrupt)
next
  case (ide_spurious s e d t u)
  then obtain s1 where a: "acquire IdeLock t = Ok () s1" by (auto simp: ideintr_def rbind_eq_Ok)
  then have "release IdeLock s1 = Ok () u" using ide_spurious lock_step_fields(3) [OF acquire_step [OF a]] by (simp add: ideintr_def)
  then show ?case using ide_spurious lock_step_fields [OF acquire_step [OF a]] lock_step_fields [OF release_step [of IdeLock s1 u]] by (simp add: ide_inv_def queue_of_def)
qed

end
