(* ===== verification/Ide_Props.thy ===== *)
theory Ide_Props
  imports Ide_Laws Log_Props
begin

text \<open>
  What the IDE driver promises: the controller gets the requests in their order, one at a time, each for the right sector.  And one thing it does
  not do: report an error.
\<close>

section \<open>The sector a command names\<close>

definition command_sector :: "(u16 \<times> u8) list \<Rightarrow> nat" where
  "command_sector c = unat (snd (c ! 2)) + 256 * unat (snd (c ! 3)) + 65536 * unat (snd (c ! 4)) + 16777216 * (unat (snd (c ! 5)) mod 16)"

lemma unat_byte: "unat (ucast (w AND 0xff) :: u8) = unat w mod 256" for w :: u32
proof -
  have "unat (w AND 0xff) = unat w mod 256" using unat_and_mask [of w 8] by (simp add: mask_eq_exp_minus_1)
  then show ?thesis by (simp add: unsigned_ucast_eq take_bit_eq_mod)
qed

lemma unat_shift: "unat (drop_bit n w) = unat w div 2 ^ n" for w :: u32
  using unat_drop_bit_eq [of n w] by (simp only: drop_bit_eq_div)

lemma ide_bytes_eq:
  "take 6 (ide_bytes x) = [(0x3f6, 0), (0x1f2, 1), (0x1f3, ucast (b_blockno x AND 0xff)), (0x1f4, ucast (drop_bit 8 (b_blockno x) AND 0xff)),
     (0x1f5, ucast (drop_bit 16 (b_blockno x) AND 0xff)), (0x1f6, ucast (0xe0 OR push_bit 4 (b_dev x AND 1) OR (drop_bit 24 (b_blockno x) AND 0x0f)))]"
  by (simp add: ide_bytes_def ide_command_def outb_def outsl_def Let_def)

lemma sector_ok:
  assumes "b_blockno x < FSSIZE" shows "command_sector (ide_bytes x) = unat (b_blockno x)"
proof -
  let ?n = "b_blockno x"
  have n: "unat ?n < 1000" using assms by (simp add: word_less_nat_alt)
  have t: "ide_bytes x ! i = take 6 (ide_bytes x) ! i" if "i < 6" for i using that by simp
  have z: "drop_bit 16 ?n = 0" "drop_bit 24 ?n = 0" using n by (simp_all add: word_unat_eq_iff unat_shift)
  have "unat (ucast (0xe0 OR push_bit 4 (b_dev x AND 1)) :: u8) mod 16 = 0"
  proof -
    have "take_bit 4 (ucast (0xe0 OR push_bit 4 (b_dev x AND 1)) :: u8) = 0"
      by (rule bit_word_eqI) (auto simp: bit_simps less_Suc_eq numeral_eq_Suc)
    then have "take_bit 4 (unat (ucast (0xe0 OR push_bit 4 (b_dev x AND 1)) :: u8)) = 0" by (metis unsigned_0 unsigned_take_bit_eq)
    then show ?thesis by (simp add: take_bit_eq_mod)
  qed
  then show ?thesis
    unfolding command_sector_def using n by (simp add: t ide_bytes_eq unat_byte unat_shift z)
qed

section \<open>A driver at rest\<close>

definition demo_ide :: idest where
  "demo_ide = biost.extend (demo_bio\<lparr>bc_buf := demo_buf(1 := (demo_buf 1)\<lparr>b_flags := 1, b_dev := 1, b_blockno := 700\<rparr>)\<rparr>)
     \<lparr>io = \<lparr>io_in = (\<lambda>p. if p = 0x1f7 then [0x80, 0x40, 0x41] else replicate 512 5), io_out = []\<rparr>, idequeue = None, havedisk1 = 1\<rparr>"

lemma demo_ide_fields [simp]:
  "bc_buf demo_ide = demo_buf(1 := (demo_buf 1)\<lparr>b_flags := 1, b_dev := 1, b_blockno := 700\<rparr>)" "idequeue demo_ide = None"
  "io_in (io demo_ide) = (\<lambda>p. if p = 0x1f7 then [0x80, 0x40, 0x41] else replicate 512 5)" "io_out (io demo_ide) = []"
  "k_cpu demo_ide = k_cpu boot_core" "k_locks demo_ide = k_locks boot_core"
  "pt_proc demo_ide = demo_procs" "cur demo_ide = Some 0"
  by (simp_all add: demo_ide_def biost.defs demo_bio_def procst.defs demo_ps_def vmst.defs kmem.defs demo_vm2_def demo_vm_def boot_kmem_def kcore.defs)

lemma demo_ide_ready [simp]: "lock_ready l demo_ide"
  using demo_ps_ready(1) [of l] by (simp add: lock_ready_def)

lemma held_ide: "io (held l s) = io s" "idequeue (held l s) = idequeue s" "bc_buf (held l s) = bc_buf s" for s :: "'a idest_scheme"
  by (simp_all add: held_def)

section \<open>Properties\<close>

text \<open>
  C10: whatever the order of requests and interrupts, the buffers are completed in the order in which they were requested, the queue in memory holds
  exactly the pending ones, in that order, and the controller has been sent the commands of the completed requests and of the first pending
  one, each once and in order.  Every command names the sector of its block.
\<close>

theorem ide_serves_in_order:
  assumes "ide_run s e d t"
  shows "d = map fst (take (length d) e) \<and> queue_of t (map fst (drop (length d) e)) \<and>
     io_out (io t) = io_out (io s) @ concat (map (ide_bytes \<circ> snd) (take (length d + 1) e)) \<and>
     (\<forall>(b, x) \<in> set e. b_blockno x < FSSIZE \<longrightarrow> command_sector (ide_bytes x) = unat (b_blockno x))"
  using ide_run_inv [OF assms] sector_ok unfolding ide_inv_def by blast

text \<open>
  C36: an error that the controller reports for a read is lost.  The interrupt handler then leaves the old bytes in the buffer, and marks it valid all the
  same, so that \<open>iderw\<close> returns as for a read that succeeded.
\<close>

theorem ide_read_error_is_lost:
  assumes "lock_ready IdeLock s" "lock_ready PtableLock s" "idequeue s = Some b" "b_qnext (bc_buf s b) = None" "b_flags (bc_buf s b) AND B_DIRTY = 0"
    and "io_in (io s) 0x1f7 = r # rs" "r AND (IDE_BSY OR IDE_DRDY) = IDE_DRDY" "r AND (IDE_DF OR IDE_ERR) \<noteq> 0"
  shows "\<exists>t. ideintr s = Ok () t \<and> b_data (bc_buf t b) = b_data (bc_buf s b) \<and> b_flags (bc_buf t b) AND (B_VALID OR B_DIRTY) = B_VALID"
proof -
  let ?p = "(io s)\<lparr>io_in := (io_in (io s))(0x1f7 := rs)\<rparr>" and ?g = "\<lambda>x. x\<lparr>b_flags := (b_flags x OR B_VALID) AND NOT B_DIRTY\<rparr>"
  let ?u = "upd_buf b ?g (s\<lparr>idequeue := None, io := ?p\<rparr>)"
  have w: "idewait True (io s) = Some (- 1, ?p)" using assms(6-8) by (simp add: idewait_def)
  have "ide_fetch b (held IdeLock s\<lparr>idequeue := None\<rparr>) = Ok () (held IdeLock s\<lparr>idequeue := None, io := ?p\<rparr>)"
    using assms(5) w by (simp add: ide_fetch_def held_ide)
  moreover have "upd_buf b ?g (held IdeLock s\<lparr>idequeue := None, io := ?p\<rparr>) = held IdeLock ?u" by (simp add: upd_buf_def held_def)
  moreover have r: "lock_ready IdeLock (wakeup1 (ChanBuf b) ?u)" "lock_ready PtableLock ?u" using assms(1,2) by (simp_all add: lock_ready_def wakeup1_def upd_buf_def)
  moreover have "wakeup1 (ChanBuf b) (held IdeLock ?u) = held IdeLock (wakeup1 (ChanBuf b) ?u)" by (simp add: wakeup1_def held_def)
  ultimately have c: "ide_complete b (held IdeLock s\<lparr>idequeue := None\<rparr>) = Ok () (held IdeLock (wakeup1 (ChanBuf b) ?u))"
    by (simp add: ide_complete_def wakeup_eq)
  have "release IdeLock (held IdeLock (wakeup1 (ChanBuf b) ?u)) = Ok () (wakeup1 (ChanBuf b) ?u)"
    using release_restores [OF r(1), of "held IdeLock (wakeup1 (ChanBuf b) ?u)"] by (simp add: held_def)
  moreover have "idequeue (held IdeLock s) = Some b" "bc_buf (held IdeLock s) = bc_buf s" "idequeue (held IdeLock (wakeup1 (ChanBuf b) ?u)) = None"
    using assms(3) by (simp_all add: held_def wakeup1_def upd_buf_def)
  ultimately have "ideintr s = Ok () (wakeup1 (ChanBuf b) ?u)" using assms(1,4) c by (simp add: ideintr_def acquire_ready)
  then show ?thesis using assms(5) by (intro exI [of _ "wakeup1 (ChanBuf b) ?u"]) (simp add: wakeup1_def upd_buf_def flag_zero)
qed

definition demo_failed :: idest where
  "demo_failed = demo_ide\<lparr>idequeue := Some 1, io := (io demo_ide)\<lparr>io_in := (\<lambda>p. [0x41])\<rparr>\<rparr>"

theorem ide_read_error_is_lost_witness:
  "\<exists>t. ideintr demo_failed = Ok () t \<and> b_data (bc_buf t 1) = b_data (bc_buf demo_failed 1) \<and> b_flags (bc_buf t 1) AND (B_VALID OR B_DIRTY) = B_VALID"
  using demo_ide_ready [of IdeLock] demo_ide_ready [of PtableLock]
  by (intro ide_read_error_is_lost [of demo_failed 1 "0x41" "[]"]) (simp_all add: demo_failed_def lock_ready_def demo_buf_def)

theorem ide_serves_in_order_witness:
  "\<exists>t. ide_run demo_ide [(1, bc_buf demo_ide 1)] [] t \<and> queue_of t [1] \<and> io_out (io t) = ide_bytes (bc_buf demo_ide 1) \<and>
     command_sector (ide_bytes (bc_buf demo_ide 1)) = 700"
proof -
  let ?b = "upd_buf 1 (\<lambda>x. x\<lparr>b_qnext := None\<rparr>) demo_ide"
  let ?p = "(io demo_ide)\<lparr>io_in := (io_in (io demo_ide))(0x1f7 := [0x41])\<rparr>"
  let ?t = "?b\<lparr>idequeue := Some 1, io := ide_command (bc_buf ?b 1) ?p\<rparr>"
  have "idewait False (io demo_ide) = Some (0, ?p)" by (simp add: idewait_def)
  then have "ide_enqueue 1 (held IdeLock demo_ide) = Ok () (held IdeLock ?t)"
    by (simp add: ide_enqueue_def held_ide upd_buf_def idestart_def) (simp add: held_def)
  moreover have "release IdeLock (held IdeLock ?t) = Ok () ?t"
    using release_restores [of IdeLock demo_ide "held IdeLock ?t"] by (simp add: held_def upd_buf_def)
  ultimately have r: "ide_run demo_ide ([] @ [(1, bc_buf demo_ide 1)]) [] ?t"
    by (intro ide_run.intros(2) [OF ide_run.intros(1)]) (simp_all add: acquire_ready)
  show ?thesis using r ide_serves_in_order [OF r] by (intro exI [of _ ?t]) (simp add: upd_buf_def)
qed

end
