(* ===== verification/Mkfs.thy ===== *)
theory Mkfs
  imports Inode Ide
begin

text \<open>
  The program \<^verbatim>\<open>mkfs.c\<close>, which makes the disk image.  It runs on the host, a little-endian machine as the byte order of \<open>ld32\<close> has it.  \<open>fs_image\<close> is
  the image file as its sectors; the host's writes to it succeed.  A call of \<^verbatim>\<open>exit(1)\<close> and a failed assertion are \<open>Panic\<close>.
\<close>

section \<open>State and byte order\<close>

abbreviation (input) NINODES :: u32 where "NINODES \<equiv> 200"

record mkfs =
  fs_image :: "u8 list list"
  fs_sb :: superblock
  freeinode :: u32
  freeblock :: u32

record dinode =
  d_type :: u16
  d_major :: u16
  d_minor :: u16
  d_nlink :: u16
  d_size :: u32
  d_addrs :: "u32 list"

definition xshort :: "u16 \<Rightarrow> u16" where
  "xshort x = ld16 (st16 [0, 0] 0 x) 0"

definition xint :: "u32 \<Rightarrow> u32" where
  "xint x = ld32 (st32 [0, 0, 0, 0] 0 x) 0"

lemma xshort_id [simp]: "xshort x = x"
  by (simp add: xshort_def)

lemma xint_id [simp]: "xint x = x"
  by (simp add: xint_def)

section \<open>Sectors\<close>

text \<open>The position \<open>lseek\<close> goes to is computed in 32 bits.  A write past the end of the file leaves zeros between; a read there is short.\<close>

definition sector_at :: "u32 \<Rightarrow> nat" where
  "sector_at sec = unat (sec * of_nat BSIZE) div BSIZE"

definition wsect :: "u32 \<Rightarrow> u8 list \<Rightarrow> mkfs \<Rightarrow> (mkfs, unit) res" where
  "wsect sec buf s =
     (let i = sector_at sec; img = fs_image s in
      Ok () (s\<lparr>fs_image := if i < length img then img[i := buf] else img @ replicate (i - length img) (replicate BSIZE 0) @ [buf]\<rparr>))"

definition rsect :: "u32 \<Rightarrow> mkfs \<Rightarrow> (mkfs, u8 list) res" where
  "rsect sec s = (let i = sector_at sec in if i < length (fs_image s) then Ok (fs_image s ! i) s else Panic ''read'')"

section \<open>Inodes\<close>

definition dinode_at :: "u8 list \<Rightarrow> nat \<Rightarrow> dinode" where
  "dinode_at d off = \<lparr>d_type = ld16 d off, d_major = ld16 d (off + 2), d_minor = ld16 d (off + 4), d_nlink = ld16 d (off + 6),
     d_size = ld32 d (off + 8), d_addrs = dino_addrs d off\<rparr>"

definition set_dinode :: "u8 list \<Rightarrow> nat \<Rightarrow> dinode \<Rightarrow> u8 list" where
  "set_dinode d off x =
     put_addrs (st32 (st16 (st16 (st16 (st16 d off (d_type x)) (off + 2) (d_major x)) (off + 4) (d_minor x)) (off + 6) (d_nlink x)) (off + 8) (d_size x))
       (off + 12) (d_addrs x)"

definition winode :: "u32 \<Rightarrow> dinode \<Rightarrow> mkfs \<Rightarrow> (mkfs, unit) res" where
  "winode inum ip s =
     (let bn = IBLOCK inum (fs_sb s) in
      rbind (rsect bn s) (\<lambda>buf s. wsect bn (set_dinode buf (dino_off inum) ip) s))"

definition rinode :: "u32 \<Rightarrow> mkfs \<Rightarrow> (mkfs, dinode) res" where
  "rinode inum s = rbind (rsect (IBLOCK inum (fs_sb s)) s) (\<lambda>buf s. Ok (dinode_at buf (dino_off inum)) s)"

definition mkfs_ialloc :: "u16 \<Rightarrow> mkfs \<Rightarrow> (mkfs, u32) res" where
  "mkfs_ialloc type s =
     (let inum = freeinode s;
          din = \<lparr>d_type = xshort type, d_major = 0, d_minor = 0, d_nlink = xshort 1, d_size = xint 0, d_addrs = replicate (NDIRECT + 1) 0\<rparr>
      in rbind (winode inum din (s\<lparr>freeinode := freeinode s + 1\<rparr>)) (\<lambda>_ s. Ok inum s))"

section \<open>The free map\<close>

definition mark_used :: "nat \<Rightarrow> u8 list \<Rightarrow> u8 list" where
  "mark_used n d = fold (\<lambda>i d. bm_set d i) [0..<n] d"

definition mkfs_balloc :: "i32 \<Rightarrow> mkfs \<Rightarrow> (mkfs, unit) res" where
  "mkfs_balloc n s =
     (if \<not> sint n < int (BSIZE * 8) then Panic ''assert''
      else wsect (sb_bmapstart (fs_sb s)) (mark_used (nat (sint n)) (replicate BSIZE 0)) s)"

section \<open>Appending to a file\<close>

text \<open>The block of the file block \<open>fbn\<close>, which is taken from the free ones if there is none, first for the table and then for the data.\<close>

definition new_block :: "nat \<Rightarrow> dinode \<Rightarrow> mkfs \<Rightarrow> dinode \<times> mkfs" where
  "new_block i din s =
     (if xint (d_addrs din ! i) = 0
      then (din\<lparr>d_addrs := (d_addrs din)[i := xint (freeblock s)]\<rparr>, s\<lparr>freeblock := freeblock s + 1\<rparr>)
      else (din, s))"

definition append_map :: "u32 \<Rightarrow> dinode \<Rightarrow> mkfs \<Rightarrow> (mkfs, dinode \<times> u32) res" where
  "append_map fbn din s =
     (if unat fbn < NDIRECT then
        (let (din, s) = new_block (unat fbn) din s in Ok (din, xint (d_addrs din ! unat fbn)) s)
      else
        (let (din, s) = new_block NDIRECT din s; table = xint (d_addrs din ! NDIRECT); j = 4 * (unat fbn - NDIRECT) in
         rbind (rsect table s) (\<lambda>indirect s.
         if ld32 indirect j = 0 then
           (let indirect = st32 indirect j (xint (freeblock s)) in
            rbind (wsect table indirect (s\<lparr>freeblock := freeblock s + 1\<rparr>)) (\<lambda>_ s. Ok (din, xint (ld32 indirect j)) s))
         else Ok (din, xint (ld32 indirect j)) s)))"

lemma room_left: "0 < unat ((off div of_nat BSIZE + 1) * of_nat BSIZE - off)" if "unat (off div of_nat BSIZE) < MAXFILE" for off :: u32
proof -
  have d: "unat (off div 512) = unat off div 512" by (simp add: unat_div)
  then have "unat off div 512 < 140" using that by simp
  then have "unat off < 71680" by simp
  then have "off < (off div 512 + 1) * 512" by (simp add: word_less_nat_alt unat_word_ariths d)
  then show ?thesis by (simp add: word_less_nat_alt unat_sub_if')
qed

function append_loop :: "u8 list \<Rightarrow> u32 \<Rightarrow> dinode \<Rightarrow> mkfs \<Rightarrow> (mkfs, u32 \<times> dinode) res" where
  "append_loop p off din s =
     (if p = [] then Ok (off, din) s
      else let fbn = off div of_nat BSIZE in
        if \<not> unat fbn < MAXFILE then Panic ''assert''
        else let n1 = min (length p) (unat ((fbn + 1) * of_nat BSIZE - off)) in
          rbind (append_map fbn din s) (\<lambda>(din, x) s.
          rbind (rsect x s) (\<lambda>buf s.
          rbind (wsect x (splice buf (unat (off - fbn * of_nat BSIZE)) (take n1 p)) s) (\<lambda>_ s.
          append_loop (drop n1 p) (off + of_nat n1) din s))))"
  by pat_completeness auto
termination by (relation "measure (\<lambda>(p, off, din, s). length p)") (use room_left in \<open>auto simp: min_def\<close>)

declare append_loop.simps [simp del]

definition iappend :: "u32 \<Rightarrow> u8 list \<Rightarrow> mkfs \<Rightarrow> (mkfs, unit) res" where
  "iappend inum xp s =
     rbind (rinode inum s) (\<lambda>din s.
     rbind (append_loop xp (xint (d_size din)) din s) (\<lambda>(off, din) s.
     winode inum (din\<lparr>d_size := xint off\<rparr>) s))"

section \<open>The program\<close>

text \<open>
  A file of the command line is its name and its bytes, or \<open>None\<close> if it cannot be opened.  Each round of the loop that copies a file takes at least one
  byte, so as many rounds as there are bytes are enough.
\<close>

definition nbitmap :: u32 where "nbitmap = FSSIZE div of_nat (BSIZE * 8) + 1"

definition ninodeblocks :: u32 where "ninodeblocks = NINODES div IPB + 1"

definition nlog :: u32 where "nlog = 30"

definition nmeta :: u32 where "nmeta = 2 + nlog + ninodeblocks + nbitmap"

definition mkfs_sb :: superblock where
  "mkfs_sb =
     \<lparr>sb_size = xint FSSIZE, sb_nblocks = xint (FSSIZE - nmeta), sb_ninodes = xint NINODES, sb_nlog = xint nlog, sb_logstart = xint 2,
      sb_inodestart = xint (2 + nlog), sb_bmapstart = xint (2 + nlog + ninodeblocks)\<rparr>"

definition sb_block :: "superblock \<Rightarrow> u8 list" where
  "sb_block x =
     st32 (st32 (st32 (st32 (st32 (st32 (st32 (replicate BSIZE 0) 0 (sb_size x)) 4 (sb_nblocks x)) 8 (sb_ninodes x)) 12 (sb_nlog x))
       16 (sb_logstart x)) 20 (sb_inodestart x)) 24 (sb_bmapstart x)"

fun zero_sectors :: "nat \<Rightarrow> nat \<Rightarrow> mkfs \<Rightarrow> (mkfs, unit) res" where
  "zero_sectors 0 i s = Ok () s"
| "zero_sectors (Suc n) i s = rbind (wsect (of_nat i) (replicate BSIZE 0) s) (\<lambda>_ s. zero_sectors n (Suc i) s)"

text \<open>A directory entry with the name cut to its 14 bytes.\<close>

definition dirent_of :: "u32 \<Rightarrow> u8 list \<Rightarrow> u8 list" where
  "dirent_of inum name = st16 (replicate 2 0 @ take 14 (name @ replicate 14 0)) 0 (xshort (ucast inum))"

fun copy_file :: "nat \<Rightarrow> u32 \<Rightarrow> u8 list \<Rightarrow> mkfs \<Rightarrow> (mkfs, unit) res" where
  "copy_file 0 inum c s = Ok () s"
| "copy_file (Suc k) inum c s =
     (if c = [] then Ok () s
      else rbind (iappend inum (take BSIZE c) s) (\<lambda>_ s. copy_file k inum (drop BSIZE c) s))"

definition add_file :: "u8 list \<times> u8 list option \<Rightarrow> mkfs \<Rightarrow> (mkfs, unit) res" where
  "add_file f s =
     (let (name, file) = f in
      if 0x2f \<in> set name then Panic ''assert''
      else case file of
             None \<Rightarrow> Panic ''open''
           | Some c \<Rightarrow>
               (let name = (if name \<noteq> [] \<and> hd name = 0x5f then tl name else name) in
                rbind (mkfs_ialloc T_FILE s) (\<lambda>inum s.
                rbind (iappend ROOTINO (dirent_of inum name) s) (\<lambda>_ s.
                copy_file (length c) inum c s))))"

fun add_files :: "(u8 list \<times> u8 list option) list \<Rightarrow> mkfs \<Rightarrow> (mkfs, unit) res" where
  "add_files [] s = Ok () s"
| "add_files (f # fs) s = rbind (add_file f s) (\<lambda>_ s. add_files fs s)"

definition fix_root :: "mkfs \<Rightarrow> (mkfs, unit) res" where
  "fix_root s =
     rbind (rinode ROOTINO s) (\<lambda>din s.
     let off = xint (d_size din); off = (off div of_nat BSIZE + 1) * of_nat BSIZE in
     winode ROOTINO (din\<lparr>d_size := xint off\<rparr>) s)"

definition mkfs_main :: "(u8 list \<times> u8 list option) list \<Rightarrow> (mkfs, unit) res" where
  "mkfs_main files =
     rbind (zero_sectors (unat FSSIZE) 0 \<lparr>fs_image = [], fs_sb = mkfs_sb, freeinode = 1, freeblock = nmeta\<rparr>) (\<lambda>_ s.
     rbind (wsect 1 (sb_block (fs_sb s)) s) (\<lambda>_ s.
     rbind (mkfs_ialloc T_DIR s) (\<lambda>rootino s.
     if rootino \<noteq> ROOTINO then Panic ''assert''
     else rbind (iappend rootino (dirent_of rootino [0x2e]) s) (\<lambda>_ s.
          rbind (iappend rootino (dirent_of rootino [0x2e, 0x2e]) s) (\<lambda>_ s.
          rbind (add_files files s) (\<lambda>_ s.
          rbind (fix_root s) (\<lambda>_ s.
          mkfs_balloc (freeblock s) s)))))))"

end
