(* ===== verification/Mkfs_Laws.thy ===== *)
theory Mkfs_Laws
  imports Mkfs Content
begin

text \<open>
  The image \<open>mkfs\<close> builds, seen through the definitions for the file system of the kernel (\<open>layout\<close>, \<open>ifile_ok\<close>, \<open>contents\<close>).  While it runs, the
  free map is not on the disk yet: \<open>mk_view\<close> is the image with the map that \<open>balloc\<close> writes in the end.
\<close>

section \<open>The image as blocks\<close>

lemma mkfs_consts [simp]:
  "nbitmap = 1" "ninodeblocks = 26" "nlog = 30" "nmeta = 59"
  "sb_size mkfs_sb = 1000" "sb_inodestart mkfs_sb = 32" "sb_bmapstart mkfs_sb = 58"
  by (simp_all add: nbitmap_def ninodeblocks_def nlog_def nmeta_def mkfs_sb_def)

definition image_view :: "mkfs \<Rightarrow> u32 \<Rightarrow> u8 list" where
  "image_view s b = fs_image s ! unat b"

definition mk_view :: "mkfs \<Rightarrow> u32 \<Rightarrow> u8 list" where
  "mk_view s = (image_view s)(58 := mark_used (unat (freeblock s)) (replicate BSIZE 0))"

definition mk_ok :: "mkfs \<Rightarrow> bool" where
  "mk_ok s \<longleftrightarrow> fs_sb s = mkfs_sb \<and> length (fs_image s) = 1000 \<and> (\<forall>b < 1000. length (fs_image s ! b) = BSIZE) \<and>
     59 \<le> unat (freeblock s) \<and> unat (freeblock s) \<le> 1000 \<and> (\<forall>b. unat (freeblock s) \<le> b \<and> b < 1000 \<longrightarrow> fs_image s ! b = replicate BSIZE 0)"

lemma sector_at_small: "unat b < 1000 \<Longrightarrow> sector_at b = unat b"
  by (simp add: sector_at_def unat_word_ariths)

lemma rsect_ok: "mk_ok s \<Longrightarrow> unat b < 1000 \<Longrightarrow> rsect b s = Ok (image_view s b) s"
  by (simp add: rsect_def sector_at_small mk_ok_def image_view_def)

lemma wsect_ok: "length (fs_image s) = 1000 \<Longrightarrow> unat b < 1000 \<Longrightarrow> wsect b d s = Ok () (s\<lparr>fs_image := (fs_image s)[unat b := d]\<rparr>)"
  by (simp add: wsect_def sector_at_small)

lemma put_view:
  assumes "length (fs_image s) = 1000" "unat b < 1000"
  shows "image_view (s\<lparr>fs_image := (fs_image s)[unat b := d]\<rparr>) = (image_view s)(b := d)"
proof
  fix n
  show "image_view (s\<lparr>fs_image := (fs_image s)[unat b := d]\<rparr>) n = ((image_view s)(b := d)) n"
    using assms word_unat_eq_iff [of n b] by (cases "n = b") (auto simp: image_view_def)
qed

lemma mk_put:
  assumes ok: "mk_ok s" and b: "unat b < unat (freeblock s)" "length d = BSIZE"
  shows "wsect b d s = Ok () (s\<lparr>fs_image := (fs_image s)[unat b := d]\<rparr>)" "mk_ok (s\<lparr>fs_image := (fs_image s)[unat b := d]\<rparr>)"
    "b \<noteq> 58 \<Longrightarrow> mk_view (s\<lparr>fs_image := (fs_image s)[unat b := d]\<rparr>) = (mk_view s)(b := d)"
proof -
  have l: "length (fs_image s) = 1000" "unat b < 1000" using ok b by (simp_all add: mk_ok_def)
  show "wsect b d s = Ok () (s\<lparr>fs_image := (fs_image s)[unat b := d]\<rparr>)" by (rule wsect_ok [OF l])
  show "mk_ok (s\<lparr>fs_image := (fs_image s)[unat b := d]\<rparr>)" using ok b by (auto simp: mk_ok_def nth_list_update)
  show "mk_view (s\<lparr>fs_image := (fs_image s)[unat b := d]\<rparr>) = (mk_view s)(b := d)" if "b \<noteq> 58"
    unfolding mk_view_def put_view [OF l] using that by (auto simp: fun_eq_iff)
qed

section \<open>The free map\<close>

lemma mark_used_length [simp]: "length (mark_used n d) = length d"
  unfolding mark_used_def by (induction n) simp_all

lemma mark_used_Suc: "mark_used (Suc n) d = bm_set (mark_used n d) n"
  by (simp add: mark_used_def)

lemma mark_used_test: "n \<le> 8 * length d \<Longrightarrow> bm_test (mark_used n d) i \<longleftrightarrow> i < n \<or> bm_test d i"
proof (induction n)
  case (Suc n)
  then show ?case using bm_test_set [of n "mark_used n d" i] by (auto simp: mark_used_Suc less_Suc_eq less_mult_imp_div_less)
qed (simp add: mark_used_def)

lemma sb_map: "b < 1000 \<Longrightarrow> BBLOCK b mkfs_sb = 58" "map_blocks mkfs_sb = {58}"
proof -
  show e: "BBLOCK b mkfs_sb = 58" if "b < 1000" for b
    using BBLOCK_eq_iff [of b mkfs_sb 0] that by (simp add: BBLOCK_def word_less_nat_alt)
  then show "map_blocks mkfs_sb = {58}" by (auto simp: map_blocks_def intro!: image_eqI [of _ _ 0])
qed

lemma mk_used: "mk_ok s \<Longrightarrow> b < 1000 \<Longrightarrow> used (mk_view s) mkfs_sb b \<longleftrightarrow> b < freeblock s"
proof -
  assume s: "mk_ok s" "b < 1000"
  have "\<not> bm_test (replicate BSIZE 0) (unat b)" using s(2) by (simp add: bm_test_def word_less_nat_alt)
  moreover have "unat b mod BPB = unat b" using s(2) by (simp add: word_less_nat_alt)
  ultimately show ?thesis using s sb_map(1) mark_used_test [of "unat (freeblock s)" "replicate BSIZE 0" "unat b"]
    by (simp add: used_def mk_view_def mk_ok_def word_less_nat_alt)
qed

lemma mk_layout: "mk_ok s \<Longrightarrow> layout (mk_view s) mkfs_sb 1000"
proof -
  assume s: "mk_ok s"
  then have f: "58 < freeblock s" by (simp add: mk_ok_def word_less_nat_alt)
  have "length (mk_view s b) = BSIZE" if "b < 1000" for b using that s by (simp add: mk_view_def image_view_def mk_ok_def word_less_nat_alt)
  moreover have "used (mk_view s) mkfs_sb 0" "used (mk_view s) mkfs_sb 58" using mk_used [OF s, of 0] mk_used [OF s, of 58] f by (auto simp: word_less_nat_alt)
  ultimately show ?thesis using sb_map(1) by (simp add: layout_def)
qed

text \<open>Taking the next block is the allocation of the kernel: it is the first free one, and it is filled with zeros.\<close>

lemma mk_take:
  assumes s: "mk_ok s" and f: "unat (freeblock s) < 1000"
  shows "first_free (mk_view s) mkfs_sb (freeblock s)" "mk_view (s\<lparr>freeblock := freeblock s + 1\<rparr>) = alloced (freeblock s) mkfs_sb (mk_view s)"
    "mk_ok (s\<lparr>freeblock := freeblock s + 1\<rparr>)"
proof -
  have u: "unat (freeblock s + 1) = Suc (unat (freeblock s))" using f by (simp add: unat_word_ariths)
  have f': "freeblock s < 1000" using f by (simp add: word_less_nat_alt)
  show "mk_ok (s\<lparr>freeblock := freeblock s + 1\<rparr>)" using s f u by (auto simp: mk_ok_def)
  have "b < 1000" if "b < freeblock s" for b using that f' by simp
  then show "first_free (mk_view s) mkfs_sb (freeblock s)" using f' mk_used [OF s] by (auto simp: first_free_def)
  have n: "freeblock s \<noteq> 58" using s by (auto simp: mk_ok_def)
  have z: "image_view s (freeblock s) = replicate BSIZE 0" using s f by (simp add: image_view_def mk_ok_def)
  have i: "image_view (s\<lparr>freeblock := freeblock s + 1\<rparr>) = image_view s" by (simp add: image_view_def fun_eq_iff)
  have "unat (freeblock s) mod BPB = unat (freeblock s)" using f by simp
  then show "mk_view (s\<lparr>freeblock := freeblock s + 1\<rparr>) = alloced (freeblock s) mkfs_sb (mk_view s)"
    unfolding alloced_def sb_map(1) [OF f'] mk_view_def i using n z u by (auto simp: fun_eq_iff mark_used_Suc)
qed

section \<open>Files\<close>

definition inode_of :: "u32 \<Rightarrow> dinode \<Rightarrow> inode" where
  "inode_of inum x = \<lparr>i_dev = 1, i_inum = inum, i_ref = 0, i_flags = 0, i_type = d_type x, i_major = d_major x, i_minor = d_minor x, i_nlink = d_nlink x,
     i_size = d_size x, i_addrs = d_addrs x\<rparr>"

lemma inode_of_simps [simp]:
  "i_dev (inode_of n x) = 1" "i_inum (inode_of n x) = n" "i_size (inode_of n x) = d_size x" "i_addrs (inode_of n x) = d_addrs x" "i_type (inode_of n x) = d_type x"
  "inode_of n (x\<lparr>d_addrs := a\<rparr>) = (inode_of n x)\<lparr>i_addrs := a\<rparr>" "inode_of n (x\<lparr>d_size := z\<rparr>) = (inode_of n x)\<lparr>i_size := z\<rparr>"
  by (simp_all add: inode_of_def)

lemma set_dinode_eq: "set_dinode d (dino_off n) x = dino_put (inode_of n x) d"
  by (simp add: set_dinode_def dino_put_def inode_of_def Let_def)

lemma dinode_at_eq: "inode_of n (dinode_at d (dino_off n)) = dino_get d (inode_of n x)"
  by (simp add: dinode_at_def dino_get_def inode_of_def Let_def)

text \<open>The number of blocks of a file without holes, the table included, and how many more it has with one more byte.\<close>

definition fblocks :: "nat \<Rightarrow> nat" where
  "fblocks z = (z + (BSIZE - 1)) div BSIZE + (if z > NDIRECT * BSIZE then 1 else 0)"

definition need :: "nat \<Rightarrow> nat" where
  "need off = (if off mod BSIZE = 0 then 1 else 0) + (if off = NDIRECT * BSIZE then 1 else 0)"

lemma fblocks_chunk:
  assumes "0 < m" "off mod BSIZE + m \<le> BSIZE" shows "fblocks (off + m) = fblocks off + need off"
proof -
  obtain q r where r: "off = BSIZE * q + r" "r < BSIZE" "off div BSIZE = q" "off mod BSIZE = r" by (rule block_split)
  have "(off + m + (BSIZE - 1)) div BSIZE = q + 1" unfolding r(1) using assms r(4) by (intro div_nat_eqI) simp_all
  moreover have "(off + (BSIZE - 1)) div BSIZE = q + (if r = 0 then 0 else 1)" unfolding r(1) using r(2) by (intro div_nat_eqI) auto
  moreover have "off + m > NDIRECT * BSIZE \<longleftrightarrow> off > NDIRECT * BSIZE \<or> off = NDIRECT * BSIZE"
  proof
    assume "off + m > NDIRECT * BSIZE"
    then have "BSIZE * q + r + m > BSIZE * 12" "r + m \<le> BSIZE" using assms(2) r by simp_all
    then have "\<not> q < 12" by linarith
    then show "off > NDIRECT * BSIZE \<or> off = NDIRECT * BSIZE" using r(1) by auto
  qed (use assms(1) in auto)
  ultimately show ?thesis using r(4) by (auto simp: fblocks_def need_def)
qed

text \<open>What a step on one file keeps.\<close>

definition mk_grow :: "u32 \<Rightarrow> dinode \<Rightarrow> mkfs \<Rightarrow> dinode \<Rightarrow> mkfs \<Rightarrow> bool" where
  "mk_grow n x s y t \<longleftrightarrow> mk_ok t \<and> ifile_ok (mk_view t) mkfs_sb (inode_of n y) \<and> (\<exists>a. y = x\<lparr>d_addrs := a\<rparr>) \<and> freeinode t = freeinode s \<and> freeblock s \<le> freeblock t \<and>
     (\<forall>b \<in> iblocks (mk_view t) (inode_of n y). b \<in> iblocks (mk_view s) (inode_of n x) \<or> freeblock s \<le> b \<and> b < freeblock t) \<and>
     (\<forall>b. b < freeblock s \<and> b \<notin> iblocks (mk_view s) (inode_of n x) \<longrightarrow> image_view t b = image_view s b)"

lemma mk_grow_refl: "mk_ok s \<Longrightarrow> ifile_ok (mk_view s) mkfs_sb (inode_of n x) \<Longrightarrow> mk_grow n x s x s"
  by (auto simp: mk_grow_def intro: exI [of _ "d_addrs x"])

lemma mk_grow_trans:
  assumes "mk_grow n x s y t" "mk_grow n y t z u" shows "mk_grow n x s z u"
proof -
  have "\<exists>a. z = x\<lparr>d_addrs := a\<rparr>" using assms by (auto simp: mk_grow_def)
  moreover have "b \<in> iblocks (mk_view s) (inode_of n x) \<or> freeblock s \<le> b \<and> b < freeblock u" if "b \<in> iblocks (mk_view u) (inode_of n z)" for b
    using assms that unfolding mk_grow_def by (meson less_le_trans order_trans)
  moreover have "image_view u b = image_view s b" if b: "b < freeblock s" "b \<notin> iblocks (mk_view s) (inode_of n x)" for b
  proof -
    have "b < freeblock t" "b \<notin> iblocks (mk_view t) (inode_of n y)" using assms(1) b unfolding mk_grow_def by (meson less_le_trans not_le)+
    then show ?thesis using assms b unfolding mk_grow_def by metis
  qed
  moreover have "mk_ok u" "ifile_ok (mk_view u) mkfs_sb (inode_of n z)" "freeinode u = freeinode s" "freeblock s \<le> freeblock u"
    using assms by (auto simp: mk_grow_def)
  ultimately show ?thesis by (simp add: mk_grow_def)
qed

section \<open>Mapping a block\<close>

lemma freeblock_Suc:
  assumes "mk_ok s" "unat (freeblock s) < 1000" shows "unat (freeblock s + 1) = Suc (unat (freeblock s))" "freeblock s < freeblock s + 1" "freeblock s \<noteq> 0"
proof -
  show u: "unat (freeblock s + 1) = Suc (unat (freeblock s))" using assms(2) by (simp add: unat_word_ariths)
  show "freeblock s < freeblock s + 1" by (simp add: word_less_nat_alt u)
  show "freeblock s \<noteq> 0" using assms(1) by (auto simp: mk_ok_def)
qed

lemma take_block:
  assumes s: "mk_ok s" and ok: "ifile_ok (mk_view s) mkfs_sb (inode_of n x)" and f: "unat (freeblock s) < 1000" and i: "i \<le> NDIRECT" "d_addrs x ! i = 0"
    and y: "y = x\<lparr>d_addrs := (d_addrs x)[i := freeblock s]\<rparr>" and t: "t = s\<lparr>freeblock := freeblock s + 1\<rparr>"
  shows "new_block i x s = (y, t)" "mk_grow n x s y t" "j < MAXFILE \<Longrightarrow> fdata (mk_view t) (inode_of n y) j = fdata (mk_view s) (inode_of n x) j"
    "j < MAXFILE \<Longrightarrow> iaddr (mk_view t) (inode_of n y) j = (if i < NDIRECT \<and> j = i then freeblock s else iaddr (mk_view s) (inode_of n x) j)"
proof -
  let ?V = "mk_view s" and ?x = "inode_of n x" and ?W = "mk_view t" and ?y = "inode_of n y"
  show "new_block i x s = (y, t)" using i(2) y t by (simp add: new_block_def)
  note T = mk_take [OF s f] and F = freeblock_Suc [OF s f]
  have W: "?W = alloced (freeblock s) mkfs_sb ?V" using T(2) t by simp
  have yy: "?y = ?x\<lparr>i_addrs := (i_addrs ?x)[i := freeblock s]\<rparr>" using y by simp
  have "ifile_ok ?W mkfs_sb ?y \<and> (\<forall>j < MAXFILE. fdata ?W ?y j = fdata ?V ?x j \<and> iaddr ?W ?y j = (if i < NDIRECT \<and> j = i then freeblock s else iaddr ?V ?x j)) \<and>
    iblocks ?W ?y \<subseteq> insert (freeblock s) (iblocks ?V ?x)"
  proof (cases "i < NDIRECT")
    case True
    note G = grow_direct [OF ok mk_layout [OF s] T(1) True _ W yy]
    show ?thesis using G True i(2) by simp
  next
    case False
    then have i12: "i = NDIRECT" using i(1) by simp
    note G = grow_table [OF ok mk_layout [OF s] T(1) _ W yy [unfolded i12]]
    show ?thesis using G False i(2) i12 by simp
  qed
  then have G: "ifile_ok ?W mkfs_sb ?y" "\<And>j. j < MAXFILE \<Longrightarrow> fdata ?W ?y j = fdata ?V ?x j" "iblocks ?W ?y \<subseteq> insert (freeblock s) (iblocks ?V ?x)"
    "\<And>j. j < MAXFILE \<Longrightarrow> iaddr ?W ?y j = (if i < NDIRECT \<and> j = i then freeblock s else iaddr ?V ?x j)" by simp_all
  show "j < MAXFILE \<Longrightarrow> fdata ?W ?y j = fdata ?V ?x j" "j < MAXFILE \<Longrightarrow> iaddr ?W ?y j = (if i < NDIRECT \<and> j = i then freeblock s else iaddr ?V ?x j)" using G(2,4) by simp_all
  have "image_view t = image_view s" using t by (simp add: image_view_def fun_eq_iff)
  moreover have "\<exists>a. y = x\<lparr>d_addrs := a\<rparr>" using y by blast
  moreover have "\<forall>b \<in> iblocks ?W ?y. b \<in> iblocks ?V ?x \<or> freeblock s \<le> b \<and> b < freeblock t" using G(3) F(2) t by auto
  moreover have "mk_ok t" "freeinode t = freeinode s" "freeblock s \<le> freeblock t" using T(3) t F(2) by auto
  ultimately show "mk_grow n x s y t" using G(1) by (simp add: mk_grow_def)
qed

lemma take_entry:
  assumes s: "mk_ok s" and ok: "ifile_ok (mk_view s) mkfs_sb (inode_of n x)" and f: "unat (freeblock s) < 1000"
    and i: "NDIRECT \<le> i" "i < MAXFILE" "iaddr (mk_view s) (inode_of n x) i = 0" "d_addrs x ! NDIRECT = table" "table \<noteq> 0"
    and d: "d = st32 (mk_view s table) (4 * (i - NDIRECT)) (freeblock s)"
  obtains t where "wsect table d (s\<lparr>freeblock := freeblock s + 1\<rparr>) = Ok () t" "mk_grow n x s x t" "freeblock t = freeblock s + 1"
    "\<forall>j < MAXFILE. fdata (mk_view t) (inode_of n x) j = fdata (mk_view s) (inode_of n x) j"
    "\<forall>j < MAXFILE. iaddr (mk_view t) (inode_of n x) j = (if j = i then freeblock s else iaddr (mk_view s) (inode_of n x) j)"
proof -
  let ?V = "mk_view s" and ?x = "inode_of n x" and ?s = "s\<lparr>freeblock := freeblock s + 1\<rparr>"
  let ?t = "?s\<lparr>fs_image := (fs_image ?s)[unat table := d]\<rparr>"
  note T = mk_take [OF s f] and F = freeblock_Suc [OF s f]
  have tb: "table \<in> iblocks ?V ?x" using i(4,5) iblocksI(2) [of ?x] by simp
  then have u: "table < 1000" "used ?V mkfs_sb table" "table \<noteq> 58" using ifile_okD(3) [OF ok tb] sb_map(2) by simp_all
  then have tf: "table < freeblock s" using mk_used [OF s] by simp
  have len: "length d = BSIZE" using d u(1) mk_layout [OF s] by (simp add: layout_def)
  have "unat table < unat (freeblock ?s)" using tf F(1) by (simp add: word_less_nat_alt)
  note P = mk_put [OF T(3) this len]
  have W: "mk_view ?t = (alloced (freeblock s) mkfs_sb ?V)(table := d)" using P(3) u(3) T(2) by simp
  have W': "mk_view ?t = (alloced (freeblock s) mkfs_sb ?V)(table := st32 (?V table) (4 * (i - NDIRECT)) (freeblock s))" by (simp only: W d [symmetric])
  note G = grow_indirect [OF ok mk_layout [OF s] T(1) i(1-3), unfolded inode_of_simps i(4), OF i(5) W']
  have iv: "image_view ?t = (image_view s)(table := d)"
  proof -
    have "length (fs_image ?s) = 1000" "unat table < 1000" using s u(1) by (simp_all add: mk_ok_def word_less_nat_alt)
    from put_view [OF this] show ?thesis by (simp add: image_view_def fun_eq_iff)
  qed
  have "mk_grow n x s x ?t" unfolding mk_grow_def
  proof (intro conjI)
    show "\<exists>a. x = x\<lparr>d_addrs := a\<rparr>" by (rule exI [of _ "d_addrs x"]) simp
    show "\<forall>b \<in> iblocks (mk_view ?t) ?x. b \<in> iblocks ?V ?x \<or> freeblock s \<le> b \<and> b < freeblock ?t" using G(3) F(2) by auto
    show "\<forall>b. b < freeblock s \<and> b \<notin> iblocks ?V ?x \<longrightarrow> image_view ?t b = image_view s b" using iv tb by auto
    show "mk_ok ?t" "ifile_ok (mk_view ?t) mkfs_sb ?x" "freeinode ?t = freeinode s" "freeblock s \<le> freeblock ?t" using P(2) G(1) F(2) by simp_all
  qed
  then show thesis using that [OF P(1)] G(2,4) by simp
qed

end
