(* ===== verification/Mkfs_Append.thy ===== *)
theory Mkfs_Append
  imports Mkfs_Laws
begin

text \<open>\<open>iappend\<close>: the bytes are added to the end of the file, and the other files are left alone.\<close>

section \<open>The block of the next byte\<close>

lemma map_entry:
  assumes s: "mk_ok s" and ok: "ifile_ok (mk_view s) mkfs_sb (inode_of n x)"
    and i: "NDIRECT \<le> i" "i < MAXFILE" "d_addrs x ! NDIRECT = table" "table \<noteq> 0" and f: "iaddr (mk_view s) (inode_of n x) i = 0 \<Longrightarrow> unat (freeblock s) < 1000"
  obtains t a where "rbind (rsect table s) (\<lambda>indirect s. if ld32 indirect (4 * (i - NDIRECT)) = 0 then
           (let indirect = st32 indirect (4 * (i - NDIRECT)) (xint (freeblock s)) in
            rbind (wsect table indirect (s\<lparr>freeblock := freeblock s + 1\<rparr>)) (\<lambda>_ s. Ok (x, xint (ld32 indirect (4 * (i - NDIRECT)))) s))
         else Ok (x, xint (ld32 indirect (4 * (i - NDIRECT)))) s) = Ok (x, a) t"
    "mk_grow n x s x t" "unat (freeblock t) = unat (freeblock s) + (if iaddr (mk_view s) (inode_of n x) i = 0 then 1 else 0)"
    "\<forall>j < MAXFILE. fdata (mk_view t) (inode_of n x) j = fdata (mk_view s) (inode_of n x) j"
    "\<forall>j < MAXFILE. iaddr (mk_view t) (inode_of n x) j = (if j = i then a else iaddr (mk_view s) (inode_of n x) j)" "a \<noteq> 0"
proof -
  let ?V = "mk_view s" and ?x = "inode_of n x"
  have tb: "table \<in> iblocks ?V ?x" using i(3,4) iblocksI(2) [of ?x] by simp
  then have u: "table < 1000" "table \<noteq> 58" using ifile_okD(3) [OF ok tb] sb_map(2) by simp_all
  have iv: "image_view s table = ?V table" using u(2) by (simp add: mk_view_def)
  have r: "rsect table s = Ok (?V table) s" using rsect_ok [OF s, of table] u(1) iv by (simp add: word_less_nat_alt)
  have len: "length (?V table) = BSIZE" using u(1) mk_layout [OF s] by (simp add: layout_def)
  have e: "iaddr ?V ?x i = ld32 (?V table) (4 * (i - NDIRECT))" using i by (simp add: iaddr_def)
  show thesis
  proof (cases "iaddr ?V ?x i = 0")
    case True
    let ?d = "st32 (?V table) (4 * (i - NDIRECT)) (freeblock s)"
    obtain t where t: "wsect table ?d (s\<lparr>freeblock := freeblock s + 1\<rparr>) = Ok () t" "mk_grow n x s x t" "freeblock t = freeblock s + 1"
      "\<forall>j < MAXFILE. fdata (mk_view t) ?x j = fdata ?V ?x j" "\<forall>j < MAXFILE. iaddr (mk_view t) ?x j = (if j = i then freeblock s else iaddr ?V ?x j)"
      by (rule take_entry [OF s ok f [OF True] i(1,2) True i(3,4) refl])
    have "ld32 ?d (4 * (i - NDIRECT)) = freeblock s" using len i(2) by (intro ld32_st32) simp
    then show thesis using that [of "freeblock s" t] t r e True freeblock_Suc [OF s f [OF True]] by simp
  next
    case False
    then show thesis using that [of "iaddr ?V ?x i" s] r e mk_grow_refl [OF s ok] by simp
  qed
qed

definition shape :: "(u32 \<Rightarrow> u8 list) \<Rightarrow> inode \<Rightarrow> nat \<Rightarrow> bool" where
  "shape V x off \<longleftrightarrow> (\<forall>i < MAXFILE. iaddr V x i \<noteq> 0 \<longleftrightarrow> i * BSIZE < off) \<and> (i_addrs x ! NDIRECT \<noteq> 0 \<longleftrightarrow> NDIRECT * BSIZE < off)"

text \<open>A file without holes that has no blocks past its end, and nothing but zeros behind its last byte.\<close>

definition tight :: "(u32 \<Rightarrow> u8 list) \<Rightarrow> inode \<Rightarrow> bool" where
  "tight V x \<longleftrightarrow> unat (i_size x) \<le> MAXFILE * BSIZE \<and> shape V x (unat (i_size x)) \<and> (\<forall>p < MAXFILE * BSIZE. unat (i_size x) \<le> p \<longrightarrow> fbyte V x p = 0)"

lemma block_order:
  assumes "i = off div BSIZE"
  shows "j * BSIZE < off + 1 \<longleftrightarrow> j \<le> i" "j * BSIZE < off \<longleftrightarrow> (if off mod BSIZE = 0 then j < i else j \<le> i)"
proof -
  obtain q r where r: "off = BSIZE * q + r" "r < BSIZE" "off div BSIZE = q" "off mod BSIZE = r" by (rule block_split)
  show "j * BSIZE < off + 1 \<longleftrightarrow> j \<le> i" "j * BSIZE < off \<longleftrightarrow> (if off mod BSIZE = 0 then j < i else j \<le> i)" using assms r by auto
qed

lemma append_map_law:
  assumes s: "mk_ok s" and ok: "ifile_ok (mk_view s) mkfs_sb (inode_of n x)" and sh: "shape (mk_view s) (inode_of n x) off"
    and i: "i = off div BSIZE" "i < MAXFILE" and f: "unat (freeblock s) + need off \<le> 1000"
  obtains y t a where "append_map (of_nat i) x s = Ok (y, a) t" "mk_grow n x s y t" "unat (freeblock t) = unat (freeblock s) + need off"
    "\<forall>j < MAXFILE. fdata (mk_view t) (inode_of n y) j = fdata (mk_view s) (inode_of n x) j" "iaddr (mk_view t) (inode_of n y) i = a" "a \<noteq> 0"
    "shape (mk_view t) (inode_of n y) (off + 1)"
proof -
  let ?V = "mk_view s" and ?x = "inode_of n x"
  note bo = block_order [OF i(1)]
  have ui: "unat (of_nat i :: u32) = i" by (rule unat_index [OF i(2)])
  have len: "length (d_addrs x) = 13" using ifile_okD(1) [OF ok] by simp
  have m: "iaddr ?V ?x j \<noteq> 0 \<longleftrightarrow> (if off mod BSIZE = 0 then j < i else j \<le> i)" if "j < MAXFILE" for j using sh that bo(2) by (simp add: shape_def)
  have tz: "d_addrs x ! NDIRECT \<noteq> 0 \<longleftrightarrow> (if off mod BSIZE = 0 then NDIRECT < i else NDIRECT \<le> i)" using sh bo(2) [of NDIRECT] by (simp add: shape_def)
  have o12: "off = NDIRECT * BSIZE \<longleftrightarrow> off mod BSIZE = 0 \<and> i = NDIRECT" using i(1) by auto
  show thesis
  proof (cases "i < NDIRECT")
    case d: True
    have a: "iaddr ?V ?x i = d_addrs x ! i" using d by (simp add: iaddr_def)
    show thesis
    proof (cases "off mod BSIZE = 0")
      case True
      let ?y = "x\<lparr>d_addrs := (d_addrs x)[i := freeblock s]\<rparr>" and ?t = "s\<lparr>freeblock := freeblock s + 1\<rparr>"
      have f1: "unat (freeblock s) < 1000" "need off = 1" using f True d o12 by (auto simp: need_def)
      have z: "d_addrs x ! i = 0" using m [OF i(2)] True a by simp
      have le: "i \<le> NDIRECT" using d by simp
      note T = take_block [OF s ok f1(1) le z refl refl] and F = freeblock_Suc [OF s f1(1)]
      have "shape (mk_view ?t) (inode_of n ?y) (off + 1)" using T(4) m tz F(3) d True len bo(1) [of NDIRECT] unfolding shape_def bo(1) by auto
      moreover have "append_map (of_nat i) x s = Ok (?y, freeblock s) ?t" using T(1) d ui len by (simp add: append_map_def)
      ultimately show thesis using that [of ?y "freeblock s" ?t] T d i(2) F f1(2) by simp
    next
      case False
      have nz: "d_addrs x ! i \<noteq> 0" using m [OF i(2)] False a by simp
      have n0: "need off = 0" using False o12 by (simp add: need_def)
      have "shape ?V ?x (off + 1)" using m tz False bo(1) [of NDIRECT] unfolding shape_def bo(1) by auto
      moreover have "append_map (of_nat i) x s = Ok (x, d_addrs x ! i) s" using nz d ui by (simp add: append_map_def new_block_def)
      ultimately show thesis using that [of x "d_addrs x ! i" s] mk_grow_refl [OF s ok] a nz n0 by simp
    qed
  next
    case False
    have "\<exists>y s1. new_block NDIRECT x s = (y, s1) \<and> mk_grow n x s y s1 \<and> d_addrs y ! NDIRECT \<noteq> 0 \<and>
      unat (freeblock s1) = unat (freeblock s) + (if off = NDIRECT * BSIZE then 1 else 0) \<and>
      (\<forall>j < MAXFILE. fdata (mk_view s1) (inode_of n y) j = fdata ?V ?x j \<and> iaddr (mk_view s1) (inode_of n y) j = iaddr ?V ?x j)"
    proof (cases "off = NDIRECT * BSIZE")
      case True
      let ?y = "x\<lparr>d_addrs := (d_addrs x)[NDIRECT := freeblock s]\<rparr>" and ?t = "s\<lparr>freeblock := freeblock s + 1\<rparr>"
      have f1: "unat (freeblock s) < 1000" using f True by (auto simp: need_def)
      have z: "d_addrs x ! NDIRECT = 0" using tz o12 True by simp
      note T = take_block [OF s ok f1 order_refl z refl refl] and F = freeblock_Suc [OF s f1]
      show ?thesis by (intro exI [of _ ?y] exI [of _ ?t]) (use T F len True in simp)
    next
      case o: False
      have "d_addrs x ! NDIRECT \<noteq> 0" using tz o o12 False by auto
      then show ?thesis by (intro exI [of _ x] exI [of _ s]) (use o mk_grow_refl [OF s ok] in \<open>simp add: new_block_def\<close>)
    qed
    then obtain y s1 where y: "new_block NDIRECT x s = (y, s1)" "mk_grow n x s y s1" "d_addrs y ! NDIRECT \<noteq> 0"
      "unat (freeblock s1) = unat (freeblock s) + (if off = NDIRECT * BSIZE then 1 else 0)"
      "\<And>j. j < MAXFILE \<Longrightarrow> fdata (mk_view s1) (inode_of n y) j = fdata ?V ?x j" "\<And>j. j < MAXFILE \<Longrightarrow> iaddr (mk_view s1) (inode_of n y) j = iaddr ?V ?x j" by blast
    have g: "mk_ok s1" "ifile_ok (mk_view s1) mkfs_sb (inode_of n y)" using y(2) by (simp_all add: mk_grow_def)
    have z: "iaddr (mk_view s1) (inode_of n y) i = 0 \<longleftrightarrow> off mod BSIZE = 0" using y(6) [OF i(2)] m [OF i(2)] by (auto split: if_splits)
    have f1: "iaddr (mk_view s1) (inode_of n y) i = 0 \<Longrightarrow> unat (freeblock s1) < 1000" using z f y(4) by (auto simp: need_def)
    have i12: "NDIRECT \<le> i" using False by simp
    obtain t a where t: "rbind (rsect (d_addrs y ! NDIRECT) s1) (\<lambda>indirect s. if ld32 indirect (4 * (i - NDIRECT)) = 0 then
           (let indirect = st32 indirect (4 * (i - NDIRECT)) (xint (freeblock s)) in
            rbind (wsect (d_addrs y ! NDIRECT) indirect (s\<lparr>freeblock := freeblock s + 1\<rparr>)) (\<lambda>_ s. Ok (y, xint (ld32 indirect (4 * (i - NDIRECT)))) s))
         else Ok (y, xint (ld32 indirect (4 * (i - NDIRECT)))) s) = Ok (y, a) t"
      "mk_grow n y s1 y t" "unat (freeblock t) = unat (freeblock s1) + (if iaddr (mk_view s1) (inode_of n y) i = 0 then 1 else 0)"
      "\<forall>j < MAXFILE. fdata (mk_view t) (inode_of n y) j = fdata (mk_view s1) (inode_of n y) j"
      "\<forall>j < MAXFILE. iaddr (mk_view t) (inode_of n y) j = (if j = i then a else iaddr (mk_view s1) (inode_of n y) j)" "a \<noteq> 0"
      by (rule map_entry [OF g i12 i(2) refl y(3) f1])
    have "shape (mk_view t) (inode_of n y) (off + 1)" using t(5,6) y(3,6) m i12 bo(1) [of NDIRECT] unfolding shape_def bo(1) by auto
    moreover have "append_map (of_nat i) x s = Ok (y, a) t" using False ui y(1) t(1) by (simp add: append_map_def Let_def)
    moreover have "unat (freeblock t) = unat (freeblock s) + need off" using t(3) y(4) z by (simp add: need_def)
    ultimately show thesis using that [of y a t] mk_grow_trans [OF y(2) t(2)] t(4-6) y(5) i(2) by simp
  qed
qed

section \<open>The loop\<close>

lemma put_data_block:
  assumes s: "mk_ok s" and ok: "ifile_ok (mk_view s) mkfs_sb (inode_of n x)" and i: "i < MAXFILE" "iaddr (mk_view s) (inode_of n x) i = a" "a \<noteq> 0" and d: "length d = BSIZE"
  obtains t where "wsect a d s = Ok () t" "mk_grow n x s x t" "freeblock t = freeblock s"
    "\<forall>j. iaddr (mk_view t) (inode_of n x) j = iaddr (mk_view s) (inode_of n x) j"
    "\<forall>j < MAXFILE. fdata (mk_view t) (inode_of n x) j = (if j = i then d else fdata (mk_view s) (inode_of n x) j)" "rsect a s = Ok (mk_view s a) s"
proof -
  let ?V = "mk_view s" and ?x = "inode_of n x" and ?t = "s\<lparr>fs_image := (fs_image s)[unat a := d]\<rparr>"
  have nz: "iaddr ?V ?x i \<noteq> 0" using i by simp
  have ab: "a \<in> iblocks ?V ?x" using iblocksI(1) [OF i(1) nz] i(2) by simp
  then have u: "a < 1000" "a \<noteq> 58" "used ?V mkfs_sb a" using ifile_okD(3) [OF ok ab] sb_map(2) by simp_all
  have af: "unat a < unat (freeblock s)" "unat a < 1000" using mk_used [OF s u(1)] u by (simp_all add: word_less_nat_alt)
  note P = mk_put [OF s af(1) d]
  note B = put_block [OF ok i(1) nz, of "mk_view ?t" d, unfolded i(2), OF P(3) [OF u(2)]]
  have "length (fs_image s) = 1000" using s by (simp add: mk_ok_def)
  note iv = put_view [OF this af(2)]
  have "mk_grow n x s x ?t" unfolding mk_grow_def
  proof (intro conjI)
    show "\<exists>a. x = x\<lparr>d_addrs := a\<rparr>" by (rule exI [of _ "d_addrs x"]) simp
    show "\<forall>b. b < freeblock s \<and> b \<notin> iblocks ?V ?x \<longrightarrow> image_view ?t b = image_view s b" using iv ab by auto
    show "\<forall>b \<in> iblocks (mk_view ?t) ?x. b \<in> iblocks ?V ?x \<or> freeblock s \<le> b \<and> b < freeblock ?t" using B(2) by simp
    show "mk_ok ?t" "ifile_ok (mk_view ?t) mkfs_sb ?x" "freeinode ?t = freeinode s" "freeblock s \<le> freeblock ?t" using P(2) B(3) by simp_all
  qed
  moreover have "rsect a s = Ok (?V a) s" using rsect_ok [OF s af(2)] u(2) by (simp add: mk_view_def)
  ultimately show thesis using that [OF P(1)] B(1,4) by simp
qed

lemma shape_chunk:
  assumes "shape V x (off + 1)" "0 < m" "off mod BSIZE + m \<le> BSIZE" shows "shape V x (off + m)"
proof -
  obtain q r where r: "off = BSIZE * q + r" "r < BSIZE" "off div BSIZE = q" "off mod BSIZE = r" by (rule block_split)
  have "j * BSIZE < off + m \<longleftrightarrow> j * BSIZE < off + 1" for j
  proof -
    have "j * BSIZE < off + m \<longleftrightarrow> j \<le> q"
    proof
      assume "j * BSIZE < off + m"
      then have "BSIZE * j < BSIZE * (q + 1)" using assms(3) r by simp
      then show "j \<le> q" by simp
    qed (use assms(2) r in auto)
    then show ?thesis using block_order(1) [OF refl, of j off] r(3) by simp
  qed
  then show ?thesis using assms(1) unfolding shape_def by blast
qed

lemma append_index:
  fixes off :: u32
  assumes "unat off < MAXFILE * BSIZE"
  shows "min l (unat ((off div of_nat BSIZE + 1) * of_nat BSIZE - off)) = chunk (unat off) l" "unat (off - off div of_nat BSIZE * of_nat BSIZE) = unat off mod BSIZE"
    "off div of_nat BSIZE = of_nat (unat off div BSIZE)" "unat (off div of_nat BSIZE) < MAXFILE"
proof -
  obtain q r where r: "unat off = BSIZE * q + r" "r < BSIZE" "unat off div BSIZE = q" "unat off mod BSIZE = r" by (rule block_split)
  have d: "unat (off div 512) = q" using r(3) by (simp add: unat_div)
  have q: "q < 140" using r assms by simp
  have u: "unat ((off div 512 + 1) * 512) = BSIZE * (q + 1)" "unat (off div 512 * 512) = BSIZE * q" using q by (simp_all add: unat_word_ariths r(3))
  have "off \<le> (off div 512 + 1) * 512" unfolding word_le_nat_alt u(1) using r by simp
  then have "unat ((off div 512 + 1) * 512 - off) = BSIZE - r" using r by (simp only: unat_sub u(1)) simp
  then show "min l (unat ((off div of_nat BSIZE + 1) * of_nat BSIZE - off)) = chunk (unat off) l" by (simp add: chunk_def r(4))
  show "unat (off - off div of_nat BSIZE * of_nat BSIZE) = unat off mod BSIZE" using r by (simp add: unat_sub word_le_nat_alt u)
  show "off div of_nat BSIZE = of_nat (unat off div BSIZE)" using q by (simp add: word_unat_eq_iff d r(3) unat_of_nat del: unat_div)
  show "unat (off div of_nat BSIZE) < MAXFILE" using d q by simp
qed

definition appended :: "u32 \<Rightarrow> u8 list \<Rightarrow> nat \<Rightarrow> dinode \<Rightarrow> mkfs \<Rightarrow> dinode \<Rightarrow> mkfs \<Rightarrow> bool" where
  "appended n p off x s y t \<longleftrightarrow> mk_grow n x s y t \<and> unat (freeblock t) + fblocks off = unat (freeblock s) + fblocks (off + length p) \<and>
     shape (mk_view t) (inode_of n y) (off + length p) \<and>
     (\<forall>q < MAXFILE * BSIZE. fbyte (mk_view t) (inode_of n y) q = (if off \<le> q \<and> q < off + length p then p ! (q - off) else fbyte (mk_view s) (inode_of n x) q))"

lemma appended_trans:
  assumes "appended n (take m p) off x s y t" "appended n (drop m p) (off + m) y t z u" "m \<le> length p"
  shows "appended n p off x s z u"
  using assms mk_grow_trans [of n x s y t z u] by (auto simp: appended_def min_absorb2)

lemma append_chunk:
  assumes s: "mk_ok s" and ok: "ifile_ok (mk_view s) mkfs_sb (inode_of n x)" and sh: "shape (mk_view s) (inode_of n x) (unat off)"
    and p: "p \<noteq> []" "unat off + length p \<le> MAXFILE * BSIZE" and m: "m = chunk (unat off) (length p)" and f: "unat (freeblock s) + need (unat off) \<le> 1000"
  obtains y t where "append_loop p off x s = append_loop (drop m p) (off + of_nat m) y t" "appended n (take m p) (unat off) x s y t"
proof -
  let ?V = "mk_view s" and ?x = "inode_of n x" and ?o = "unat off" and ?i = "unat off div BSIZE"
  have l: "0 < length p" using p(1) by simp
  have lo: "?o < MAXFILE * BSIZE" using p(2) l by linarith
  note X = append_index [OF lo]
  have i: "?i < MAXFILE" using lo by (simp add: less_mult_imp_div_less)
  have m0: "0 < m" "m \<le> length p" "?o mod BSIZE + m \<le> BSIZE" using l m chunk_le [of ?o "length p"] by simp_all
  obtain y s1 a where a: "append_map (of_nat ?i) x s = Ok (y, a) s1" "mk_grow n x s y s1" "unat (freeblock s1) = unat (freeblock s) + need ?o"
    "\<forall>j < MAXFILE. fdata (mk_view s1) (inode_of n y) j = fdata ?V ?x j" "iaddr (mk_view s1) (inode_of n y) ?i = a" "a \<noteq> 0" "shape (mk_view s1) (inode_of n y) (?o + 1)"
    by (rule append_map_law [OF s ok sh refl i f])
  have g: "mk_ok s1" "ifile_ok (mk_view s1) mkfs_sb (inode_of n y)" using a(2) by (simp_all add: mk_grow_def)
  let ?d = "splice (mk_view s1 a) (?o mod BSIZE) (take m p)"
  have fa: "fdata (mk_view s1) (inode_of n y) ?i = mk_view s1 a" using a(5,6) by (simp add: fdata_def)
  have la: "length (mk_view s1 a) = BSIZE" using ifile_okD(3) [OF g(2) iblocksI(1) [OF i]] a(5,6) mk_layout [OF g(1)] by (simp add: layout_def)
  have ld: "length ?d = BSIZE" using splice_byte(1) [OF la refl l, of ?o] m by simp
  obtain t where t: "wsect a ?d s1 = Ok () t" "mk_grow n y s1 y t" "freeblock t = freeblock s1" "\<forall>j. iaddr (mk_view t) (inode_of n y) j = iaddr (mk_view s1) (inode_of n y) j"
    "\<forall>j < MAXFILE. fdata (mk_view t) (inode_of n y) j = (if j = ?i then ?d else fdata (mk_view s1) (inode_of n y) j)" "rsect a s1 = Ok (mk_view s1 a) s1"
    by (rule put_data_block [OF g i a(5,6) ld])
  have "append_loop p off x s = append_loop (drop m p) (off + of_nat m) y t"
    using p(1) X a(1) t(1,6) m by (subst append_loop.simps) (simp add: Let_def)
  moreover have "appended n (take m p) ?o x s y t"
  proof -
    have "shape (mk_view t) (inode_of n y) (?o + 1)" using a(7) t(4) by (simp add: shape_def)
    then have "shape (mk_view t) (inode_of n y) (?o + m)" by (rule shape_chunk [OF _ m0(1,3)])
    moreover have "fbyte (mk_view t) (inode_of n y) q = (if ?o \<le> q \<and> q < ?o + m then p ! (q - ?o) else fbyte ?V ?x q)" if "q < MAXFILE * BSIZE" for q
      using fbyte_put [of "mk_view t" "inode_of n y" ?o ?V ?x "length p" p q] t(5) a(4) fa la i l that m by simp
    ultimately show ?thesis using mk_grow_trans [OF a(2) t(2)] fblocks_chunk [OF m0(1,3)] a(3) t(3) m0(2) by (auto simp: appended_def min_absorb2)
  qed
  ultimately show thesis by (rule that)
qed

lemma append_loop_law:
  assumes "mk_ok s" "ifile_ok (mk_view s) mkfs_sb (inode_of n x)" "shape (mk_view s) (inode_of n x) (unat off)"
    "unat off + length p \<le> MAXFILE * BSIZE" "unat (freeblock s) + fblocks (unat off + length p) \<le> 1000 + fblocks (unat off)"
  shows "\<exists>y t. append_loop p off x s = Ok (off + of_nat (length p), y) t \<and> appended n p (unat off) x s y t"
  using assms
proof (induction "length p" arbitrary: p off x s rule: less_induct)
  case less
  note P = less.prems
  show ?case
  proof (cases "p = []")
    case True
    then show ?thesis using P mk_grow_refl by (subst append_loop.simps) (auto simp: appended_def)
  next
    case False
    define m where "m = chunk (unat off) (length p)"
    have m: "0 < m" "m \<le> length p" "unat off mod BSIZE + m \<le> BSIZE" using False chunk_le [of "unat off" "length p"] by (simp_all add: m_def)
    have mono: "fblocks (unat off + m) \<le> fblocks (unat off + length p)" using m(2) by (auto simp: fblocks_def intro!: add_mono div_le_mono)
    have f: "unat (freeblock s) + need (unat off) \<le> 1000" using P(5) mono fblocks_chunk [OF m(1,3)] by simp
    obtain y t where t: "append_loop p off x s = append_loop (drop m p) (off + of_nat m) y t" "appended n (take m p) (unat off) x s y t"
      by (rule append_chunk [OF P(1-3) False P(4) m_def f])
    have u: "unat (off + of_nat m) = unat off + m" using P(4) m(2) by (simp add: unat_word_ariths unat_of_nat)
    have "length (drop m p) < length p" using m by simp
    moreover have "mk_ok t" "ifile_ok (mk_view t) mkfs_sb (inode_of n y)" using t(2) by (simp_all add: appended_def mk_grow_def)
    moreover have "shape (mk_view t) (inode_of n y) (unat (off + of_nat m))" using t(2) m(2) u by (simp add: appended_def min_absorb2)
    moreover have "unat (off + of_nat m) + length (drop m p) = unat off + length p" using u m(2) by simp
    moreover have "unat (freeblock t) + fblocks (unat off + length p) \<le> 1000 + fblocks (unat (off + of_nat m))" using t(2) P(5) m(2) u by (simp add: appended_def min_absorb2)
    ultimately obtain z v where v: "append_loop (drop m p) (off + of_nat m) y t = Ok (off + of_nat m + of_nat (length (drop m p)), z) v"
      "appended n (drop m p) (unat off + m) y t z v" using less.hyps [of "drop m p" t y "off + of_nat m"] P(4) u by (metis (no_types, lifting))
    have "of_nat m + of_nat (length (drop m p)) = (of_nat (length p) :: u32)" using m(2) by (simp add: of_nat_diff)
    then show ?thesis using t(1) v(1) appended_trans [OF t(2) v(2) m(2)] by (auto simp: add.assoc)
  qed
qed

section \<open>The state between two calls\<close>

text \<open>The number of the inode of the file with index \<open>i\<close>.\<close>

definition ino :: "nat \<Rightarrow> u32" where
  "ino i = of_nat (Suc i)"

lemma ino_inj: "i < 200 \<Longrightarrow> j < 200 \<Longrightarrow> ino i = ino j \<longleftrightarrow> i = j"
  by (simp add: ino_def word_unat_eq_iff unat_word_ariths unat_of_nat)

definition mk_file :: "mkfs \<Rightarrow> u32 \<Rightarrow> inode" where
  "mk_file s n = inode_of n (dinode_at (image_view s (IBLOCK n mkfs_sb)) (dino_off n))"

definition file_good :: "(u32 \<Rightarrow> u8 list) \<Rightarrow> inode \<Rightarrow> u16 \<times> u8 list \<Rightarrow> bool" where
  "file_good V x f \<longleftrightarrow> ifile_ok V mkfs_sb x \<and> tight V x \<and> i_type x = fst f \<and> i_nlink x = 1 \<and> contents V x = snd f \<and> (\<forall>b \<in> iblocks V x. 59 \<le> b)"

text \<open>\<open>fs\<close> lists the types and the contents of the files, the first of which is inode 1.\<close>

definition mk_inv :: "(u16 \<times> u8 list) list \<Rightarrow> mkfs \<Rightarrow> bool" where
  "mk_inv fs s \<longleftrightarrow> mk_ok s \<and> image_view s 1 = sb_block mkfs_sb \<and> length fs < 200 \<and> freeinode s = of_nat (length fs + 1) \<and>
     unat (freeblock s) = 59 + sum_list (map (fblocks \<circ> length \<circ> snd) fs) \<and>
     (\<forall>i < length fs. file_good (mk_view s) (mk_file s (ino i)) (fs ! i)) \<and>
     (\<forall>i < length fs. \<forall>j < length fs. i \<noteq> j \<longrightarrow> iblocks (mk_view s) (mk_file s (ino i)) \<inter> iblocks (mk_view s) (mk_file s (ino j)) = {})"

lemma file_frame:
  assumes g: "file_good V z f" and same: "\<And>b. b \<in> iblocks V z \<Longrightarrow> W b = V b" and u: "\<And>b. b \<in> iblocks V z \<Longrightarrow> used W mkfs_sb b"
  shows "file_good W z f" "iblocks W z = iblocks V z"
proof -
  have ok: "ifile_ok V mkfs_sb z" and t: "tight V z" using g by (simp_all add: file_good_def)
  have m: "iaddr W z i = iaddr V z i" for i using same iblocksI(2) [of z V] by (auto simp: iaddr_def)
  show ib: "iblocks W z = iblocks V z" by (simp add: iblocks_def m)
  have fd: "fdata W z i = fdata V z i" if "i < MAXFILE" for i using same iblocksI(1) [OF that, of V z] by (auto simp: fdata_def m)
  have "fbyte W z p = fbyte V z p" if "p < MAXFILE * BSIZE" for p using fd that by (simp add: fbyte_def less_mult_imp_div_less)
  then have "tight W z" using t by (simp add: tight_def shape_def m)
  moreover have "ifile_ok W mkfs_sb z" using ok u by (auto simp: ifile_ok_def m ib)
  moreover have "contents W z = contents V z" using contents_other [OF ok, of W] t same by (simp add: tight_def)
  ultimately show "file_good W z f" using g ib by (simp add: file_good_def)
qed

section \<open>Writing an inode\<close>

lemma inum_block:
  assumes "i < 200" shows "32 \<le> unat (IBLOCK (ino i) mkfs_sb)" "unat (IBLOCK (ino i) mkfs_sb) < 58" "unat (ino i) = Suc i"
proof -
  show u: "unat (ino i) = Suc i" using assms by (simp add: ino_def unat_of_nat unat_word_ariths)
  have i: "Suc i div 8 < 26" using assms by (simp add: less_mult_imp_div_less)
  then have "unat (IBLOCK (ino i) mkfs_sb) = Suc i div 8 + 32" by (simp add: IBLOCK_def unat_word_ariths u unat_div)
  then show "32 \<le> unat (IBLOCK (ino i) mkfs_sb)" "unat (IBLOCK (ino i) mkfs_sb) < 58" using i by simp_all
qed

lemma mk_file_put:
  assumes "length (d_addrs x) = 13" "length (image_view s (IBLOCK n mkfs_sb)) = BSIZE" and t: "image_view t = (image_view s)(IBLOCK n mkfs_sb := dino_put (inode_of n x) (image_view s (IBLOCK n mkfs_sb)))"
  shows "mk_file t n = inode_of n x" "m \<noteq> n \<Longrightarrow> mk_file t m = mk_file s m"
proof -
  show "mk_file t n = inode_of n x"
    unfolding mk_file_def t dinode_at_eq [of _ _ x] using dino_get_put [of "image_view s (IBLOCK n mkfs_sb)" "inode_of n x" "inode_of n x"] assms(1,2) by (simp add: inode_of_def)
  show "mk_file t m = mk_file s m" if "m \<noteq> n"
  proof (cases "IBLOCK m mkfs_sb = IBLOCK n mkfs_sb")
    case True
    then have "m div 8 = n div 8" by (simp add: IBLOCK_def)
    then have "unat (m div 8) = unat (n div 8)" by (rule arg_cong)
    then have "unat m div 8 = unat n div 8" by (simp add: unat_div)
    then have "unat m mod 8 \<noteq> unat n mod 8" using that by (metis div_mult_mod_eq word_unat_eq_iff)
    then show ?thesis unfolding mk_file_def t dinode_at_eq [of _ _ x] using dino_get_other [of "inode_of m x" "inode_of n x"] assms(1) True by simp
  next
    case False
    then show ?thesis by (simp add: mk_file_def t)
  qed
qed

lemma winode_law:
  assumes s: "mk_ok s" and i: "n = ino i" "i < 200" and x: "length (d_addrs x) = 13"
  obtains t where "winode n x s = Ok () t" "mk_ok t" "mk_file t n = inode_of n x" "\<forall>m. m \<noteq> n \<longrightarrow> mk_file t m = mk_file s m" "freeblock t = freeblock s" "freeinode t = freeinode s"
    "\<forall>b. b < 32 \<or> 58 \<le> b \<longrightarrow> image_view t b = image_view s b" "\<forall>b. 58 \<le> b \<longrightarrow> mk_view t b = mk_view s b"
proof -
  let ?B = "IBLOCK n mkfs_sb"
  let ?d = "dino_put (inode_of n x) (image_view s ?B)"
  let ?t = "s\<lparr>fs_image := (fs_image s)[unat ?B := ?d]\<rparr>"
  note I = inum_block [OF i(2), folded i(1)]
  have B: "32 \<le> ?B" "?B < 58" using I by (simp_all add: word_le_nat_alt word_less_nat_alt)
  have len: "length (fs_image s) = 1000" "fs_sb s = mkfs_sb" "length (image_view s ?B) = BSIZE" "unat ?B < 1000" "unat ?B < unat (freeblock s)" using s I by (auto simp: mk_ok_def image_view_def)
  have ld: "length ?d = BSIZE" using len(3) by simp
  note P = mk_put [OF s len(5) ld] and iv = put_view [OF len(1,4), of ?d]
  have w: "winode n x s = Ok () ?t" using rsect_ok [OF s len(4)] P(1) len(2) by (simp add: winode_def set_dinode_eq Let_def)
  have iv': "image_view ?t b = image_view s b" if "b < 32 \<or> 58 \<le> b" for b using that B unfolding iv by auto
  then have "mk_view ?t b = mk_view s b" if "58 \<le> b" for b using that by (simp add: mk_view_def)
  then show thesis using that [OF w P(2)] mk_file_put [OF x len(3) iv] iv' by simp
qed

lemma mk_file_low: "(\<And>b. b < 59 \<Longrightarrow> image_view t b = image_view s b) \<Longrightarrow> i < 200 \<Longrightarrow> mk_file t (ino i) = mk_file s (ino i)"
  using inum_block [of i] by (simp add: mk_file_def word_less_nat_alt)

text \<open>Only the changed file has to be looked at.\<close>

lemma mk_inv_change:
  assumes inv: "mk_inv fs s" and k: "k \<le> length fs" "length fs' = (if k = length fs then Suc (length fs) else length fs)" "length fs' < 200"
    and o: "\<And>i. i < length fs \<Longrightarrow> i \<noteq> k \<Longrightarrow> fs' ! i = fs ! i"
    and t: "mk_ok t" "image_view t 1 = image_view s 1" "freeinode t = of_nat (length fs' + 1)" "freeblock s \<le> freeblock t" "unat (freeblock t) = 59 + sum_list (map (fblocks \<circ> length \<circ> snd) fs')"
    and f: "\<And>i. i < length fs \<Longrightarrow> i \<noteq> k \<Longrightarrow> mk_file t (ino i) = mk_file s (ino i)"
    and v: "\<And>i b. i < length fs \<Longrightarrow> i \<noteq> k \<Longrightarrow> b \<in> iblocks (mk_view s) (mk_file s (ino i)) \<Longrightarrow> mk_view t b = mk_view s b"
    and g: "file_good (mk_view t) (mk_file t (ino k)) (fs' ! k)"
    and n: "\<And>b. b \<in> iblocks (mk_view t) (mk_file t (ino k)) \<Longrightarrow> freeblock s \<le> b \<or> k < length fs \<and> b \<in> iblocks (mk_view s) (mk_file s (ino k))"
  shows "mk_inv fs' t"
proof -
  let ?F = "\<lambda>s i. mk_file s (ino i)"
  have s: "mk_ok s" and G: "\<And>i. i < length fs \<Longrightarrow> file_good (mk_view s) (?F s i) (fs ! i)"
    and D: "\<And>i j. i < length fs \<Longrightarrow> j < length fs \<Longrightarrow> i \<noteq> j \<Longrightarrow> iblocks (mk_view s) (?F s i) \<inter> iblocks (mk_view s) (?F s j) = {}"
    and sb: "image_view s 1 = sb_block mkfs_sb" using inv by (auto simp: mk_inv_def)
  have U: "b < 1000 \<and> b < freeblock s" if "i < length fs" "b \<in> iblocks (mk_view s) (?F s i)" for i b
    using G [OF that(1)] that(2) ifile_okD(3) [of "mk_view s" mkfs_sb "?F s i" b] mk_used [OF s, of b] by (simp add: file_good_def)
  have E: "file_good (mk_view t) (?F t i) (fs' ! i)" "iblocks (mk_view t) (?F t i) = iblocks (mk_view s) (?F s i)" if i: "i < length fs" "i \<noteq> k" for i
  proof -
    have "used (mk_view t) mkfs_sb b" if "b \<in> iblocks (mk_view s) (?F s i)" for b using U [OF i(1) that] mk_used [OF t(1), of b] t(4) by auto
    note R = file_frame [OF G [OF i(1)] v [OF i] this]
    show "file_good (mk_view t) (?F t i) (fs' ! i)" "iblocks (mk_view t) (?F t i) = iblocks (mk_view s) (?F s i)" using R f [OF i] o [OF i] by simp_all
  qed
  have disj: "iblocks (mk_view t) (?F t k) \<inter> iblocks (mk_view t) (?F t i) = {}" if i: "i < length fs" "i \<noteq> k" for i
    using n E(2) [OF i] U [OF i(1)] D [OF i(1), of k] i(2) by fastforce
  have "i < length fs \<or> i = k" if "i < length fs'" for i using that k by (auto split: if_splits)
  then have "file_good (mk_view t) (?F t i) (fs' ! i)" "j < length fs' \<Longrightarrow> i \<noteq> j \<Longrightarrow> iblocks (mk_view t) (?F t i) \<inter> iblocks (mk_view t) (?F t j) = {}" if "i < length fs'" for i j
    using that E g disj D by (metis, metis Int_commute)
  then show ?thesis using t(1-3,5) k(3) sb unfolding mk_inv_def by simp
qed

section \<open>\<open>iappend\<close>\<close>

lemma appended_good:
  assumes a: "appended n p (unat (d_size x)) x s y u" and g: "file_good (mk_view s) (inode_of n x) (ty, c)" and s: "mk_ok s"
    and z: "unat (d_size x) + length p \<le> MAXFILE * BSIZE"
  shows "file_good (mk_view u) (inode_of n (y\<lparr>d_size := d_size x + of_nat (length p)\<rparr>)) (ty, c @ p)"
proof -
  let ?x = "inode_of n x" and ?y = "inode_of n (y\<lparr>d_size := d_size x + of_nat (length p)\<rparr>)" and ?o = "unat (d_size x)"
  have G: "tight (mk_view s) ?x" "contents (mk_view s) ?x = c" "\<forall>b \<in> iblocks (mk_view s) ?x. 59 \<le> b" "i_type ?x = ty" "i_nlink ?x = 1" using g by (simp_all add: file_good_def)
  have A: "mk_grow n x s y u" "shape (mk_view u) (inode_of n y) (?o + length p)"
    "\<And>q. q < MAXFILE * BSIZE \<Longrightarrow> fbyte (mk_view u) (inode_of n y) q = (if ?o \<le> q \<and> q < ?o + length p then p ! (q - ?o) else fbyte (mk_view s) ?x q)"
    using a by (auto simp: appended_def)
  have uz: "unat (d_size x + of_nat (length p)) = ?o + length p" using z by (simp add: unat_word_ariths unat_of_nat)
  obtain ad where y: "y = x\<lparr>d_addrs := ad\<rparr>" using A(1) by (auto simp: mk_grow_def)
  have "shape (mk_view u) ?y (?o + length p)" using A(2) by (simp add: shape_def)
  then have "tight (mk_view u) ?y" using G(1) A(3) z uz by (simp add: tight_def)
  moreover have "contents (mk_view u) ?y = c @ p"
  proof -
    have c: "c = map (fbyte (mk_view s) ?x) [0..<?o]" using G(2) by (simp add: contents_def)
    show ?thesis using A(3) z uz by (intro nth_equalityI) (auto simp: c contents_def nth_append)
  qed
  moreover have "59 \<le> b" if "b \<in> iblocks (mk_view u) ?y" for b
  proof -
    have "59 \<le> freeblock s" using s by (simp add: mk_ok_def word_le_nat_alt)
    then show ?thesis using that A(1) G(3) unfolding mk_grow_def by auto
  qed
  moreover have "i_type ?y = ty" "i_nlink ?y = 1" using G(4,5) y by (simp_all add: inode_of_def)
  ultimately show ?thesis using A(1) by (simp add: file_good_def mk_grow_def)
qed

lemma blocks_change:
  assumes "k < length fs" "fs ! k = (ty, c)"
  shows "sum_list (map (fblocks \<circ> length \<circ> snd) (fs[k := (ty, c @ p)])) + fblocks (length c) = sum_list (map (fblocks \<circ> length \<circ> snd) fs) + fblocks (length c + length p)"
proof -
  have "fblocks (length c) \<le> sum_list (map (fblocks \<circ> length \<circ> snd) fs)" using elem_le_sum_list [of k "map (fblocks \<circ> length \<circ> snd) fs"] assms by simp
  then show ?thesis using assms by (simp add: map_update sum_list_update)
qed

lemma iappend_law:
  assumes inv: "mk_inv fs s" and k: "k < length fs" "fs ! k = (ty, c)" and z: "length c + length p \<le> MAXFILE * BSIZE"
    and f: "unat (freeblock s) + fblocks (length c + length p) \<le> 1000 + fblocks (length c)"
  obtains t where "iappend (ino k) p s = Ok () t" "mk_inv (fs[k := (ty, c @ p)]) t"
proof -
  let ?n = "ino k"
  define x where "x = dinode_at (image_view s (IBLOCK ?n mkfs_sb)) (dino_off ?n)"
  have xf: "mk_file s ?n = inode_of ?n x" by (simp add: mk_file_def x_def)
  have s: "mk_ok s" "length fs < 200" "freeinode s = of_nat (length fs + 1)" "unat (freeblock s) = 59 + sum_list (map (fblocks \<circ> length \<circ> snd) fs)"
    and G: "\<And>i. i < length fs \<Longrightarrow> file_good (mk_view s) (mk_file s (ino i)) (fs ! i)"
    and D: "\<And>i j. i < length fs \<Longrightarrow> j < length fs \<Longrightarrow> i \<noteq> j \<Longrightarrow> iblocks (mk_view s) (mk_file s (ino i)) \<inter> iblocks (mk_view s) (mk_file s (ino j)) = {}"
    using inv by (auto simp: mk_inv_def)
  have sk: "k < 200" using s(2) k(1) by simp
  note I = inum_block [OF sk]
  have r: "rinode ?n s = Ok x s" using rsect_ok [OF s(1), of "IBLOCK ?n mkfs_sb"] I s(1) by (simp add: rinode_def x_def mk_ok_def)
  have g: "file_good (mk_view s) (inode_of ?n x) (ty, c)" using G [OF k(1)] k(2) xf by simp
  then have gx: "ifile_ok (mk_view s) mkfs_sb (inode_of ?n x)" "tight (mk_view s) (inode_of ?n x)" "contents (mk_view s) (inode_of ?n x) = c" "\<forall>b \<in> iblocks (mk_view s) (inode_of ?n x). 59 \<le> b"
    by (simp_all add: file_good_def)
  have dz: "unat (d_size x) = length c" using arg_cong [OF gx(3), of length] by (simp add: contents_def)
  have sh: "shape (mk_view s) (inode_of ?n x) (unat (d_size x))" using gx(2) by (simp add: tight_def)
  obtain y u where u: "append_loop p (d_size x) x s = Ok (d_size x + of_nat (length p), y) u" "appended ?n p (unat (d_size x)) x s y u"
    using append_loop_law [OF s(1) gx(1) sh, of p] z f dz by auto
  let ?y = "y\<lparr>d_size := d_size x + of_nat (length p)\<rparr>"
  have gr: "mk_grow ?n x s y u" using u(2) by (simp add: appended_def)
  then have mu: "mk_ok u" "length (d_addrs ?y) = 13" "freeinode u = freeinode s" "freeblock s \<le> freeblock u" using ifile_okD(1) [of "mk_view u" mkfs_sb "inode_of ?n y"] by (simp_all add: mk_grow_def)
  have iu: "image_view u b = image_view s b" if "b < freeblock s" "b \<notin> iblocks (mk_view s) (inode_of ?n x)" for b using gr that by (simp add: mk_grow_def)
  have f59: "59 \<le> freeblock s" using s(1) by (simp add: mk_ok_def word_le_nat_alt)
  have low: "image_view u b = image_view s b" if b: "b < 59" for b
    by (rule iu) (use b f59 gx(4) in \<open>auto simp: not_le [symmetric] intro: less_le_trans\<close>)
  obtain t where t: "winode ?n ?y u = Ok () t" "mk_ok t" "mk_file t ?n = inode_of ?n ?y" "\<forall>m. m \<noteq> ?n \<longrightarrow> mk_file t m = mk_file u m" "freeblock t = freeblock u" "freeinode t = freeinode u"
    "\<forall>b. b < 32 \<or> 58 \<le> b \<longrightarrow> image_view t b = image_view u b" "\<forall>b. 58 \<le> b \<longrightarrow> mk_view t b = mk_view u b"
    by (rule winode_law [OF mu(1) refl sk mu(2)])
  note A = appended_good [OF u(2) g s(1)]
  have oth: "b < freeblock s \<and> b < 1000 \<and> 59 \<le> b \<and> b \<notin> iblocks (mk_view s) (inode_of ?n x)" if "i < length fs" "i \<noteq> k" "b \<in> iblocks (mk_view s) (mk_file s (ino i))" for i b
    using G [OF that(1)] that(3) ifile_okD(3) [of "mk_view s" mkfs_sb "mk_file s (ino i)" b] mk_used [OF s(1), of b] D [OF that(1) k(1) that(2)] xf by (auto simp: file_good_def)
  have A: "file_good (mk_view u) (inode_of ?n ?y) (ty, c @ p)" by (rule appended_good [OF u(2) g s(1)]) (use z dz in simp)
  have "used (mk_view t) mkfs_sb b" if "b \<in> iblocks (mk_view u) (inode_of ?n ?y)" for b
    using A that ifile_okD(3) [of "mk_view u" mkfs_sb "inode_of ?n ?y" b] mk_used [OF mu(1), of b] mk_used [OF t(2), of b] t(5) by (simp add: file_good_def)
  moreover have "mk_view t b = mk_view u b" if "b \<in> iblocks (mk_view u) (inode_of ?n ?y)" for b
  proof -
    have "59 \<le> b" using A that by (simp add: file_good_def)
    then show ?thesis using t(8) order_trans [of 58 59 b] by simp
  qed
  ultimately have B: "file_good (mk_view t) (inode_of ?n ?y) (ty, c @ p)" "iblocks (mk_view t) (inode_of ?n ?y) = iblocks (mk_view u) (inode_of ?n ?y)"
    using file_frame [OF A, of "mk_view t"] by blast+
  have "mk_inv (fs[k := (ty, c @ p)]) t"
  proof (rule mk_inv_change [OF inv, of k])
    show "image_view t 1 = image_view s 1" using t(7) low [of 1] by simp
    show "unat (freeblock t) = 59 + sum_list (map (fblocks \<circ> length \<circ> snd) (fs[k := (ty, c @ p)]))" using blocks_change [OF k, of p] s(4) u(2) dz t(5) by (simp add: appended_def)
    show "mk_file t (ino i) = mk_file s (ino i)" if "i < length fs" "i \<noteq> k" for i
      using t(4) ino_inj [of i k] mk_file_low [OF low, of i] that s(2) k(1) by simp
    show "mk_view t b = mk_view s b" if "i < length fs" "i \<noteq> k" "b \<in> iblocks (mk_view s) (mk_file s (ino i))" for i b
    proof -
      have b: "b < freeblock s" "59 \<le> b" "b \<notin> iblocks (mk_view s) (inode_of ?n x)" using oth [OF that] by simp_all
      then have "58 \<le> b" "b \<noteq> 58" using order_trans [of 58 59 b] by auto
      then show ?thesis using t(7) iu [OF b(1,3)] by (simp add: mk_view_def)
    qed
    show "file_good (mk_view t) (mk_file t (ino k)) (fs[k := (ty, c @ p)] ! k)" using B(1) t(3) k(1) by simp
    show "freeblock s \<le> b \<or> k < length fs \<and> b \<in> iblocks (mk_view s) (mk_file s (ino k))" if "b \<in> iblocks (mk_view t) (mk_file t (ino k))" for b
      using that B(2) t(3) gr k(1) xf by (auto simp: mk_grow_def)
  qed (use k s t mu in auto)
  then show thesis using that r u(1) t(1) by (simp add: iappend_def)
qed

section \<open>\<open>ialloc\<close>\<close>

lemma empty_good: "file_good V (inode_of n \<lparr>d_type = ty, d_major = 0, d_minor = 0, d_nlink = 1, d_size = 0, d_addrs = replicate 13 0\<rparr>) (ty, [])"
  "iblocks V (inode_of n \<lparr>d_type = ty, d_major = 0, d_minor = 0, d_nlink = 1, d_size = 0, d_addrs = replicate 13 0\<rparr>) = {}"
proof -
  let ?x = "inode_of n \<lparr>d_type = ty, d_major = 0, d_minor = 0, d_nlink = 1, d_size = 0, d_addrs = replicate 13 0\<rparr>"
  have a: "iaddr V ?x i = 0" for i by (simp add: iaddr_def nth_Cons')
  then show b: "iblocks V ?x = {}" by (auto simp: iblocks_def)
  have "fbyte V ?x p = 0" for p by (simp add: fbyte_def fdata_def a)
  then have "tight V ?x" using a by (simp add: tight_def shape_def)
  moreover have "ifile_ok V mkfs_sb ?x" using a b by (auto simp: ifile_ok_def)
  ultimately show "file_good V ?x (ty, [])" using b by (simp add: file_good_def contents_def) (simp add: inode_of_def)
qed

lemma ialloc_law:
  assumes inv: "mk_inv fs s" and l: "length fs < 199"
  obtains t where "mkfs_ialloc ty s = Ok (ino (length fs)) t" "mk_inv (fs @ [(ty, [])]) t" "freeblock t = freeblock s"
proof -
  let ?k = "length fs" and ?s = "s\<lparr>freeinode := freeinode s + 1\<rparr>"
  let ?x = "\<lparr>d_type = ty, d_major = 0, d_minor = 0, d_nlink = 1, d_size = 0, d_addrs = replicate 13 0\<rparr>"
  have s: "mk_ok s" "freeinode s = ino ?k" "unat (freeblock s) = 59 + sum_list (map (fblocks \<circ> length \<circ> snd) fs)"
    and G: "\<And>i. i < length fs \<Longrightarrow> file_good (mk_view s) (mk_file s (ino i)) (fs ! i)" using inv by (auto simp: mk_inv_def ino_def)
  have iv: "image_view ?s = image_view s" "mk_view ?s = mk_view s" "\<And>n. mk_file ?s n = mk_file s n" "mk_ok ?s" using s(1) by (simp_all add: image_view_def fun_eq_iff mk_view_def mk_file_def mk_ok_def)
  have k: "?k < 200" using l by simp
  obtain t where t: "winode (ino ?k) ?x ?s = Ok () t" "mk_ok t" "mk_file t (ino ?k) = inode_of (ino ?k) ?x" "\<forall>m. m \<noteq> ino ?k \<longrightarrow> mk_file t m = mk_file ?s m"
    "freeblock t = freeblock ?s" "freeinode t = freeinode ?s" "\<forall>b. b < 32 \<or> 58 \<le> b \<longrightarrow> image_view t b = image_view ?s b" "\<forall>b. 58 \<le> b \<longrightarrow> mk_view t b = mk_view ?s b"
    by (rule winode_law [OF iv(4) refl k, of ?x]) simp_all
  have "mk_inv (fs @ [(ty, [])]) t"
  proof (rule mk_inv_change [OF inv, of ?k])
    show "unat (freeblock t) = 59 + sum_list (map (fblocks \<circ> length \<circ> snd) (fs @ [(ty, [])]))" using s(3) t(5) by (simp add: fblocks_def)
    show "mk_file t (ino i) = mk_file s (ino i)" if "i < ?k" for i using t(4) iv(3) ino_inj [of i ?k] that k by simp
    show "mk_view t b = mk_view s b" if "i < ?k" "b \<in> iblocks (mk_view s) (mk_file s (ino i))" for i b
    proof -
      have "59 \<le> b" using G [OF that(1)] that(2) by (simp add: file_good_def)
      then show ?thesis using t(8) iv(2) order_trans [of 58 59 b] by simp
    qed
    show "file_good (mk_view t) (mk_file t (ino ?k)) ((fs @ [(ty, [])]) ! ?k)" using t(3) empty_good(1) by simp
    show "freeblock s \<le> b \<or> ?k < ?k \<and> b \<in> iblocks (mk_view s) (mk_file s (ino ?k))" if "b \<in> iblocks (mk_view t) (mk_file t (ino ?k))" for b
      using that t(3) empty_good(2) by simp
    show "freeinode t = of_nat (length (fs @ [(ty, [])]) + 1)" using t(6) s(2) by (simp add: ino_def)
  qed (use l t iv in \<open>auto simp: nth_append\<close>)
  then show thesis using that [of t] t(1,5) s(2) by (simp add: mkfs_ialloc_def Let_def)
qed

end
