(* ===== verification/Mkfs_Props.thy ===== *)
theory Mkfs_Props
  imports Mkfs_Append
begin

text \<open>
  The whole of \<open>mkfs\<close>: the image is a file system as the kernel reads it, with the files of the command line in its root directory.
\<close>

section \<open>The empty file system\<close>

lemma zero_sectors_eq:
  "length (fs_image s) = i \<Longrightarrow> i + n \<le> 1000 \<Longrightarrow> zero_sectors n i s = Ok () (s\<lparr>fs_image := fs_image s @ replicate n (replicate BSIZE 0)\<rparr>)"
proof (induction n arbitrary: i s)
  case (Suc n)
  have u: "unat (of_nat i :: u32) = i" using Suc.prems(2) by (simp add: unat_of_nat)
  have "wsect (of_nat i) (replicate BSIZE 0) s = Ok () (s\<lparr>fs_image := fs_image s @ [replicate BSIZE 0]\<rparr>)"
    using Suc.prems sector_at_small [of "of_nat i"] u by (simp add: wsect_def)
  then show ?case using Suc.prems Suc.IH [of "s\<lparr>fs_image := fs_image s @ [replicate BSIZE 0]\<rparr>" "Suc i"] by simp
qed simp

lemma sb_of_block: "sb_of (sb_block x) = x"
  by (simp add: sb_of_def sb_block_def)

lemma start_law:
  obtains s where "rbind (zero_sectors (unat FSSIZE) 0 \<lparr>fs_image = [], fs_sb = mkfs_sb, freeinode = 1, freeblock = nmeta\<rparr>) (\<lambda>_ s. wsect 1 (sb_block (fs_sb s)) s) = Ok () s"
    "mk_inv [] s"
proof -
  let ?z = "replicate 1000 (replicate BSIZE 0 :: u8 list)"
  let ?s = "\<lparr>fs_image = ?z[1 := sb_block mkfs_sb], fs_sb = mkfs_sb, freeinode = 1, freeblock = 59\<rparr>"
  have z: "zero_sectors 1000 0 \<lparr>fs_image = [], fs_sb = mkfs_sb, freeinode = 1, freeblock = 59\<rparr> = Ok () \<lparr>fs_image = ?z, fs_sb = mkfs_sb, freeinode = 1, freeblock = 59\<rparr>"
    by (subst zero_sectors_eq) simp_all
  have w: "wsect 1 (sb_block mkfs_sb) \<lparr>fs_image = ?z, fs_sb = mkfs_sb, freeinode = 1, freeblock = 59\<rparr> = Ok () ?s"
    using wsect_ok [of "\<lparr>fs_image = ?z, fs_sb = mkfs_sb, freeinode = 1, freeblock = 59\<rparr>" 1 "sb_block mkfs_sb"] by simp
  have "length (sb_block mkfs_sb) = BSIZE" by (simp add: sb_block_def)
  then have "mk_inv [] ?s" by (auto simp: mk_inv_def mk_ok_def image_view_def nth_list_update)
  then show thesis using that [of ?s] z w by simp
qed

section \<open>Adding files\<close>

definition total :: "(u16 \<times> u8 list) list \<Rightarrow> nat" where
  "total fs = sum_list (map (fblocks \<circ> length \<circ> snd) fs)"

lemma fblocks_mono: "m \<le> n \<Longrightarrow> fblocks m \<le> fblocks n"
  by (auto simp: fblocks_def intro!: add_mono div_le_mono)

lemma append_ok:
  assumes inv: "mk_inv fs s" and k: "k < length fs" "fs ! k = (ty, c)" and z: "length c + length p \<le> MAXFILE * BSIZE" and f: "total (fs[k := (ty, c @ p)]) \<le> 941"
  obtains t where "iappend (ino k) p s = Ok () t" "mk_inv (fs[k := (ty, c @ p)]) t"
proof -
  have "unat (freeblock s) = 59 + total fs" using inv by (simp add: mk_inv_def total_def)
  then have "unat (freeblock s) + fblocks (length c + length p) \<le> 1000 + fblocks (length c)" using blocks_change [OF k, of p] f by (simp add: total_def)
  from iappend_law [OF inv k z this] show thesis using that by blast
qed

lemma copy_law:
  assumes "mk_inv fs s" "k < length fs" "fs ! k = (ty, b)" "length b + length c \<le> MAXFILE * BSIZE" "total (fs[k := (ty, b @ c)]) \<le> 941" "length c \<le> m"
  shows "\<exists>t. copy_file m (ino k) c s = Ok () t \<and> mk_inv (fs[k := (ty, b @ c)]) t"
  using assms
proof (induction m arbitrary: fs s b c)
  case 0
  then have "fs[k := (ty, b @ c)] = fs" using list_update_id [of fs k] by simp
  then show ?case using 0 by simp
next
  case (Suc m)
  note P = Suc.prems
  show ?case
  proof (cases "c = []")
    case True
    then have "fs[k := (ty, b @ c)] = fs" using P(3) list_update_id [of fs k] by simp
    then show ?thesis using True P(1) by simp
  next
    case False
    let ?h = "take BSIZE c" and ?r = "drop BSIZE c" and ?fs = "fs[k := (ty, b @ take BSIZE c)]"
    have l: "length ?h + length ?r = length c" "length ?r \<le> m" using False P(6) by (cases c, auto)
    have "total ?fs + fblocks (length b) = total fs + fblocks (length b + length ?h)" "total (fs[k := (ty, b @ c)]) + fblocks (length b) = total fs + fblocks (length b + length c)"
      unfolding total_def by (rule blocks_change [OF P(2,3)])+
    then have tot: "total ?fs \<le> 941" using P(5) fblocks_mono [of "length b + length ?h" "length b + length c"] l(1) by linarith
    have z: "length b + length ?h \<le> MAXFILE * BSIZE" using P(4) l(1) by linarith
    obtain u where u: "iappend (ino k) ?h s = Ok () u" "mk_inv ?fs u" by (rule append_ok [OF P(1-3) z tot])
    have "\<exists>t. copy_file m (ino k) ?r u = Ok () t \<and> mk_inv (?fs[k := (ty, (b @ ?h) @ ?r)]) t"
      by (rule Suc.IH [OF u(2)]) (use P l in simp_all)
    then show ?thesis using False u(1) by auto
  qed
qed

text \<open>The files after one more is added, and after all are: the root directory has an entry for each of them.\<close>

definition strip :: "u8 list \<Rightarrow> u8 list" where
  "strip name = (if name \<noteq> [] \<and> hd name = 0x5f then tl name else name)"

definition put_file :: "(u16 \<times> u8 list) list \<Rightarrow> u8 list \<times> u8 list \<Rightarrow> (u16 \<times> u8 list) list" where
  "put_file fs f = (T_DIR, snd (hd fs) @ dirent_of (ino (length fs)) (strip (fst f))) # tl fs @ [(T_FILE, snd f)]"

lemma dirent_length [simp]: "length (dirent_of n name) = 16"
  by (simp add: dirent_of_def)

lemma add_file_law:
  assumes inv: "mk_inv ((T_DIR, r) # fs) s" and f: "0x2f \<notin> set name" "length c \<le> MAXFILE * BSIZE" and l: "length fs < 198" "length r + 16 \<le> MAXFILE * BSIZE"
    and tot: "total (put_file ((T_DIR, r) # fs) (name, c)) \<le> 941"
  obtains t where "add_file (name, Some c) s = Ok () t" "mk_inv (put_file ((T_DIR, r) # fs) (name, c)) t"
proof -
  let ?F = "(T_DIR, r) # fs" and ?k = "Suc (length fs)"
  let ?d = "dirent_of (ino ?k) (strip name)"
  have l': "length ?F < 199" using l(1) by simp
  obtain s1 where s1: "mkfs_ialloc T_FILE s = Ok (ino (length ?F)) s1" "mk_inv (?F @ [(T_FILE, [])]) s1" by (rule ialloc_law [OF inv l', where ty = T_FILE])
  let ?G = "(T_DIR, r @ ?d) # fs @ [(T_FILE, [])]"
  have pf: "put_file ?F (name, c) = ?G[?k := (T_FILE, [] @ c)]" by (simp add: put_file_def)
  have "total ?G \<le> 941" using tot fblocks_mono [of 0 "length c"] by (simp add: put_file_def total_def)
  then obtain s2 where s2: "iappend (ino 0) ?d s1 = Ok () s2" "mk_inv ?G s2"
    using append_ok [OF s1(2), of 0 T_DIR r ?d] l(2) by auto
  have "\<exists>t. copy_file (length c) (ino ?k) c s2 = Ok () t \<and> mk_inv (?G[?k := (T_FILE, [] @ c)]) t"
    by (rule copy_law [OF s2(2)]) (use f(2) tot pf in \<open>simp_all add: nth_append\<close>)
  then show thesis using that s1(1) s2(1) f(1) pf by (auto simp: add_file_def strip_def ino_def)
qed

lemma total_put: "total ((T_DIR, r) # fs) \<le> total (put_file ((T_DIR, r) # fs) f)"
  using fblocks_mono [of "length r" "length r + 16"] by (simp add: put_file_def total_def)

lemma total_foldl: "total ((T_DIR, r) # fs) \<le> total (foldl put_file ((T_DIR, r) # fs) files)"
proof (induction files arbitrary: r fs)
  case (Cons f files)
  let ?r = "r @ dirent_of (ino (Suc (length fs))) (strip (fst f))"
  have "put_file ((T_DIR, r) # fs) f = (T_DIR, ?r) # fs @ [(T_FILE, snd f)]" by (simp add: put_file_def)
  then show ?case using total_put [of r fs f] Cons.IH [of ?r "fs @ [(T_FILE, snd f)]"] by simp
qed simp

lemma add_files_law:
  assumes "mk_inv ((T_DIR, r) # fs) s" "\<forall>f \<in> set files. 0x2f \<notin> set (fst f) \<and> length (snd f) \<le> MAXFILE * BSIZE"
    "length fs + length files < 199" "length r + 16 * length files \<le> MAXFILE * BSIZE" "total (foldl put_file ((T_DIR, r) # fs) files) \<le> 941"
  shows "\<exists>t. add_files (map (\<lambda>f. (fst f, Some (snd f))) files) s = Ok () t \<and> mk_inv (foldl put_file ((T_DIR, r) # fs) files) t"
  using assms
proof (induction files arbitrary: r fs s)
  case (Cons f files)
  note P = Cons.prems
  obtain name c where f: "f = (name, c)" by (cases f)
  let ?r = "r @ dirent_of (ino (Suc (length fs))) (strip name)" and ?fs = "fs @ [(T_FILE, c)]"
  have p: "put_file ((T_DIR, r) # fs) f = (T_DIR, ?r) # ?fs" by (simp add: put_file_def f)
  have "total (put_file ((T_DIR, r) # fs) f) \<le> 941" using total_foldl [of ?r ?fs files] P(5) p by simp
  then obtain u where u: "add_file (name, Some c) s = Ok () u" "mk_inv ((T_DIR, ?r) # ?fs) u"
    using add_file_law [OF P(1), of name c] P(2-4) f p by auto
  have "\<exists>t. add_files (map (\<lambda>f. (fst f, Some (snd f))) files) u = Ok () t \<and> mk_inv (foldl put_file ((T_DIR, ?r) # ?fs) files) t"
    by (rule Cons.IH [OF u(2)]) (use P p in simp_all)
  then show ?case using u(1) f p by auto
qed simp

lemma foldl_put:
  "foldl put_file ((T_DIR, r) # fs) files =
     (T_DIR, r @ concat (map (\<lambda>i. dirent_of (ino (Suc (length fs) + i)) (strip (fst (files ! i)))) [0..<length files])) # fs @ map (\<lambda>f. (T_FILE, snd f)) files"
proof (induction files arbitrary: r fs)
  case (Cons f files)
  have m: "[0..<length (f # files)] = 0 # map Suc [0..<length files]" by (metis length_Cons map_Suc_upt upt_conv_Cons zero_less_Suc)
  have p: "put_file ((T_DIR, r) # fs) f = (T_DIR, r @ dirent_of (ino (Suc (length fs))) (strip (fst f))) # fs @ [(T_FILE, snd f)]" by (simp add: put_file_def)
  show ?case unfolding foldl_Cons p Cons.IH m by (simp add: o_def)
qed simp

section \<open>The end\<close>

lemma root_law:
  assumes inv: "mk_inv ((T_DIR, r) # fs) s" and l: "length r < MAXFILE * BSIZE - BSIZE"
  obtains t where "fix_root s = Ok () t" "mk_ok t" "image_view t 1 = sb_block mkfs_sb" "freeblock t = freeblock s"
    "\<forall>i < length fs. file_good (mk_view t) (mk_file t (ino (Suc i))) (fs ! i)"
    "ifile_ok (mk_view t) mkfs_sb (mk_file t 1) \<and> i_type (mk_file t 1) = T_DIR \<and> i_nlink (mk_file t 1) = 1"
    "contents (mk_view t) (mk_file t 1) = r @ replicate (BSIZE - length r mod BSIZE) 0"
    "\<forall>i < Suc (length fs). iblocks (mk_view t) (mk_file t (ino i)) = iblocks (mk_view s) (mk_file s (ino i))"
proof -
  let ?n = "ino 0"
  define x where "x = dinode_at (image_view s (IBLOCK ?n mkfs_sb)) (dino_off ?n)"
  have n1: "?n = 1" by (simp add: ino_def)
  have xf: "mk_file s ?n = inode_of ?n x" by (simp add: mk_file_def x_def)
  have s: "mk_ok s" "image_view s 1 = sb_block mkfs_sb" "length fs < 199"
    and G: "\<And>i. i < Suc (length fs) \<Longrightarrow> file_good (mk_view s) (mk_file s (ino i)) (((T_DIR, r) # fs) ! i)" using inv unfolding mk_inv_def by simp_all
  note I = inum_block [of 0, simplified]
  have rd: "rinode ?n s = Ok x s" using rsect_ok [OF s(1), of "IBLOCK ?n mkfs_sb"] I s(1) by (simp add: rinode_def x_def mk_ok_def)
  have gx: "file_good (mk_view s) (inode_of ?n x) (T_DIR, r)" using G [of 0] xf by simp
  then have X: "ifile_ok (mk_view s) mkfs_sb (inode_of ?n x)" "tight (mk_view s) (inode_of ?n x)" "contents (mk_view s) (inode_of ?n x) = r" "i_nlink (inode_of ?n x) = 1" "d_type x = T_DIR"
    by (simp_all add: file_good_def)
  have dz: "unat (d_size x) = length r" using arg_cong [OF X(3), of length] by (simp add: contents_def)
  let ?z = "(d_size x div of_nat BSIZE + 1) * of_nat BSIZE" and ?p = "BSIZE - length r mod BSIZE"
  have uz: "unat ?z = length r + ?p"
  proof -
    obtain q m where m: "length r = BSIZE * q + m" "m < BSIZE" "length r div BSIZE = q" "length r mod BSIZE = m" by (rule block_split)
    have q: "q < 139" using m(1) l by simp
    have d: "unat (d_size x div 512) = q" using m(3) dz by (simp add: unat_div)
    have "unat (d_size x div 512 + 1) = q + 1" using q by (subst unat_word_ariths(1)) (simp add: d del: unat_div)
    then have "unat ((d_size x div 512 + 1) * 512) = (q + 1) * 512" using q by (subst unat_word_ariths(2)) simp
    then show ?thesis using m by simp
  qed
  have le: "length r + ?p \<le> MAXFILE * BSIZE" using l by simp
  have la: "length (d_addrs (x\<lparr>d_size := ?z\<rparr>)) = 13" using ifile_okD(1) [OF X(1)] by simp
  obtain t where t: "winode ?n (x\<lparr>d_size := ?z\<rparr>) s = Ok () t" "mk_ok t" "mk_file t ?n = inode_of ?n (x\<lparr>d_size := ?z\<rparr>)" "\<forall>m. m \<noteq> ?n \<longrightarrow> mk_file t m = mk_file s m"
    "freeblock t = freeblock s" "freeinode t = freeinode s" "\<forall>b. b < 32 \<or> 58 \<le> b \<longrightarrow> image_view t b = image_view s b" "\<forall>b. 58 \<le> b \<longrightarrow> mk_view t b = mk_view s b"
    by (rule winode_law [OF s(1) refl zero_less_numeral la])
  have frame: "file_good (mk_view t) (mk_file s (ino i)) (((T_DIR, r) # fs) ! i)" "iblocks (mk_view t) (mk_file s (ino i)) = iblocks (mk_view s) (mk_file s (ino i))"
    if i: "i < Suc (length fs)" for i
  proof -
    have b: "59 \<le> b \<and> used (mk_view t) mkfs_sb b" if "b \<in> iblocks (mk_view s) (mk_file s (ino i))" for b
      using G [OF i] that ifile_okD(3) [of "mk_view s" mkfs_sb "mk_file s (ino i)" b] mk_used [OF s(1), of b] mk_used [OF t(2), of b] t(5) by (simp add: file_good_def)
    have "mk_view t b = mk_view s b" if "b \<in> iblocks (mk_view s) (mk_file s (ino i))" for b using b [OF that] t(8) order_trans [of 58 59 b] by simp
    then show "file_good (mk_view t) (mk_file s (ino i)) (((T_DIR, r) # fs) ! i)" "iblocks (mk_view t) (mk_file s (ino i)) = iblocks (mk_view s) (mk_file s (ino i))"
      using file_frame [OF G [OF i], of "mk_view t"] b by blast+
  qed
  have f0: "ifile_ok (mk_view t) mkfs_sb (inode_of ?n x)" "tight (mk_view t) (inode_of ?n x)" "contents (mk_view t) (inode_of ?n x) = r" using frame(1) [of 0] xf by (simp_all add: file_good_def)
  have "contents (mk_view t) (mk_file t ?n) = r @ replicate ?p 0"
  proof -
    have c: "r = map (fbyte (mk_view t) (inode_of ?n x)) [0..<length r]" using f0(3) dz by (simp add: contents_def)
    have "contents (mk_view t) (mk_file t ?n) = map (fbyte (mk_view t) (inode_of ?n x)) [0..<length r + ?p]" using t(3) uz by (simp add: contents_def)
    also have "\<dots> = r @ map (fbyte (mk_view t) (inode_of ?n x)) [length r..<length r + ?p]" using c by (metis le0 le_add1 map_append upt_add_eq_append)
    also have "map (fbyte (mk_view t) (inode_of ?n x)) [length r..<length r + ?p] = replicate ?p 0"
      using f0(2) dz le by (intro nth_equalityI) (simp_all add: tight_def)
    finally show ?thesis .
  qed
  moreover have "fix_root s = Ok () t" using rd t(1) n1 by (simp add: fix_root_def)
  moreover have "mk_file t (ino (Suc i)) = mk_file s (ino (Suc i))" if "i < length fs" for i using t(4) ino_inj [of "Suc i" 0] that s(3) by simp
  moreover have "ifile_ok (mk_view t) mkfs_sb (mk_file t ?n)" "iblocks (mk_view t) (mk_file t ?n) = iblocks (mk_view s) (mk_file s ?n)" using f0(1) frame(2) [of 0] t(3) xf by simp_all
  moreover have "i_type (mk_file t ?n) = T_DIR" "i_nlink (mk_file t ?n) = 1" using t(3) X(4,5) by (simp_all add: inode_of_def)
  moreover have "iblocks (mk_view t) (mk_file t (ino i)) = iblocks (mk_view s) (mk_file s (ino i))" if "i < Suc (length fs)" for i using calculation(3,5) frame(2) [OF that] that by (cases i) simp_all
  ultimately show thesis using that [of t] t(2,5,7) s(2) frame(1) [of "Suc _"] n1 by simp
qed

lemma balloc_end:
  assumes s: "mk_ok s"
  obtains t where "mkfs_balloc (freeblock s) s = Ok () t" "image_view t = mk_view s" "\<forall>i < 200. mk_file t (ino i) = mk_file s (ino i)"
proof -
  let ?d = "mark_used (unat (freeblock s)) (replicate BSIZE 0)"
  let ?t = "s\<lparr>fs_image := (fs_image s)[unat (58 :: u32) := ?d]\<rparr>"
  have f: "unat (freeblock s) \<le> 1000" "length (fs_image s) = 1000" "fs_sb s = mkfs_sb" using s by (simp_all add: mk_ok_def)
  have si: "sint (freeblock s) = int (unat (freeblock s))" using f(1) by (intro sint_small) simp
  have "sint (freeblock s) < 4096" unfolding si using f(1) by linarith
  moreover have "nat (sint (freeblock s)) = unat (freeblock s)" unfolding si by (simp only: nat_int)
  ultimately have b: "mkfs_balloc (freeblock s) s = Ok () ?t" using f wsect_ok [OF f(2), of 58 ?d] by (simp add: mkfs_balloc_def)
  have iv: "image_view ?t = mk_view s" using put_view [OF f(2), of 58 ?d] by (simp add: mk_view_def)
  have "mk_file ?t (ino i) = mk_file s (ino i)" if "i < 200" for i
  proof -
    have "IBLOCK (ino i) mkfs_sb \<noteq> 58" using inum_block(2) [OF that] by auto
    then show ?thesis unfolding mk_file_def iv by (simp add: mk_view_def)
  qed
  then show thesis using that [OF b iv] by blast
qed

section \<open>The file system\<close>

definition root_dir :: "(u8 list \<times> u8 list) list \<Rightarrow> u8 list" where
  "root_dir files = dirent_of 1 [0x2e] @ dirent_of 1 [0x2e, 0x2e] @ concat (map (\<lambda>i. dirent_of (of_nat (i + 2)) (strip (fst (files ! i)))) [0..<length files])"

lemma root_dir_length: "length (root_dir files) = 32 + 16 * length files"
  unfolding root_dir_def by (simp add: length_concat o_def sum_list_triv)

lemma mkfs_files:
  assumes "\<forall>f \<in> set files. 0x2f \<notin> set (fst f) \<and> length (snd f) \<le> MAXFILE * BSIZE" "length files < 198"
    and "fblocks (32 + 16 * length files) + sum_list (map (\<lambda>f. fblocks (length (snd f))) files) \<le> 941"
  obtains s where "mkfs_main (map (\<lambda>f. (fst f, Some (snd f))) files) = rbind (fix_root s) (\<lambda>_ s. mkfs_balloc (freeblock s) s)"
    "mk_inv ((T_DIR, root_dir files) # map (\<lambda>f. (T_FILE, snd f)) files) s"
proof -
  let ?r = "dirent_of 1 [0x2e] @ dirent_of 1 [0x2e, 0x2e]"
  let ?F = "foldl put_file [(T_DIR, ?r)] files"
  have n1: "ino 0 = 1" by (simp add: ino_def)
  have F: "?F = (T_DIR, root_dir files) # map (\<lambda>f. (T_FILE, snd f)) files"
    unfolding foldl_put root_dir_def by (simp add: ino_def)
  have tot: "total ?F = fblocks (32 + 16 * length files) + sum_list (map (\<lambda>f. fblocks (length (snd f))) files)" unfolding F total_def by (simp add: root_dir_length o_def)
  obtain s0 where s0: "rbind (zero_sectors (unat FSSIZE) 0 \<lparr>fs_image = [], fs_sb = mkfs_sb, freeinode = 1, freeblock = nmeta\<rparr>) (\<lambda>_ s. wsect 1 (sb_block (fs_sb s)) s) = Ok () s0" "mk_inv [] s0"
    by (rule start_law)
  obtain s1 where s1: "mkfs_ialloc T_DIR s0 = Ok 1 s1" "mk_inv [(T_DIR, [])] s1" using ialloc_law [OF s0(2), where ty = T_DIR] n1 by auto
  have one: "total [(T_DIR, dirent_of 1 [0x2e])] \<le> 941" "total [(T_DIR, ?r)] \<le> 941" by (simp_all add: total_def fblocks_def)
  obtain s2 where s2: "iappend 1 (dirent_of 1 [0x2e]) s1 = Ok () s2" "mk_inv [(T_DIR, dirent_of 1 [0x2e])] s2"
    using append_ok [OF s1(2), of 0 T_DIR "[]" "dirent_of 1 [0x2e]"] one n1 by auto
  obtain s3 where s3: "iappend 1 (dirent_of 1 [0x2e, 0x2e]) s2 = Ok () s3" "mk_inv [(T_DIR, ?r)] s3"
    using append_ok [OF s2(2), of 0 T_DIR "dirent_of 1 [0x2e]" "dirent_of 1 [0x2e, 0x2e]"] one n1 by auto
  obtain s4 where s4: "add_files (map (\<lambda>f. (fst f, Some (snd f))) files) s3 = Ok () s4" "mk_inv ?F s4"
    using add_files_law [OF s3(2) assms(1)] assms(2,3) tot by auto
  have "mkfs_main (map (\<lambda>f. (fst f, Some (snd f))) files) = rbind (fix_root s4) (\<lambda>_ s. mkfs_balloc (freeblock s) s)"
    using s0(1) s1(1) s2(1) s3(1) s4(1) by (auto simp: mkfs_main_def rbind_eq_Ok)
  then show thesis using that s4(2) F by simp
qed

text \<open>
  C7: for files that fit, \<open>mkfs\<close> ends, and the image is a file system as the kernel reads it.  Its super block describes it, the free map has the blocks
  in use and no others, the first inode is a directory with an entry for each file, padded with zeros, inode \<open>i + 2\<close> holds the bytes of file \<open>i\<close>, and no two files share a block.
\<close>

theorem mkfs_builds_file_system:
  assumes "\<forall>f \<in> set files. 0x2f \<notin> set (fst f) \<and> length (snd f) \<le> MAXFILE * BSIZE" "length files < 198"
    and "fblocks (32 + 16 * length files) + sum_list (map (\<lambda>f. fblocks (length (snd f))) files) \<le> 941"
  shows "\<exists>t. mkfs_main (map (\<lambda>f. (fst f, Some (snd f))) files) = Ok () t \<and> (let V = image_view t; F = \<lambda>i. mk_file t (of_nat (i + 1)) in
    sb_of (V 1) = mkfs_sb \<and> layout V mkfs_sb (sb_size mkfs_sb) \<and>
    (\<forall>b < sb_size mkfs_sb. used V mkfs_sb b \<longleftrightarrow> unat b < 59 + fblocks (32 + 16 * length files) + sum_list (map (\<lambda>f. fblocks (length (snd f))) files)) \<and>
    (\<forall>i \<le> length files. ifile_ok V mkfs_sb (F i) \<and> i_nlink (F i) = 1 \<and> i_type (F i) = (if i = 0 then T_DIR else T_FILE)) \<and>
    contents V (F 0) = root_dir files @ replicate (BSIZE - (32 + 16 * length files) mod BSIZE) 0 \<and>
    (\<forall>i < length files. contents V (F (Suc i)) = snd (files ! i)) \<and>
    (\<forall>i \<le> length files. \<forall>j \<le> length files. i \<noteq> j \<longrightarrow> iblocks V (F i) \<inter> iblocks V (F j) = {}))"
proof -
  let ?G = "map (\<lambda>f. (T_FILE, snd f)) files"
  have n1: "ino 0 = 1" by (simp add: ino_def)
  obtain s4 where s4: "mkfs_main (map (\<lambda>f. (fst f, Some (snd f))) files) = rbind (fix_root s4) (\<lambda>_ s. mkfs_balloc (freeblock s) s)"
    and inv: "mk_inv ((T_DIR, root_dir files) # ?G) s4" by (rule mkfs_files [OF assms])
  have ls: "length (root_dir files) < MAXFILE * BSIZE - BSIZE" using root_dir_length assms(2) by simp
  obtain s5 where s5: "fix_root s4 = Ok () s5" "mk_ok s5" "image_view s5 1 = sb_block mkfs_sb" "freeblock s5 = freeblock s4"
    "\<forall>i < length ?G. file_good (mk_view s5) (mk_file s5 (ino (Suc i))) (?G ! i)"
    "ifile_ok (mk_view s5) mkfs_sb (mk_file s5 1) \<and> i_type (mk_file s5 1) = T_DIR \<and> i_nlink (mk_file s5 1) = 1"
    "contents (mk_view s5) (mk_file s5 1) = root_dir files @ replicate (BSIZE - length (root_dir files) mod BSIZE) 0"
    "\<forall>i < Suc (length ?G). iblocks (mk_view s5) (mk_file s5 (ino i)) = iblocks (mk_view s4) (mk_file s4 (ino i))"
    by (rule root_law [OF inv ls])
  obtain t where t: "mkfs_balloc (freeblock s5) s5 = Ok () t" "image_view t = mk_view s5" "\<forall>i < 200. mk_file t (ino i) = mk_file s5 (ino i)"
    by (rule balloc_end [OF s5(2)])
  have run: "mkfs_main (map (\<lambda>f. (fst f, Some (snd f))) files) = Ok () t"
    using s4 s5(1) t(1) by simp
  have fb: "unat (freeblock s5) = 59 + fblocks (32 + 16 * length files) + sum_list (map (\<lambda>f. fblocks (length (snd f))) files)"
    using inv s5(4) by (simp add: mk_inv_def root_dir_length o_def)
  have o: "of_nat (i + 1) = ino i" for i by (simp add: ino_def)
  have f: "mk_file t (ino i) = mk_file s5 (ino i)" if "i \<le> length files" for i using t(3) that assms(2) by simp
  have g: "file_good (mk_view s5) (mk_file s5 (ino (Suc i))) (T_FILE, snd (files ! i))" if "i < length files" for i using s5(5) that by simp
  have "sb_of (image_view t 1) = mkfs_sb" using t(2) s5(3) sb_of_block by (simp add: mk_view_def)
  moreover have "layout (image_view t) mkfs_sb (sb_size mkfs_sb)" using mk_layout [OF s5(2)] t(2) by simp
  moreover have "used (image_view t) mkfs_sb b \<longleftrightarrow> unat b < 59 + fblocks (32 + 16 * length files) + sum_list (map (\<lambda>f. fblocks (length (snd f))) files)" if "b < sb_size mkfs_sb" for b
    using mk_used [OF s5(2), of b] that t(2) fb by (simp add: word_less_nat_alt)
  moreover have "ifile_ok (image_view t) mkfs_sb (mk_file t (ino i)) \<and> i_nlink (mk_file t (ino i)) = 1 \<and> i_type (mk_file t (ino i)) = (if i = 0 then T_DIR else T_FILE)" if "i \<le> length files" for i
    using f [OF that] t(2) s5(6) n1 g [of "i - 1"] that by (cases i) (auto simp: file_good_def)
  moreover have "contents (image_view t) (mk_file t (ino 0)) = root_dir files @ replicate (BSIZE - (32 + 16 * length files) mod BSIZE) 0" using f [of 0] t(2) s5(7) n1 root_dir_length by simp
  moreover have "contents (image_view t) (mk_file t (ino (Suc i))) = snd (files ! i)" if "i < length files" for i using f [of "Suc i"] t(2) g [OF that] that by (simp add: file_good_def)
  moreover have "iblocks (image_view t) (mk_file t (ino i)) \<inter> iblocks (image_view t) (mk_file t (ino j)) = {}" if "i \<le> length files" "j \<le> length files" "i \<noteq> j" for i j
    using f t(2) s5(8) inv that by (simp add: mk_inv_def)
  ultimately show ?thesis using run unfolding Let_def o by blast
qed

theorem mkfs_builds_file_system_witness:
  "\<exists>t. mkfs_main [([0x5f, 0x61], Some [1, 2, 3]), ([0x62], Some (replicate 600 7))] = Ok () t \<and> layout (image_view t) mkfs_sb 1000 \<and>
     contents (image_view t) (mk_file t 2) = [1, 2, 3] \<and> contents (image_view t) (mk_file t 3) = replicate 600 7"
proof -
  let ?f = "[([0x5f, 0x61], [1, 2, 3]), ([0x62], replicate 600 7)] :: (u8 list \<times> u8 list) list"
  have "fblocks 64 = 1" "fblocks (Suc (Suc (Suc 0))) = 1" "fblocks 600 = 2" by (simp_all add: fblocks_def)
  then obtain t where t: "mkfs_main (map (\<lambda>f. (fst f, Some (snd f))) ?f) = Ok () t" "layout (image_view t) mkfs_sb (sb_size mkfs_sb)"
    "\<forall>i < length ?f. contents (image_view t) (mk_file t (of_nat (Suc i + 1))) = snd (?f ! i)"
    using mkfs_builds_file_system [of ?f] unfolding Let_def by auto
  show ?thesis using t(1,2) t(3) [rule_format, of 0] t(3) [rule_format, of 1] by (intro exI [of _ t]) simp
qed

end
