(* ===== verification/Console_Laws.thy ===== *)
theory Console_Laws
  imports Console Ring Sched_Laws
begin

text \<open>
  The input side of the console: the buffer with its three indices is a queue of finished lines followed by the line being edited, and the
  interrupt handler is the line editor \<open>edit\<close> on these two.
\<close>

section \<open>Output\<close>

definition screen_ok :: "'a const_scheme \<Rightarrow> bool" where
  "screen_ok s \<longleftrightarrow> panicked s = 0 \<and> unat (cursor s) < 24 * 80"

text \<open>Writing a character changes the screen and the serial line and nothing else, and always returns.\<close>

definition output_step :: "'a const_scheme \<Rightarrow> 'a const_scheme \<Rightarrow> bool" where
  "output_step s t \<longleftrightarrow> (\<exists>k p u. t = s\<lparr>crt := k, cursor := p, uart_out := u\<rparr>)"

lemma small_word: "0 \<le> i \<Longrightarrow> i < 1920 \<Longrightarrow> unat (word_of_int i :: u16) < 1920"
  by (simp add: unsigned_of_int take_bit_int_eq_self)

text \<open>The second half of \<open>cgaputc\<close>: scroll, and show the cursor.\<close>

definition cga_show :: "int \<Rightarrow> 'a const_scheme \<Rightarrow> ('a const_scheme, unit) res" where
  "cga_show q s =
     (if q < 0 \<or> q > 25 * 80 then Panic ''pos under/overflow''
      else let (pos, s) =
            (if q div 80 \<ge> 24 then
               let old = crt s; scr = (\<lambda>i. if i < 23 * 80 then old (i + 80) else old i); pos = q - 80
               in (pos, s\<lparr>crt := (\<lambda>i. if nat pos \<le> i \<and> i < 24 * 80 then 0 else scr i)\<rparr>)
             else (q, s));
            s = s\<lparr>cursor := word_of_int pos\<rparr>
          in Ok () (s\<lparr>crt := (crt s)(nat pos := 0x20 OR 0x0700)\<rparr>))"

lemma cgaputc_show:
  "cgaputc c s =
     (if c = 10 then cga_show (uint (cursor s) + 80 - uint (cursor s) mod 80) s
      else if c = BACKSPACE then cga_show (if uint (cursor s) > 0 then uint (cursor s) - 1 else uint (cursor s)) s
      else cga_show (uint (cursor s) + 1) (s\<lparr>crt := (crt s)(nat (uint (cursor s)) := ucast (c AND 0xff) OR 0x0700)\<rparr>))"
  by (simp add: cgaputc_def cga_show_def Let_def)

lemma cga_show_ok:
  assumes "0 \<le> q" "q \<le> 1920" obtains k p where "cga_show q s = Ok () (s\<lparr>cursor := p, crt := k\<rparr>)" "unat p < 1920"
proof (cases "24 \<le> q div 80")
  case True
  then have "0 \<le> q - 80" "q - 80 < 1920" using assms by auto
  note u = small_word [OF this]
  show thesis by (rule that [OF _ u]) (use True assms in \<open>simp add: cga_show_def Let_def\<close>)
next
  case False
  then have "q < 1920" by simp
  note u = small_word [OF assms(1) this]
  show thesis by (rule that [OF _ u]) (use False assms in \<open>simp add: cga_show_def Let_def\<close>)
qed

lemma cursor_range:
  fixes p :: int
  assumes "0 \<le> p" "p < 1920" shows "p + 80 - p mod 80 \<le> 1920" "0 \<le> p + 80 - p mod 80"
proof -
  have "p mod 80 < 80" "p div 80 < 24" "80 * (p div 80) + p mod 80 = p" using assms by simp_all
  then show "p + 80 - p mod 80 \<le> 1920" "0 \<le> p + 80 - p mod 80" using assms by linarith+
qed

lemma cgaputc_ok:
  assumes "screen_ok s" obtains t where "cgaputc c s = Ok () t" "output_step s t" "screen_ok t"
proof -
  have u: "uint (cursor s) = int (unat (cursor s))" by (rule uint_nat)
  have n: "0 \<le> uint (cursor s)" "uint (cursor s) < 1920" "panicked s = 0" using assms u unfolding screen_ok_def by linarith+
  obtain q x where c: "cgaputc c s = cga_show q (s\<lparr>crt := x\<rparr>)" "0 \<le> q" "q \<le> 1920"
  proof (cases "c = 10")
    case True
    show thesis by (rule that [OF _ cursor_range(2,1) [OF n(1,2)], of "crt s"]) (simp add: True cgaputc_show)
  next
    case nl: False
    show thesis
    proof (cases "c = BACKSPACE")
      case True
      show thesis by (rule that [of "if uint (cursor s) > 0 then uint (cursor s) - 1 else uint (cursor s)" "crt s"]) (use True n in \<open>auto simp: cgaputc_show\<close>)
    next
      case False
      show thesis by (rule that [of "uint (cursor s) + 1"]) (use nl False n in \<open>auto simp: cgaputc_show\<close>)
    qed
  qed
  obtain k p where "cga_show q (s\<lparr>crt := x\<rparr>) = Ok () (s\<lparr>crt := x\<rparr>\<lparr>cursor := p, crt := k\<rparr>)" "unat p < 1920" by (rule cga_show_ok [OF c(2,3)])
  moreover have "output_step s (s\<lparr>crt := x\<rparr>\<lparr>cursor := p, crt := k\<rparr>)" unfolding output_step_def
    by (intro exI [of _ k] exI [of _ p] exI [of _ "uart_out s"]) simp
  ultimately show thesis using that [of "s\<lparr>crt := x\<rparr>\<lparr>cursor := p, crt := k\<rparr>"] c(1) n(3) by (simp add: screen_ok_def)
qed

lemma output_step_refl: "output_step s s"
  unfolding output_step_def by (intro exI [of _ "crt s"] exI [of _ "cursor s"] exI [of _ "uart_out s"]) simp

lemma output_step_trans: "output_step s t \<Longrightarrow> output_step t u \<Longrightarrow> output_step s u"
  unfolding output_step_def by force

lemma output_step_fields:
  assumes "output_step s t"
  shows "in_buf t = in_buf s" "in_r t = in_r s" "in_w t = in_w s" "in_e t = in_e s" "k_cpu t = k_cpu s" "k_locks t = k_locks s"
  using assms by (auto simp: output_step_def)

lemma uartputc_step: "output_step s (uartputc c s)" "screen_ok (uartputc c s) = screen_ok s"
proof -
  have "uartputc c s = s\<lparr>crt := crt s, cursor := cursor s, uart_out := uart_out (uartputc c s)\<rparr>" by (simp add: uartputc_def)
  then show "output_step s (uartputc c s)" unfolding output_step_def by blast
  show "screen_ok (uartputc c s) = screen_ok s" by (simp add: uartputc_def screen_ok_def)
qed

lemma consputc_ok:
  assumes "screen_ok s" obtains t where "consputc c s = Ok () t" "output_step s t" "screen_ok t"
proof -
  define u where "u = (if c = BACKSPACE then uartputc 8 (uartputc 0x20 (uartputc 8 s)) else uartputc c s)"
  have u: "screen_ok u" using assms by (simp add: u_def uartputc_step(2))
  have st: "output_step s u"
  proof -
    have "output_step s (uartputc 8 (uartputc 0x20 (uartputc 8 s)))"
      by (rule output_step_trans [OF uartputc_step(1) output_step_trans [OF uartputc_step(1) uartputc_step(1)]])
    then show ?thesis using uartputc_step(1) [of s c] by (simp add: u_def)
  qed
  have e: "consputc c s = cgaputc c u" using assms by (simp add: consputc_def u_def screen_ok_def)
  obtain t where "cgaputc c u = Ok () t" "output_step u t" "screen_ok t" by (rule cgaputc_ok [OF u])
  then show thesis using that [of t] e output_step_trans [OF st, of t] by simp
qed

section \<open>The process listing\<close>

text \<open>
  An operation that prints: it returns with the screen and the serial line changed and nothing else, when the screen is in order and, for those that take it,
  the lock of the console can be taken.
\<close>

definition prints :: "bool \<Rightarrow> ('a const_scheme \<Rightarrow> ('a const_scheme, unit) res) \<Rightarrow> bool" where
  "prints l f \<longleftrightarrow> (\<forall>s. screen_ok s \<and> (l \<longrightarrow> lock_ready ConsLock s) \<longrightarrow> (\<exists>t. f s = Ok () t \<and> output_step s t \<and> screen_ok t))"

lemma prints_ret: "prints l (\<lambda>s. Ok () s)"
  by (auto simp: prints_def intro: output_step_refl)

lemma prints_bind:
  fixes f g :: "'a const_scheme \<Rightarrow> ('a const_scheme, unit) res"
  assumes "prints l f" "prints l g" shows "prints l (\<lambda>s. rbind (f s) (\<lambda>_ s. g s))"
  unfolding prints_def
proof (intro allI impI)
  fix s :: "'a const_scheme"
  assume s: "screen_ok s \<and> (l \<longrightarrow> lock_ready ConsLock s)"
  then obtain t where t: "f s = Ok () t" "output_step s t" "screen_ok t" using assms(1) unfolding prints_def by blast
  then have "l \<longrightarrow> lock_ready ConsLock t" using s output_step_fields(5,6) [OF t(2)] by (simp add: lock_ready_def)
  then obtain u where "g t = Ok () u" "output_step t u" "screen_ok u" using assms(2) t(3) unfolding prints_def by blast
  then show "\<exists>u. rbind (f s) (\<lambda>_ s. g s) = Ok () u \<and> output_step s u \<and> screen_ok u" using t output_step_trans [OF t(2)] by auto
qed

lemma prints_consputc: "prints l (\<lambda>s. consputc c s)"
  unfolding prints_def using consputc_ok by metis

lemma prints_consputs: "prints l (\<lambda>s. consputs cs s)"
  by (induction cs) (simp_all add: prints_ret prints_bind prints_consputc)

lemma prints_if: "prints l f \<Longrightarrow> prints l g \<Longrightarrow> prints l (\<lambda>s. if b then f s else g s)"
  by (cases b) simp_all

lemma prints_printint: "prints l (\<lambda>s. printint x b n s)"
  unfolding printint_def by (rule prints_consputs)

lemmas prints_intros = prints_ret prints_bind prints_consputc prints_consputs prints_printint

text \<open>The formats, one item at a time.\<close>

lemma format_items:
  "cprintf_loop [] as = (\<lambda>s. Ok () s)"
  "c \<noteq> 0x25 \<Longrightarrow> cprintf_loop (c # fmt) as = (\<lambda>s. rbind (consputc (ucast c) s) (\<lambda>_ s. cprintf_loop fmt as s))"
  "cprintf_loop (0x25 # 0x64 # fmt) (Num x # as) = (\<lambda>s. rbind (printint x 10 True s) (\<lambda>_ s. cprintf_loop fmt as s))"
  "cprintf_loop (0x25 # 0x70 # fmt) (Num x # as) = (\<lambda>s. rbind (printint x 16 False s) (\<lambda>_ s. cprintf_loop fmt as s))"
  "cprintf_loop (0x25 # 0x73 # fmt) (Str (Some b) # as) = (\<lambda>s. rbind (consputs b s) (\<lambda>_ s. cprintf_loop fmt as s))"
  by (simp_all add: fun_eq_iff arg_num_def arg_str_def)

lemma output_step_held:
  assumes "output_step (held ConsLock s) u" shows "output_step s (u\<lparr>k_cpu := k_cpu s, k_locks := k_locks s\<rparr>)"
  using assms unfolding output_step_def held_def by force

lemma prints_cprintf:
  assumes f: "prints False (\<lambda>s :: 'a const_scheme. cprintf_loop fmt as s)"
  shows "prints True (\<lambda>s :: 'a const_scheme. cprintf (Some fmt) as s)"
  unfolding prints_def
proof (intro allI impI)
  fix s :: "'a const_scheme"
  assume s: "screen_ok s \<and> (True \<longrightarrow> lock_ready ConsLock s)"
  show "\<exists>t. cprintf (Some fmt) as s = Ok () t \<and> output_step s t \<and> screen_ok t"
  proof (cases "cons_locking s = 0")
    case True
    then show ?thesis using f s by (auto simp: prints_def cprintf_def)
  next
    case False
    let ?h = "held ConsLock s"
    have "screen_ok ?h" using s by (simp add: screen_ok_def held_def)
    then obtain u where u: "cprintf_loop fmt as ?h = Ok () u" "output_step ?h u" "screen_ok u" using f unfolding prints_def by blast
    let ?t = "u\<lparr>k_cpu := k_cpu s, k_locks := k_locks s\<rparr>"
    have "release ConsLock u = Ok () ?t" using release_restores [of ConsLock s u] s output_step_fields(5,6) [OF u(2)] by simp
    then have "cprintf (Some fmt) as s = Ok () ?t" using False s u(1) acquire_ready [of ConsLock s] by (simp add: cprintf_def Let_def)
    then show ?thesis using output_step_held [OF u(2)] u(3) by (auto simp: screen_ok_def)
  qed
qed

lemma prints_formats:
  "prints True (\<lambda>s. cprintf (Some (bytes ''%d %s %s'')) [Num x, Str (Some a), Str (Some b)] s)"
  "prints True (\<lambda>s. cprintf (Some (bytes '' %p'')) [Num x] s)" "prints True (\<lambda>s. cprintf (Some (bytes ''\<newline>'')) [] s)"
  by (rule prints_cprintf, simp add: bytes_def format_items del: cprintf_loop.simps, intro prints_intros)+

lemma prints_pcs: "prints True (\<lambda>s. print_pcs pcs s)"
proof (induction pcs)
  case (Cons pc pcs)
  from prints_if [OF prints_ret prints_bind [OF prints_formats(2) Cons]] show ?case by simp
qed (simp add: prints_ret)

lemma prints_pcs_of: "prints True (\<lambda>s. print_pcs (f s) s)"
  using prints_pcs unfolding prints_def by blast

lemma prints_procdump_loop: "prints True (\<lambda>s. procdump_loop ps s)"
proof (induction ps)
  case (Cons p ps)
  have "prints True (\<lambda>s. rwhen (p_state p = SLEEPING) (\<lambda>s. print_pcs (getcallerpcs (load32 (mem s) (p_context p + CTX_EBP) + 8) (mem s)) s) s)"
    by (cases "p_state p = SLEEPING") (simp_all add: prints_ret prints_pcs_of)
  from prints_if [OF Cons prints_bind [OF prints_formats(1) prints_bind [OF this prints_bind [OF prints_formats(3) Cons]]]]
  show ?case by simp
qed (simp add: prints_ret)

lemma procdump_returns:
  assumes "screen_ok s" "lock_ready ConsLock s"
  obtains t where "procdump s = Ok () t" "output_step s t" "screen_ok t"
  using prints_procdump_loop [of "pt_proc s"] assms unfolding prints_def procdump_def by blast

section \<open>The buffer\<close>

definition in_put :: "u8 \<Rightarrow> 'a const_scheme \<Rightarrow> 'a const_scheme" where
  "in_put c s = s\<lparr>in_buf := (in_buf s)[unat (in_e s mod INPUT_BUF) := c], in_e := in_e s + 1\<rparr>"

interpretation iq: ring_buffer 128 "\<lambda>s :: 'a const_scheme. length (in_buf s) = 128" in_r in_e "\<lambda>s i. in_buf s ! i" in_put
  "\<lambda>s. s\<lparr>in_r := in_r s + 1\<rparr>"
  by unfold_locales (auto simp: in_put_def nth_list_update unat_mod)

text \<open>The bytes up to the write index can be read; behind them is the line that is being edited, which has no newline.\<close>

definition in_lines :: "'a const_scheme \<Rightarrow> u8 list" where
  "in_lines s = take (unat (in_w s - in_r s)) (iq.queue s)"

definition editing :: "'a const_scheme \<Rightarrow> u8 list" where
  "editing s = drop (unat (in_w s - in_r s)) (iq.queue s)"

definition in_ok :: "'a const_scheme \<Rightarrow> bool" where
  "in_ok s \<longleftrightarrow> iq.wf s \<and> unat (in_w s - in_r s) \<le> iq.count s \<and> 10 \<notin> set (editing s)"

lemma in_cong:
  fixes s t :: "'a const_scheme"
  assumes "in_buf t = in_buf s" "in_r t = in_r s" "in_w t = in_w s" "in_e t = in_e s"
  shows "in_ok t = in_ok s" "in_lines t = in_lines s" "editing t = editing s" "iq.queue t = iq.queue s" "iq.count t = iq.count s" "iq.wf t = iq.wf s"
proof -
  show c: "iq.count t = iq.count s" using assms by (simp add: iq.count_def)
  show q: "iq.queue t = iq.queue s" using assms c by (simp add: iq.queue_def)
  show w: "iq.wf t = iq.wf s" using assms c by (simp add: iq.wf_def)
  show e: "editing t = editing s" "in_lines t = in_lines s" using assms q by (simp_all add: editing_def in_lines_def)
  show "in_ok t = in_ok s" using assms c w e by (simp add: in_ok_def)
qed

lemma lines_length:
  assumes "in_ok s"
  shows "length (in_lines s) = unat (in_w s - in_r s)" "length (in_lines s) + length (editing s) = iq.count s" "in_e s = in_w s \<longleftrightarrow> editing s = []"
    "in_lines s @ editing s = iq.queue s"
proof -
  have le: "unat (in_w s - in_r s) \<le> iq.count s" using assms by (simp add: in_ok_def)
  show "length (in_lines s) = unat (in_w s - in_r s)" "length (in_lines s) + length (editing s) = iq.count s" "in_lines s @ editing s = iq.queue s"
    using le by (simp_all add: in_lines_def editing_def)
  have "editing s = [] \<longleftrightarrow> unat (in_e s - in_r s) = unat (in_w s - in_r s)" using le by (auto simp: editing_def iq.count_def)
  also have "\<dots> \<longleftrightarrow> in_e s - in_r s = in_w s - in_r s" by (rule word_unat_eq_iff [symmetric])
  finally show "in_e s = in_w s \<longleftrightarrow> editing s = []" by auto
qed

text \<open>Taking back the last byte.\<close>

lemma retract:
  fixes s :: "'a const_scheme"
  assumes ok: "in_ok s" and e: "editing s \<noteq> []" and t: "t = s\<lparr>in_e := in_e s - 1\<rparr>"
  shows "in_ok t" "in_lines t = in_lines s" "editing t = butlast (editing s)" "in_at (in_e s - 1) s = last (editing s)"
proof -
  note L = lines_length [OF ok]
  have c: "0 < iq.count s" using L(2) e by (cases "editing s") auto
  have ct: "iq.count t = iq.count s - 1"
  proof -
    have "in_e s - in_r s \<noteq> 0" using c by (auto simp: iq.count_def)
    then have "unat (in_e s - in_r s - 1) = unat (in_e s - in_r s) - 1" by (rule unat_minus_one)
    moreover have "in_e t - in_r t = in_e s - in_r s - 1" using t by simp
    ultimately show ?thesis by (simp add: iq.count_def)
  qed
  obtain m where m: "iq.count s = Suc m" using c by (cases "iq.count s") simp_all
  then have "[0..<iq.count s] = [0..<iq.count s - 1] @ [iq.count s - 1]" by simp
  then have q: "iq.queue s = iq.queue t @ [in_buf s ! ((unat (in_r s) + (iq.count s - 1)) mod 128)]" using ct t by (simp add: iq.queue_def)
  have k: "unat (in_w s - in_r s) \<le> iq.count t" using L(1,2) e ct by (cases "editing s") auto
  have w: "in_w t - in_r t = in_w s - in_r s" using t by simp
  show cm: "in_lines t = in_lines s" using q k w by (simp add: in_lines_def)
  have ed: "editing s = editing t @ [in_buf s ! ((unat (in_r s) + (iq.count s - 1)) mod 128)]" using q k w by (simp add: editing_def)
  then show "editing t = butlast (editing s)" by simp
  have "10 \<notin> set (editing t)" using ok ed by (auto simp: in_ok_def)
  moreover have "iq.wf t" using ok ct t by (auto simp: in_ok_def iq.wf_def)
  ultimately show "in_ok t" using k w by (simp add: in_ok_def)
  have "in_e s - 1 = in_r s + of_nat (iq.count s - 1)" using iq.wr_count [of s] c by (simp add: of_nat_diff)
  then have "unat (in_e s - 1) mod 128 = (unat (in_r s) + (iq.count s - 1)) mod 128" by (simp only: iq.index_wrap)
  then show "in_at (in_e s - 1) s = last (editing s)" using ed by (simp add: in_at_def unat_mod)
qed

section \<open>The line editor\<close>

definition edit :: "i32 \<Rightarrow> u8 list \<times> u8 list \<Rightarrow> u8 list \<times> u8 list" where
  "edit c ql =
     (let (q, l) = ql in
      if c = 16 then (q, l)
      else if c = 21 then (q, [])
      else if c = 8 \<or> c = 0x7f then (q, butlast l)
      else if c \<noteq> 0 \<and> length q + length l < 128 then
        (let c = (if c = 13 then 10 else c); l = l @ [ucast c] in
         if c = 10 \<or> c = 4 \<or> length q + length l = 128 then (q @ l, []) else (q, l))
      else (q, l))"

text \<open>What the editor needs of the rest of the state and keeps.\<close>

definition same_locks :: "'a kcore_scheme \<Rightarrow> 'a kcore_scheme \<Rightarrow> bool" where
  "same_locks s t \<longleftrightarrow> k_cpu t = k_cpu s \<and> k_locks t = k_locks s"

definition typing :: "'a const_scheme \<Rightarrow> bool" where
  "typing s \<longleftrightarrow> in_ok s \<and> screen_ok s \<and> lock_ready PtableLock s"

definition edited :: "i32 list \<Rightarrow> 'a const_scheme \<Rightarrow> 'a const_scheme \<Rightarrow> bool" where
  "edited cs s t \<longleftrightarrow> typing t \<and> same_locks s t \<and> (in_lines t, editing t) = fold edit cs (in_lines s, editing s)"

lemma echo:
  assumes "typing s" obtains t where "consputc c s = Ok () t" "typing t" "same_locks s t" "in_lines t = in_lines s" "editing t = editing s"
    "in_buf t = in_buf s" "in_r t = in_r s" "in_w t = in_w s" "in_e t = in_e s"
proof -
  have s: "in_ok s" "screen_ok s" "lock_ready PtableLock s" using assms by (simp_all add: typing_def)
  obtain t where t: "consputc c s = Ok () t" "output_step s t" "screen_ok t" by (rule consputc_ok [OF s(2)])
  note F = output_step_fields [OF t(2)]
  note C = in_cong [OF F(1-4)]
  show thesis using that [OF t(1)] t(3) s F C by (simp add: typing_def same_locks_def lock_ready_def)
qed

lemma kill_line_law:
  "typing s \<Longrightarrow> length (editing s) \<le> n \<Longrightarrow>
   \<exists>t. kill_line n s = Ok () t \<and> typing t \<and> same_locks s t \<and> in_lines t = in_lines s \<and> editing t = []"
proof (induction n arbitrary: s)
  case 0
  then have "in_e s = in_w s" using lines_length(3) [of s] by (simp add: typing_def)
  then show ?case using 0 by (subst kill_line.simps) (simp add: same_locks_def)
next
  case (Suc n)
  have ok: "in_ok s" using Suc.prems by (simp add: typing_def)
  show ?case
  proof (cases "editing s = []")
    case True
    then show ?thesis using Suc.prems lines_length(3) [OF ok] by (subst kill_line.simps) (simp add: same_locks_def)
  next
    case False
    let ?s = "s\<lparr>in_e := in_e s - 1\<rparr>"
    note R = retract [OF ok False refl]
    have ty: "typing ?s" using Suc.prems R(1) by (simp add: typing_def screen_ok_def lock_ready_def)
    obtain u where u: "consputc BACKSPACE ?s = Ok () u" "typing u" "same_locks ?s u" "in_lines u = in_lines ?s" "editing u = editing ?s" by (rule echo [OF ty])
    have "length (editing u) \<le> n" using u(5) R(3) Suc.prems(2) by simp
    then obtain t where t: "kill_line n u = Ok () t" "typing t" "same_locks u t" "in_lines t = in_lines u" "editing t = []" using Suc.IH [OF u(2)] by blast
    have "last (editing s) \<noteq> 10" using ok last_in_set [OF False] unfolding in_ok_def by metis
    then have "kill_line (Suc n) s = Ok () t" using False lines_length(3) [OF ok] R(4) u(1) t(1) by (subst kill_line.simps) simp
    then show ?thesis using t u R(2) by (simp add: same_locks_def)
  qed
qed

lemma commit_line:
  fixes s :: "'a const_scheme"
  assumes "iq.wf s" "screen_ok s" "lock_ready PtableLock s"
  obtains t where "wakeup ChanInput (s\<lparr>in_w := in_e s\<rparr>) = Ok () t" "typing t" "same_locks s t" "in_lines t = iq.queue s" "editing t = []"
proof -
  let ?s = "s\<lparr>in_w := in_e s\<rparr>"
  let ?t = "wakeup1 ChanInput ?s"
  have w: "wakeup ChanInput ?s = Ok () ?t" using assms(3) by (intro wakeup_eq) (simp add: lock_ready_def)
  have f: "in_buf ?t = in_buf s" "in_r ?t = in_r s" "in_w ?t = in_e s" "in_e ?t = in_e s" "k_cpu ?t = k_cpu s" "k_locks ?t = k_locks s" "panicked ?t = panicked s" "cursor ?t = cursor s"
    by (simp_all add: wakeup1_def)
  have c: "iq.count ?t = iq.count s" "iq.wf ?t" using assms(1) f by (simp_all add: iq.count_def iq.wf_def)
  then have q: "iq.queue ?t = iq.queue s" using f by (simp add: iq.queue_def)
  have n: "unat (in_w ?t - in_r ?t) = iq.count s" using f by (simp add: iq.count_def)
  have l: "length (iq.queue s) = iq.count s" by simp
  have "editing ?t = []" "in_lines ?t = iq.queue s" unfolding editing_def in_lines_def n q using l by simp_all
  then show thesis using that [OF w] c n f assms(2,3) by (simp add: typing_def in_ok_def screen_ok_def lock_ready_def same_locks_def)
qed

lemma type_char:
  fixes s :: "'a const_scheme"
  assumes s: "typing s" and room: "length (in_lines s) + length (editing s) < 128" and t: "t = in_put b s"
  shows "iq.wf t" "in_lines t = in_lines s" "editing t = editing s @ [b]" "screen_ok t" "lock_ready PtableLock t" "same_locks s t" "iq.queue t = iq.queue s @ [b]" "iq.count t = Suc (iq.count s)"
    "unat (in_w t - in_r t) \<le> iq.count t"
proof -
  have ok: "in_ok s" using s by (simp add: typing_def)
  note L = lines_length [OF ok]
  have wf: "iq.wf s" "iq.count s < 128" using ok L(2) room by (simp_all add: in_ok_def)
  note P = iq.push_queue [OF wf, of b] iq.count_push [OF wf, of b]
  have w: "in_w t - in_r t = in_w s - in_r s" using t by (simp add: in_put_def)
  have le: "unat (in_w s - in_r s) \<le> length (iq.queue s)" using ok by (simp add: in_ok_def)
  show "iq.wf t" "iq.queue t = iq.queue s @ [b]" "iq.count t = Suc (iq.count s)" using P t by simp_all
  show "in_lines t = in_lines s" "editing t = editing s @ [b]" unfolding in_lines_def editing_def w using P(2) t le by simp_all
  show "unat (in_w t - in_r t) \<le> iq.count t" using w le P(3) t by simp
  show "screen_ok t" "lock_ready PtableLock t" "same_locks s t" using s t by (simp_all add: typing_def screen_ok_def lock_ready_def same_locks_def in_put_def)
qed

lemma byte_newline: "c < 256 \<Longrightarrow> (ucast c :: u8) = 10 \<longleftrightarrow> c = 10" for c :: i32
proof -
  assume "c < 256"
  then have "unat (ucast c :: u8) = unat c" by (simp add: unsigned_ucast_eq take_bit_eq_mod word_less_nat_alt)
  then show ?thesis using word_unat_eq_iff [of "ucast c :: u8" 10] word_unat_eq_iff [of c 10] by simp
qed

lemma type_law:
  assumes s: "typing s" and c: "c < 256" "c \<noteq> 0" "c \<noteq> 8" "c \<noteq> 16" "c \<noteq> 21" "c \<noteq> 0x7f" and room: "length (in_lines s) + length (editing s) < 128"
  shows "\<exists>t. input_char c s = Ok () t \<and> edited [c] s t"
proof -
  let ?c = "if c = 13 then 10 else c"
  let ?s = "in_put (ucast ?c) s"
  note L = lines_length [of s] and T = type_char [OF s room refl, of "ucast ?c"]
  have ok: "in_ok s" using s by (simp add: typing_def)
  obtain u where u: "consputc ?c ?s = Ok () u" "output_step ?s u" "screen_ok u" by (rule consputc_ok [OF T(4)])
  note F = output_step_fields [OF u(2)]
  note C = in_cong [OF F(1-4)]
  have lk: "lock_ready PtableLock u" "same_locks s u" using T(5,6) F by (simp_all add: lock_ready_def same_locks_def)
  have wf: "iq.wf u" using C T by simp
  have lt: "in_e s - in_r s < INPUT_BUF" using room L(2) [OF ok] by (simp add: iq.count_def word_less_nat_alt)
  have full: "in_e u = in_r u + INPUT_BUF \<longleftrightarrow> length (in_lines s) + length (editing s @ [ucast ?c]) = 128"
    using iq.full_iff [OF wf] L(2) [OF ok] C T(8) by simp
  have e: "input_char c s = (if ?c = 10 \<or> ?c = 4 \<or> in_e u = in_r u + INPUT_BUF then wakeup ChanInput (u\<lparr>in_w := in_e u\<rparr>) else Ok () u)"
    using c lt u(1) by (simp add: input_char_def in_put_def Let_def)
  show ?thesis
  proof (cases "?c = 10 \<or> ?c = 4 \<or> in_e u = in_r u + INPUT_BUF")
    case True
    obtain t where t: "wakeup ChanInput (u\<lparr>in_w := in_e u\<rparr>) = Ok () t" "typing t" "same_locks u t" "in_lines t = iq.queue u" "editing t = []" by (rule commit_line [OF wf u(3) lk(1)])
    have "edit c (in_lines s, editing s) = (in_lines s @ editing s @ [ucast ?c], [])" using True full c room by (auto simp: edit_def Let_def)
    moreover have "iq.queue u = in_lines s @ editing s @ [ucast ?c]" using C T(7) L(4) [OF ok] by simp
    ultimately have "edited [c] s t" using t lk(2) by (simp add: edited_def same_locks_def)
    then show ?thesis using e True t(1) by auto
  next
    case False
    then have "(ucast ?c :: u8) \<noteq> 10" using byte_newline [OF c(1)] by auto
    then have "typing u" using ok C T wf u(3) lk(1) by (simp add: typing_def in_ok_def)
    moreover have "edit c (in_lines s, editing s) = (in_lines s, editing s @ [ucast ?c])" using False full c room by (auto simp: edit_def Let_def)
    ultimately have "edited [c] s u" using C T lk(2) by (simp add: edited_def)
    then show ?thesis using e False by auto
  qed
qed

lemma input_char_law:
  assumes s: "typing s" and c: "c < 256" "c \<noteq> 16" shows "\<exists>t. input_char c s = Ok () t \<and> edited [c] s t"
proof -
  have ok: "in_ok s" using s by (simp add: typing_def)
  note L = lines_length [OF ok]
  consider "c = 21" | "c = 8 \<or> c = 0x7f" "editing s = []" | "c = 8 \<or> c = 0x7f" "editing s \<noteq> []"
    | "c \<noteq> 21" "c \<noteq> 8" "c \<noteq> 0x7f" "c = 0 \<or> \<not> length (in_lines s) + length (editing s) < 128"
    | "c \<noteq> 0" "c \<noteq> 8" "c \<noteq> 21" "c \<noteq> 0x7f" "length (in_lines s) + length (editing s) < 128" by blast
  then show ?thesis
  proof cases
    case 1
    have "length (editing s) \<le> 128" using L(2) ok by (simp add: in_ok_def iq.wf_def)
    then show ?thesis using kill_line_law [OF s] 1 by (auto simp: input_char_def edited_def edit_def)
  next
    case 2
    then show ?thesis using s L(3) by (auto simp: input_char_def edited_def edit_def same_locks_def)
  next
    case 3
    let ?s = "s\<lparr>in_e := in_e s - 1\<rparr>"
    note R = retract [OF ok 3(2) refl]
    have ty: "typing ?s" using s R(1) by (simp add: typing_def screen_ok_def lock_ready_def)
    obtain u where u: "consputc BACKSPACE ?s = Ok () u" "typing u" "same_locks ?s u" "in_lines u = in_lines ?s" "editing u = editing ?s" by (rule echo [OF ty])
    have "input_char c s = Ok () u" using 3 L(3) u(1) by (auto simp: input_char_def)
    moreover have "edited [c] s u" using u R(2,3) 3(1) by (auto simp: edited_def edit_def same_locks_def)
    ultimately show ?thesis by blast
  next
    case 4
    have "in_e s - in_r s < INPUT_BUF \<longleftrightarrow> length (in_lines s) + length (editing s) < 128" using L(2) by (simp add: iq.count_def word_less_nat_alt)
    then have "input_char c s = Ok () s" using 4 by (auto simp: input_char_def)
    then show ?thesis using s 4 by (auto simp: edited_def edit_def same_locks_def)
  next
    case 5
    then show ?thesis using type_law [OF s] c by simp
  qed
qed

lemma consoleintr_loop_law:
  "typing s \<Longrightarrow> \<forall>c \<in> set cs. c < 256 \<Longrightarrow> \<exists>t. consoleintr_loop cs d s = Ok (d \<or> 16 \<in> set cs) t \<and> edited cs s t"
proof (induction cs arbitrary: d s)
  case Nil
  then show ?case by (auto simp: edited_def same_locks_def)
next
  case (Cons c cs)
  show ?case
  proof (cases "c = 16")
    case True
    then show ?thesis using Cons.IH [OF Cons.prems(1), of True] Cons.prems(2) by (auto simp: edited_def edit_def)
  next
    case False
    then obtain u where u: "input_char c s = Ok () u" "edited [c] s u" using input_char_law [OF Cons.prems(1)] Cons.prems(2) by auto
    then obtain t where t: "consoleintr_loop cs d u = Ok (d \<or> 16 \<in> set cs) t" "edited cs u t" using Cons.IH [of u d] Cons.prems(2) by (auto simp: edited_def)
    have "edited (c # cs) s t" using u(2) t(2) by (simp add: edited_def same_locks_def)
    then show ?thesis using False u(1) t(1) by auto
  qed
qed

lemma consoleintr_law:
  fixes s :: "'a const_scheme"
  assumes l: "lock_ready ConsLock s" and s: "typing s" and c: "\<forall>c \<in> set cs. c < 256"
  obtains t where "consoleintr cs s = Ok () t" "edited cs s t"
proof -
  let ?h = "held ConsLock s"
  have f: "in_buf ?h = in_buf s" "in_r ?h = in_r s" "in_w ?h = in_w s" "in_e ?h = in_e s" "panicked ?h = panicked s" "cursor ?h = cursor s" by (simp_all add: held_def)
  note C = in_cong [OF f(1-4)]
  have "typing ?h" using s C f(5,6) by (simp add: typing_def screen_ok_def)
  then obtain u where u: "consoleintr_loop cs False ?h = Ok (16 \<in> set cs) u" "edited cs ?h u" using consoleintr_loop_law [of ?h cs False] c by auto
  let ?t = "u\<lparr>k_cpu := k_cpu s, k_locks := k_locks s\<rparr>"
  have "release ConsLock u = Ok () ?t" using release_restores [OF l, of u] u(2) by (simp add: edited_def same_locks_def)
  then have r: "consoleintr cs s = rwhen (16 \<in> set cs) procdump ?t" using acquire_ready [OF l] u(1) by (simp add: consoleintr_def)
  have "in_buf ?t = in_buf u" "in_r ?t = in_r u" "in_w ?t = in_w u" "in_e ?t = in_e u" by simp_all
  note D = in_cong [OF this]
  have sc: "screen_ok ?t" using u(2) by (simp add: edited_def typing_def screen_ok_def)
  have e: "edited cs s ?t" using u(2) C D s by (simp add: edited_def typing_def screen_ok_def lock_ready_def same_locks_def)
  have "lock_ready ConsLock ?t" using l by (simp add: lock_ready_def)
  then obtain v where v: "procdump ?t = Ok () v" "output_step ?t v" "screen_ok v" by (rule procdump_returns [OF sc])
  note F = output_step_fields [OF v(2)]
  have "edited cs s v" using e v(3) F in_cong [OF F(1-4)] by (simp add: edited_def typing_def same_locks_def lock_ready_def)
  then show thesis using that e r v(1) by (cases "16 \<in> set cs") auto
qed

section \<open>Reading\<close>

text \<open>
  What a read of \<open>n\<close> bytes takes: a line or part of one.  The end-of-file character ends the read; it stays in the queue if the read has bytes already.
  \<open>has_line\<close> says that the read does not have to wait.
\<close>

fun has_line :: "nat \<Rightarrow> u8 list \<Rightarrow> bool" where
  "has_line 0 q = True"
| "has_line (Suc n) [] = False"
| "has_line (Suc n) (c # q) = (c = 4 \<or> c = 10 \<or> has_line n q)"

fun take_line :: "nat \<Rightarrow> bool \<Rightarrow> u8 list \<Rightarrow> u8 list \<times> u8 list" where
  "take_line 0 got q = ([], q)"
| "take_line (Suc n) got [] = ([], [])"
| "take_line (Suc n) got (c # q) =
     (if c = 4 then ([], if got then c # q else q)
      else if c = 10 then ([c], q)
      else let (bs, r) = take_line n True q in (c # bs, r))"

lemma pop_line:
  fixes s :: "'a const_scheme"
  assumes ok: "in_ok s" and q: "in_lines s = c # q" and t: "t = s\<lparr>in_r := in_r s + 1\<rparr>"
  shows "in_ok t" "in_lines t = q" "editing t = editing s" "in_at (in_r s) s = c" "in_r s \<noteq> in_w s"
proof -
  note L = lines_length [OF ok]
  have n: "unat (in_w s - in_r s) = Suc (length q)" using L(1) q by simp
  have wf: "iq.wf s" "0 < iq.count s" using ok L(2) q by (simp_all add: in_ok_def)
  note P = iq.pop_queue [OF wf]
  show "in_r s \<noteq> in_w s" using n by auto
  have "in_w s - in_r s \<noteq> 0" using n by auto
  then have "unat (in_w s - in_r s - 1) = length q" using unat_minus_one n by fastforce
  moreover have "in_w t - in_r t = in_w s - in_r s - 1" using t by simp
  ultimately have m: "unat (in_w t - in_r t) = length q" by simp
  have e: "(c # q) @ editing s = in_buf s ! (unat (in_r s) mod 128) # iq.queue t" using P(2) L(4) q t by simp
  then have Q: "iq.queue t = q @ editing s" "in_buf s ! (unat (in_r s) mod 128) = c" by simp_all
  then show "in_at (in_r s) s = c" by (simp add: in_at_def unat_mod)
  show ct: "in_lines t = q" and et: "editing t = editing s" using Q(1) m by (simp_all add: in_lines_def editing_def)
  have "length q \<le> iq.count t" using arg_cong [OF Q(1), of length] by simp
  then show "in_ok t" using P(1) m et ok t by (simp add: in_ok_def)
qed

lemma consoleread_law:
  "in_ok s \<Longrightarrow> has_line k (in_lines s) \<Longrightarrow> k \<le> n \<Longrightarrow> n < 2 ^ 31 \<Longrightarrow> take_line k (k < n) (in_lines s) = (bs, r) \<Longrightarrow>
   \<exists>t. consoleread_loop k (int k) (of_nat n) ip s = Ok (Some (int k - int (length bs), bs)) t \<and> in_ok t \<and> in_lines t = r \<and> editing t = editing s"
proof (induction k arbitrary: s bs)
  case (Suc k)
  obtain c q where q: "in_lines s = c # q" using Suc.prems(2) by (cases "in_lines s") auto
  let ?t = "s\<lparr>in_r := in_r s + 1\<rparr>"
  note P = pop_line [OF Suc.prems(1) q refl]
  have lt: "(word_of_int (int (Suc k)) :: u32) < of_nat n \<longleftrightarrow> Suc k < n"
  proof -
    have u: "unat (of_nat (Suc k) :: u32) = Suc k" "unat (of_nat n :: u32) = n" using Suc.prems(3,4) by (intro unat_nat; simp)+
    show ?thesis unfolding of_int_of_nat_eq word_less_nat_alt u ..
  qed
  have st: "?t\<lparr>in_r := in_r ?t - 1\<rparr> = s" by simp
  show ?case
  proof (cases "c = 4")
    case True
    then show ?thesis using Suc.prems(1,5) P q lt st by (auto simp: Let_def)
  next
    case c4: False
    show ?thesis
    proof (cases "c = 10")
      case True
      then show ?thesis using Suc.prems(5) P q by (auto simp: Let_def)
    next
      case False
      obtain b where b: "take_line k True q = (b, r)" "bs = c # b" using Suc.prems(5) q c4 False by (auto split: prod.splits)
      have h: "has_line k (in_lines ?t)" "take_line k (k < n) (in_lines ?t) = (b, r)" using Suc.prems(2,3) q c4 False P(2) b(1) by simp_all
      have kn: "k \<le> n" using Suc.prems(3) by simp
      obtain t where t: "consoleread_loop k (int k) (of_nat n) ip ?t = Ok (Some (int k - int (length b), b)) t" "in_ok t" "in_lines t = r" "editing t = editing ?t"
        using Suc.IH [OF P(1) h(1) kn Suc.prems(4) h(2)] by blast
      have i: "int (Suc k) - 1 = int k" "int (Suc k) - int (length bs) = int k - int (length b)" using b(2) by simp_all
      have "consoleread_loop (Suc k) (int (Suc k)) (of_nat n) ip s = rbind (consoleread_loop k (int k) (of_nat n) ip ?t) (\<lambda>r s. Ok (map_option (\<lambda>(n, bs). (n, c # bs)) r) s)"
        unfolding consoleread_loop.simps(2) Let_def P(4) i(1) using P(5) c4 False by (simp only: if_False)
      also have "\<dots> = Ok (Some (int (Suc k) - int (length bs), bs)) t" unfolding t(1) i(2) using b(2) by simp
      finally show ?thesis using t P(3) by simp
    qed
  qed
qed simp

end
