(* ===== verification/Console_Props.thy ===== *)
theory Console_Props
  imports Console_Laws Demo
begin

text \<open>The console as the process sees it: lines, edited while they are typed, and read in their order.\<close>

text \<open>
  C12: the interrupt handler for input is a line editor.  For any characters it returns, also when they ask for the process listing, with all locks and
  the processor's lock depth as they were, and the three indices of the input buffer, whatever their values modulo their width, delimit the finished lines
  and the line being edited as the editor \<open>edit\<close> leaves them.  A read that need not wait takes the next line, or as much of it as was asked for, from the finished ones.
\<close>

theorem console_edits_lines:
  fixes s :: "'a const_scheme"
  assumes "lock_ready ConsLock s" "lock_ready PtableLock s" "panicked s = 0" "unat (cursor s) < 24 * 80" "in_ok s" "\<forall>c \<in> set cs. c < 256"
  shows "\<exists>t. consoleintr cs s = Ok () t \<and> k_cpu t = k_cpu s \<and> k_locks t = k_locks s \<and>
    in_ok t \<and> (in_lines t, editing t) = fold edit cs (in_lines s, editing s) \<and>
    (\<forall>n < 2 ^ 31. \<forall>bs r. has_line n (in_lines t) \<and> take_line n False (in_lines t) = (bs, r) \<longrightarrow>
      (\<exists>u. consoleread_loop n (int n) (of_nat n) ip t = Ok (Some (int n - int (length bs), bs)) u \<and> in_ok u \<and> in_lines u = r \<and> editing u = editing t))"
proof -
  have ty: "typing s" using assms by (simp add: typing_def screen_ok_def)
  obtain t where t: "consoleintr cs s = Ok () t" "edited cs s t" by (rule consoleintr_law [OF assms(1) ty assms(6)])
  have ok: "in_ok t" "k_cpu t = k_cpu s" "k_locks t = k_locks s" "(in_lines t, editing t) = fold edit cs (in_lines s, editing s)"
    using t(2) by (simp_all add: edited_def typing_def same_locks_def)
  have "\<exists>u. consoleread_loop n (int n) (of_nat n) ip t = Ok (Some (int n - int (length bs), bs)) u \<and> in_ok u \<and> in_lines u = r \<and> editing u = editing t"
    if "n < 2 ^ 31" "has_line n (in_lines t)" "take_line n False (in_lines t) = (bs, r)" for n bs r
    using consoleread_law [OF ok(1) that(2) order_refl that(1)] that(3) by simp
  then show ?thesis using t(1) ok by blast
qed

text \<open>A line with a correction: a, b, backspace, the process listing, c, newline.\<close>

theorem console_edits_lines_witness:
  "\<exists>t u. consoleintr [0x61, 0x62, 8, 16, 0x63, 13] demo_sys = Ok () t \<and> in_lines t = [0x61, 0x63, 10] \<and> editing t = [] \<and>
     consoleread_loop 100 100 100 None t = Ok (Some (97, [0x61, 0x63, 10])) u"
proof -
  have c: "iq.count demo_sys = 0" by (simp add: iq.count_def)
  then have e: "in_lines demo_sys = []" "editing demo_sys = []" by (simp_all add: in_lines_def editing_def iq.queue_def)
  then have ok: "in_ok demo_sys" using c by (simp add: in_ok_def iq.wf_def)
  have f: "fold edit [0x61, 0x62, 8, 16, 0x63, 13] ([], []) = ([0x61, 0x63, 10], [])" by (simp add: edit_def)
  have n: "(100 :: nat) = Suc (Suc (Suc 97))" by simp
  have h: "has_line 100 [0x61, 0x63, 10]" "take_line 100 False [0x61, 0x63, 10] = ([0x61, 0x63, 10], [])" unfolding n has_line.simps take_line.simps by simp_all
  obtain t where t: "consoleintr [0x61, 0x62, 8, 16, 0x63, 13] demo_sys = Ok () t" "in_lines t = [0x61, 0x63, 10]" "editing t = []"
    and r: "\<forall>n < 2 ^ 31. \<forall>bs r. has_line n (in_lines t) \<and> take_line n False (in_lines t) = (bs, r) \<longrightarrow>
      (\<exists>u. consoleread_loop n (int n) (of_nat n) None t = Ok (Some (int n - int (length bs), bs)) u \<and> in_ok u \<and> in_lines u = r \<and> editing u = editing t)"
    using console_edits_lines [of demo_sys "[0x61, 0x62, 8, 16, 0x63, 13]" None] ok e f by auto
  obtain u where "consoleread_loop 100 (int 100) (of_nat 100) None t = Ok (Some (int 100 - int (length [0x61, 0x63, 10 :: u8]), [0x61, 0x63, 10])) u"
    using r [rule_format, of 100 "[0x61, 0x63, 10]" "[]"] t(2) h by auto
  then show ?thesis using t by auto
qed

end
