(* ===== verification/Spec2Isabelle.thy ===== *)
theory Spec2Isabelle
  imports Vm_Props Sched_Props Log_Props File_Props Trap Grep Sh_Run Umalloc_Laws Fs_Props Ide_Props Mkfs_Props Console_Props
begin

text \<open>
  A verification development for xv6, a small Unix-like kernel for the x86 in C, in the variant that gives each process a swap file.  It models the
  kernel from its spin locks to its system calls, the drivers of its disks, the program that builds the disk image, and the larger user programs.

  \<^bold>\<open>The program.\<close>  The kernel is built in layers.  Spin locks protect the tables of the kernel.  A page allocator hands out frames, from which page
  tables and address spaces are made.  The process table and the scheduler run on both.  The file system is a stack of its own: a disk driver, a cache of
  blocks, a redo log that makes groups of block writes atomic, the free map and the inodes, file contents, directories and path names,
  and on top of them open files, pipes and the console.  System calls come in through \<^verbatim>\<open>trap\<close>, fetch their arguments from the user's stack
  and use all of these.

  \<^bold>\<open>How code is modelled.\<close>  The state of a component is a record that extends the state of the components below it: \<open>kcore\<close> (processor and locks),
  \<open>kmem\<close> (memory and free list), \<open>vmst\<close>, \<open>procst\<close> (process table), \<open>biost\<close> (buffers and disk), \<open>logst\<close>, \<open>icst\<close> (inodes), \<open>const\<close> (console),
  \<open>filest\<close> (files and pipes), \<open>sysst\<close>; \<open>idest\<close> extends \<open>biost\<close> with the IDE driver.  A function of the source is a function on that state with
  an outcome of type \<open>res\<close> of \<open>Xv6_Prelude\<close>: \<open>Ok\<close> a result and the new state, \<open>Panic\<close> the kernel's panic with its message, \<open>Fault\<close> an
  access that C leaves undefined, \<open>Spin\<close> a wait for a lock that is taken, \<open>Swtch\<close> a context switch, \<open>Diverge\<close> a loop that does not end.  A function
  that sleeps is cut at the switch; what it does when it is resumed is a definition of its own (\<open>sleep_return\<close>, \<open>ilock_return\<close>, \<open>ide_rw_return\<close> and
  so on).  Integers are words of their width and wrap around.  Objects in tables are named by their index, and pages by their addresses.  Two protocols for
  several processors or processes are step relations whose steps are the single accesses of the code: \<open>spin_step\<close> for \<open>acquire\<close> and \<open>release\<close>,
  \<open>sw_step\<close> for \<open>sleep\<close> and \<open>wakeup\<close>.  \<open>ide_run\<close> interleaves the requests and interrupts of the IDE driver, \<open>pipe_run\<close> the calls on a pipe, cut where
  they sleep; \<open>performs\<close> relates the system calls of a command of the shell to what its processes do, with any of the calls failing.

  \<^bold>\<open>Which theory models what.\<close>
  \<^item> \<open>Xv6_Prelude\<close>: types and limits (\<^verbatim>\<open>types.h\<close>, \<^verbatim>\<open>param.h\<close>), the outcome type, shared lemmas.
  \<^item> \<open>Mmu\<close> (\<^verbatim>\<open>mmu.h\<close>, \<^verbatim>\<open>memlayout.h\<close>), \<open>Memlib\<close> and \<open>Cstring\<close> (\<^verbatim>\<open>string.c\<close>, \<^verbatim>\<open>ulib.c\<close>, the string instructions of \<^verbatim>\<open>x86.h\<close>), \<open>Bytes\<close> (C objects in a block).
  \<^item> \<open>Spinlock\<close> (\<^verbatim>\<open>spinlock.c\<close>), \<open>Kalloc\<close> (\<^verbatim>\<open>kalloc.c\<close>), \<open>Vm\<close> with \<open>Vm_Laws\<close>, \<open>Vm_User\<close> and \<open>Vm_Props\<close> (\<^verbatim>\<open>vm.c\<close>), \<open>Sched\<close> with \<open>Sched_Laws\<close> and
    \<open>Sched_Props\<close>, and \<open>Process\<close> (\<^verbatim>\<open>proc.c\<close>).
  \<^item> \<open>Bio\<close> with \<open>Chain\<close>, \<open>Bio_Laws\<close> and \<open>Block_Store\<close> (\<^verbatim>\<open>bio.c\<close>, \<^verbatim>\<open>memide.c\<close>), \<open>Log\<close> with \<open>Log_Laws\<close> and \<open>Log_Props\<close> (\<^verbatim>\<open>log.c\<close>).
  \<^item> \<open>Inode\<close> and \<open>Fs\<close> (\<^verbatim>\<open>fs.c\<close>) with \<open>Fs_Laws\<close>, \<open>Balloc\<close>, \<open>Filemap\<close>, \<open>Readwrite\<close>, \<open>Dinode\<close>, \<open>Content\<close> and \<open>Fs_Props\<close>.
  \<^item> \<open>Ports\<close>, \<open>Ide\<close>, \<open>Ide_Laws\<close>, \<open>Ide_Props\<close> (\<^verbatim>\<open>ide.c\<close>, the port instructions of \<^verbatim>\<open>x86.h\<close>).
  \<^item> \<open>Mkfs\<close>, \<open>Mkfs_Laws\<close>, \<open>Mkfs_Append\<close>, \<open>Mkfs_Props\<close> (\<^verbatim>\<open>mkfs.c\<close>).
  \<^item> \<open>Console\<close>, \<open>Console_Laws\<close>, \<open>Console_Props\<close> (\<^verbatim>\<open>console.c\<close>, \<^verbatim>\<open>kbd.c\<close>), \<open>File\<close>, \<open>Ring\<close>, \<open>File_Laws\<close>, \<open>File_Props\<close> (\<^verbatim>\<open>file.c\<close>, \<^verbatim>\<open>pipe.c\<close>).
  \<^item> \<open>Syscall\<close>, \<open>Trap\<close> (\<^verbatim>\<open>syscall.c\<close>, \<^verbatim>\<open>trap.c\<close>), \<open>Sysfile\<close> (\<^verbatim>\<open>sysfile.c\<close> and the swap files at the end of \<^verbatim>\<open>fs.c\<close>), \<open>Exec\<close> (\<^verbatim>\<open>exec.c\<close>, \<^verbatim>\<open>sysproc.c\<close>).
  \<^item> \<open>Sh\<close>, \<open>Sh_Laws\<close>, \<open>Sh_Props\<close>, \<open>Sh_Run\<close> (\<^verbatim>\<open>sh.c\<close>), \<open>Grep\<close> (\<^verbatim>\<open>grep.c\<close>), \<open>Umalloc\<close>, \<open>Umalloc_Laws\<close> (\<^verbatim>\<open>umalloc.c\<close>).
  \<^item> \<open>Demo\<close>: a concrete kernel state to apply the theorems to; further ones are beside the theorems.

  \<^bold>\<open>Interfaces.\<close>  Three contracts are locales.  \<open>page_allocator\<close> is what \<open>Vm\<close> relies on, interpreted for \<open>kalloc\<close> and \<open>kfree\<close>.  \<open>block_store\<close> is what
  the log and the file system rely on, interpreted for \<open>bread\<close>, \<open>bwrite\<close> and \<open>brelse\<close>.  \<open>ring_buffer\<close> is a queue with
  free-running 32-bit indices, interpreted for \<^verbatim>\<open>struct pipe\<close> and for the input buffer of the console.

  \<^bold>\<open>What is shown.\<close>
  \<^item> Locks: an acquire and its release cancel, and no interleaving has two processors in a critical section.  A sleeper that waits for a condition
    is not left asleep by a wakeup that establishes it.
  \<^item> Memory: \<open>freerange\<close> and \<open>kfree\<close> build the free list.  \<open>mappages\<close>, \<open>allocuvm\<close>, \<open>deallocuvm\<close> and \<open>copyout\<close> change the mapping where they should and
    nowhere else, on their error paths too.
  \<^item> Processes: what \<open>allocproc\<close>, the scheduler, \<open>sleep\<close>, \<open>kill\<close> and \<open>growproc\<close> do to the table.
  \<^item> Disk: the pointers of the cache are a list in order of use; a block written is read back; recovery after a stop at any point of a commit gives the
    blocks before or after the transaction.  The IDE driver serves requests in their order.
  \<^item> Files: \<open>balloc\<close> takes the first free block; \<open>iupdate\<close> and \<open>ilock\<close> are inverse; \<open>readi\<close> and \<open>writei\<close> implement reading, overwriting and
    extending a sequence of bytes and leave other files alone; the image of \<open>mkfs\<close> is a file system in the same sense.
  \<^item> Streams: pipes are first-in first-out, through calls that sleep, are resumed or fail; console input is a line editor with a queue of lines, and its handler
    returns with all locks as they were.
  \<^item> Programs: the shell's parser returns on every line and reads back every command that is written out; a pipeline joins two programs, and no process keeps another
    copy of an end of the pipe; \<open>grep\<close> decides its patterns and prints the lines that match, however the input is divided into pieces that complete a line; \<open>malloc\<close> and \<open>free\<close> keep a ring of disjoint blocks.
  \<^item> Faults of the code that the model shows are theorems as well, for instance \<open>allocuvm_reports_unmapped_page\<close>, \<open>log_reservation_exceeds_log\<close>,
    \<open>ide_read_error_is_lost\<close> and \<open>malloc_size_wraps\<close>.

  \<^bold>\<open>Bounds.\<close>  Loops over a list or a count recurse on it.  The other loops have fuel, chosen so that it does not run out.  The search in the buffer list
  follows at most as many links as there are buffers, and so does the search for the end of the IDE queue.  The loops over pages
  have the number of pages of an address space, \<open>balloc\<close> one more than the number of map blocks, the loops over a directory one more than its number of whole
  entries, \<open>filewrite\<close> the number of bytes, \<open>kill_line\<close> the size of the input buffer, and the shell's parser the length of the line.  Where one of these
  functions is the subject of a theorem, the theorem concludes that it returns.  The loops of \<open>grep\<close> and \<open>malloc\<close> take their fuel as an
  argument; the theorem on \<open>grep\<close> says that some amount is enough, those on \<open>malloc\<close> how much is.

  \<^bold>\<open>Parameters.\<close>  The bytes that ports and the keyboard deliver, the characters of \<open>getc\<close>, the files given to \<open>mkfs\<close>, and the system calls \<^verbatim>\<open>read\<close> and
  \<^verbatim>\<open>sbrk\<close> of the user programs are arguments of the definitions that use them.  The block layer is modelled on \<^verbatim>\<open>memide.c\<close>, which has the interface of
  \<^verbatim>\<open>ide.c\<close> and completes a request before it returns; the driver \<^verbatim>\<open>ide.c\<close>, which the default build links, is modelled beside it.

  \<^bold>\<open>Not modelled.\<close>
  \<^item> The boot sector, the assembly files and the order of initialisation in \<^verbatim>\<open>main.c\<close>: the effect of \<^verbatim>\<open>swtch.S\<close> is the outcome \<open>Swtch\<close>, and the others
    establish the machine state in which the model starts.
  \<^item> The interrupt controllers, the clock and the tables of the firmware (\<^verbatim>\<open>lapic.c\<close>, \<^verbatim>\<open>ioapic.c\<close>, \<^verbatim>\<open>picirq.c\<close>, \<^verbatim>\<open>timer.c\<close>, \<^verbatim>\<open>mp.c\<close>), the segment and
    interrupt descriptors, and the set-up of the serial port: they program devices whose behaviour is not in the sources.
  \<^item> The programs that are a few system calls (\<^verbatim>\<open>cat.c\<close>, \<^verbatim>\<open>echo.c\<close>, \<^verbatim>\<open>init.c\<close>, \<^verbatim>\<open>kill.c\<close>, \<^verbatim>\<open>ln.c\<close>, \<^verbatim>\<open>ls.c\<close>, \<^verbatim>\<open>mkdir.c\<close>, \<^verbatim>\<open>rm.c\<close>, \<^verbatim>\<open>wc.c\<close>, \<^verbatim>\<open>zombie.c\<close>), the
    user's \<^verbatim>\<open>printf.c\<close>, and the tests \<^verbatim>\<open>usertests.c\<close>, \<^verbatim>\<open>forktest.c\<close> and \<^verbatim>\<open>stressfs.c\<close>.
  \<^item> The record of the call stack in a lock, which only debugging output reads.
\<close>

end
